(* ===== verification/Prelude.thy ===== *)
theory Prelude
  imports Main "HOL-Library.Word"
begin

text \<open>
  Shared vocabulary of the development: machine integers and their bytes in memory, the C++
  standard-library operations the components use (byte order, decimal and hexadecimal printing,
  \<open>isspace\<close>, \<open>string::find\<close>, \<open>std::map\<close>), the generic lemmas on lists and options they
  share, and the fact collections \<open>inv_intros\<close> (an operation keeps an invariant), \<open>mem_safe\<close>
  (a read stays inside its buffer) and \<open>eval_defs\<close> (definitions unfolded when a model is run on
  a closed input). The target is little-endian (ESP32 family), so an integer's bytes in memory
  are least significant first.
\<close>

unbundle bit_operations_syntax

named_theorems inv_intros \<open>operations preserve their component's invariant\<close>
named_theorems mem_safe \<open>reads stay inside their buffer\<close>
named_theorems eval_defs \<open>definitions unfolded to run a model on a closed input\<close>

type_synonym byte = "8 word"
type_synonym u16 = "16 word"
type_synonym u32 = "32 word"
type_synonym u64 = "64 word"
type_synonym mac = "byte list"

section \<open>Bytes of a word in memory\<close>

definition le32 :: "byte \<Rightarrow> byte \<Rightarrow> byte \<Rightarrow> byte \<Rightarrow> u32" where
  "le32 a b c d = ucast a OR push_bit 8 (ucast b) OR push_bit 16 (ucast c) OR push_bit 24 (ucast d)"

definition mem32 :: "u32 \<Rightarrow> byte list" where
  "mem32 w = [ucast w, ucast (drop_bit 8 w), ucast (drop_bit 16 w), ucast (drop_bit 24 w)]"

definition be16 :: "byte \<Rightarrow> byte \<Rightarrow> u16" where
  "be16 hi lo = push_bit 8 (ucast hi) OR ucast lo"

lemma byte_of_le32 [simp]:
  "ucast (le32 a b c d) = a"
  "ucast (drop_bit 8 (le32 a b c d)) = b"
  "ucast (drop_bit 16 (le32 a b c d)) = c"
  "ucast (drop_bit 24 (le32 a b c d)) = d"
  unfolding le32_def by (rule bit_word_eqI; auto simp: bit_simps dest: bit_imp_le_length)+

lemma le32_of_bytes [simp]:
  "le32 (ucast w) (ucast (drop_bit 8 w)) (ucast (drop_bit 16 w)) (ucast (drop_bit 24 w)) = w"
proof (rule bit_word_eqI)
  fix n
  assume "n < LENGTH(32)"
  then consider "n < 8" | "8 \<le> n" "n < 16" | "16 \<le> n" "n < 24" | "24 \<le> n" "n < 32"
    by fastforce
  then show "bit (le32 (ucast w) (ucast (drop_bit 8 w)) (ucast (drop_bit 16 w))
      (ucast (drop_bit 24 w))) n = bit w n"
    unfolding le32_def by cases (auto simp: bit_simps)
qed

lemma length_mem32 [simp]: "length (mem32 w) = 4"
  by (simp add: mem32_def)

lemma mem32_le32 [simp]: "mem32 (le32 a b c d) = [a, b, c, d]"
  by (simp add: mem32_def)

lemma mem32_inject [simp]: "mem32 v = mem32 w \<longleftrightarrow> v = w"
proof
  assume "mem32 v = mem32 w"
  then have "le32 (ucast v) (ucast (drop_bit 8 v)) (ucast (drop_bit 16 v)) (ucast (drop_bit 24 v))
      = le32 (ucast w) (ucast (drop_bit 8 w)) (ucast (drop_bit 16 w)) (ucast (drop_bit 24 w))"
    by (simp add: mem32_def)
  then show "v = w" by simp
qed simp

text \<open>\<open>ntohl\<close> and \<open>htonl\<close> of a little-endian machine: the four bytes swapped.\<close>

definition ntohl :: "u32 \<Rightarrow> u32" where
  "ntohl w = le32 (ucast (drop_bit 24 w)) (ucast (drop_bit 16 w)) (ucast (drop_bit 8 w)) (ucast w)"

abbreviation htonl :: "u32 \<Rightarrow> u32" where
  "htonl \<equiv> ntohl"

lemma ntohl_ntohl [simp]: "ntohl (ntohl w) = w"
  by (simp add: ntohl_def)

lemma ntohl_inject [simp]: "ntohl v = ntohl w \<longleftrightarrow> v = w"
  by (metis ntohl_ntohl)

lemma be16_bytes [simp]:
  "ucast (drop_bit 8 (be16 a b)) = a"
  "ucast (be16 a b) = b"
  unfolding be16_def by (rule bit_word_eqI; auto simp: bit_simps dest: bit_imp_le_length)+

lemma be16_of_bytes [simp]: "be16 (ucast (drop_bit 8 w)) (ucast w) = w"
proof (rule bit_word_eqI)
  fix n
  assume "n < LENGTH(16)"
  then consider "n < 8" | "8 \<le> n" "n < 16"
    by fastforce
  then show "bit (be16 (ucast (drop_bit 8 w)) (ucast w)) n = bit w n"
    unfolding be16_def by cases (auto simp: bit_simps)
qed

lemma unat_byte_less [simp]: "unat (b :: byte) < 256"
  using unsigned_less [of b] by simp

lemma unat_byte_le [simp]: "unat (b :: byte) \<le> 255"
  using unat_byte_less [of b] by linarith

text \<open>The value of a word from its bytes, and counting in the least significant one.\<close>

lemma or_nat_shift: "x < 2 ^ n \<Longrightarrow> x OR push_bit n y = x + push_bit n (y::nat)"
  by (rule disjunctive_add_eq_or [symmetric], rule bit_eqI, auto simp: bit_simps)
    (metis bit_nat_iff bit_take_bit_iff not_le take_bit_nat_eq_self)

lemma unat_le32: "unat (le32 a b c d) = unat a + 256 * unat b + 65536 * unat c + 16777216 * unat d"
proof -
  have r: "le32 a b c d = ucast a OR push_bit 8 (ucast b OR push_bit 8 (ucast c OR push_bit 8 (ucast d)))"
    unfolding le32_def by (simp add: push_bit_or)
  have step: "unat (ucast x OR push_bit 8 y :: u32) = unat x + 256 * unat y"
    if "unat y < 16777216" for x :: byte and y :: u32
  proof -
    have "unat (ucast x OR push_bit 8 y :: u32) = unat x OR push_bit 8 (unat y)"
      using that less_trans [OF unat_byte_less [of x], of "2 ^ 32"]
      by (simp add: unsigned_or_eq unsigned_push_bit_eq unsigned_ucast_eq take_bit_nat_eq_self push_bit_nat_def)
    also have "\<dots> = unat x + push_bit 8 (unat y)"
      by (rule or_nat_shift) simp
    finally show ?thesis by (simp add: push_bit_nat_def)
  qed
  have u: "unat (ucast x :: u32) = unat x" for x :: byte
    using less_trans [OF unat_byte_less [of x], of "2 ^ 32"]
    by (simp add: unsigned_ucast_eq take_bit_nat_eq_self)
  note bounds = unat_byte_le [of b] unat_byte_le [of c] unat_byte_le [of d]
  have s1: "unat (ucast c OR push_bit 8 (ucast d) :: u32) = unat c + 256 * unat d"
    using bounds by (subst step; unfold u) linarith+
  have s2: "unat (ucast b OR push_bit 8 (ucast c OR push_bit 8 (ucast d)) :: u32)
      = unat b + 256 * (unat c + 256 * unat d)"
    using bounds by (subst step; unfold s1) linarith+
  have "unat c + 256 * unat d \<le> 65535"
    using bounds(2) mult_le_mono2 [OF bounds(3), of 256] by linarith
  from mult_le_mono2 [OF this, of 256] have "unat b + 256 * (unat c + 256 * unat d) < 16777216"
    using bounds(1) by linarith
  then show ?thesis
    unfolding r by (subst step; unfold s2) simp_all
qed

lemma ntohl_le32 [simp]: "ntohl (le32 a b c d) = le32 d c b a"
  by (simp add: ntohl_def)

lemma ntohl_minus_1 [simp]: "ntohl (- 1) = - 1"
  by (rule bit_word_eqI) (auto simp: ntohl_def le32_def bit_simps)

lemma le32_exhaust: obtains a b c d where "w = le32 a b c d"
  by (metis le32_of_bytes)

lemma le32_le_iff [simp]: "le32 a b c d \<le> le32 a b c d' \<longleftrightarrow> d \<le> d'"
  by (simp add: word_le_nat_alt unat_le32)

lemma le32_eq_iff [simp]: "le32 a b c d = le32 a' b' c' d' \<longleftrightarrow> a = a' \<and> b = b' \<and> c = c' \<and> d = d'"
  by (metis byte_of_le32)

lemma unat_minus_1: "unat (- 1 :: 'a::len word) = 2 ^ LENGTH('a) - 1"
  by (simp add: unsigned_minus_1_eq_mask mask_eq_exp_minus_1)

lemma unat_word_add1: "w \<noteq> -1 \<Longrightarrow> unat (w + 1) = Suc (unat w)"
  by (metis add.commute add_eq_0_iff unatSuc)

lemma le32_add_1: "a \<noteq> -1 \<Longrightarrow> le32 a b c d + 1 = le32 (a + 1) b c d"
proof -
  assume a: "a \<noteq> -1"
  have "le32 a b c d \<noteq> -1"
  proof
    assume "le32 a b c d = -1"
    then have "a = ucast (- 1 :: u32)" using byte_of_le32(1) [of a b c d] by simp
    also have "\<dots> = -1" by (rule bit_word_eqI) (simp add: bit_simps)
    finally show False using a by simp
  qed
  then have "unat (le32 a b c d + 1) = unat (le32 (a + 1) b c d)"
    using a by (simp add: unat_word_add1 unat_le32)
  then show ?thesis by (simp add: word_unat_eq_iff)
qed

section \<open>Buffers\<close>

text \<open>
  A read of a C array. \<open>None\<close> is a read outside the array, which C++ leaves undefined, so a
  theorem that a function never returns \<open>None\<close> is a memory-safety theorem.
\<close>

definition rd :: "'a list \<Rightarrow> nat \<Rightarrow> 'a option" where
  "rd buf i = (if i < length buf then Some (buf ! i) else None)"

definition rd32 :: "byte list \<Rightarrow> nat \<Rightarrow> u32 option" where
  "rd32 buf i = (if i + 3 < length buf
     then Some (le32 (buf ! i) (buf ! (i + 1)) (buf ! (i + 2)) (buf ! (i + 3))) else None)"

text \<open>A copy of \<open>n\<close> bytes from \<open>buf + i\<close>.\<close>

definition rds :: "'a list \<Rightarrow> nat \<Rightarrow> nat \<Rightarrow> 'a list option" where
  "rds buf i n = (if i + n \<le> length buf then Some (take n (drop i buf)) else None)"

lemma rds_Some [simp]: "i + n \<le> length buf \<Longrightarrow> rds buf i n = Some (take n (drop i buf))"
  by (simp add: rds_def)

lemma rds_SomeD: "rds buf i n = Some bs \<Longrightarrow> bs = take n (drop i buf) \<and> i + n \<le> length buf"
  by (simp add: rds_def split: if_splits)

lemma rd_Some [simp]: "i < length buf \<Longrightarrow> rd buf i = Some (buf ! i)"
  by (simp add: rd_def)

lemma rd_eq_None_iff: "rd buf i = None \<longleftrightarrow> length buf \<le> i"
  by (auto simp: rd_def)

lemma rd32_Some [simp]: "i + 3 < length buf \<Longrightarrow>
    rd32 buf i = Some (le32 (buf ! i) (buf ! (i + 1)) (buf ! (i + 2)) (buf ! (i + 3)))"
  by (simp add: rd32_def)

section \<open>First match in an array\<close>

text \<open>
  \<open>for (i = 0; i < n; ++i) if (P(a[i])) { \<dots>; return; }\<close>: the index the loop stops at.
\<close>

primrec first_idx :: "('a \<Rightarrow> bool) \<Rightarrow> 'a list \<Rightarrow> nat option" where
  "first_idx P [] = None"
| "first_idx P (x # xs) = (if P x then Some 0 else map_option Suc (first_idx P xs))"

lemma first_idx_None_iff: "first_idx P xs = None \<longleftrightarrow> (\<forall>x \<in> set xs. \<not> P x)"
  by (induction xs) auto

lemma first_idx_Some_iff:
  "first_idx P xs = Some i \<longleftrightarrow> i < length xs \<and> P (xs ! i) \<and> (\<forall>j < i. \<not> P (xs ! j))"
proof (induction xs arbitrary: i)
  case Nil
  then show ?case by simp
next
  case (Cons x xs)
  show ?case
  proof (cases i)
    case 0
    then show ?thesis by (auto simp: Cons.IH)
  next
    case (Suc k)
    then show ?thesis by (auto simp: Cons.IH nth_Cons split: nat.splits)
  qed
qed

lemma first_idx_SomeD:
  "first_idx P xs = Some i \<Longrightarrow> i < length xs"
  "first_idx P xs = Some i \<Longrightarrow> P (xs ! i)"
  "first_idx P xs = Some i \<Longrightarrow> \<exists>x \<in> set xs. P x"
  by (auto simp: first_idx_Some_iff)

section \<open>Text\<close>

abbreviation char_code :: "char \<Rightarrow> nat" where
  "char_code c \<equiv> of_char c"

definition byte_char :: "byte \<Rightarrow> char" where
  "byte_char b = char_of (unat b)"

definition char_byte :: "char \<Rightarrow> byte" where
  "char_byte c = of_nat (of_char c)"

lemma char_byte_char [simp]: "char_byte (byte_char b) = b"
  by (simp add: char_byte_def byte_char_def)

lemma byte_char_byte [simp]: "byte_char (char_byte c) = c"
  by (simp add: char_byte_def byte_char_def unat_of_nat)

lemma char_code_byte_char [simp]: "char_code (byte_char b) = unat b"
  by (simp add: byte_char_def)

text \<open>\<open>isspace\<close> of the C locale: space, \<open>\t\<close>, \<open>\n\<close>, \<open>\v\<close>, \<open>\f\<close>, \<open>\r\<close>.\<close>

definition isspace :: "char \<Rightarrow> bool" where
  "isspace c \<longleftrightarrow> (let n = char_code c in n = 32 \<or> (9 \<le> n \<and> n \<le> 13))"

definition drop_while_end :: "('a \<Rightarrow> bool) \<Rightarrow> 'a list \<Rightarrow> 'a list" where
  "drop_while_end P xs = rev (dropWhile P (rev xs))"

definition trim :: "string \<Rightarrow> string" where
  "trim s = drop_while_end isspace (dropWhile isspace s)"

lemma set_drop_while_end: "set (drop_while_end P xs) \<subseteq> set xs"
  unfolding drop_while_end_def by (auto dest: set_dropWhileD)

lemma drop_while_end_length [simp]: "length (drop_while_end P xs) \<le> length xs"
  unfolding drop_while_end_def by (simp add: length_dropWhile_le le_trans [OF length_dropWhile_le])

lemma drop_while_end_id: "xs = [] \<or> \<not> P (last xs) \<Longrightarrow> drop_while_end P xs = xs"
  unfolding drop_while_end_def by (cases xs rule: rev_cases) auto

lemma drop_while_end_last: "drop_while_end P xs \<noteq> [] \<Longrightarrow> \<not> P (last (drop_while_end P xs))"
  unfolding drop_while_end_def by (metis hd_dropWhile last_rev rev_is_Nil_conv rev_rev_ident)

lemma drop_while_end_eq_prefix: "\<exists>n. drop_while_end P xs = take n xs"
proof -
  have "rev (dropWhile P (rev xs)) = take (length xs - length (takeWhile P (rev xs))) xs"
    by (simp add: dropWhile_eq_drop rev_drop)
  then show ?thesis unfolding drop_while_end_def by blast
qed

lemma trim_length [simp]: "length (trim s) \<le> length s"
  unfolding trim_def by (rule le_trans [OF drop_while_end_length length_dropWhile_le])

lemma set_trim: "set (trim s) \<subseteq> set s"
  unfolding trim_def using set_drop_while_end set_dropWhileD by fast

lemma trim_id: "s = [] \<or> (\<not> isspace (hd s) \<and> \<not> isspace (last s)) \<Longrightarrow> trim s = s"
  unfolding trim_def by (cases s) (auto simp: drop_while_end_id)

lemma trim_edges:
  assumes "trim s \<noteq> []"
  shows "\<not> isspace (hd (trim s))" and "\<not> isspace (last (trim s))"
proof -
  let ?d = "dropWhile isspace s"
  obtain n where n: "trim s = take n ?d"
    unfolding trim_def using drop_while_end_eq_prefix by blast
  then have "hd (trim s) = hd ?d" and "?d \<noteq> []"
    using assms by (auto simp: hd_take)
  then show "\<not> isspace (hd (trim s))"
    by (simp add: hd_dropWhile)
  show "\<not> isspace (last (trim s))"
    using assms unfolding trim_def by (rule drop_while_end_last)
qed

lemma trim_trim [simp]: "trim (trim s) = trim s"
  by (rule trim_id) (use trim_edges in blast)

text \<open>\<open>string::find\<close> of a character splits the text in two around the first match.\<close>

fun split_at :: "char \<Rightarrow> string \<Rightarrow> (string \<times> string) option" where
  "split_at c [] = None"
| "split_at c (x # xs) =
     (if x = c then Some ([], xs) else map_option (\<lambda>(a, b). (x # a, b)) (split_at c xs))"

lemma split_at_None_iff: "split_at c s = None \<longleftrightarrow> c \<notin> set s"
  by (induction s) auto

lemma split_at_append [simp]: "c \<notin> set a \<Longrightarrow> split_at c (a @ c # b) = Some (a, b)"
  by (induction a) auto

lemma split_at_SomeD: "split_at c s = Some (a, b) \<Longrightarrow> s = a @ c # b \<and> c \<notin> set a"
  by (induction s arbitrary: a b) (auto split: if_splits)

lemma split_at_length: "split_at c s = Some (a, b) \<Longrightarrow> length b < length s \<and> length a < length s"
  by (drule split_at_SomeD) simp

text \<open>\<open>ip.find(':') != npos\<close>: an IPv6 text.\<close>

definition has_colon :: "string \<Rightarrow> bool" where
  "has_colon ip \<longleftrightarrow> CHR '':'' \<in> set ip"

text \<open>\<open>printf\<close>'s \<open>%u\<close> and \<open>%02x\<close>.\<close>

definition digit_char :: "nat \<Rightarrow> char" where
  "digit_char d = char_of (if d < 10 then 48 + d else 87 + d)"

fun dec_str :: "nat \<Rightarrow> string" where
  "dec_str n = (if n < 10 then [digit_char n] else dec_str (n div 10) @ [digit_char (n mod 10)])"

declare dec_str.simps [simp del]

definition hex2 :: "byte \<Rightarrow> string" where
  "hex2 b = [digit_char (unat b div 16), digit_char (unat b mod 16)]"

lemma dec_str_not_Nil [simp]: "dec_str n \<noteq> []"
  by (subst dec_str.simps) simp

lemma length_dec_str_byte: "n < 256 \<Longrightarrow> length (dec_str n) \<le> 3"
proof -
  assume "n < 256"
  then have "n div 10 div 10 < 10" by linarith
  then have "length (dec_str (n div 10 div 10)) = 1" by (simp add: dec_str.simps)
  then have "length (dec_str (n div 10)) \<le> 2" by (subst dec_str.simps) simp
  then show ?thesis by (subst dec_str.simps) simp
qed

lemma char_code_digit_char: "d < 16 \<Longrightarrow> char_code (digit_char d) = (if d < 10 then 48 + d else 87 + d)"
  by (simp add: digit_char_def)

section \<open>Machines and their invariants\<close>

text \<open>The contract of a component that only moves by steps: what holds at the start and is kept stays true.\<close>

locale safe_machine =
  fixes init :: "'s \<Rightarrow> bool"
    and step :: "'s \<Rightarrow> 's \<Rightarrow> bool"
    and inv :: "'s \<Rightarrow> bool"
  assumes inv_init: "init s \<Longrightarrow> inv s"
    and inv_step: "inv s \<Longrightarrow> step s s' \<Longrightarrow> inv s'"
begin

lemma inv_steps: "step\<^sup>*\<^sup>* s s' \<Longrightarrow> inv s \<Longrightarrow> inv s'"
  by (induction rule: rtranclp_induct) (auto intro: inv_step)

lemma inv_reachable: "init s \<Longrightarrow> step\<^sup>*\<^sup>* s s' \<Longrightarrow> inv s'"
  using inv_steps inv_init by blast

end

end
