(* ===== verification/Declined.thy ===== *)
theory Declined
  imports Prelude
begin

text \<open>
  \<open>src/src/dhcp/DeclinedAddresses.h\<close>: the fixed array of addresses clients refused with
  DHCPDECLINE. \<open>declined\<close> is the array \<open>entries_\<close>; \<open>declined_add\<close>, \<open>isDeclined\<close>, \<open>declined_expire\<close>, \<open>declined_count\<close>
  and \<open>declined_clear\<close> are the methods. Times are the 64-bit millisecond clock with its wrap-around.
  The invariant says the array keeps its size and holds an address at most once. The locale
  \<open>hold_down\<close> is the contract the DHCP server relies on; the table is interpreted in it.
\<close>

section \<open>The table\<close>

record decl_entry =
  d_ip :: u32
  d_sinceMs :: u64
  d_used :: bool

type_synonym declined = "decl_entry list"

definition kDeclineHoldMs :: u64 where
  "kDeclineHoldMs = 60 * 60 * 1000"

definition kCapacity :: nat where
  "kCapacity = 32"

definition declined_init :: declined where
  "declined_init = replicate kCapacity \<lparr>d_ip = 0, d_sinceMs = 0, d_used = False\<rparr>"

definition declined_expire :: "declined \<Rightarrow> u64 \<Rightarrow> declined" where
  "declined_expire es nowMs = map (\<lambda>e. if d_used e \<and> nowMs - d_sinceMs e \<ge> kDeclineHoldMs
     then e\<lparr>d_used := False\<rparr> else e) es"

definition isDeclined :: "declined \<Rightarrow> u32 \<Rightarrow> u64 \<Rightarrow> bool" where
  "isDeclined es ip nowMs =
     (case first_idx (\<lambda>e. d_used e \<and> d_ip e = ip) es of
        None \<Rightarrow> False
      | Some i \<Rightarrow> nowMs - d_sinceMs (es ! i) < kDeclineHoldMs)"

definition declined_count :: "declined \<Rightarrow> u64 \<Rightarrow> nat" where
  "declined_count es nowMs = length (filter (\<lambda>e. d_used e \<and> nowMs - d_sinceMs e < kDeclineHoldMs) es)"

definition declined_clear :: "declined \<Rightarrow> declined" where
  "declined_clear es = map (\<lambda>e. e\<lparr>d_used := False\<rparr>) es"

text \<open>The scan for the oldest entry: index \<open>i\<close> runs from 1, \<open>oldest\<close> is the best so far.\<close>

function oldest_scan :: "declined \<Rightarrow> nat \<Rightarrow> nat \<Rightarrow> nat" where
  "oldest_scan es i oldest =
     (if i < length es
      then oldest_scan es (Suc i)
             (if d_sinceMs (es ! i) < d_sinceMs (es ! oldest) then i else oldest)
      else oldest)"
  by pat_completeness auto
termination
  by (relation "measure (\<lambda>(es, i, oldest). length es - i)") auto

declare oldest_scan.simps [simp del]

definition declined_add :: "declined \<Rightarrow> u32 \<Rightarrow> u64 \<Rightarrow> bool \<times> declined" where
  "declined_add es0 ip nowMs =
     (let es = declined_expire es0 nowMs in
      case first_idx (\<lambda>e. d_used e \<and> d_ip e = ip) es of
        Some i \<Rightarrow> (True, es[i := (es ! i)\<lparr>d_sinceMs := nowMs\<rparr>])
      | None \<Rightarrow>
         (case first_idx (\<lambda>e. \<not> d_used e) es of
            Some i \<Rightarrow> (True, es[i := \<lparr>d_ip = ip, d_sinceMs = nowMs, d_used = True\<rparr>])
          | None \<Rightarrow>
             (let oldest = oldest_scan es 1 0
              in (False, es[oldest := \<lparr>d_ip = ip, d_sinceMs = nowMs, d_used = True\<rparr>]))))"

section \<open>Invariant\<close>

definition uniq_ips :: "declined \<Rightarrow> bool" where
  "uniq_ips es \<longleftrightarrow> (\<forall>i < length es. \<forall>j < length es.
     d_used (es ! i) \<and> d_used (es ! j) \<and> d_ip (es ! i) = d_ip (es ! j) \<longrightarrow> i = j)"

definition declined_inv :: "declined \<Rightarrow> bool" where
  "declined_inv es \<longleftrightarrow> length es = kCapacity \<and> uniq_ips es"

lemma length_declined_expire [simp]: "length (declined_expire es t) = length es"
  by (simp add: declined_expire_def)

lemma nth_expire: "i < length es \<Longrightarrow> declined_expire es t ! i =
    (if d_used (es ! i) \<and> t - d_sinceMs (es ! i) \<ge> kDeclineHoldMs
     then (es ! i)\<lparr>d_used := False\<rparr> else es ! i)"
  by (simp add: declined_expire_def)

lemma uniq_ips_expire [inv_intros]: "uniq_ips es \<Longrightarrow> uniq_ips (declined_expire es t)"
  unfolding uniq_ips_def by (auto simp: nth_expire split: if_splits)

lemma uniq_ips_clear [inv_intros]: "uniq_ips (declined_clear es)"
  by (simp add: uniq_ips_def declined_clear_def)

lemma uniq_ips_refresh [inv_intros]:
  assumes "uniq_ips es"
  shows "uniq_ips (es[i := (es ! i)\<lparr>d_sinceMs := t\<rparr>])"
proof -
  let ?es = "es[i := (es ! i)\<lparr>d_sinceMs := t\<rparr>]"
  have "d_used (?es ! k) = d_used (es ! k)" "d_ip (?es ! k) = d_ip (es ! k)" if "k < length es" for k
    using that by (cases "k = i"; simp)+
  with assms show ?thesis unfolding uniq_ips_def by simp
qed

lemma uniq_ips_insert [inv_intros]:
  "uniq_ips es \<Longrightarrow> \<forall>e \<in> set es. \<not> (d_used e \<and> d_ip e = ip) \<Longrightarrow>
   uniq_ips (es[i := \<lparr>d_ip = ip, d_sinceMs = t, d_used = True\<rparr>])"
  unfolding uniq_ips_def
  by (cases "i < length es") (auto simp: nth_list_update list_update_beyond dest: nth_mem split: if_splits)

lemma oldest_scan_bound: "oldest < length es \<Longrightarrow> oldest_scan es i oldest < length es"
  by (induction es i oldest rule: oldest_scan.induct) (subst oldest_scan.simps, simp)

lemma oldest_scan_le:
  "oldest < length es \<Longrightarrow> j = oldest \<or> (i \<le> j \<and> j < length es) \<Longrightarrow>
   d_sinceMs (es ! oldest_scan es i oldest) \<le> d_sinceMs (es ! j)"
proof (induction es i oldest arbitrary: j rule: oldest_scan.induct)
  case (1 es i oldest)
  let ?o = "if d_sinceMs (es ! i) < d_sinceMs (es ! oldest) then i else oldest"
  show ?case
  proof (cases "i < length es")
    case True
    have IH: "d_sinceMs (es ! oldest_scan es (Suc i) ?o) \<le> d_sinceMs (es ! k)"
      if "k = ?o \<or> (Suc i \<le> k \<and> k < length es)" for k
      using "1.IH" [OF True _ that] "1.prems"(1) True by auto
    have "d_sinceMs (es ! oldest_scan es (Suc i) ?o) \<le> d_sinceMs (es ! j)"
    proof (cases "Suc i \<le> j \<and> j < length es")
      case False
      then have "j = i \<or> j = oldest"
        using "1.prems"(2) by auto
      then have "d_sinceMs (es ! ?o) \<le> d_sinceMs (es ! j)" by auto
      then show ?thesis using IH [of ?o] by simp
    qed (use IH in blast)
    with True show ?thesis by (simp add: oldest_scan.simps [of es i])
  next
    case False
    with "1.prems" show ?thesis by (auto simp: oldest_scan.simps [of es i])
  qed
qed

lemma length_declined_add [simp]: "length (snd (declined_add es ip t)) = length es"
  by (simp add: declined_add_def Let_def split: option.splits)

lemma uniq_ips_add [inv_intros]:
  assumes "uniq_ips es"
  shows "uniq_ips (snd (declined_add es ip t))"
proof -
  let ?es = "declined_expire es t"
  have "uniq_ips ?es" using assms by (rule uniq_ips_expire)
  then show ?thesis
    by (auto simp: declined_add_def Let_def first_idx_None_iff split: option.splits
        intro!: inv_intros dest: first_idx_SomeD)
qed

lemma declined_inv_init [inv_intros]: "declined_inv declined_init"
  by (simp add: declined_inv_def declined_init_def uniq_ips_def)

lemma declined_inv_add [inv_intros]: "declined_inv es \<Longrightarrow> declined_inv (snd (declined_add es ip t))"
  by (simp add: declined_inv_def uniq_ips_add)

lemma declined_inv_expire [inv_intros]: "declined_inv es \<Longrightarrow> declined_inv (declined_expire es t)"
  by (simp add: declined_inv_def uniq_ips_expire)

lemma declined_inv_clear [inv_intros]: "declined_inv es \<Longrightarrow> declined_inv (declined_clear es)"
  by (simp add: declined_inv_def uniq_ips_clear) (simp add: declined_clear_def)

section \<open>What the table promises\<close>

lemma isDeclined_iff:
  assumes "uniq_ips es"
  shows "isDeclined es ip t \<longleftrightarrow>
    (\<exists>i < length es. d_used (es ! i) \<and> d_ip (es ! i) = ip \<and> t - d_sinceMs (es ! i) < kDeclineHoldMs)"
proof (cases "first_idx (\<lambda>e. d_used e \<and> d_ip e = ip) es")
  case None
  then have "\<forall>i < length es. \<not> (d_used (es ! i) \<and> d_ip (es ! i) = ip)"
    unfolding first_idx_None_iff by (auto dest: nth_mem)
  with None show ?thesis by (auto simp: isDeclined_def)
next
  case (Some i)
  then have dec: "isDeclined es ip t \<longleftrightarrow> t - d_sinceMs (es ! i) < kDeclineHoldMs"
    by (simp add: isDeclined_def)
  have i: "i < length es" "d_used (es ! i)" "d_ip (es ! i) = ip"
    using first_idx_SomeD [OF Some] by auto
  then have "j = i" if "j < length es" "d_used (es ! j)" "d_ip (es ! j) = ip" for j
    using that assms unfolding uniq_ips_def by blast
  with i show ?thesis unfolding dec by metis
qed

lemma isDeclined_expire:
  assumes "uniq_ips es"
  shows "isDeclined (declined_expire es t) ip t = isDeclined es ip t"
  using assms by (auto simp: isDeclined_iff uniq_ips_expire nth_expire not_le split: if_splits)

lemma isDeclined_clear: "\<not> isDeclined (declined_clear es) ip t"
  unfolding isDeclined_iff [OF uniq_ips_clear] unfolding declined_clear_def by auto

text \<open>The slot the new refusal goes to, and what the other slots keep.\<close>

lemma add_slot:
  assumes "es \<noteq> []"
  obtains i where "i < length es"
    and "snd (declined_add es ip t) = (declined_expire es t)[i := \<lparr>d_ip = ip, d_sinceMs = t, d_used = True\<rparr>]"
    and "fst (declined_add es ip t) \<Longrightarrow>
      d_used (declined_expire es t ! i) \<Longrightarrow> d_ip (declined_expire es t ! i) = ip"
    and "\<not> fst (declined_add es ip t) \<Longrightarrow> i = oldest_scan (declined_expire es t) 1 0"
proof (cases "first_idx (\<lambda>e. d_used e \<and> d_ip e = ip) (declined_expire es t)")
  case (Some i)
  note f = first_idx_SomeD [OF Some]
  have "(declined_expire es t ! i)\<lparr>d_sinceMs := t\<rparr> = \<lparr>d_ip = ip, d_sinceMs = t, d_used = True\<rparr>"
    using f(2) by (cases "declined_expire es t ! i") simp
  with Some have eq: "declined_add es ip t =
      (True, (declined_expire es t)[i := \<lparr>d_ip = ip, d_sinceMs = t, d_used = True\<rparr>])"
    by (simp add: declined_add_def Let_def)
  with f show ?thesis
    by (intro that [of i]) auto
next
  case none: None
  show ?thesis
  proof (cases "first_idx (\<lambda>e. \<not> d_used e) (declined_expire es t)")
    case (Some i)
    with none show ?thesis
      by (intro that [of i]) (auto simp: declined_add_def Let_def dest: first_idx_SomeD)
  next
    case None
    have "oldest_scan (declined_expire es t) 1 0 < length es"
      using oldest_scan_bound [of 0 "declined_expire es t" 1] assms by simp
    with none None show ?thesis
      by (intro that [of "oldest_scan (declined_expire es t) 1 0"]) (auto simp: declined_add_def Let_def)
  qed
qed

lemma isDeclined_add_same:
  assumes "uniq_ips es" and "es \<noteq> []"
  shows "isDeclined (snd (declined_add es ip t)) ip u \<longleftrightarrow> u - t < kDeclineHoldMs"
proof -
  obtain i where i: "i < length es"
    and eq: "snd (declined_add es ip t) = (declined_expire es t)[i := \<lparr>d_ip = ip, d_sinceMs = t, d_used = True\<rparr>]"
    using assms(2) by (rule add_slot)
  have "uniq_ips (snd (declined_add es ip t))" using assms(1) by (rule uniq_ips_add)
  moreover have "snd (declined_add es ip t) ! i = \<lparr>d_ip = ip, d_sinceMs = t, d_used = True\<rparr>"
    using i eq by simp
  ultimately show ?thesis
    using i unfolding isDeclined_iff [OF \<open>uniq_ips (snd (declined_add es ip t))\<close>] uniq_ips_def
    by (metis decl_entry.select_convs length_declined_add)
qed

lemma isDeclined_add_other:
  assumes u: "uniq_ips es" and ne: "es \<noteq> []" and ok: "fst (declined_add es ip t)" and diff: "ip' \<noteq> ip"
  shows "isDeclined (snd (declined_add es ip t)) ip' t = isDeclined es ip' t"
proof -
  obtain i where i: "i < length es"
    and eq: "snd (declined_add es ip t) = (declined_expire es t)[i := \<lparr>d_ip = ip, d_sinceMs = t, d_used = True\<rparr>]"
    and old: "d_used (declined_expire es t ! i) \<Longrightarrow> d_ip (declined_expire es t ! i) = ip"
    using ne ok by (metis add_slot)
  have "isDeclined (snd (declined_add es ip t)) ip' t = isDeclined (declined_expire es t) ip' t"
    unfolding isDeclined_iff [OF uniq_ips_add [OF u]] isDeclined_iff [OF uniq_ips_expire [OF u]]
    using i old diff by (force simp: eq nth_list_update)
  then show ?thesis by (simp add: isDeclined_expire [OF u])
qed

lemma count_eq_card:
  assumes "uniq_ips es"
  shows "declined_count es t = card {ip. isDeclined es ip t}"
proof -
  let ?I = "{i. i < length es \<and> d_used (es ! i) \<and> t - d_sinceMs (es ! i) < kDeclineHoldMs}"
  have "{ip. isDeclined es ip t} = (\<lambda>i. d_ip (es ! i)) ` ?I"
    by (auto simp: isDeclined_iff [OF assms])
  moreover have "inj_on (\<lambda>i. d_ip (es ! i)) ?I"
    using assms unfolding uniq_ips_def inj_on_def by auto
  ultimately show ?thesis
    by (simp add: declined_count_def length_filter_conv_card card_image)
qed

lemma count_le_capacity: "declined_inv es \<Longrightarrow> declined_count es t \<le> kCapacity"
  unfolding declined_inv_def declined_count_def by (metis length_filter_le)

lemma kCapacity_nonempty: "declined_inv es \<Longrightarrow> es \<noteq> []"
  by (auto simp: declined_inv_def kCapacity_def)

text \<open>When the table has to forget a refusal, every slot is in force and the oldest one goes.\<close>

lemma add_full_iff:
  "\<not> fst (declined_add es ip t) \<longleftrightarrow>
     (\<forall>e \<in> set (declined_expire es t). d_used e \<and> d_ip e \<noteq> ip)"
  by (auto simp: declined_add_def Let_def first_idx_None_iff split: option.splits dest: first_idx_SomeD(3))

lemma expire_all_used:
  assumes "\<forall>e \<in> set (declined_expire es t). d_used e"
  shows "declined_expire es t = es"
proof (rule nth_equalityI)
  fix i
  assume "i < length (declined_expire es t)"
  then have "d_used (declined_expire es t ! i)" and i: "i < length es"
    using assms by (auto intro: nth_mem)
  then show "declined_expire es t ! i = es ! i"
    unfolding nth_expire [OF i] by (simp split: if_splits)
qed simp

section \<open>The contract the DHCP server uses\<close>

locale hold_down =
  fixes inv :: "'t \<Rightarrow> bool"
    and held :: "'t \<Rightarrow> 'ip \<Rightarrow> u64 \<Rightarrow> bool"
    and refuse :: "'t \<Rightarrow> 'ip \<Rightarrow> u64 \<Rightarrow> bool \<times> 't"
    and hold :: u64
  assumes inv_refuse: "inv t \<Longrightarrow> inv (snd (refuse t ip now))"
    and held_refused: "inv t \<Longrightarrow> held (snd (refuse t ip now)) ip later \<longleftrightarrow> later - now < hold"
    and held_other: "inv t \<Longrightarrow> fst (refuse t ip now) \<Longrightarrow> ip' \<noteq> ip \<Longrightarrow>
      held (snd (refuse t ip now)) ip' now = held t ip' now"
begin

lemma refused_now: "inv t \<Longrightarrow> 0 < hold \<Longrightarrow> held (snd (refuse t ip now)) ip now"
  by (simp add: held_refused)

lemma refused_set:
  assumes "inv t" and "fst (refuse t ip now)" and "0 < hold"
  shows "{x. held (snd (refuse t ip now)) x now} = insert ip {x. held t x now}"
proof (intro set_eqI)
  fix x
  show "x \<in> {x. held (snd (refuse t ip now)) x now} \<longleftrightarrow> x \<in> insert ip {x. held t x now}"
    using assms held_other [of t ip now x] refused_now [of t ip now] by (cases "x = ip") auto
qed

end

interpretation declined_table: hold_down declined_inv isDeclined declined_add kDeclineHoldMs
proof unfold_locales
  fix t ip now
  assume "declined_inv t"
  then show "declined_inv (snd (declined_add t ip now))" by (rule declined_inv_add)
next
  fix t ip now later
  assume "declined_inv t"
  then show "isDeclined (snd (declined_add t ip now)) ip later = (later - now < kDeclineHoldMs)"
    by (intro isDeclined_add_same) (auto simp: declined_inv_def kCapacity_nonempty)
next
  fix t ip now ip'
  assume "declined_inv t" and "fst (declined_add t ip now)" and "ip' \<noteq> ip"
  then show "isDeclined (snd (declined_add t ip now)) ip' now = isDeclined t ip' now"
    by (intro isDeclined_add_other) (auto simp: declined_inv_def kCapacity_nonempty)
qed

lemma kDeclineHoldMs_pos: "0 < kDeclineHoldMs"
  by (simp add: kDeclineHoldMs_def)

section \<open>Properties\<close>

text \<open>
  A refusal keeps its address out of the pool for exactly one hour of the 64-bit millisecond
  clock (wrap-around included), adds nothing else to the held-down set and takes nothing from it
  while \<open>add\<close> reports success, and \<open>count\<close> is the size of that set, never above the capacity.
\<close>

lemma declined_hold_exact:
  assumes "declined_inv es"
  shows "declined_inv (snd (declined_add es ip t))
    \<and> (\<forall>u. isDeclined (snd (declined_add es ip t)) ip u \<longleftrightarrow> u - t < kDeclineHoldMs)
    \<and> (fst (declined_add es ip t) \<longrightarrow>
         {x. isDeclined (snd (declined_add es ip t)) x t} = insert ip {x. isDeclined es x t})
    \<and> declined_count es t = card {x. isDeclined es x t} \<and> declined_count es t \<le> 32"
  using assms declined_table.inv_refuse [OF assms] declined_table.held_refused [OF assms]
    declined_table.refused_set [OF assms _ kDeclineHoldMs_pos] count_le_capacity [OF assms, of t]
  by (auto simp: count_eq_card declined_inv_def kCapacity_def)

lemma declined_hold_exact_witness:
  "(\<forall>u. isDeclined (snd (declined_add declined_init 7 5)) 7 u \<longleftrightarrow> u - 5 < kDeclineHoldMs)
   \<and> declined_count declined_init 5 \<le> 32"
  using declined_hold_exact [OF declined_inv_init, of 7 5] by blast

text \<open>
  When \<open>add\<close> reports that the table was full, all 32 slots really were in force for other
  addresses, exactly one of them was overwritten, and it was a refusal no younger than any other.
\<close>

lemma declined_overflow:
  assumes "declined_inv es" and "\<not> fst (declined_add es ip t)"
  shows "(\<forall>e \<in> set es. d_used e \<and> t - d_sinceMs e < kDeclineHoldMs \<and> d_ip e \<noteq> ip)
    \<and> (\<exists>i < 32. snd (declined_add es ip t) = es[i := \<lparr>d_ip = ip, d_sinceMs = t, d_used = True\<rparr>]
         \<and> (\<forall>j < 32. d_sinceMs (es ! i) \<le> d_sinceMs (es ! j)))"
proof
  have full: "\<forall>e \<in> set (declined_expire es t). d_used e \<and> d_ip e \<noteq> ip"
    using assms(2) by (simp add: add_full_iff)
  then have same: "declined_expire es t = es"
    by (intro expire_all_used) blast
  have "t - d_sinceMs e < kDeclineHoldMs" if e: "e \<in> set es" for e
  proof (rule ccontr)
    assume late: "\<not> t - d_sinceMs e < kDeclineHoldMs"
    have "d_used e" using full e same by auto
    then have "e\<lparr>d_used := False\<rparr> \<in> set (declined_expire es t)"
      using e late unfolding declined_expire_def by (force simp: not_less)
    with full show False by fastforce
  qed
  with full same show "\<forall>e \<in> set es. d_used e \<and> t - d_sinceMs e < kDeclineHoldMs \<and> d_ip e \<noteq> ip"
    by auto
  have len: "length es = 32" using assms(1) by (simp add: declined_inv_def kCapacity_def)
  then have "es \<noteq> []" by auto
  then obtain i where i: "i < length es"
    and eq: "snd (declined_add es ip t) = (declined_expire es t)[i := \<lparr>d_ip = ip, d_sinceMs = t, d_used = True\<rparr>]"
    and old: "i = oldest_scan (declined_expire es t) 1 0"
    using assms(2) by (metis add_slot)
  have "d_sinceMs (es ! i) \<le> d_sinceMs (es ! j)" if "j < 32" for j
    using that len unfolding old same by (intro oldest_scan_le) auto
  with i eq len same
  show "\<exists>i < 32. snd (declined_add es ip t) = es[i := \<lparr>d_ip = ip, d_sinceMs = t, d_used = True\<rparr>]
         \<and> (\<forall>j < 32. d_sinceMs (es ! i) \<le> d_sinceMs (es ! j))"
    by auto
qed

definition full_table :: declined where
  "full_table = map (\<lambda>n. \<lparr>d_ip = of_nat (n + 1), d_sinceMs = of_nat (100 - n), d_used = True\<rparr>) [0..<32]"

lemma full_table_full: "declined_inv full_table" "\<not> fst (declined_add full_table 99 100)"
proof -
  have "n = m" if "n < 32" "m < 32" "(of_nat (n + 1) :: u32) = of_nat (m + 1)" for n m :: nat
    using that word_of_nat_eq_iff [where 'a = 32, of n m] by (simp add: take_bit_nat_eq_self)
  then show "declined_inv full_table"
    by (simp add: declined_inv_def uniq_ips_def full_table_def kCapacity_def)
  have "\<forall>e \<in> set full_table. \<not> 100 - d_sinceMs e \<ge> kDeclineHoldMs \<and> d_used e \<and> d_ip e \<noteq> 99"
    by (simp add: full_table_def upt_rec kDeclineHoldMs_def word_le_nat_alt)
  then show "\<not> fst (declined_add full_table 99 100)"
    by (auto simp: add_full_iff declined_expire_def)
qed

lemma declined_overflow_witness:
  "\<exists>i < 32. snd (declined_add full_table 99 100) = full_table[i := \<lparr>d_ip = 99, d_sinceMs = 100, d_used = True\<rparr>]
     \<and> (\<forall>j < 32. d_sinceMs (full_table ! i) \<le> d_sinceMs (full_table ! j))"
  using declined_overflow [OF full_table_full] by blast

text \<open>While a slot is left nothing is forgotten: the slots in force stay, or are refreshed.\<close>

lemma add_with_room:
  assumes "declined_inv es" and "declined_count es t < kCapacity"
  shows "fst (declined_add es ip t)"
proof (rule ccontr)
  assume "\<not> fst (declined_add es ip t)"
  from declined_overflow [OF assms(1) this] have "\<forall>e \<in> set es. d_used e \<and> t - d_sinceMs e < kDeclineHoldMs" by blast
  then have "declined_count es t = length es" by (simp add: declined_count_def)
  with assms show False by (simp add: declined_inv_def)
qed

lemma slot_survives:
  assumes "fst (declined_add es jp t)" and "j < length es" and "d_used (es ! j)" and "d_ip (es ! j) = ip"
    and "t - d_sinceMs (es ! j) < kDeclineHoldMs"
  shows "\<exists>i < length es. let x = snd (declined_add es jp t) ! i in
    d_used x \<and> d_ip x = ip \<and> (d_sinceMs x = d_sinceMs (es ! j) \<or> d_sinceMs x = t)"
proof -
  have "es \<noteq> []" using assms(2) by auto
  then obtain i where i: "i < length es"
    and eq: "snd (declined_add es jp t) = (declined_expire es t)[i := \<lparr>d_ip = jp, d_sinceMs = t, d_used = True\<rparr>]"
    and old: "d_used (declined_expire es t ! i) \<Longrightarrow> d_ip (declined_expire es t ! i) = jp"
    using assms(1) by (metis add_slot)
  have x: "declined_expire es t ! j = es ! j" using assms(2,5) by (simp add: nth_expire not_le)
  show ?thesis
  proof (cases "i = j")
    case True
    then have "jp = ip" using old assms(3,4) x by simp
    then show ?thesis using i unfolding eq by (intro exI [of _ i]) (simp add: Let_def)
  next
    case False
    then show ?thesis using assms(2-4) x unfolding eq by (intro exI [of _ j]) (simp add: Let_def)
  qed
qed

end
