(* ===== verification/AllowedList.thy ===== *)
theory AllowedList
  imports Prelude
begin

text \<open>
  \<open>src/src/dhcp/DhcpAllowedList.cpp\<close> (with \<open>core/StorageText.h\<close>): the DHCP allow-list. Three
  groups: the text codec of the list (\<open>parseMac\<close>, \<open>formatMac\<close>, \<open>allowed_serialize\<close>, \<open>allowed_parse\<close>), the
  open-addressing MAC table in its two buffers (\<open>hashMac\<close>, \<open>freeSlot\<close>, \<open>allowed_rebuild\<close>, \<open>allowed_contains\<close>)
  and the access policy (\<open>isClientAllowed\<close>, \<open>isAddressAllowed\<close>). The lemmas show that the
  codec stays inside its 1024-byte budget and gives back what was stored, and that the hashed
  table refines the plain set of enabled addresses.
\<close>

section \<open>MAC address codec\<close>

definition hexNibble :: "char \<Rightarrow> nat option" where
  "hexNibble c = (let n = char_code c in
     if 48 \<le> n \<and> n \<le> 57 then Some (n - 48)
     else if 97 \<le> n \<and> n \<le> 102 then Some (n - 97 + 10)
     else if 65 \<le> n \<and> n \<le> 70 then Some (n - 65 + 10)
     else None)"

fun parseMac_digits :: "string \<Rightarrow> byte list \<Rightarrow> byte list option" where
  "parseMac_digits [] digits = Some digits"
| "parseMac_digits (c # cs) digits =
     (if c = CHR '':'' \<or> c = CHR ''-'' \<or> c = CHR ''.'' then parseMac_digits cs digits
      else if isspace c then parseMac_digits cs digits
      else case hexNibble c of
             None \<Rightarrow> None
           | Some v \<Rightarrow> if 12 \<le> length digits then None
                       else parseMac_digits cs (digits @ [of_nat v]))"

definition parseMac :: "string \<Rightarrow> mac option" where
  "parseMac s =
     (case parseMac_digits s [] of
        None \<Rightarrow> None
      | Some digits \<Rightarrow>
          if length digits \<noteq> 12 then None
          else Some (map (\<lambda>i. push_bit 4 (digits ! (i * 2)) OR digits ! (i * 2 + 1)) [0..<6]))"

definition formatMac :: "mac \<Rightarrow> string" where
  "formatMac m = hex2 (m ! 0) @ '':'' @ hex2 (m ! 1) @ '':'' @ hex2 (m ! 2) @ '':'' @
     hex2 (m ! 3) @ '':'' @ hex2 (m ! 4) @ '':'' @ hex2 (m ! 5)"

definition normalizeMac :: "string \<Rightarrow> string" where
  "normalizeMac s = (case parseMac s of None \<Rightarrow> [] | Some bytes \<Rightarrow> formatMac bytes)"

lemma hexNibble_digit_char [simp]: "d < 16 \<Longrightarrow> hexNibble (digit_char d) = Some d"
  by (auto simp: hexNibble_def Let_def char_code_digit_char)

lemma digit_char_plain [simp]:
  assumes "d < 16"
  shows "\<not> isspace (digit_char d)" and "digit_char d \<noteq> CHR '':''" and "digit_char d \<noteq> CHR ''-''"
    and "digit_char d \<noteq> CHR ''.''" and "digit_char d \<noteq> CHR ''|''" and "digit_char d \<noteq> CHR 0x0A"
  using char_code_digit_char [OF assms] assms by (auto simp: isspace_def Let_def split: if_splits)

lemma nibbles_of_byte:
  "push_bit 4 (of_nat (unat b div 16)) OR of_nat (unat b mod 16) = (b :: byte)"
proof -
  have hi: "unat b div 16 = unat (drop_bit 4 b)"
    by (simp add: drop_bit_eq_div unat_div)
  have lo: "unat b mod 16 = unat (take_bit 4 b)"
    by (simp add: take_bit_eq_mod unat_mod)
  have "push_bit 4 (of_nat (unat b div 16)) OR of_nat (unat b mod 16) =
      push_bit 4 (drop_bit 4 b) OR take_bit 4 b"
    unfolding hi lo by simp
  also have "\<dots> = b" by (rule bit_word_eqI) (auto simp: bit_simps)
  finally show ?thesis .
qed

lemma parseMac_digits_hex2:
  assumes "length ds \<le> 10"
  shows "parseMac_digits (hex2 b @ cs) ds =
    parseMac_digits cs (ds @ [of_nat (unat b div 16), of_nat (unat b mod 16)])"
proof -
  have "unat b div 16 < 16" "unat b mod 16 < 16"
    using unat_byte_less [of b] by (auto simp: less_mult_imp_div_less)
  then show ?thesis using assms by (simp add: hex2_def)
qed

text \<open>Text printed by \<open>formatMac\<close> is read back by \<open>parseMac\<close>.\<close>

lemma parseMac_formatMac:
  assumes "length m = 6"
  shows "parseMac (formatMac m) = Some m"
proof -
  obtain a b c d e f where m: "m = [a, b, c, d, e, f]"
    using assms by (auto simp: length_Suc_conv eval_nat_numeral)
  have nil: "parseMac_digits (hex2 f) ds = parseMac_digits (hex2 f @ []) ds" for ds by simp
  have "parseMac_digits (formatMac m) [] = Some (concat (map (\<lambda>b.
      [of_nat (unat b div 16), of_nat (unat b mod 16)]) m))"
    unfolding m formatMac_def by (simp add: parseMac_digits_hex2 nil del: append_Nil2)
  then show ?thesis
    unfolding parseMac_def m by (simp add: upt_rec nibbles_of_byte)
qed

lemma length_formatMac [simp]: "length (formatMac m) = 17"
  by (simp add: formatMac_def hex2_def)

lemma parseMac_length: "parseMac s = Some m \<Longrightarrow> length m = 6"
  by (auto simp: parseMac_def split: option.splits if_splits)

section \<open>List codec\<close>

record allowed_computer =
  ac_mac :: string
  ac_name :: string
  ac_enabled :: bool

definition kMaxEntries :: nat where "kMaxEntries = 25"
definition kMaxNameLen :: nat where "kMaxNameLen = 20"
definition kMaxBytes :: nat where "kMaxBytes = 1024"

abbreviation newline :: char where "newline \<equiv> CHR 0x0A"

text \<open>\<open>core/StorageText.h\<close>, \<open>storageFieldText\<close>.\<close>

definition storageFieldText :: "string \<Rightarrow> string" where
  "storageFieldText value =
     map (\<lambda>c. if c = CHR ''|'' \<or> c = newline \<or> c = CHR 0x0D then CHR '' '' else c) (trim value)"

definition sanitizeName :: "string \<Rightarrow> string" where
  "sanitizeName name = take kMaxNameLen (storageFieldText name)"

definition entry_text :: "mac \<Rightarrow> allowed_computer \<Rightarrow> string" where
  "entry_text bytes e = formatMac bytes @ ''|'' @ sanitizeName (ac_name e) @ ''|'' @
     (if ac_enabled e then ''1'' else ''0'')"

fun serialize_loop :: "allowed_computer list \<Rightarrow> string \<Rightarrow> nat \<Rightarrow> string" where
  "serialize_loop [] out written = out"
| "serialize_loop (e # es) out written =
     (if written \<ge> kMaxEntries then out
      else case parseMac (ac_mac e) of
             None \<Rightarrow> serialize_loop es out written
           | Some bytes \<Rightarrow>
               serialize_loop es ((if out \<noteq> [] then out @ [newline] else out) @ entry_text bytes e)
                 (written + 1))"

definition allowed_serialize :: "allowed_computer list \<Rightarrow> string" where
  "allowed_serialize l = serialize_loop l [] 0"

definition parse_line :: "string \<Rightarrow> allowed_computer option" where
  "parse_line line0 =
     (let line = trim line0 in
      if line = [] then None
      else
        let entry =
          (case split_at (CHR ''|'') line of
             None \<Rightarrow> \<lparr>ac_mac = normalizeMac line, ac_name = [], ac_enabled = True\<rparr>
           | Some (left, rest) \<Rightarrow>
               (case split_at (CHR ''|'') rest of
                  None \<Rightarrow> \<lparr>ac_mac = normalizeMac left, ac_name = sanitizeName rest, ac_enabled = True\<rparr>
                | Some (nm, flag) \<Rightarrow>
                    \<lparr>ac_mac = normalizeMac left, ac_name = sanitizeName nm,
                      ac_enabled = (trim flag \<noteq> ''0'')\<rparr>))
        in if ac_mac entry = [] then None else Some entry)"

text \<open>
  The \<open>while (pos <= text.size() && out.size() < kMaxEntries)\<close> loop; \<open>text\<close> is what is left from
  \<open>pos\<close> on, and the last line ends the loop by moving \<open>pos\<close> past the end.
\<close>

function parse_loop :: "string \<Rightarrow> allowed_computer list \<Rightarrow> allowed_computer list" where
  "parse_loop text out =
     (if \<not> length out < kMaxEntries then out
      else case split_at newline text of
             None \<Rightarrow> out @ (case parse_line text of None \<Rightarrow> [] | Some e \<Rightarrow> [e])
           | Some (line, rest) \<Rightarrow>
               parse_loop rest (out @ (case parse_line line of None \<Rightarrow> [] | Some e \<Rightarrow> [e])))"
  by pat_completeness auto
termination
  by (relation "measure (\<lambda>(text, out). length text)") (auto dest: split_at_length)

declare parse_loop.simps [simp del]

definition allowed_parse :: "string \<Rightarrow> allowed_computer list" where
  "allowed_parse text = parse_loop text []"

section \<open>The codec's budget and round trip\<close>

lemma length_sanitizeName: "length (sanitizeName n) \<le> 20"
  by (simp add: sanitizeName_def kMaxNameLen_def)

lemma sanitizeName_no_sep:
  "CHR ''|'' \<notin> set (sanitizeName n)" "newline \<notin> set (sanitizeName n)"
  unfolding sanitizeName_def storageFieldText_def by (auto dest!: in_set_takeD split: if_splits)

lemma length_entry_text: "length (entry_text b e) \<le> 40"
  using length_sanitizeName [of "ac_name e"] by (simp add: entry_text_def)

lemma entry_text_nonempty [simp]: "entry_text b e \<noteq> []"
  by (simp add: entry_text_def)

lemma serialize_loop_length:
  assumes "length out + 1 \<le> 41 * written \<or> (out = [] \<and> written = 0)" and "written \<le> kMaxEntries"
  shows "length (serialize_loop l out written) \<le> kMaxBytes"
  using assms
proof (induction l out written rule: serialize_loop.induct)
  case (1 out written)
  then show ?case by (auto simp: kMaxBytes_def kMaxEntries_def)
next
  case (2 e es out written)
  show ?case
  proof (cases "written \<ge> kMaxEntries")
    case True
    with "2.prems" show ?thesis by (auto simp: kMaxBytes_def kMaxEntries_def)
  next
    case False
    show ?thesis
    proof (cases "parseMac (ac_mac e)")
      case None
      with False "2.IH"(1) "2.prems" show ?thesis by simp
    next
      case (Some bytes)
      then show ?thesis
        using False "2.IH"(2) [OF False Some] "2.prems" length_entry_text [of bytes e] by auto
    qed
  qed
qed

lemma isspace_digit: "\<not> isspace (CHR ''0'')" "\<not> isspace (CHR ''1'')"
  by (simp_all add: isspace_def)

lemma hex2_plain:
  assumes "c \<in> set (hex2 b)"
  shows "c \<noteq> CHR ''|''" and "c \<noteq> newline" and "\<not> isspace c"
proof -
  have "unat b div 16 < 16" "unat b mod 16 < 16"
    using unat_byte_less [of b] by (auto simp: less_mult_imp_div_less)
  moreover have "c = digit_char (unat b div 16) \<or> c = digit_char (unat b mod 16)"
    using assms by (simp add: hex2_def)
  ultimately show "c \<noteq> CHR ''|''" and "c \<noteq> newline" and "\<not> isspace c"
    by (metis digit_char_plain(5), metis digit_char_plain(6), metis digit_char_plain(1))
qed

lemma formatMac_not_sep: "CHR ''|'' \<notin> set (formatMac m)" "newline \<notin> set (formatMac m)"
  unfolding formatMac_def using hex2_plain(1,2) by fastforce+

lemma trim_entry_text: "trim (entry_text b e) = entry_text b e"
proof (rule trim_id, rule disjI2)
  have "unat (b ! 0) div 16 < 16"
    using unat_byte_less [of "b ! 0"] by (simp add: less_mult_imp_div_less)
  then have "\<not> isspace (hd (entry_text b e))"
    by (simp add: entry_text_def formatMac_def hex2_def)
  then show "\<not> isspace (hd (entry_text b e)) \<and> \<not> isspace (last (entry_text b e))"
    by (simp add: entry_text_def isspace_digit)
qed

text \<open>An entry the list can hold as it is: a canonical MAC and a name the storage does not change.\<close>

definition canonical :: "allowed_computer \<Rightarrow> bool" where
  "canonical e \<longleftrightarrow> (\<exists>m. length m = 6 \<and> ac_mac e = formatMac m) \<and> sanitizeName (ac_name e) = ac_name e"

lemma parse_line_entry_text:
  assumes "canonical e" and "parseMac (ac_mac e) = Some b"
  shows "parse_line (entry_text b e) = Some e"
proof -
  from assms obtain m where m: "length m = 6" "ac_mac e = formatMac m"
    and n: "sanitizeName (ac_name e) = ac_name e"
    by (auto simp: canonical_def)
  then have b: "b = m" using assms(2) parseMac_formatMac by simp
  define fl where "fl = (if ac_enabled e then ''1'' else ''0'')"
  have et: "entry_text b e = formatMac b @ CHR ''|'' # sanitizeName (ac_name e) @ CHR ''|'' # fl"
    by (simp add: entry_text_def fl_def)
  have s1: "split_at (CHR ''|'') (entry_text b e) =
      Some (formatMac b, sanitizeName (ac_name e) @ CHR ''|'' # fl)"
    unfolding et using formatMac_not_sep by simp
  have s2: "split_at (CHR ''|'') (sanitizeName (ac_name e) @ CHR ''|'' # fl)
      = Some (sanitizeName (ac_name e), fl)"
    using sanitizeName_no_sep by simp
  have flag: "(trim fl \<noteq> ''0'') = ac_enabled e"
    by (simp add: fl_def trim_id isspace_digit)
  have mac: "normalizeMac (formatMac b) = ac_mac e"
    using m b by (simp add: normalizeMac_def parseMac_formatMac)
  have ne: "ac_mac e \<noteq> []" using m(2) length_formatMac [of m] by force
  show ?thesis
    unfolding parse_line_def trim_entry_text Let_def s1 by (simp add: s2 [unfolded n] flag mac ne n)
qed

fun join_lines :: "string list \<Rightarrow> string" where
  "join_lines [] = []"
| "join_lines [l] = l"
| "join_lines (l # ls) = l @ newline # join_lines ls"

lemma entry_text_no_newline: "newline \<notin> set (entry_text b e)"
  using formatMac_not_sep sanitizeName_no_sep by (simp add: entry_text_def)

lemma parse_loop_join:
  assumes "\<forall>(l, e) \<in> set ls. newline \<notin> set l \<and> parse_line l = Some e"
    and "length out + length ls \<le> kMaxEntries" and "ls \<noteq> []"
  shows "parse_loop (join_lines (map fst ls)) out = out @ map snd ls"
  using assms
proof (induction ls arbitrary: out rule: induct_list012)
  case (2 x)
  then show ?case
    by (cases x) (auto simp: parse_loop.simps [of _ out] split_at_None_iff [THEN iffD2])
next
  case (3 x y zs)
  obtain l e where x: "x = (l, e)" by (cases x)
  have IH: "parse_loop (join_lines (map fst (y # zs))) (out @ [e]) = (out @ [e]) @ map snd (y # zs)"
    using "3.prems" by (intro "3.IH"(2)) auto
  have "split_at newline (l @ newline # join_lines (map fst (y # zs))) =
      Some (l, join_lines (map fst (y # zs)))"
    using "3.prems"(1) x by simp
  then show ?case
    using "3.prems" IH x
    by (subst parse_loop.simps) (simp add: less_le_trans)
qed simp

lemma serialize_loop_canonical:
  assumes "\<forall>e \<in> set l. canonical e" and "written + length l \<le> kMaxEntries"
  shows "serialize_loop l out written =
    (if l = [] then out
     else (if out = [] then [] else out @ [newline]) @
       join_lines (map (\<lambda>e. entry_text (the (parseMac (ac_mac e))) e) l))"
  using assms
proof (induction l arbitrary: out written)
  case (Cons e es)
  obtain m where "parseMac (ac_mac e) = Some m"
    using Cons.prems(1) parseMac_formatMac by (auto simp: canonical_def)
  with Cons show ?case
    by (cases es) (auto simp: neq_Nil_conv)
qed simp

section \<open>The MAC table\<close>

record slot =
  s_mac :: mac
  s_used :: bool

type_synonym table = "slot list"

definition kSlots :: nat where "kSlots = 64"

record allowed_list =
  al_slots :: "(table \<times> table) option"
  al_active :: nat
  al_count :: nat

definition allowed_list_new :: allowed_list where
  "allowed_list_new = \<lparr>al_slots = None, al_active = 0, al_count = 0\<rparr>"

definition allowed_available :: "allowed_list \<Rightarrow> bool" where
  "allowed_available l \<longleftrightarrow> al_slots l \<noteq> None"

definition hashMac :: "mac \<Rightarrow> u32" where
  "hashMac m = foldl (\<lambda>h b. (h XOR ucast b) * 16777619) 2166136261 m"

definition clearTable :: table where
  "clearTable = replicate kSlots \<lparr>s_mac = replicate 6 0, s_used = False\<rparr>"

text \<open>The probe loop of \<open>freeSlot\<close> and of \<open>allowed_contains\<close>: \<open>n\<close> probes are left, \<open>idx\<close> is the next slot.\<close>

fun freeSlot_from :: "table \<Rightarrow> mac \<Rightarrow> nat \<Rightarrow> nat \<Rightarrow> nat option" where
  "freeSlot_from t m idx 0 = None"
| "freeSlot_from t m idx (Suc n) =
     (if \<not> s_used (t ! idx) then Some idx
      else if s_mac (t ! idx) = m then None
      else freeSlot_from t m ((idx + 1) AND (kSlots - 1)) n)"

definition freeSlot :: "table \<Rightarrow> mac \<Rightarrow> nat option" where
  "freeSlot t m = freeSlot_from t m (unat (hashMac m) AND (kSlots - 1)) kSlots"

fun contains_from :: "table \<Rightarrow> mac \<Rightarrow> nat \<Rightarrow> nat \<Rightarrow> bool" where
  "contains_from t m idx 0 = False"
| "contains_from t m idx (Suc n) =
     (if \<not> s_used (t ! idx) then False
      else if s_mac (t ! idx) = m then True
      else contains_from t m ((idx + 1) AND (kSlots - 1)) n)"

definition al_active_table :: "allowed_list \<Rightarrow> table option" where
  "al_active_table l = map_option (\<lambda>(a, b). if al_active l = 0 then a else b) (al_slots l)"

definition allowed_contains :: "allowed_list \<Rightarrow> mac \<Rightarrow> bool" where
  "allowed_contains l m =
     (case al_active_table l of
        None \<Rightarrow> False
      | Some t \<Rightarrow> contains_from t m (unat (hashMac m) AND (kSlots - 1)) kSlots)"

text \<open>\<open>allowed_init\<close>: the owner's storage is bound; \<open>False\<close> is a null pointer (no PSRAM).\<close>

definition allowed_init :: "allowed_list \<Rightarrow> bool \<Rightarrow> bool \<times> allowed_list" where
  "allowed_init l storage =
     (if \<not> storage then (False, l)
      else (True, \<lparr>al_slots = Some (clearTable, clearTable), al_active = 0, al_count = 0\<rparr>))"

fun rebuild_loop :: "allowed_computer list \<Rightarrow> table \<Rightarrow> nat \<Rightarrow> nat \<Rightarrow> table \<times> nat \<times> nat" where
  "rebuild_loop [] dest inserted dropped = (dest, inserted, dropped)"
| "rebuild_loop (e # es) dest inserted dropped =
     (if \<not> ac_enabled e then rebuild_loop es dest inserted dropped
      else case parseMac (ac_mac e) of
             None \<Rightarrow> rebuild_loop es dest inserted (dropped + 1)
           | Some m \<Rightarrow>
               if inserted \<ge> kMaxEntries then rebuild_loop es dest inserted (dropped + 1)
               else case freeSlot dest m of
                      None \<Rightarrow> rebuild_loop es dest inserted (dropped + 1)
                    | Some i \<Rightarrow>
                        rebuild_loop es (dest[i := \<lparr>s_mac = m, s_used = True\<rparr>]) (inserted + 1) dropped)"

text \<open>\<open>allowed_rebuild\<close> returns its result and the \<open>skipped\<close> count.\<close>

definition allowed_rebuild :: "allowed_list \<Rightarrow> allowed_computer list \<Rightarrow> (bool \<times> nat) \<times> allowed_list" where
  "allowed_rebuild l es =
     (case al_slots l of
        None \<Rightarrow> ((False, length es), l)
      | Some (a, b) \<Rightarrow>
          (let next = 1 - al_active l;
               (dest, inserted, dropped) = rebuild_loop es clearTable 0 0
           in ((True, dropped),
               l\<lparr>al_slots := Some (if next = 0 then (dest, b) else (a, dest)),
                 al_count := inserted, al_active := next\<rparr>)))"

section \<open>Policy\<close>

record static_ref =
  sr_mac :: mac
  sr_enabled :: bool

definition isClientAllowed :: "mac \<Rightarrow> bool \<Rightarrow> allowed_list \<Rightarrow> static_ref list \<Rightarrow> bool" where
  "isClientAllowed m allowOnly l bindings =
     (if \<not> allowOnly then True
      else if \<not> allowed_available l then True
      else if allowed_contains l m then True
      else \<exists>r \<in> set bindings. sr_enabled r \<and> sr_mac r = m)"

definition isAddressAllowed :: "bool \<Rightarrow> mac option \<Rightarrow> allowed_list \<Rightarrow> static_ref list \<Rightarrow> bool" where
  "isAddressAllowed allowOnly owner l bindings =
     (if \<not> allowOnly then True
      else case owner of None \<Rightarrow> False | Some m \<Rightarrow> isClientAllowed m True l bindings)"

section \<open>The table refines a set\<close>

lemma and_kSlots [simp]:
  fixes n :: nat
  shows "n AND 63 = n mod 64" and "n AND (kSlots - Suc 0) = n mod 64"
proof -
  have "(63 :: nat) = mask 6" by (simp add: mask_numeral)
  then show "n AND 63 = n mod 64" by (simp only: flip: take_bit_eq_mask) (simp add: take_bit_eq_mod)
  then show "n AND (kSlots - Suc 0) = n mod 64" by (simp add: kSlots_def)
qed

definition home :: "mac \<Rightarrow> nat" where
  "home m = unat (hashMac m) mod 64"

lemma freeSlot_home: "freeSlot t m = freeSlot_from t m (home m) 64"
  by (simp add: freeSlot_def home_def kSlots_def)

lemma contains_home:
  "allowed_contains l m =
     (case al_active_table l of None \<Rightarrow> False | Some t \<Rightarrow> contains_from t m (home m) 64)"
  by (simp add: allowed_contains_def home_def kSlots_def split: option.splits)

definition passed :: "table \<Rightarrow> mac \<Rightarrow> nat \<Rightarrow> nat \<Rightarrow> bool" where
  "passed t m idx k \<longleftrightarrow>
     (\<forall>j < k. s_used (t ! ((idx + j) mod 64)) \<and> s_mac (t ! ((idx + j) mod 64)) \<noteq> m)"

lemma passed_Suc:
  "passed t m idx (Suc k) \<longleftrightarrow>
     s_used (t ! (idx mod 64)) \<and> s_mac (t ! (idx mod 64)) \<noteq> m \<and> passed t m ((idx + 1) mod 64) k"
  unfolding passed_def by (auto simp: less_Suc_eq_0_disj mod_simps)

lemma contains_from_iff:
  "idx < 64 \<Longrightarrow> contains_from t m idx n \<longleftrightarrow>
     (\<exists>k < n. passed t m idx k \<and> s_used (t ! ((idx + k) mod 64)) \<and> s_mac (t ! ((idx + k) mod 64)) = m)"
proof (induction n arbitrary: idx)
  case (Suc n)
  have IH: "contains_from t m ((idx + 1) mod 64) n \<longleftrightarrow> (\<exists>k < n. passed t m ((idx + 1) mod 64) k \<and>
      s_used (t ! ((idx + Suc k) mod 64)) \<and> s_mac (t ! ((idx + Suc k) mod 64)) = m)"
    using Suc.IH [of "(idx + 1) mod 64"] by (simp add: mod_simps)
  show ?case
    using Suc.prems
    by (simp add: Ex_less_Suc2 passed_Suc IH [simplified]) (auto simp: passed_def)
qed simp

lemma freeSlot_from_Some:
  "idx < 64 \<Longrightarrow> freeSlot_from t m idx n = Some i \<Longrightarrow>
     \<exists>k < n. i = (idx + k) mod 64 \<and> passed t m idx k \<and> \<not> s_used (t ! i)"
proof (induction n arbitrary: idx)
  case (Suc n)
  show ?case
  proof (cases "s_used (t ! idx)")
    case False
    with Suc.prems show ?thesis by (intro exI [of _ 0]) (auto simp: passed_def)
  next
    case True
    then obtain k where "k < n" "i = ((idx + 1) mod 64 + k) mod 64"
      "passed t m ((idx + 1) mod 64) k" "\<not> s_used (t ! i)" "s_mac (t ! idx) \<noteq> m"
      using Suc.IH [of "(idx + 1) mod 64"] Suc.prems by (auto split: if_splits)
    with True Suc.prems(1) show ?thesis
      by (intro exI [of _ "Suc k"]) (auto simp: passed_Suc mod_simps)
  qed
qed simp

lemma freeSlot_from_None:
  "idx < 64 \<Longrightarrow> freeSlot_from t m idx n = None \<Longrightarrow>
     (\<exists>k < n. s_used (t ! ((idx + k) mod 64)) \<and> s_mac (t ! ((idx + k) mod 64)) = m) \<or>
     (\<forall>k < n. s_used (t ! ((idx + k) mod 64)))"
proof (induction n arbitrary: idx)
  case (Suc n)
  have used: "s_used (t ! idx)" using Suc.prems by (auto split: if_splits)
  show ?case
  proof (cases "s_mac (t ! idx) = m")
    case True
    with used Suc.prems(1) show ?thesis by (intro disjI1 exI [of _ 0]) simp
  next
    case False
    then have "(\<exists>k < n. s_used (t ! ((idx + Suc k) mod 64)) \<and> s_mac (t ! ((idx + Suc k) mod 64)) = m) \<or>
        (\<forall>k < n. s_used (t ! ((idx + Suc k) mod 64)))"
      using Suc.IH [of "(idx + 1) mod 64"] Suc.prems used by (simp add: mod_simps)
    with used Suc.prems(1) show ?thesis
      by (auto simp: less_Suc_eq_0_disj)
  qed
qed simp

definition tbl_inv :: "table \<Rightarrow> bool" where
  "tbl_inv t \<longleftrightarrow> length t = 64 \<and>
     (\<forall>i < 64. s_used (t ! i) \<longrightarrow>
        (\<exists>k < 64. i = (home (s_mac (t ! i)) + k) mod 64 \<and> passed t (s_mac (t ! i)) (home (s_mac (t ! i))) k))"

definition tbl_set :: "table \<Rightarrow> mac set" where
  "tbl_set t = {s_mac s | s. s \<in> set t \<and> s_used s}"

definition used_idx :: "table \<Rightarrow> nat set" where
  "used_idx t = {i. i < length t \<and> s_used (t ! i)}"

lemma tbl_set_nth: "tbl_set t = (\<lambda>i. s_mac (t ! i)) ` used_idx t"
  unfolding tbl_set_def used_idx_def by (auto simp: in_set_conv_nth)

lemma home_less [simp]: "home m < 64"
  by (simp add: home_def)

lemma contains_from_iff_set:
  assumes "tbl_inv t"
  shows "contains_from t m (home m) 64 \<longleftrightarrow> m \<in> tbl_set t"
proof
  assume "contains_from t m (home m) 64"
  then obtain k where "s_used (t ! ((home m + k) mod 64))" "s_mac (t ! ((home m + k) mod 64)) = m"
    by (auto simp: contains_from_iff)
  then show "m \<in> tbl_set t"
    using assms by (auto simp: tbl_set_nth used_idx_def tbl_inv_def image_iff intro!: exI [of _ "(home m + k) mod 64"])
next
  assume "m \<in> tbl_set t"
  then obtain i where "i < 64" "s_used (t ! i)" "s_mac (t ! i) = m"
    using assms by (auto simp: tbl_set_nth used_idx_def tbl_inv_def)
  moreover from this obtain k where "k < 64" "i = (home m + k) mod 64" "passed t m (home m) k"
    using assms unfolding tbl_inv_def by blast
  ultimately show "contains_from t m (home m) 64"
    by (auto simp: contains_from_iff)
qed

lemma tbl_clear:
  "tbl_inv clearTable" "tbl_set clearTable = {}" "used_idx clearTable = {}"
  by (auto simp: tbl_inv_def tbl_set_def used_idx_def clearTable_def kSlots_def)

lemma passed_update:
  "passed t m idx k \<Longrightarrow> \<not> s_used (t ! i) \<Longrightarrow> passed (t[i := s]) m idx k"
  unfolding passed_def by (metis nth_list_update_neq)

lemma tbl_insert:
  assumes inv: "tbl_inv t" and fs: "freeSlot t m = Some i"
  shows "tbl_inv (t[i := \<lparr>s_mac = m, s_used = True\<rparr>])"
    and "tbl_set (t[i := \<lparr>s_mac = m, s_used = True\<rparr>]) = insert m (tbl_set t)"
    and "used_idx (t[i := \<lparr>s_mac = m, s_used = True\<rparr>]) = insert i (used_idx t)"
    and "i \<notin> used_idx t"
proof -
  obtain k where k: "k < 64" "i = (home m + k) mod 64" "passed t m (home m) k" "\<not> s_used (t ! i)"
    using freeSlot_from_Some [of "home m" t m 64 i] fs
    by (auto simp: freeSlot_home)
  then have i: "i < 64" and len: "length t = 64" using inv by (auto simp: tbl_inv_def)
  let ?t = "t[i := \<lparr>s_mac = m, s_used = True\<rparr>]"
  show "tbl_inv ?t"
    unfolding tbl_inv_def
  proof (intro conjI allI impI)
    fix j
    assume j: "j < 64" "s_used (?t ! j)"
    show "\<exists>k < 64. j = (home (s_mac (?t ! j)) + k) mod 64 \<and>
        passed ?t (s_mac (?t ! j)) (home (s_mac (?t ! j))) k"
    proof (cases "j = i")
      case True
      with k len i show ?thesis by (auto intro: passed_update)
    next
      case False
      with j inv k(4) show ?thesis unfolding tbl_inv_def by (auto intro: passed_update)
    qed
  qed (use len in simp)
  show used: "used_idx ?t = insert i (used_idx t)"
    using i len by (auto simp: used_idx_def nth_list_update)
  show fresh: "i \<notin> used_idx t" using k by (simp add: used_idx_def)
  show "tbl_set ?t = insert m (tbl_set t)"
    unfolding tbl_set_nth used using fresh i len by (auto simp: nth_list_update used_idx_def image_iff)
qed

lemma freeSlot_None_dup:
  assumes inv: "tbl_inv t" and fs: "freeSlot t m = None" and room: "card (used_idx t) < 64"
  shows "m \<in> tbl_set t"
proof -
  have len: "length t = 64" using inv by (simp add: tbl_inv_def)
  have "freeSlot_from t m (home m) 64 = None"
    using fs by (simp add: freeSlot_home)
  then consider (dup) k where "s_used (t ! ((home m + k) mod 64))" "s_mac (t ! ((home m + k) mod 64)) = m"
    | (full) "\<forall>k < 64. s_used (t ! ((home m + k) mod 64))"
    using freeSlot_from_None [of "home m" t m 64] by (meson home_less)
  then show ?thesis
  proof cases
    case dup
    then show ?thesis using len by (auto simp: tbl_set_nth used_idx_def image_iff intro!: exI [of _ "(home m + k) mod 64"])
  next
    case full
    have "s_used (t ! i)" if "i < 64" for i
    proof -
      have "(home m + (i + 64 - home m) mod 64) mod 64 = i"
      proof -
        have "home m + (i + 64 - home m) = i + 64" using home_less [of m] by linarith
        with that show ?thesis by (simp add: mod_simps)
      qed
      with full show ?thesis by (metis mod_less_divisor zero_less_numeral)
    qed
    then have "used_idx t = {i. i < 64}" by (auto simp: used_idx_def len)
    with room show ?thesis by simp
  qed
qed

text \<open>The addresses a list grants: those of its enabled entries with a readable MAC.\<close>

definition grants :: "allowed_computer list \<Rightarrow> mac set" where
  "grants es = {m. \<exists>e \<in> set es. ac_enabled e \<and> parseMac (ac_mac e) = Some m}"

lemma grants_Cons:
  "grants (e # es) = (if ac_enabled e then set_option (parseMac (ac_mac e)) else {}) \<union> grants es"
  by (auto simp: grants_def)

lemma rebuild_loop_spec:
  assumes "rebuild_loop es t ins drp = (t', ins', drp')" and "tbl_inv t"
    and "card (used_idx t) = ins" and "ins + length es \<le> kMaxEntries"
  shows "tbl_inv t' \<and> tbl_set t' = tbl_set t \<union> grants es \<and> card (used_idx t') = ins'"
  using assms
proof (induction es t ins drp rule: rebuild_loop.induct)
  case (1 t ins drp)
  then show ?case by (simp add: grants_def)
next
  case (2 e es t ins drp)
  have fin: "finite (used_idx t)" by (simp add: used_idx_def)
  have room: "card (used_idx t) < 64" using "2.prems" by (simp add: kMaxEntries_def)
  show ?case
  proof (cases "ac_enabled e")
    case False
    with 2 show ?thesis by (simp add: grants_Cons)
  next
    case en: True
    show ?thesis
    proof (cases "parseMac (ac_mac e)")
      case None
      with 2 en show ?thesis by (simp add: grants_Cons)
    next
      case (Some m)
      have lt: "\<not> ins \<ge> kMaxEntries" using "2.prems" by simp
      show ?thesis
      proof (cases "freeSlot t m")
        case None
        then have "m \<in> tbl_set t" using freeSlot_None_dup "2.prems"(2) room by blast
        with 2 en Some None lt show ?thesis by (auto simp: grants_Cons)
      next
        case (Some i)
        note ins = tbl_insert [OF "2.prems"(2) Some]
        have "card (insert i (used_idx t)) = ins + 1" using ins(4) fin "2.prems"(3) by simp
        then show ?thesis
          using 2 en \<open>parseMac (ac_mac e) = Some m\<close> Some lt ins by (auto simp: grants_Cons)
      qed
    qed
  qed
qed

lemma card_used_eq: "tbl_inv t \<Longrightarrow> card (tbl_set t) = card (used_idx t)"
  unfolding tbl_set_nth
proof (rule card_image, rule inj_onI)
  fix i j
  assume inv: "tbl_inv t" and ij: "i \<in> used_idx t" "j \<in> used_idx t" "s_mac (t ! i) = s_mac (t ! j)"
  let ?h = "home (s_mac (t ! j))"
  obtain a b where a: "i = (?h + a) mod 64" "passed t (s_mac (t ! j)) ?h a"
    and b: "j = (?h + b) mod 64" "passed t (s_mac (t ! j)) ?h b"
    using inv ij unfolding tbl_inv_def used_idx_def by (metis (no_types, lifting) mem_Collect_eq)
  then have "\<not> a < b" "\<not> b < a" using ij(3) unfolding passed_def by metis+
  with a b show "i = j" by simp
qed

lemma rebuild_spec:
  assumes "allowed_available l" and "length es \<le> kMaxEntries"
  shows "fst (fst (allowed_rebuild l es))"
    and "allowed_available (snd (allowed_rebuild l es))"
    and "allowed_contains (snd (allowed_rebuild l es)) m \<longleftrightarrow> m \<in> grants es"
    and "al_count (snd (allowed_rebuild l es)) = card (grants es)"
proof -
  obtain a b where ab: "al_slots l = Some (a, b)"
    using assms(1) by (auto simp: allowed_available_def)
  obtain t n d where loop: "rebuild_loop es clearTable 0 0 = (t, n, d)"
    by (metis prod_cases3)
  have t: "tbl_inv t \<and> tbl_set t = tbl_set clearTable \<union> grants es \<and> card (used_idx t) = n"
    using rebuild_loop_spec [OF loop tbl_clear(1)] assms(2) tbl_clear(3) by simp
  then have "card (grants es) = n" using card_used_eq tbl_clear(2) by (metis sup_bot_left)
  moreover have "al_active_table (snd (allowed_rebuild l es)) = Some t"
    by (auto simp: allowed_rebuild_def ab loop al_active_table_def)
  moreover have "al_count (snd (allowed_rebuild l es)) = n"
    "fst (fst (allowed_rebuild l es))" "allowed_available (snd (allowed_rebuild l es))"
    by (auto simp: allowed_rebuild_def ab loop allowed_available_def)
  ultimately show "fst (fst (allowed_rebuild l es))" "allowed_available (snd (allowed_rebuild l es))"
    "allowed_contains (snd (allowed_rebuild l es)) m \<longleftrightarrow> m \<in> grants es"
    "al_count (snd (allowed_rebuild l es)) = card (grants es)"
    using t by (auto simp: contains_home contains_from_iff_set tbl_clear(2))
qed

section \<open>The contract of a reloadable set of addresses\<close>

text \<open>
  What the packet path relies on: after a reload the set holds exactly what the list grants,
  whatever was in it before.
\<close>

locale reloadable_set =
  fixes ready :: "'t \<Rightarrow> bool"
    and member :: "'t \<Rightarrow> 'm \<Rightarrow> bool"
    and reload :: "'t \<Rightarrow> 'e list \<Rightarrow> 't"
    and granted :: "'e list \<Rightarrow> 'm set"
    and capacity :: nat
  assumes ready_reload: "ready t \<Longrightarrow> length es \<le> capacity \<Longrightarrow> ready (reload t es)"
    and member_reload: "ready t \<Longrightarrow> length es \<le> capacity \<Longrightarrow> member (reload t es) m \<longleftrightarrow> m \<in> granted es"
begin

lemma reload_forgets:
  assumes "ready t" and "length es \<le> capacity" and "length es' \<le> capacity"
  shows "member (reload (reload t es) es') = member (reload t es')"
  using assms by (intro ext) (simp add: member_reload ready_reload)

lemma reload_runs:
  assumes "ready t" and "\<forall>es \<in> set ess. length es \<le> capacity" and "ess \<noteq> []"
  shows "member (foldl reload t ess) m \<longleftrightarrow> m \<in> granted (last ess)"
  using assms
proof (induction ess arbitrary: t)
  case (Cons es ess)
  then show ?case
    by (cases "ess = []") (auto simp: member_reload ready_reload)
qed simp

end

interpretation allow_table: reloadable_set allowed_available allowed_contains
  "\<lambda>l es. snd (allowed_rebuild l es)" grants kMaxEntries
  by unfold_locales (auto simp: rebuild_spec)

section \<open>Properties\<close>

text \<open>
  C36. Rebuilding the allow-list table repeatedly (every save of the page) leaves exactly the
  enabled, readable MAC addresses of the last list in it: the hashed lookup with linear probing
  answers as set membership would, and none of the earlier lists shows through either buffer.
\<close>

theorem allowed_table_refines_set:
  assumes "allowed_available l" and "\<forall>es \<in> set ess. length es \<le> kMaxEntries" and "ess \<noteq> []"
  shows "allowed_contains (foldl (\<lambda>l es. snd (allowed_rebuild l es)) l ess) m \<longleftrightarrow> m \<in> grants (last ess)"
  using assms by (rule allow_table.reload_runs)

theorem allowed_table_refines_set_witness:
  "allowed_contains (foldl (\<lambda>l es. snd (allowed_rebuild l es)) (snd (allowed_init allowed_list_new True))
      [[\<lparr>ac_mac = ''24:0a:c4:01:23:45'', ac_name = ''old'', ac_enabled = True\<rparr>],
       [\<lparr>ac_mac = ''24:0A:C4:01:23:46'', ac_name = ''new'', ac_enabled = True\<rparr>]])
      [36, 10, 196, 1, 35, 70] \<longleftrightarrow>
   [36, 10, 196, 1, 35, 70] \<in>
     grants [\<lparr>ac_mac = ''24:0A:C4:01:23:46'', ac_name = ''new'', ac_enabled = True\<rparr>]"
proof -
  let ?l = "snd (allowed_init allowed_list_new True)"
  let ?e1 = "\<lparr>ac_mac = ''24:0a:c4:01:23:45'', ac_name = ''old'', ac_enabled = True\<rparr>"
  let ?e2 = "\<lparr>ac_mac = ''24:0A:C4:01:23:46'', ac_name = ''new'', ac_enabled = True\<rparr>"
  have "allowed_available ?l" by (simp add: allowed_available_def allowed_init_def)
  then show ?thesis
    using allowed_table_refines_set [of ?l "[[?e1], [?e2]]"] by (simp add: kMaxEntries_def)
qed

text \<open>
  The stored text of the allow-list never exceeds the 1024 bytes the settings give it,
  whatever names and however many entries the page sends.
\<close>

lemma allowed_serialize_budget: "length (allowed_serialize l) \<le> kMaxBytes"
  unfolding allowed_serialize_def by (rule serialize_loop_length) simp_all

text \<open>
  C39. A list of at most 25 entries with canonical addresses and storable names is read back
  from its stored text entry for entry, names and Enable switches included.
\<close>

theorem allowed_codec_roundtrip:
  assumes "\<forall>e \<in> set l. canonical e" and "length l \<le> kMaxEntries"
  shows "allowed_parse (allowed_serialize l) = l"
proof (cases "l = []")
  case True
  then show ?thesis
    by (simp add: allowed_serialize_def allowed_parse_def parse_loop.simps parse_line_def trim_def drop_while_end_def)
next
  case False
  let ?b = "\<lambda>e. the (parseMac (ac_mac e))"
  let ?ls = "map (\<lambda>e. (entry_text (?b e) e, e)) l"
  have "parseMac (ac_mac e) = Some (?b e)" if "e \<in> set l" for e
    using that assms(1) parseMac_formatMac by (auto simp: canonical_def)
  then have "\<forall>(t, e) \<in> set ?ls. newline \<notin> set t \<and> parse_line t = Some e"
    using assms(1) entry_text_no_newline parse_line_entry_text by auto
  then have "parse_loop (join_lines (map fst ?ls)) [] = [] @ map snd ?ls"
    using assms(2) False by (intro parse_loop_join) auto
  then show ?thesis
    using serialize_loop_canonical [of l 0 "[]"] assms False
    by (simp add: allowed_serialize_def allowed_parse_def comp_def)
qed

lemma canonical_example:
  "canonical \<lparr>ac_mac = ''24:0a:c4:01:23:45'', ac_name = ''desk pc'', ac_enabled = False\<rparr>"
proof -
  have "formatMac [36, 10, 196, 1, 35, 69] = ''24:0a:c4:01:23:45''"
    by code_simp
  moreover have "sanitizeName ''desk pc'' = ''desk pc''"
    by (simp add: sanitizeName_def storageFieldText_def trim_id isspace_def kMaxNameLen_def)
  ultimately show ?thesis
    unfolding canonical_def by (auto intro!: exI [of _ "[36, 10, 196, 1, 35, 69]"])
qed

theorem allowed_codec_roundtrip_witness:
  "allowed_parse (allowed_serialize
     [\<lparr>ac_mac = ''24:0a:c4:01:23:45'', ac_name = ''desk pc'', ac_enabled = False\<rparr>]) =
   [\<lparr>ac_mac = ''24:0a:c4:01:23:45'', ac_name = ''desk pc'', ac_enabled = False\<rparr>]"
  by (rule allowed_codec_roundtrip) (simp_all add: canonical_example kMaxEntries_def)

text \<open>
  With the switch on and the table in memory, a client is served exactly when its address is
  granted by the list or by an enabled static binding; with the switch off, or with no memory for
  the table, every client is served.
\<close>

lemma allowed_policy_exact:
  assumes "length es \<le> kMaxEntries"
  shows "isClientAllowed m allowOnly (snd (allowed_rebuild l es)) bindings \<longleftrightarrow>
    \<not> allowOnly \<or> \<not> allowed_available l \<or> m \<in> grants es \<or>
    (\<exists>r \<in> set bindings. sr_enabled r \<and> sr_mac r = m)"
proof (cases "allowed_available l")
  case True
  with assms show ?thesis by (simp add: isClientAllowed_def rebuild_spec)
next
  case False
  then have "snd (allowed_rebuild l es) = l"
    by (cases "al_slots l") (auto simp: allowed_available_def allowed_rebuild_def)
  with False show ?thesis by (simp add: isClientAllowed_def)
qed

lemma allowed_policy_exact_witness:
  "isClientAllowed [1, 2, 3, 4, 5, 6] True
     (snd (allowed_rebuild (snd (allowed_init allowed_list_new True)) [])) [] \<longleftrightarrow> False"
  using allowed_policy_exact [of "[]" "[1, 2, 3, 4, 5, 6]" True "snd (allowed_init allowed_list_new True)" "[]"]
  by (simp add: kMaxEntries_def grants_def allowed_available_def allowed_init_def)

text \<open>
  The clean-up of a name is not stable under a second pass: a name cut at 20 bytes can end in
  a blank, which the next read removes, so what the page stored is not what the next boot shows.
\<close>

lemma sanitizeName_not_idempotent:
  "sanitizeName (sanitizeName ''aaaaaaaaaaaaaaaaaaa b'') \<noteq> sanitizeName ''aaaaaaaaaaaaaaaaaaa b''"
proof -
  have "sanitizeName ''aaaaaaaaaaaaaaaaaaa b'' = ''aaaaaaaaaaaaaaaaaaa ''"
    by (simp add: sanitizeName_def storageFieldText_def trim_id isspace_def kMaxNameLen_def)
  moreover have "sanitizeName ''aaaaaaaaaaaaaaaaaaa '' = ''aaaaaaaaaaaaaaaaaaa''"
    by (simp add: sanitizeName_def storageFieldText_def trim_def drop_while_end_def isspace_def kMaxNameLen_def)
  ultimately show ?thesis by simp
qed

end
