(* ===== verification/ClientName.thy ===== *)
theory ClientName
  imports Prelude
begin

text \<open>
  \<open>src/src/dhcp/DhcpClientName.cpp\<close>: the name a client reports about itself (options 12 and 81),
  filtered before it reaches JSON, the page or the settings. \<open>findOption\<close> walks the option list
  it was given and nothing beyond it; \<open>sanitize\<close> keeps printable ASCII and well-formed UTF-8.
  The lemmas show that every name that leaves this component is at most 32 bytes of clean UTF-8
  with no field or line separator in it, and that filtering a filtered name changes nothing.
\<close>

section \<open>Options\<close>

definition kOptPad :: byte where "kOptPad = 0"
definition kOptEnd :: byte where "kOptEnd = 255"
definition kOptHostName :: byte where "kOptHostName = 12"
definition kOptFqdn :: byte where "kOptFqdn = 81"
definition kMaxLen :: nat where "kMaxLen = 32"

text \<open>
  \<open>options\<close> is the \<open>len\<close> bytes the caller passed; the result is the payload of the option, the
  inner \<open>None\<close> a missing one.
\<close>

function findOption_from :: "byte list \<Rightarrow> byte \<Rightarrow> nat \<Rightarrow> byte list option option" where
  "findOption_from options code i =
     (if i < length options then
        (case rd options i of None \<Rightarrow> None | Some opt \<Rightarrow>
         if opt = kOptPad then findOption_from options code (i + 1)
         else if opt = kOptEnd then Some None
         else if i + 1 \<ge> length options then Some None
         else (case rd options (i + 1) of None \<Rightarrow> None | Some optLen \<Rightarrow>
           if i + 2 + unat optLen > length options then Some None
           else if opt = code then map_option Some (rds options (i + 2) (unat optLen))
           else findOption_from options code (i + 2 + unat optLen)))
      else Some None)"
  by pat_completeness auto
termination
  by (relation "measure (\<lambda>(options, code, i). length options - i)") auto

declare findOption_from.simps [simp del]

definition findOption :: "byte list \<Rightarrow> byte \<Rightarrow> byte list option option" where
  "findOption options code = findOption_from options code 0"

function decodeDnsName_from :: "byte list \<Rightarrow> nat \<Rightarrow> string \<Rightarrow> string option" where
  "decodeDnsName_from data i out =
     (if i < length data then
        (case rd data i of None \<Rightarrow> None | Some b \<Rightarrow>
         let labelLen = unat b in
         if labelLen = 0 then Some out
         else if labelLen > 63 \<or> i + 1 + labelLen > length data then Some []
         else (case rds data (i + 1) labelLen of None \<Rightarrow> None | Some label \<Rightarrow>
           decodeDnsName_from data (i + 1 + labelLen)
             ((if out \<noteq> [] then out @ ''.'' else out) @ map byte_char label)))
      else Some out)"
  by pat_completeness auto
termination
  by (relation "measure (\<lambda>(data, i, out). length data - i)") auto

declare decodeDnsName_from.simps [simp del]

definition decodeDnsName :: "byte list \<Rightarrow> string option" where
  "decodeDnsName data = decodeDnsName_from data 0 []"

section \<open>The filter\<close>

definition is_continuation :: "char \<Rightarrow> bool" where
  "is_continuation c \<longleftrightarrow> char_byte c AND 0xC0 = 0x80"

text \<open>The character at the front of a non-empty text: its length in bytes and whether it is kept.\<close>

definition utf8_char :: "string \<Rightarrow> nat \<times> bool" where
  "utf8_char s =
     (let c = char_code (s ! 0) in
      if 0x20 \<le> c \<and> c < 0x7F then (1, s ! 0 \<noteq> CHR ''|'')
      else if 0xC2 \<le> c \<and> c \<le> 0xDF then (2, 1 < length s \<and> is_continuation (s ! 1))
      else if 0xE0 \<le> c \<and> c \<le> 0xEF then
        (3, 2 < length s \<and> is_continuation (s ! 1) \<and> is_continuation (s ! 2))
      else if 0xF0 \<le> c \<and> c \<le> 0xF4 then
        (4, 3 < length s \<and> is_continuation (s ! 1) \<and> is_continuation (s ! 2) \<and> is_continuation (s ! 3))
      else (1, False))"

lemma utf8_char_pos: "0 < fst (utf8_char s)"
  by (simp add: utf8_char_def Let_def)

text \<open>The loop of \<open>sanitize\<close>; \<open>rest\<close> is the text from \<open>i\<close> on.\<close>

function sanitize_loop :: "string \<Rightarrow> string \<Rightarrow> string" where
  "sanitize_loop rest out =
     (if rest = [] then out
      else (let (charLen, keep) = utf8_char rest in
        if keep then
          (if length out + charLen > kMaxLen then out
           else sanitize_loop (drop charLen rest) (out @ take charLen rest))
        else sanitize_loop (drop 1 rest) out))"
  by pat_completeness auto
termination
  by (relation "measure (\<lambda>(rest, out). length rest)")
    (auto, metis diff_less fst_conv length_greater_0_conv utf8_char_pos)

declare sanitize_loop.simps [simp del]

definition blank :: "char \<Rightarrow> bool" where "blank c \<longleftrightarrow> c = CHR '' ''"

definition sanitize :: "string \<Rightarrow> string" where
  "sanitize name = drop_while_end blank (dropWhile blank (sanitize_loop name []))"

definition hostNameOption :: "byte list \<Rightarrow> string option" where
  "hostNameOption options =
     (case findOption options kOptHostName of
        None \<Rightarrow> None
      | Some None \<Rightarrow> Some []
      | Some (Some data) \<Rightarrow>
          Some (if length data = 0 then [] else sanitize (map byte_char (takeWhile (\<lambda>b. b \<noteq> 0) data))))"

definition fqdnOption :: "byte list \<Rightarrow> string option" where
  "fqdnOption options =
     (case findOption options kOptFqdn of
        None \<Rightarrow> None
      | Some None \<Rightarrow> Some []
      | Some (Some data) \<Rightarrow>
          if length data < 3 then Some []
          else
            (case rd data 0 of None \<Rightarrow> None | Some flags \<Rightarrow>
             let name = drop 3 data in
             map_option (\<lambda>value. drop_while_end (\<lambda>c. c = CHR ''.'') (sanitize value))
               (if flags AND 0x04 \<noteq> 0 then decodeDnsName name
                else Some (map byte_char (takeWhile (\<lambda>b. b \<noteq> 0) name)))))"

definition shortLabel :: "string \<Rightarrow> string" where
  "shortLabel name = (case split_at (CHR ''.'') name of None \<Rightarrow> name | Some (a, _) \<Rightarrow> a)"

definition fromOptions :: "byte list \<Rightarrow> string option" where
  "fromOptions options =
     (case hostNameOption options of
        None \<Rightarrow> None
      | Some host \<Rightarrow> if host \<noteq> [] then Some host else map_option shortLabel (fqdnOption options))"

section \<open>Clean text\<close>

text \<open>A unit is one character as the filter keeps it; clean text is a sequence of units.\<close>

definition valid_unit :: "string \<Rightarrow> bool" where
  "valid_unit u \<longleftrightarrow> u \<noteq> [] \<and> utf8_char u = (length u, True)"

definition utf8_clean :: "string \<Rightarrow> bool" where
  "utf8_clean s \<longleftrightarrow> (\<exists>us. concat us = s \<and> (\<forall>u \<in> set us. valid_unit u))"

definition name_safe :: "string \<Rightarrow> bool" where
  "name_safe s \<longleftrightarrow> length s \<le> kMaxLen \<and> utf8_clean s"

lemma utf8_char_keep:
  assumes "s \<noteq> []" and "utf8_char s = (n, True)"
  shows "valid_unit (take n s)" and "n \<le> length s"
proof -
  have "0 < length s" using assms(1) by simp
  with assms(2) show "n \<le> length s"
    by (auto simp: utf8_char_def Let_def Suc_le_eq split: if_splits)
  then have "length (take n s) = n" by simp
  moreover have "0 < n" using utf8_char_pos [of s] assms(2) by simp
  moreover have "utf8_char (take n s) = (n, True)"
    using assms(2) \<open>n \<le> length s\<close> by (auto simp: utf8_char_def Let_def split: if_splits)
  ultimately show "valid_unit (take n s)" by (simp add: valid_unit_def assms(1))
qed

lemma utf8_char_append: "valid_unit u \<Longrightarrow> utf8_char (u @ s) = (length u, True)"
  unfolding valid_unit_def
  by (auto simp: utf8_char_def Let_def nth_append split: if_splits)

lemma is_continuation_bounds: "is_continuation c \<Longrightarrow> 128 \<le> char_code c"
proof -
  assume "is_continuation c"
  then have "0x80 \<le> char_byte c"
    using word_and_le2 [of "char_byte c" "0xC0"] by (simp add: is_continuation_def)
  then show ?thesis by (simp add: word_le_nat_alt char_byte_def unat_of_nat)
qed

lemma valid_unit_cases:
  assumes "valid_unit u"
  shows "(\<exists>c. u = [c] \<and> 32 \<le> char_code c \<and> char_code c < 127 \<and> c \<noteq> CHR ''|'') \<or>
    (\<forall>c \<in> set u. 128 \<le> char_code c)"
proof (cases "length u = 1")
  case True
  then obtain c where "u = [c]" by (auto simp: length_Suc_conv)
  with assms show ?thesis by (auto simp: valid_unit_def utf8_char_def Let_def split: if_splits)
next
  case False
  have u: "u ! 0 \<in> set u" using assms by (simp add: valid_unit_def)
  from False assms have hd: "0xC2 \<le> char_code (u ! 0)"
    by (auto simp: valid_unit_def utf8_char_def Let_def split: if_splits)
  have "is_continuation (u ! i)" if "0 < i" "i < length u" for i
  proof -
    have "i = 1 \<or> i = 2 \<or> i = 3" "length u \<le> 4"
      using that assms by (auto simp: valid_unit_def utf8_char_def Let_def split: if_splits)
    then consider "i = 1" | "i = 2" | "i = 3" by blast
    then show ?thesis
      using that assms False
      by cases (auto simp: valid_unit_def utf8_char_def Let_def numeral_2_eq_2 split: if_splits)
  qed
  then have "128 \<le> char_code (u ! i)" if "i < length u" for i
    using that hd is_continuation_bounds by (cases "i = 0") auto
  then show ?thesis by (auto simp: in_set_conv_nth)
qed

lemma valid_unit_ascii: "valid_unit u \<Longrightarrow> c \<in> set u \<Longrightarrow> char_code c < 128 \<Longrightarrow> u = [c]"
  using valid_unit_cases [of u] by auto

lemma utf8_clean_chars:
  assumes "utf8_clean s" and "c \<in> set s"
  shows "32 \<le> char_code c \<and> char_code c \<noteq> 127 \<and> c \<noteq> CHR ''|''"
proof -
  obtain u where "valid_unit u" "c \<in> set u"
    using assms unfolding utf8_clean_def by (metis (no_types, lifting) UN_E set_concat)
  then show ?thesis using valid_unit_cases [of u] by force
qed

text \<open>Cutting clean text at an ASCII character leaves clean text: a unit is never split.\<close>

lemma dropWhile_units:
  assumes "\<forall>u \<in> set us. valid_unit u" and "char_code a < 128"
  shows "dropWhile (\<lambda>c. c = a) (concat us) = concat (dropWhile (\<lambda>u. u = [a]) us)"
  using assms(1)
proof (induction us)
  case (Cons u us)
  show ?case
  proof (cases "u = [a]")
    case False
    have "u \<noteq> []" "hd u \<noteq> a"
      using Cons.prems False assms(2) valid_unit_ascii [of u a] by (auto simp: valid_unit_def)
    with False show ?thesis by (cases u) auto
  qed (use Cons in simp)
qed simp

lemma drop_while_end_units:
  assumes "\<forall>u \<in> set us. valid_unit u" and "char_code a < 128"
  shows "drop_while_end (\<lambda>c. c = a) (concat us) = concat (drop_while_end (\<lambda>u. u = [a]) us)"
  using assms(1)
proof (induction us rule: rev_induct)
  case (snoc u us)
  show ?case
  proof (cases "u = [a]")
    case True
    with snoc show ?thesis by (simp add: drop_while_end_def)
  next
    case False
    have "u \<noteq> []" "last u \<noteq> a"
      using snoc.prems False assms(2) valid_unit_ascii [of u a] by (auto simp: valid_unit_def)
    with False show ?thesis
      by (subst drop_while_end_id) (auto simp: drop_while_end_def)
  qed
qed (simp add: drop_while_end_def)

lemma split_at_units:
  assumes "\<forall>u \<in> set us. valid_unit u" and "char_code a < 128"
    and "split_at a (concat us) = Some (x, y)"
  shows "x = concat (takeWhile (\<lambda>u. u \<noteq> [a]) us)"
  using assms(1,3)
proof (induction us arbitrary: x)
  case (Cons u us)
  have skip: "split_at a (v @ w) = map_option (\<lambda>(p, q). (v @ p, q)) (split_at a w)" if "a \<notin> set v" for v w
    using that by (induction v) (auto simp: option.map_comp comp_def split_def option.map_ident)
  show ?case
  proof (cases "u = [a]")
    case False
    then have "a \<notin> set u" using Cons.prems(1) assms(2) valid_unit_ascii [of u a] by auto
    with Cons False show ?thesis by (auto simp: skip)
  qed (use Cons in simp)
qed simp

lemma utf8_clean_dropWhile: "utf8_clean s \<Longrightarrow> char_code a < 128 \<Longrightarrow> utf8_clean (dropWhile (\<lambda>c. c = a) s)"
  unfolding utf8_clean_def by (metis dropWhile_units set_dropWhileD)

lemma utf8_clean_drop_end: "utf8_clean s \<Longrightarrow> char_code a < 128 \<Longrightarrow> utf8_clean (drop_while_end (\<lambda>c. c = a) s)"
  unfolding utf8_clean_def by (metis drop_while_end_units set_drop_while_end subsetD)

lemma utf8_clean_split_at:
  "utf8_clean s \<Longrightarrow> char_code a < 128 \<Longrightarrow> split_at a s = Some (x, y) \<Longrightarrow> utf8_clean x"
  unfolding utf8_clean_def by (metis split_at_units set_takeWhileD)

lemma name_safe_sublist:
  "name_safe s \<Longrightarrow> char_code a < 128 \<Longrightarrow> name_safe (dropWhile (\<lambda>c. c = a) s)"
  "name_safe s \<Longrightarrow> char_code a < 128 \<Longrightarrow> name_safe (drop_while_end (\<lambda>c. c = a) s)"
  "name_safe s \<Longrightarrow> char_code a < 128 \<Longrightarrow> split_at a s = Some (x, y) \<Longrightarrow> name_safe x"
  unfolding name_safe_def
  using le_trans [OF length_dropWhile_le] utf8_clean_dropWhile [of s a] le_trans [OF drop_while_end_length]
    utf8_clean_drop_end [of s a] split_at_length [of a s x y] utf8_clean_split_at [of s a x y] by auto

lemma name_safe_Nil [simp]: "name_safe []"
  by (auto simp: name_safe_def utf8_clean_def intro: exI [of _ "[]"])

section \<open>What the filter promises\<close>

lemma sanitize_loop_safe: "name_safe out \<Longrightarrow> name_safe (sanitize_loop rest out)"
proof (induction rest out rule: sanitize_loop.induct)
  case (1 rest out)
  obtain n keep where u: "utf8_char rest = (n, keep)" by (cases "utf8_char rest")
  show ?case
  proof (cases "rest = [] \<or> (keep \<and> length out + n > kMaxLen)")
    case True
    with "1.prems" show ?thesis by (auto simp: sanitize_loop.simps [of rest] u)
  next
    case go: False
    show ?thesis
    proof (cases keep)
      case True
      have unit: "valid_unit (take n rest)" "n \<le> length rest"
        using utf8_char_keep [of rest n] u go True by auto
      obtain us where us: "concat us = out" "\<forall>u \<in> set us. valid_unit u"
        using "1.prems" by (auto simp: name_safe_def utf8_clean_def)
      have "name_safe (out @ take n rest)"
        using go True unit us by (auto simp: name_safe_def utf8_clean_def intro!: exI [of _ "us @ [take n rest]"])
      then show ?thesis
        using "1.IH"(1) go True u by (simp add: sanitize_loop.simps [of rest])
    next
      case False
      then show ?thesis
        using "1.IH"(2) "1.prems" go u by (simp add: sanitize_loop.simps [of rest])
    qed
  qed
qed

lemma sanitize_loop_units:
  "\<forall>u \<in> set us. valid_unit u \<Longrightarrow> length out + length (concat us) \<le> kMaxLen \<Longrightarrow>
   sanitize_loop (concat us) out = out @ concat us"
proof (induction us arbitrary: out)
  case Nil
  then show ?case by (simp add: sanitize_loop.simps)
next
  case (Cons u us)
  then have "u \<noteq> []" "utf8_char (u @ concat us) = (length u, True)"
    by (auto simp: valid_unit_def [of u] intro!: utf8_char_append)
  with Cons show ?case by (subst sanitize_loop.simps) simp
qed

lemma blank_eq: "blank = (\<lambda>c. c = CHR '' '')"
  by (simp add: blank_def fun_eq_iff)

lemma sanitize_safe: "name_safe (sanitize name)"
  unfolding sanitize_def blank_eq
  by (intro name_safe_sublist(2) name_safe_sublist(1) sanitize_loop_safe) simp_all

lemma sanitize_edges:
  assumes "sanitize name \<noteq> []"
  shows "\<not> blank (hd (sanitize name))" and "\<not> blank (last (sanitize name))"
proof -
  let ?d = "dropWhile blank (sanitize_loop name [])"
  obtain n where n: "sanitize name = take n ?d"
    unfolding sanitize_def using drop_while_end_eq_prefix by blast
  then have "hd (sanitize name) = hd ?d" and "?d \<noteq> []" using assms by (auto simp: hd_take)
  then show "\<not> blank (hd (sanitize name))" by (simp add: hd_dropWhile)
  show "\<not> blank (last (sanitize name))"
    using assms unfolding sanitize_def by (rule drop_while_end_last)
qed

lemma sanitize_id:
  assumes "name_safe s" and "s = [] \<or> (\<not> blank (hd s) \<and> \<not> blank (last s))"
  shows "sanitize s = s"
proof -
  obtain us where "concat us = s" "\<forall>u \<in> set us. valid_unit u" "length s \<le> kMaxLen"
    using assms(1) by (auto simp: name_safe_def utf8_clean_def)
  then have "sanitize_loop s [] = s" using sanitize_loop_units [of us "[]"] by simp
  then show ?thesis
    using assms(2) unfolding sanitize_def by (cases s) (auto simp: drop_while_end_id)
qed

lemma shortLabel_safe: "name_safe s \<Longrightarrow> name_safe (shortLabel s)"
  by (auto simp: shortLabel_def split: option.splits intro: name_safe_sublist(3) [of s "CHR ''.''"])

text \<open>No read leaves the options or the name inside them.\<close>

lemma findOption_total: "findOption options code \<noteq> None"
proof -
  have "findOption_from options code i \<noteq> None" for i
  proof (induction options code i rule: findOption_from.induct)
    case (1 options code i)
    show ?case
      by (subst findOption_from.simps) (use 1 in \<open>auto simp del: not_None_eq\<close>)
  qed
  then show ?thesis by (simp add: findOption_def)
qed

lemma decodeDnsName_total: "decodeDnsName data \<noteq> None"
proof -
  have "decodeDnsName_from data i out \<noteq> None" for i out
  proof (induction data i out rule: decodeDnsName_from.induct)
    case (1 data i out)
    show ?case
      by (subst decodeDnsName_from.simps) (use 1 in \<open>auto simp: Let_def simp del: not_None_eq\<close>)
  qed
  then show ?thesis by (simp add: decodeDnsName_def)
qed

lemma fromOptions_total: "fromOptions options \<noteq> None"
  using findOption_total [of options] decodeDnsName_total
  by (auto simp: fromOptions_def hostNameOption_def fqdnOption_def Let_def rd_eq_None_iff
      simp del: not_None_eq split: option.splits)

lemma fromOptions_safe: "fromOptions options = Some name \<Longrightarrow> name_safe name"
  by (auto simp: fromOptions_def hostNameOption_def fqdnOption_def Let_def sanitize_safe
      intro!: shortLabel_safe name_safe_sublist(2) split: option.splits if_splits)

section \<open>Properties\<close>


text \<open>
  Filtering a name that was already filtered changes nothing, so a name survives any number of
  trips through the page and the settings.
\<close>

lemma sanitize_idempotent: "sanitize (sanitize name) = sanitize name"
  by (rule sanitize_id) (use sanitize_safe sanitize_edges in blast)+

end
