(* ===== verification/DnsMsg.thy ===== *)
theory DnsMsg
  imports Prelude "HOL-Library.Monad_Syntax"
begin

text \<open>
  \<open>src/src/dhcp/DnsMessage.cpp\<close>, \<open>PtrProbe.cpp\<close> and \<open>NbstatProbe.cpp\<close>: the envelope the two
  name probes share and the probes themselves. A datagram is a byte list and every read of it is
  \<open>rd\<close>, which is \<open>None\<close> outside the datagram, so that the memory safety of the parsers is the
  theorem that they never return \<open>None\<close>, whatever a stranger sends. The name walk follows
  compression pointers; it terminates because a pointer uses one of eight jumps and a label moves
  forward. The socket of a probe is a parameter: \<open>net\<close> maps the destination and the request to
  the answer that arrived in time, if any, with the address it came from.
\<close>

section \<open>The envelope\<close>

definition kHeaderBytes :: nat where "kHeaderBytes = 12"
definition kQuestionTailBytes :: nat where "kQuestionTailBytes = 4"
definition kRecordFixedBytes :: nat where "kRecordFixedBytes = 10"
definition kRdLengthOffset :: nat where "kRdLengthOffset = 8"
definition kMaxLabelBytes :: nat where "kMaxLabelBytes = 63"
definition kMaxNameJumps :: nat where "kMaxNameJumps = 8"

lemmas dns_consts = kHeaderBytes_def kQuestionTailBytes_def kRecordFixedBytes_def
  kRdLengthOffset_def kMaxLabelBytes_def kMaxNameJumps_def

definition rd16 :: "byte list \<Rightarrow> nat \<Rightarrow> u16 option" where
  "rd16 buf i = do { hi \<leftarrow> rd buf i; lo \<leftarrow> rd buf (i + 1); Some (be16 hi lo) }"

lemma rd16_Some [simp]: "i + 1 < length buf \<Longrightarrow> rd16 buf i = Some (be16 (buf ! i) (buf ! (i + 1)))"
  by (simp add: rd16_def)

text \<open>The inner result is \<open>None\<close> when \<open>readHeader\<close> returns false.\<close>

definition readHeader :: "byte list \<Rightarrow> u16 \<Rightarrow> (u16 \<times> u16) option option" where
  "readHeader buf qid =
     (if length buf < kHeaderBytes then Some None
      else do {
        answerId \<leftarrow> rd16 buf 0;
        if answerId \<noteq> qid then Some None else do {
          f1 \<leftarrow> rd buf 2;
          if f1 AND 0x80 = 0 then Some None else do {
            f2 \<leftarrow> rd buf 3;
            if f2 AND 0x0F \<noteq> 0 then Some None else do {
              qd \<leftarrow> rd16 buf 4;
              an \<leftarrow> rd16 buf 6;
              Some (Some (qd, an)) }}}})"

definition pointer_target :: "byte \<Rightarrow> byte \<Rightarrow> nat" where
  "pointer_target label lo = push_bit 8 (unat (label AND 0x3F)) OR unat lo"

function skipName_from :: "byte list \<Rightarrow> nat \<Rightarrow> nat \<Rightarrow> nat option" where
  "skipName_from buf off jumps =
     (if off < length buf then
        (case rd buf off of None \<Rightarrow> None | Some label \<Rightarrow>
           if label = 0 then Some (off + 1)
           else if label AND 0xC0 = 0xC0 then
             (if off + 1 \<ge> length buf then Some (length buf + 1)
              else if jumps + 1 > kMaxNameJumps then Some (length buf + 1)
              else (case rd buf (off + 1) of None \<Rightarrow> None | Some lo \<Rightarrow>
                      if pointer_target label lo \<ge> off then Some (length buf + 1) else Some (off + 2)))
           else if unat label > kMaxLabelBytes \<or> off + 1 + unat label > length buf
             then Some (length buf + 1)
           else skipName_from buf (off + 1 + unat label) jumps)
      else Some (length buf + 1))"
  by pat_completeness auto
termination
  by (relation "measure (\<lambda>(buf, off, jumps). length buf - off)") auto

declare skipName_from.simps [simp del]

definition skipName :: "byte list \<Rightarrow> nat \<Rightarrow> nat option" where
  "skipName buf off = skipName_from buf off 0"

function decodeName_from :: "byte list \<Rightarrow> nat \<Rightarrow> nat \<Rightarrow> string \<Rightarrow> string option" where
  "decodeName_from buf off jumps out =
     (if off < length buf then
        (case rd buf off of None \<Rightarrow> None | Some label \<Rightarrow>
           if label = 0 then Some out
           else if label AND 0xC0 = 0xC0 then
             (if off + 1 \<ge> length buf then Some []
              else if jumps + 1 > kMaxNameJumps then Some []
              else (case rd buf (off + 1) of None \<Rightarrow> None | Some lo \<Rightarrow>
                      if pointer_target label lo \<ge> off then Some []
                      else decodeName_from buf (pointer_target label lo) (jumps + 1) out))
           else if unat label > kMaxLabelBytes \<or> off + 1 + unat label > length buf then Some []
           else (case rds buf (off + 1) (unat label) of None \<Rightarrow> None | Some part \<Rightarrow>
             decodeName_from buf (off + 1 + unat label) jumps
               ((if out \<noteq> [] then out @ ''.'' else out) @ map byte_char part)))
      else Some out)"
  by pat_completeness auto
termination
  by (relation "measures [\<lambda>(buf, off, jumps, out). kMaxNameJumps - jumps,
                          \<lambda>(buf, off, jumps, out). length buf - off]") auto

declare decodeName_from.simps [simp del]

definition decodeName :: "byte list \<Rightarrow> nat \<Rightarrow> string option" where
  "decodeName buf off = decodeName_from buf off 0 []"

text \<open>The question section: \<open>questions\<close> names are skipped; the inner \<open>None\<close> is a damaged message.\<close>

fun skipQuestions :: "byte list \<Rightarrow> nat \<Rightarrow> nat \<Rightarrow> nat option option" where
  "skipQuestions buf 0 off = Some (Some off)"
| "skipQuestions buf (Suc n) off =
     (case skipName buf off of None \<Rightarrow> None | Some o2 \<Rightarrow>
        if o2 + kQuestionTailBytes > length buf then Some None
        else skipQuestions buf n (o2 + kQuestionTailBytes))"

section \<open>The reverse-lookup probe\<close>

definition kTypePtr :: u16 where "kTypePtr = 12"
definition kPtrMaxQueryBytes :: nat where "kPtrMaxQueryBytes = 64"

text \<open>One length-prefixed label appended to the query; \<open>None\<close> when the query would grow too long.\<close>

definition ptr_label :: "byte list \<Rightarrow> string \<Rightarrow> byte list option" where
  "ptr_label q part =
     (if length q + 1 + length part \<ge> kPtrMaxQueryBytes then None
      else Some (q @ of_nat (length part) # map char_byte part))"

definition ptr_octet :: "byte list \<Rightarrow> byte \<Rightarrow> byte list option" where
  "ptr_octet q octet =
     (let label = dec_str (unat octet) in
      if length label = 0 \<or> length label > 3 then None else ptr_label q label)"

definition ptr_buildQuery :: "u32 \<Rightarrow> u16 \<Rightarrow> byte list" where
  "ptr_buildQuery ipNet qid =
     (if ipNet = 0 \<or> ipNet = 0xFFFFFFFF then []
      else
        (let octets = mem32 ipNet;
             hdr = [ucast (drop_bit 8 qid), ucast qid, 0x01, 0x00, 0x00, 0x01,
                    0x00, 0x00, 0x00, 0x00, 0x00, 0x00];
             r = do {
               q \<leftarrow> ptr_octet hdr (octets ! 3);
               q \<leftarrow> ptr_octet q (octets ! 2);
               q \<leftarrow> ptr_octet q (octets ! 1);
               q \<leftarrow> ptr_octet q (octets ! 0);
               q \<leftarrow> ptr_label q ''in-addr'';
               q \<leftarrow> ptr_label q ''arpa'';
               Some (q @ [0x00, 0x00, 0x0C, 0x00, 0x01]) }
         in case r of None \<Rightarrow> [] | Some q \<Rightarrow> q))"

fun ptr_answers :: "byte list \<Rightarrow> nat \<Rightarrow> nat \<Rightarrow> string option" where
  "ptr_answers buf 0 off = Some []"
| "ptr_answers buf (Suc n) off =
     (case skipName buf off of None \<Rightarrow> None | Some o2 \<Rightarrow>
        if o2 + kRecordFixedBytes > length buf then Some []
        else do {
          ty \<leftarrow> rd16 buf o2;
          rdLength \<leftarrow> rd16 buf (o2 + kRdLengthOffset);
          if o2 + kRecordFixedBytes + unat rdLength > length buf then Some []
          else if ty = kTypePtr then decodeName buf (o2 + kRecordFixedBytes)
          else ptr_answers buf n (o2 + kRecordFixedBytes + unat rdLength) })"

definition ptr_parseResponse :: "byte list \<Rightarrow> u16 \<Rightarrow> string option" where
  "ptr_parseResponse buf qid =
     (case readHeader buf qid of
        None \<Rightarrow> None
      | Some None \<Rightarrow> Some []
      | Some (Some (questions, answers)) \<Rightarrow>
          if answers = 0 then Some []
          else (case skipQuestions buf (unat questions) kHeaderBytes of
                  None \<Rightarrow> None
                | Some None \<Rightarrow> Some []
                | Some (Some off) \<Rightarrow> ptr_answers buf (unat answers) off))"

definition nextId :: "u32 \<Rightarrow> u16" where
  "nextId random = (let qid = ucast (random AND 0xFFFF) in if qid = 0 then 1 else qid)"

type_synonym network = "u32 \<Rightarrow> byte list \<Rightarrow> (u32 \<times> byte list) option"

definition ptr_query :: "network \<Rightarrow> u32 \<Rightarrow> u32 \<Rightarrow> u32 \<Rightarrow> string option" where
  "ptr_query net random ipNet serverNet =
     (if serverNet = 0 then Some []
      else
        (let request = ptr_buildQuery ipNet (nextId random) in
         if request = [] then Some []
         else do {
           qid \<leftarrow> rd16 request 0;
           (case net serverNet request of
              None \<Rightarrow> Some []
            | Some (from_addr, answer) \<Rightarrow>
                if from_addr = serverNet then ptr_parseResponse (take 512 answer) qid else Some []) }))"

section \<open>The NetBIOS node-status probe\<close>

definition kTypeNbstat :: u16 where "kTypeNbstat = 0x0021"
definition kEntryBytes :: nat where "kEntryBytes = 18"

record name_entry =
  ne_name :: string
  ne_suffix :: byte
  ne_flags :: u16

definition read_entry :: "byte list \<Rightarrow> nat \<Rightarrow> name_entry option" where
  "read_entry buf off =
     (if off + kEntryBytes \<le> length buf then
        (let entry = take kEntryBytes (drop off buf) in
         Some \<lparr>ne_name = map byte_char (drop_while_end (\<lambda>b. b = 0x20 \<or> b = 0) (take 15 entry)),
               ne_suffix = entry ! 15, ne_flags = be16 (entry ! 16) (entry ! 17)\<rparr>)
      else None)"

fun read_entries :: "byte list \<Rightarrow> nat \<Rightarrow> nat \<Rightarrow> name_entry list option" where
  "read_entries buf off 0 = Some []"
| "read_entries buf off (Suc n) =
     (case read_entry buf off of None \<Rightarrow> None | Some e \<Rightarrow>
        map_option (\<lambda>es. e # es) (read_entries buf (off + kEntryBytes) n))"

text \<open>\<open>limit\<close> is the end of the record data; the inner \<open>None\<close> is a table that does not fit.\<close>

definition readTable :: "byte list \<Rightarrow> nat \<Rightarrow> nat \<Rightarrow> byte \<Rightarrow> name_entry list option option" where
  "readTable buf limit off count =
     (if off + unat count * kEntryBytes > limit then Some None
      else map_option Some (read_entries buf off (unat count)))"

fun nb_pick :: "name_entry list \<Rightarrow> string \<Rightarrow> string" where
  "nb_pick [] firstUnique = firstUnique"
| "nb_pick (e # es) firstUnique =
     (if ne_flags e AND 0x8000 \<noteq> 0 then nb_pick es firstUnique
      else if ne_name e = [] then nb_pick es firstUnique
      else if ne_suffix e = 0x00 then ne_name e
      else nb_pick es (if firstUnique = [] then ne_name e else firstUnique))"

definition nb_buildQuery :: "u16 \<Rightarrow> byte list" where
  "nb_buildQuery qid =
     [ucast (drop_bit 8 qid), ucast qid, 0, 0, 0, 1, 0, 0, 0, 0, 0, 0] @
     [32] @ concat (map (\<lambda>b. [65 + drop_bit 4 b, 65 + (b AND 0x0F)]) (0x2A # replicate 15 0)) @
     [0, 0x00, 0x21, 0x00, 0x01]"

fun nb_answers :: "byte list \<Rightarrow> nat \<Rightarrow> nat \<Rightarrow> string option" where
  "nb_answers buf 0 off = Some []"
| "nb_answers buf (Suc n) off =
     (case skipName buf off of None \<Rightarrow> None | Some o2 \<Rightarrow>
        if o2 + kRecordFixedBytes > length buf then Some []
        else do {
          ty \<leftarrow> rd16 buf o2;
          rdLength \<leftarrow> rd16 buf (o2 + kRdLengthOffset);
          if o2 + kRecordFixedBytes + unat rdLength > length buf then Some []
          else if ty \<noteq> kTypeNbstat then nb_answers buf n (o2 + kRecordFixedBytes + unat rdLength)
          else
            (let table = o2 + kRecordFixedBytes in
             if unat rdLength < 1 \<or> table + unat rdLength > length buf then Some []
             else do {
               count \<leftarrow> rd buf table;
               entries \<leftarrow> readTable buf (table + unat rdLength) (table + 1) count;
               (case entries of None \<Rightarrow> Some [] | Some es \<Rightarrow> Some (nb_pick es [])) }) })"

definition nb_parseResponse :: "byte list \<Rightarrow> u16 \<Rightarrow> string option" where
  "nb_parseResponse buf qid =
     (case readHeader buf qid of
        None \<Rightarrow> None
      | Some None \<Rightarrow> Some []
      | Some (Some (questions, answers)) \<Rightarrow>
          if answers = 0 then Some []
          else (case skipQuestions buf (unat questions) kHeaderBytes of
                  None \<Rightarrow> None
                | Some None \<Rightarrow> Some []
                | Some (Some off) \<Rightarrow> nb_answers buf (unat answers) off))"

definition nb_query :: "network \<Rightarrow> u32 \<Rightarrow> u32 \<Rightarrow> string option" where
  "nb_query net random ipNet =
     (if ipNet = 0 \<or> ipNet = 0xFFFFFFFF then Some []
      else
        (let request = nb_buildQuery (nextId random) in
         do {
           qid \<leftarrow> rd16 request 0;
           (case net ipNet request of
              None \<Rightarrow> Some []
            | Some (from_addr, answer) \<Rightarrow>
                if from_addr = ipNet then nb_parseResponse (take 1024 answer) qid else Some []) }))"

section \<open>Reads stay inside the datagram\<close>

lemma readHeader_safe [mem_safe]: "readHeader buf qid \<noteq> None"
  by (auto simp: readHeader_def dns_consts)

lemma skipName_from_safe:
  "\<exists>r. skipName_from buf off jumps = Some r \<and> r \<le> length buf + 1"
proof (induction buf off jumps rule: skipName_from.induct)
  case (1 buf off jumps)
  show ?case
  proof (cases "off < length buf")
    case False
    then show ?thesis by (subst skipName_from.simps) simp
  next
    case True
    then have r: "rd buf off = Some (buf ! off)" by simp
    show ?thesis
    proof (cases "buf ! off = 0 \<or> buf ! off AND 0xC0 = 0xC0 \<or>
        unat (buf ! off) > kMaxLabelBytes \<or> off + 1 + unat (buf ! off) > length buf")
      case stop: True
      with True show ?thesis by (subst skipName_from.simps) (auto split: option.splits)
    next
      case go: False
      with True "1.IH" [OF True r] show ?thesis by (subst skipName_from.simps) simp
    qed
  qed
qed

lemma skipName_safe: obtains r where "skipName buf off = Some r" and "r \<le> length buf + 1"
  using skipName_from_safe unfolding skipName_def by blast

lemma decodeName_from_safe: "decodeName_from buf off jumps out \<noteq> None"
proof (induction buf off jumps out rule: decodeName_from.induct)
  case (1 buf off jumps out)
  show ?case
  proof (cases "off < length buf")
    case False
    then show ?thesis by (subst decodeName_from.simps) simp
  next
    case True
    then have r: "rd buf off = Some (buf ! off)" by simp
    show ?thesis
      using True "1.IH"(1) [OF True r] "1.IH"(2) [OF True r]
      by (subst decodeName_from.simps) (auto simp: r rds_def split: option.splits simp: rd_eq_None_iff)
  qed
qed

lemma decodeName_safe [mem_safe]: "decodeName buf off \<noteq> None"
  unfolding decodeName_def by (rule decodeName_from_safe)

lemma skipQuestions_safe [mem_safe]: "skipQuestions buf n off \<noteq> None"
proof (induction n arbitrary: off)
  case (Suc n)
  obtain r where "skipName buf off = Some r" by (rule skipName_safe)
  with Suc show ?case by simp
qed simp

lemma ptr_answers_safe [mem_safe]: "ptr_answers buf n off \<noteq> None"
proof (induction n arbitrary: off)
  case (Suc n)
  obtain r where r: "skipName buf off = Some r" by (rule skipName_safe)
  show ?case
    using Suc mem_safe by (auto simp: r dns_consts)
qed simp

lemma read_entries_safe: "off + n * kEntryBytes \<le> length buf \<Longrightarrow> read_entries buf off n \<noteq> None"
proof (induction n arbitrary: off)
  case (Suc n)
  then show ?case by (auto simp: read_entry_def Let_def)
qed simp

lemma readTable_safe [mem_safe]: "limit \<le> length buf \<Longrightarrow> readTable buf limit off count \<noteq> None"
  using read_entries_safe [of off "unat count" buf] by (auto simp: readTable_def)

lemma readTable_NoneD: "readTable buf limit off count = None \<Longrightarrow> length buf < limit"
  by (rule ccontr) (simp add: readTable_safe)

lemma nb_answers_safe [mem_safe]: "nb_answers buf n off \<noteq> None"
proof (induction n arbitrary: off)
  case (Suc n)
  obtain r where r: "skipName buf off = Some r" by (rule skipName_safe)
  show ?case
    using Suc
    by (auto simp: r dns_consts Let_def simp del: not_None_eq dest: readTable_NoneD
        split: option.splits Option.bind_splits)
qed simp

lemma ptr_parseResponse_safe [mem_safe]: "ptr_parseResponse buf qid \<noteq> None"
  by (auto simp: mem_safe ptr_parseResponse_def simp del: not_None_eq split: option.splits)

lemma nb_parseResponse_safe [mem_safe]: "nb_parseResponse buf qid \<noteq> None"
  by (auto simp: mem_safe nb_parseResponse_def simp del: not_None_eq split: option.splits)

section \<open>Writing a name and reading it back\<close>

definition label_bytes :: "string \<Rightarrow> byte list" where
  "label_bytes part = of_nat (length part) # map char_byte part"

text \<open>The dotted text the walk builds from a sequence of labels.\<close>

fun dotted :: "string \<Rightarrow> string list \<Rightarrow> string" where
  "dotted out [] = out"
| "dotted out (p # ps) = dotted ((if out \<noteq> [] then out @ ''.'' else out) @ p) ps"

lemma unat_small: "n < 256 \<Longrightarrow> unat (of_nat n :: byte) = n"
  by (simp add: unat_of_nat)

lemma small_label_type: "n < 192 \<Longrightarrow> (of_nat n :: byte) AND 0xC0 \<noteq> 0xC0"
proof
  assume "n < 192" and eq: "(of_nat n :: byte) AND 0xC0 = 0xC0"
  have "(0xC0 :: byte) \<le> of_nat n" using word_and_le2 [of "of_nat n :: byte" "0xC0"] eq by simp
  then show False using \<open>n < 192\<close> by (simp add: word_le_nat_alt unat_small)
qed

lemma decodeName_labels:
  assumes "\<forall>p \<in> set ps. 0 < length p \<and> length p \<le> 63"
  shows "decodeName_from (pre @ concat (map label_bytes ps) @ 0 # tail) (length pre) jumps out =
    Some (dotted out ps)"
  using assms
proof (induction ps arbitrary: pre out)
  case Nil
  then show ?case by (subst decodeName_from.simps) simp
next
  case (Cons p ps)
  let ?buf = "pre @ concat (map label_bytes (p # ps)) @ 0 # tail"
  have p: "0 < length p" "length p \<le> 63" using Cons.prems by auto
  have lab: "?buf ! length pre = of_nat (length p)" by (simp add: label_bytes_def)
  have u: "unat (of_nat (length p) :: byte) = length p" using p by (intro unat_small) linarith
  then have nz: "(of_nat (length p) :: byte) \<noteq> 0" using p(1) by (metis less_irrefl unat_0)
  have ty: "(of_nat (length p) :: byte) AND 0xC0 \<noteq> 0xC0"
    using p(2) by (intro small_label_type) linarith
  have lbl: "map byte_char (take (length p) (drop (length pre + 1) ?buf)) = p"
    by (simp add: label_bytes_def comp_def)
  have "decodeName_from ?buf (length pre) jumps out =
      decodeName_from ?buf (length pre + 1 + length p) jumps
        ((if out \<noteq> [] then out @ ''.'' else out) @ p)"
  proof -
    have in1: "length pre < length ?buf" and in2: "\<not> length pre + 1 + length p > length ?buf"
      by (simp_all add: label_bytes_def)
    have r: "rd ?buf (length pre) = Some (of_nat (length p))"
      using in1 lab by (simp only: rd_Some)
    have s: "rds ?buf (length pre + 1) (length p) = Some (take (length p) (drop (length pre + 1) ?buf))"
      using in2 by (intro rds_Some) linarith
    show ?thesis
      by (subst decodeName_from.simps)
        (simp only: in1 r s option.case if_True nz ty u lbl in2 if_False
          p(2) [folded kMaxLabelBytes_def not_less] simp_thms)
  qed
  also have "\<dots> = decodeName_from ((pre @ label_bytes p) @ concat (map label_bytes ps) @ 0 # tail)
      (length (pre @ label_bytes p)) jumps ((if out \<noteq> [] then out @ ''.'' else out) @ p)"
    by (simp add: label_bytes_def)
  also have "\<dots> = Some (dotted out (p # ps))"
    using Cons.IH [of "pre @ label_bytes p"] Cons.prems by simp
  finally show ?case .
qed

definition ptr_labels :: "u32 \<Rightarrow> string list" where
  "ptr_labels ip = map (\<lambda>b. dec_str (unat b)) (rev (mem32 ip)) @ [''in-addr'', ''arpa'']"

lemma ptr_octet_Some:
  "length q + 4 < kPtrMaxQueryBytes \<Longrightarrow> ptr_octet q b = Some (q @ label_bytes (dec_str (unat b)))"
  using length_dec_str_byte [of "unat b"] by (simp add: ptr_octet_def ptr_label_def label_bytes_def Let_def)

lemma length_label_octet: "length (label_bytes (dec_str (unat (b :: byte)))) \<le> 4"
  using length_dec_str_byte [of "unat b"] by (simp add: label_bytes_def)

lemma ptr_buildQuery_eq:
  assumes "ip \<noteq> 0" and "ip \<noteq> 0xFFFFFFFF"
  shows "ptr_buildQuery ip qid =
    [ucast (drop_bit 8 qid), ucast qid, 0x01, 0x00, 0x00, 0x01, 0x00, 0x00, 0x00, 0x00, 0x00, 0x00] @
    concat (map label_bytes (ptr_labels ip)) @ 0x00 # [0x00, 0x0C, 0x00, 0x01]"
proof -
  obtain a b c d where m: "mem32 ip = [a, b, c, d]" by (simp add: mem32_def)
  note l = length_label_octet [of a] length_label_octet [of b] length_label_octet [of c]
    length_label_octet [of d]
  have "length (label_bytes ''in-addr'') = 8" by (simp add: label_bytes_def)
  with l assms show ?thesis
    by (simp add: ptr_buildQuery_def Let_def m ptr_octet_Some kPtrMaxQueryBytes_def ptr_label_def
        ptr_labels_def) (simp add: label_bytes_def)
qed

lemma ptr_labels_ok: "p \<in> set (ptr_labels ip) \<Longrightarrow> 0 < length p \<and> length p \<le> 63"
  by (auto simp: ptr_labels_def intro: order.trans [OF length_dec_str_byte])

section \<open>Properties\<close>

text \<open>
  The two name probes read nothing outside the datagram they were handed, for every datagram
  and every query id: the header check, the question skip, the compressed-name walk, the record
  walk and the NetBIOS name table all return a result.
\<close>

lemma probe_parsers_memory_safe:
  "(\<exists>name. ptr_parseResponse buf qid = Some name) \<and> (\<exists>name. nb_parseResponse buf qid = Some name)"
  using ptr_parseResponse_safe nb_parseResponse_safe by (metis not_None_eq)

text \<open>
  The reverse-lookup query carries the name it is meant to ask for: the question decodes to the
  four octets last to first, then \<open>in-addr.arpa\<close>, and the datagram stays inside its 64 bytes.
\<close>

lemma ptr_query_roundtrip:
  assumes "ip \<noteq> 0" and "ip \<noteq> 0xFFFFFFFF"
  shows "decodeName (ptr_buildQuery ip qid) kHeaderBytes = Some (dotted [] (ptr_labels ip)) \<and>
    length (ptr_buildQuery ip qid) \<le> kPtrMaxQueryBytes"
proof (rule conjI)
  let ?hdr = "[ucast (drop_bit 8 qid), ucast qid, 0x01, 0x00, 0x00, 0x01,
    0x00, 0x00, 0x00, 0x00, 0x00, 0x00] :: byte list"
  have "kHeaderBytes = length ?hdr" by (simp add: kHeaderBytes_def)
  then show "decodeName (ptr_buildQuery ip qid) kHeaderBytes = Some (dotted [] (ptr_labels ip))"
    unfolding decodeName_def ptr_buildQuery_eq [OF assms]
    using decodeName_labels [of "ptr_labels ip" ?hdr] ptr_labels_ok by metis
  show "length (ptr_buildQuery ip qid) \<le> kPtrMaxQueryBytes"
    unfolding ptr_buildQuery_eq [OF assms]
    using length_label_octet [of "ucast ip"] length_label_octet [of "ucast (drop_bit 8 ip)"]
      length_label_octet [of "ucast (drop_bit 16 ip)"] length_label_octet [of "ucast (drop_bit 24 ip)"]
    by (simp add: ptr_labels_def mem32_def kPtrMaxQueryBytes_def) (simp add: label_bytes_def)
qed

lemma ptr_query_roundtrip_witness:
  "decodeName (ptr_buildQuery (le32 192 168 1 42) 7) kHeaderBytes = Some ''42.1.168.192.in-addr.arpa'' \<and>
   length (ptr_buildQuery (le32 192 168 1 42) 7) \<le> kPtrMaxQueryBytes"
proof -
  have ip: "le32 192 168 1 42 \<noteq> 0" "le32 192 168 1 42 \<noteq> 0xFFFFFFFF" by (simp_all add: le32_def)
  have "dotted [] (ptr_labels (le32 192 168 1 42)) = ''42.1.168.192.in-addr.arpa''" by code_simp
  then show ?thesis using ptr_query_roundtrip [OF ip, of 7] by simp
qed

end
