(* ===== verification/OrderedMap.thy ===== *)
theory OrderedMap
  imports Prelude
begin

text \<open>
  \<open>std::map\<close> as the program uses it: the entries in key order, with \<open>find\<close>, \<open>operator[]=\<close>,
  \<open>erase\<close> and \<open>size\<close>. The locale \<open>keyed_table\<close> states the laws a client of such a table relies
  on; the ordered association list is interpreted in it.
\<close>

type_synonym ('k, 'v) omap = "('k \<times> 'v) list"

abbreviation om_find :: "('k, 'v) omap \<Rightarrow> 'k \<Rightarrow> 'v option" where
  "om_find \<equiv> map_of"

fun om_set :: "'k::linorder \<Rightarrow> 'v \<Rightarrow> ('k, 'v) omap \<Rightarrow> ('k, 'v) omap" where
  "om_set k v [] = [(k, v)]"
| "om_set k v (p # ps) =
     (if fst p < k then p # om_set k v ps
      else if fst p = k then (k, v) # ps
      else (k, v) # p # ps)"

definition om_erase :: "'k \<Rightarrow> ('k, 'v) omap \<Rightarrow> ('k, 'v) omap" where
  "om_erase k m = filter (\<lambda>p. fst p \<noteq> k) m"

text \<open>The loop that erases every entry a test selects, keeping the rest in order.\<close>

definition om_keep :: "('v \<Rightarrow> bool) \<Rightarrow> ('k, 'v) omap \<Rightarrow> ('k, 'v) omap" where
  "om_keep P m = filter (\<lambda>p. P (snd p)) m"

definition om_inv :: "('k::linorder, 'v) omap \<Rightarrow> bool" where
  "om_inv m \<longleftrightarrow> sorted_wrt (<) (map fst m)"

lemma om_inv_Nil [simp, inv_intros]: "om_inv []"
  by (simp add: om_inv_def)

lemma om_inv_Cons: "om_inv (p # m) \<longleftrightarrow> (\<forall>q \<in> set m. fst p < fst q) \<and> om_inv m"
  by (auto simp: om_inv_def)

lemma om_inv_filter [inv_intros]: "om_inv m \<Longrightarrow> om_inv (filter P m)"
  by (induction m) (auto simp: om_inv_Cons)

lemma set_om_set: "set (om_set k v m) \<subseteq> insert (k, v) (set m)"
  by (induction m) auto

lemma om_inv_set [inv_intros]: "om_inv m \<Longrightarrow> om_inv (om_set k v m)"
proof (induction m)
  case (Cons p m)
  then show ?case
    using set_om_set [of k v m] by (fastforce simp: om_inv_Cons not_less)
qed (simp add: om_inv_Cons)

lemma om_inv_erase [inv_intros]: "om_inv m \<Longrightarrow> om_inv (om_erase k m)"
  unfolding om_erase_def by (rule om_inv_filter)

lemma om_inv_keep [inv_intros]: "om_inv m \<Longrightarrow> om_inv (om_keep P m)"
  unfolding om_keep_def by (rule om_inv_filter)

lemma om_inv_distinct: "om_inv m \<Longrightarrow> distinct (map fst m)"
  by (simp add: om_inv_def strict_sorted_iff)

lemma om_find_set [simp]: "om_find (om_set k v m) j = (if j = k then Some v else om_find m j)"
  if "om_inv m" for m :: "('k::linorder, 'v) omap"
  using that
proof (induction m)
  case (Cons p m)
  then show ?case
    by (cases p) (auto simp: om_inv_Cons not_less map_of_eq_None_iff dest: leD)
qed simp

lemma om_find_erase [simp]: "om_find (om_erase k m) j = (if j = k then None else om_find m j)"
  unfolding om_erase_def by (induction m) auto

lemma om_find_keep:
  assumes "om_inv m"
  shows "om_find (om_keep P m) j =
    (case om_find m j of None \<Rightarrow> None | Some v \<Rightarrow> if P v then Some v else None)"
  using assms
proof (induction m)
  case (Cons p m)
  have "om_find m (fst p) = None"
    using Cons.prems by (force simp: om_inv_Cons map_of_eq_None_iff)
  with Cons show ?case by (cases p) (auto simp: om_keep_def om_inv_Cons split: option.splits)
qed (simp add: om_keep_def)

lemma length_om_set:
  "om_inv m \<Longrightarrow> length (om_set k v m) = (if om_find m k = None then Suc (length m) else length m)"
proof (induction m)
  case (Cons p m)
  then show ?case
    by (cases p) (auto simp: om_inv_Cons map_of_eq_None_iff not_less dest: leD)
qed simp

lemma length_om_erase_le [simp]: "length (om_erase k m) \<le> length m"
  by (simp add: om_erase_def)

lemma length_om_keep_le [simp]: "length (om_keep P m) \<le> length m"
  by (simp add: om_keep_def)

lemma om_find_SomeD: "om_find m k = Some v \<Longrightarrow> (k, v) \<in> set m"
  by (rule map_of_SomeD)

lemma om_find_iff: "om_inv m \<Longrightarrow> om_find m k = Some v \<longleftrightarrow> (k, v) \<in> set m"
  by (simp add: om_inv_distinct map_of_eq_Some_iff)

section \<open>The contract of a keyed table\<close>

locale keyed_table =
  fixes inv :: "'t \<Rightarrow> bool"
    and find :: "'t \<Rightarrow> 'k \<Rightarrow> 'v option"
    and put :: "'k \<Rightarrow> 'v \<Rightarrow> 't \<Rightarrow> 't"
    and del :: "'k \<Rightarrow> 't \<Rightarrow> 't"
    and size :: "'t \<Rightarrow> nat"
  assumes inv_put: "inv t \<Longrightarrow> inv (put k v t)"
    and inv_del: "inv t \<Longrightarrow> inv (del k t)"
    and find_put: "inv t \<Longrightarrow> find (put k v t) j = (if j = k then Some v else find t j)"
    and find_del: "inv t \<Longrightarrow> find (del k t) j = (if j = k then None else find t j)"
    and size_put: "inv t \<Longrightarrow> size (put k v t) = (if find t k = None then Suc (size t) else size t)"
    and size_del: "inv t \<Longrightarrow> size (del k t) \<le> size t"
begin

text \<open>A table that only grows while it is below a cap, or at a key it already has, respects the cap.\<close>

lemma capped_put:
  assumes "inv t" and "size t \<le> cap" and "find t k \<noteq> None \<or> size t < cap"
  shows "size (put k v t) \<le> cap"
  using assms by (auto simp: size_put)

lemma put_put_other:
  assumes "inv t" and "j \<noteq> k"
  shows "find (put k v (put j w t)) j = Some w"
  using assms by (simp add: find_put inv_put)

lemma del_put:
  assumes "inv t"
  shows "find (del k (put k v t)) j = (if j = k then None else find t j)"
  using assms by (simp add: find_put find_del inv_put)

end

interpretation ordered: keyed_table "om_inv :: (u32, 'v) omap \<Rightarrow> bool" om_find om_set om_erase length
  by unfold_locales (auto simp: inv_intros length_om_set)

end
