(* ===== verification/DhcpLease.thy ===== *)
theory DhcpLease
  imports Prelude OrderedMap Declined AllowedList
begin

text \<open>
  The state of \<open>src/src/dhcp/DhcpServer.cpp\<close> and its address and lease management: the lease/offer
  table \<open>leases_\<close> (a \<open>std::map\<close> from the address in network byte order), its cap, the choice of
  an address (\<open>selectIp\<close>, \<open>isIpInRange\<close>, the static bindings) and what a client is told about
  router and DNS. Addresses are 32-bit words in network byte order on a little-endian machine, and
  the code's comparisons of them are kept as they are. What the server asks of its surroundings is
  the record \<open>env\<close>: the microsecond clock, read anew at every place that asks for the time, the ARP
  and ICMP probes, which take seconds and may answer differently each time they are asked (also the
  second ARP probe of \<open>probeIp\<close>), and the ARP cache. A \<open>moment\<close> names the place of a reading while
  one packet is handled. \<open>selectIp\<close> scans the range with a loop that need not end, so it returns an option.
\<close>

section \<open>State\<close>

record lease =
  ls_mac :: mac
  ls_ip :: u32
  ls_expiry :: u32
  ls_hostname :: string

record static_entry =
  se_mac :: mac
  se_ip :: u32
  se_gatewayIp :: u32
  se_useGateway :: bool
  se_enabled :: bool
  se_useDns :: bool

datatype server_state = STOPPED | RUNNING | ERROR

record dhcp =
  state :: server_state
  taskRunning :: bool
  stopRequested :: bool
  serverIp :: u32
  serverNetmask :: u32
  serverGateway :: u32
  rangeStart :: u32
  rangeEnd :: u32
  leaseTimeSec :: u32
  dnsMode :: string
  dnsManualIp :: u32
  dnsServerRunning :: bool
  leases :: "(u32, lease) omap"
  declinedTbl :: declined
  maxLeaseEntries :: u32
  maxLeaseEntriesEffective :: u32
  leaseLimitRejects :: u32
  staticBindings :: "static_entry list"
  allowedList :: allowed_list
  allowedStaticRefs :: "static_ref list"
  allowOnly :: bool

text \<open>
  The places where the packet path reads the clock or probes the network: the sweep before a packet, the
  check of the address the client asked for, the \<open>k\<close>-th candidate of the scan, the check for a longer
  lease and the sweep of a full table, the entry written, and the two lookups of the name service.
\<close>

datatype moment = Purge | Ask | Scan nat | Hold | Limit | Record | LookIp | LookName

record env =
  clock_us :: "moment \<Rightarrow> u64"
  arp_probe :: "moment \<Rightarrow> u32 \<Rightarrow> mac option"
  icmp_probe :: "moment \<Rightarrow> u32 \<Rightarrow> bool"
  arp_again :: "moment \<Rightarrow> u32 \<Rightarrow> mac option"
  arp_cache :: "(u32 \<times> mac) list"

definition kOfferHoldSec :: u32 where "kOfferHoldSec = 60"

definition getCurrentTimeSec :: "env \<Rightarrow> moment \<Rightarrow> u32" where
  "getCurrentTimeSec e w = ucast (clock_us e w div 1000000)"

definition getCurrentTimeMs :: "env \<Rightarrow> moment \<Rightarrow> u64" where
  "getCurrentTimeMs e w = clock_us e w div 1000"

section \<open>Probes and static bindings\<close>

text \<open>\<open>probeIp\<close>: \<open>Some owner\<close> when the address is in use; an owner without a known MAC is all zeros.\<close>

definition probeIp :: "env \<Rightarrow> moment \<Rightarrow> u32 \<Rightarrow> mac option" where
  "probeIp e w ip =
     (case arp_probe e w ip of
        Some owner \<Rightarrow> Some owner
      | None \<Rightarrow>
          if icmp_probe e w ip then
            Some (case arp_again e w ip of Some owner \<Rightarrow> owner | None \<Rightarrow> replicate 6 0)
          else None)"

definition addressDeclined :: "env \<Rightarrow> moment \<Rightarrow> dhcp \<Rightarrow> u32 \<Rightarrow> bool" where
  "addressDeclined e w s ip = isDeclined (declinedTbl s) ip (getCurrentTimeMs e w)"

definition isIpInRange :: "dhcp \<Rightarrow> u32 \<Rightarrow> bool" where
  "isIpInRange s ip =
     (if ip = serverIp s then False
      else ntohl ip \<ge> ntohl (rangeStart s) \<and> ntohl ip \<le> ntohl (rangeEnd s))"

definition isStaticBindingForMac :: "dhcp \<Rightarrow> mac \<Rightarrow> u32 \<Rightarrow> bool" where
  "isStaticBindingForMac s m ip =
     (\<exists>b \<in> set (staticBindings s). se_enabled b \<and> se_ip b = ip \<and> se_mac b = m)"

definition binding_for :: "dhcp \<Rightarrow> mac \<Rightarrow> static_entry option" where
  "binding_for s m = List.find (\<lambda>b. se_enabled b \<and> se_mac b = m) (staticBindings s)"

definition resolveDnsServer :: "dhcp \<Rightarrow> mac \<Rightarrow> u32" where
  "resolveDnsServer s m =
     (case binding_for s m of
        Some b \<Rightarrow>
          if \<not> se_useDns b then (if dnsManualIp s \<noteq> 0 then dnsManualIp s else serverGateway s)
          else if dnsMode s = ''manual'' then
            (if dnsManualIp s \<noteq> 0 \<and> dnsManualIp s \<noteq> serverIp s then dnsManualIp s else serverGateway s)
          else if dnsServerRunning s then serverIp s else serverGateway s
      | None \<Rightarrow>
          if dnsMode s = ''manual'' then
            (if dnsManualIp s \<noteq> 0 \<and> dnsManualIp s \<noteq> serverIp s then dnsManualIp s else serverGateway s)
          else if dnsServerRunning s then serverIp s else serverGateway s)"

text \<open>The address and the \<open>sendRouter\<close> flag.\<close>

definition resolveRouter :: "dhcp \<Rightarrow> mac \<Rightarrow> u32 \<times> bool" where
  "resolveRouter s m =
     (case binding_for s m of
        Some b \<Rightarrow> if \<not> se_useGateway b then (0, False) else (serverGateway s, True)
      | None \<Rightarrow> (serverGateway s, True))"

section \<open>Choosing an address\<close>

text \<open>
  \<open>for (ip = rangeStart_; ip <= rangeEnd_; ip = htonl(ntohl(ip) + 1))\<close>: the comparison is on the
  words as stored, the step on the address; \<open>k\<close> counts the candidates. \<open>None\<close> is a loop that never ends; \<open>Some 0\<close> is "no
  available address".
\<close>

partial_function (option) selectIp_scan :: "env \<Rightarrow> dhcp \<Rightarrow> nat \<Rightarrow> u32 \<Rightarrow> u32 option" where
  "selectIp_scan e s k ip =
     (if ip \<le> rangeEnd s then
        (if ip = serverIp s then selectIp_scan e s (Suc k) (htonl (ntohl ip + 1))
         else if om_find (leases s) ip = None then
           (if addressDeclined e (Scan k) s ip then selectIp_scan e s (Suc k) (htonl (ntohl ip + 1))
            else if probeIp e (Scan k) ip \<noteq> None then selectIp_scan e s (Suc k) (htonl (ntohl ip + 1))
            else Some ip)
         else selectIp_scan e s (Suc k) (htonl (ntohl ip + 1)))
      else Some 0)"

definition selectIp :: "env \<Rightarrow> dhcp \<Rightarrow> mac \<Rightarrow> u32 option" where
  "selectIp e s m =
     (case List.find (\<lambda>b. se_enabled b \<and> se_mac b = m \<and> om_find (leases s) (se_ip b) = None)
             (staticBindings s) of
        Some b \<Rightarrow> Some (se_ip b)
      | None \<Rightarrow>
          (case List.find (\<lambda>(ip, l). ls_mac l = m) (leases s) of
             Some (ip, l) \<Rightarrow> Some ip
           | None \<Rightarrow> selectIp_scan e s 0 (rangeStart s)))"

section \<open>Lease table\<close>

definition removeExpiredLeases :: "env \<Rightarrow> moment \<Rightarrow> dhcp \<Rightarrow> dhcp" where
  "removeExpiredLeases e w s =
     s\<lparr>leases := om_keep (\<lambda>l. \<not> ls_expiry l \<le> getCurrentTimeSec e w) (leases s)\<rparr>"

definition canAddLeaseEntry :: "env \<Rightarrow> u32 \<Rightarrow> dhcp \<Rightarrow> bool \<times> dhcp" where
  "canAddLeaseEntry e ip s =
     (if om_find (leases s) ip \<noteq> None then (True, s)
      else
        (let s1 = (if length (leases s) \<ge> unat (maxLeaseEntriesEffective s)
                   then removeExpiredLeases e Limit s else s) in
         if length (leases s1) < unat (maxLeaseEntriesEffective s1) then (True, s1)
         else (False, s1\<lparr>leaseLimitRejects := leaseLimitRejects s1 + 1\<rparr>)))"

definition addLease :: "env \<Rightarrow> mac \<Rightarrow> u32 \<Rightarrow> string \<Rightarrow> dhcp \<Rightarrow> dhcp" where
  "addLease e m ip hostname s =
     s\<lparr>leases := om_set ip \<lparr>ls_mac = m, ls_ip = ip,
         ls_expiry = getCurrentTimeSec e Record + leaseTimeSec s, ls_hostname = hostname\<rparr> (leases s)\<rparr>"

definition reserveOffer :: "env \<Rightarrow> mac \<Rightarrow> u32 \<Rightarrow> string \<Rightarrow> dhcp \<Rightarrow> bool \<times> dhcp" where
  "reserveOffer e m ip hostname s =
     (let fresh = (\<lambda>s. s\<lparr>leases := om_set ip \<lparr>ls_mac = m, ls_ip = ip,
            ls_expiry = getCurrentTimeSec e Record + kOfferHoldSec, ls_hostname = hostname\<rparr> (leases s)\<rparr>);
          reserve = (case canAddLeaseEntry e ip s of
            (ok, s1) \<Rightarrow> if \<not> ok then (False, s1) else (True, fresh s1))
      in case om_find (leases s) ip of
           Some l \<Rightarrow>
             if ls_expiry l > getCurrentTimeSec e Hold + kOfferHoldSec then
               (True, if hostname \<noteq> [] then s\<lparr>leases := om_set ip (l\<lparr>ls_hostname := hostname\<rparr>) (leases s)\<rparr>
                      else s)
             else reserve
         | None \<Rightarrow> reserve)"

text \<open>
  The configuration values \<open>applyLeaseLimit\<close> reads: the entry count and the two ends of the range
  as \<open>ipStrToU32\<close> gives them.
\<close>

definition applyLeaseLimit :: "u32 \<Rightarrow> u32 \<Rightarrow> u32 \<Rightarrow> dhcp \<Rightarrow> dhcp" where
  "applyLeaseLimit maxEntries startIp endIp s =
     (let pool = (if endIp > startIp then ntohl endIp - ntohl startIp + 1 else 0);
          limit0 = (if maxEntries = 0 then pool * 2 else maxEntries);
          limit1 = (if limit0 < 8 then 8 else limit0);
          limit2 = (if limit1 > 512 then 512 else limit1)
      in s\<lparr>maxLeaseEntries := maxEntries, maxLeaseEntriesEffective := limit2\<rparr>)"

section \<open>Reading the tables\<close>

definition leaseCount :: "dhcp \<Rightarrow> u32" where
  "leaseCount s = of_nat (length (leases s))"

definition getLeases :: "dhcp \<Rightarrow> lease list" where
  "getLeases s = map snd (leases s)"

definition getMacByIp :: "dhcp \<Rightarrow> u32 \<Rightarrow> mac option" where
  "getMacByIp s ip = map_option ls_mac (om_find (leases s) ip)"

definition stateString :: "dhcp \<Rightarrow> string" where
  "stateString s = (case state s of RUNNING \<Rightarrow> ''running'' | STOPPED \<Rightarrow> ''stopped'' | ERROR \<Rightarrow> ''error'')"

definition arp_ip_of :: "env \<Rightarrow> mac \<Rightarrow> u32 option" where
  "arp_ip_of e m = map_option fst (List.find (\<lambda>(ip, h). h = m) (arp_cache e))"

definition macByIpArp :: "env \<Rightarrow> u32 \<Rightarrow> mac option" where
  "macByIpArp e ip = map_option snd (List.find (\<lambda>(a, h). a = ip) (arp_cache e))"

definition clientHostnameByMac :: "env \<Rightarrow> dhcp \<Rightarrow> mac \<Rightarrow> string" where
  "clientHostnameByMac e s m =
     (case List.find (\<lambda>(ip, l). \<not> ls_expiry l \<le> getCurrentTimeSec e LookName \<and> ls_mac l = m \<and> ls_hostname l \<noteq> [])
             (leases s) of
        Some (ip, l) \<Rightarrow> ls_hostname l
      | None \<Rightarrow> [])"

definition clientIpByMac :: "env \<Rightarrow> dhcp \<Rightarrow> mac \<Rightarrow> u32 option" where
  "clientIpByMac e s m =
     (case List.find (\<lambda>(ip, l). \<not> ls_expiry l \<le> getCurrentTimeSec e LookIp \<and> ls_mac l = m) (leases s) of
        Some (ip, l) \<Rightarrow> Some ip
      | None \<Rightarrow> arp_ip_of e m)"

definition nameServerIp :: "dhcp \<Rightarrow> u32" where
  "nameServerIp s =
     (if dnsMode s = ''manual'' \<and> dnsManualIp s \<noteq> 0 then dnsManualIp s else serverGateway s)"

definition isClientAddressAllowed :: "env \<Rightarrow> dhcp \<Rightarrow> u32 \<Rightarrow> bool \<Rightarrow> bool" where
  "isClientAddressAllowed e s ip only =
     (if \<not> only then True
      else
        (let ask = (\<lambda>owner. isAddressAllowed only owner (allowedList s) (allowedStaticRefs s)) in
         case getMacByIp s ip of
           Some m \<Rightarrow> ask (Some m)
         | None \<Rightarrow>
             (case macByIpArp e ip of
                Some m \<Rightarrow> ask (Some m)
              | None \<Rightarrow>
                  (case List.find (\<lambda>b. se_enabled b \<and> se_ip b = ip) (staticBindings s) of
                     Some b \<Rightarrow> ask (Some (se_mac b))
                   | None \<Rightarrow> ask None))))"

section \<open>The scan for a free address\<close>

text \<open>What the scan asks of an address before handing it out.\<close>

definition scan_free :: "env \<Rightarrow> dhcp \<Rightarrow> nat \<Rightarrow> u32 \<Rightarrow> bool" where
  "scan_free e s k ip \<longleftrightarrow> ip \<noteq> serverIp s \<and> om_find (leases s) ip = None
     \<and> \<not> addressDeclined e (Scan k) s ip \<and> probeIp e (Scan k) ip = None"

lemma scan_unfold:
  "selectIp_scan e s k ip =
     (if ip \<le> rangeEnd s then
        (if scan_free e s k ip then Some ip else selectIp_scan e s (Suc k) (htonl (ntohl ip + 1)))
      else Some 0)"
  by (subst selectIp_scan.simps) (auto simp: scan_free_def)

lemma scan_terminates:
  assumes "rangeEnd s \<noteq> - 1"
  shows "\<exists>r. selectIp_scan e s k ip = Some r"
proof (induction "2 ^ 32 - unat (ntohl ip)" arbitrary: k ip rule: less_induct)
  case less
  show ?case
  proof (cases "ip \<le> rangeEnd s \<and> \<not> scan_free e s k ip")
    case True
    have "ip \<noteq> - 1"
      using True assms by (metis word_order.extremum_unique)
    then have "ntohl ip \<noteq> - 1"
      by (metis le32_of_bytes ntohl_ntohl ntohl_minus_1)
    then have "unat (ntohl ip + 1) = Suc (unat (ntohl ip))"
      by (rule unat_word_add1)
    moreover have "unat (ntohl ip + 1) < 2 ^ 32"
      using unsigned_less [of "ntohl ip + 1"] by simp
    ultimately have "\<exists>r. selectIp_scan e s (Suc k) (htonl (ntohl ip + 1)) = Some r"
      by (intro less) simp
    with True show ?thesis by (subst scan_unfold) simp
  qed (auto simp: scan_unfold [of e s k ip])
qed

text \<open>
  A range that ends at 255.255.255.255 is never left by the comparison: the scan wraps through all
  addresses. It still ends when some address stays free, and runs for ever when none ever is.
\<close>

lemma scan_finds:
  assumes "rangeEnd s = - 1" and "\<forall>k. scan_free e s k tgt"
  shows "\<exists>r. selectIp_scan e s k ip = Some r"
proof (induction "unat (ntohl tgt - ntohl ip)" arbitrary: k ip rule: less_induct)
  case less
  show ?case
  proof (cases "scan_free e s k ip")
    case False
    then have "ip \<noteq> tgt" using assms(2) by blast
    then have "ntohl tgt - ntohl ip \<noteq> 0" by simp
    then have "unat (ntohl tgt - ntohl ip - 1) < unat (ntohl tgt - ntohl ip)"
      by (simp add: unat_minus_one unat_gt_0)
    then have "unat (ntohl tgt - ntohl (htonl (ntohl ip + 1))) < unat (ntohl tgt - ntohl ip)"
      by (simp add: algebra_simps)
    then show ?thesis using False assms(1) less by (subst scan_unfold) simp
  qed (simp add: scan_unfold [of e s k ip])
qed

lemma scan_ends: "rangeEnd s \<noteq> - 1 \<or> (\<exists>ip. \<forall>k. scan_free e s k ip) \<Longrightarrow> \<exists>r. selectIp_scan e s k ip = Some r"
  using scan_terminates scan_finds by blast

lemma scan_never_ends:
  assumes "rangeEnd s = - 1" and "\<forall>k ip. \<not> scan_free e s k ip"
  shows "selectIp_scan e s k ip = None"
proof (rule ccontr)
  assume "selectIp_scan e s k ip \<noteq> None"
  then obtain r where "selectIp_scan e s k ip = Some r" by blast
  then have "\<not> (rangeEnd s = - 1 \<and> (\<forall>k ip. \<not> scan_free e s k ip))"
    by (rule selectIp_scan.raw_induct [rotated, where P = "\<lambda>e s k ip r. \<not> (rangeEnd s = - 1 \<and> (\<forall>k ip. \<not> scan_free e s k ip))"])
      (auto simp: scan_free_def split: if_splits)
  with assms show False by blast
qed

lemma scan_sound:
  assumes "selectIp_scan e s k ip = Some r"
  shows "r = 0 \<or> ((\<exists>j. scan_free e s j r) \<and> r \<le> rangeEnd s)"
  using assms
  by (rule selectIp_scan.raw_induct [rotated, where P = "\<lambda>e s k ip r. r = 0 \<or> ((\<exists>j. scan_free e s j r) \<and> r \<le> rangeEnd s)"])
    (auto simp: scan_free_def split: if_splits)

text \<open>Inside one \<open>/24\<close> the scan finds the least free address.\<close>

definition least_free :: "env \<Rightarrow> dhcp \<Rightarrow> nat \<Rightarrow> byte \<Rightarrow> byte \<Rightarrow> byte \<Rightarrow> byte \<Rightarrow> byte \<Rightarrow> byte \<Rightarrow> bool" where
  "least_free e s k a b c lo hi d \<longleftrightarrow> lo \<le> d \<and> d \<le> hi \<and> scan_free e s (k + (unat d - unat lo)) (le32 a b c d)
     \<and> (\<forall>d'. lo \<le> d' \<and> d' < d \<longrightarrow> \<not> scan_free e s (k + (unat d' - unat lo)) (le32 a b c d'))"

lemma byte_inc_le:
  "(x :: byte) \<noteq> - 1 \<Longrightarrow> x + 1 \<le> y \<longleftrightarrow> x < y"
  by (simp add: word_le_nat_alt word_less_nat_alt unat_word_add1 Suc_le_eq)

lemma scan_count:
  assumes "(lo :: byte) \<noteq> - 1" and "lo < d"
  shows "scan_free e s (Suc k + (unat d - unat (lo + 1))) ip = scan_free e s (k + (unat d - unat lo)) ip"
proof -
  have "Suc k + (unat d - unat (lo + 1)) = k + (unat d - unat lo)"
    using assms by (simp add: unat_word_add1 word_less_nat_alt)
  then show ?thesis by (simp only:)
qed

lemma least_free_step:
  assumes "lo \<noteq> -1" and "\<not> scan_free e s k (le32 a b c lo)" and "least_free e s (Suc k) a b c (lo + 1) hi d"
  shows "least_free e s k a b c lo hi d"
proof -
  have d: "lo < d" "d \<le> hi" "scan_free e s (k + (unat d - unat lo)) (le32 a b c d)"
    using assms(3) scan_count [OF assms(1)] unfolding least_free_def byte_inc_le [OF assms(1)] by blast+
  moreover have "\<not> scan_free e s (k + (unat d' - unat lo)) (le32 a b c d')" if "lo \<le> d'" "d' < d" for d'
  proof (cases "d' = lo")
    case False
    then have "lo < d'" using that(1) by simp
    then show ?thesis
      using assms(3) that(2) scan_count [OF assms(1)] unfolding least_free_def byte_inc_le [OF assms(1)] by blast
  qed (use assms(2) in simp)
  ultimately show ?thesis by (auto simp: least_free_def)
qed

lemma scan_in_24:
  assumes "rangeEnd s = le32 a b c hi" and "hi \<noteq> -1"
  shows "(\<exists>d. least_free e s k a b c lo hi d \<and> selectIp_scan e s k (le32 a b c lo) = Some (le32 a b c d))
    \<or> ((\<forall>d. lo \<le> d \<and> d \<le> hi \<longrightarrow> \<not> scan_free e s (k + (unat d - unat lo)) (le32 a b c d))
        \<and> selectIp_scan e s k (le32 a b c lo) = Some 0)"
proof (induction "256 - unat lo" arbitrary: k lo rule: less_induct)
  case less
  show ?case
  proof (cases "lo \<le> hi \<and> \<not> scan_free e s k (le32 a b c lo)")
    case True
    then have lo: "lo \<noteq> -1" using assms(2) by (metis word_order.extremum_unique)
    then have "unat (lo + 1) = Suc (unat lo)" by (rule unat_word_add1)
    then have "256 - unat (lo + 1) < 256 - unat lo"
      using unat_byte_less [of "lo + 1"] by linarith
    note IH = less [OF this, of "Suc k"]
    have eq: "selectIp_scan e s k (le32 a b c lo) = selectIp_scan e s (Suc k) (le32 a b c (lo + 1))"
      using True lo by (subst scan_unfold) (simp add: assms le32_add_1)
    have "\<not> scan_free e s (k + (unat d - unat lo)) (le32 a b c d)"
      if "\<forall>d. lo + 1 \<le> d \<and> d \<le> hi \<longrightarrow> \<not> scan_free e s (Suc k + (unat d - unat (lo + 1))) (le32 a b c d)" "lo \<le> d" "d \<le> hi" for d
    proof (cases "d = lo")
      case False
      then have "lo < d" using that(2) by simp
      then show ?thesis using that(1,3) scan_count [OF lo] unfolding byte_inc_le [OF lo] by blast
    qed (use True in simp)
    then show ?thesis
      unfolding eq using IH least_free_step [OF lo conjunct2 [OF True]] by blast
  next
    case False
    then show ?thesis
      by (subst (1 2) scan_unfold) (auto simp: assms least_free_def)
  qed
qed

section \<open>The lease table keeps its shape and its cap\<close>

definition kMaxTable :: nat where "kMaxTable = 512"

text \<open>
  The table is a map keyed by the address each entry carries, the cap in force is at most 512 and
  so is the table (a cap lowered while the server runs is reached as entries leave).
\<close>

definition keyed_by_ip :: "(u32, lease) omap \<Rightarrow> bool" where
  "keyed_by_ip m \<longleftrightarrow> (\<forall>p \<in> set m. ls_ip (snd p) = fst p)"

definition lease_inv :: "dhcp \<Rightarrow> bool" where
  "lease_inv s \<longleftrightarrow> om_inv (leases s) \<and> keyed_by_ip (leases s)
     \<and> unat (maxLeaseEntriesEffective s) \<le> kMaxTable \<and> length (leases s) \<le> kMaxTable
     \<and> declined_inv (declinedTbl s)"

lemma lease_invD:
  "lease_inv s \<Longrightarrow> om_inv (leases s)"
  "lease_inv s \<Longrightarrow> declined_inv (declinedTbl s)"
  by (simp_all add: lease_inv_def)

lemma keyed_by_ip_filter [inv_intros]: "keyed_by_ip m \<Longrightarrow> keyed_by_ip (filter P m)"
  by (simp add: keyed_by_ip_def)

lemma keyed_by_ip_set [inv_intros]: "keyed_by_ip m \<Longrightarrow> ls_ip v = k \<Longrightarrow> keyed_by_ip (om_set k v m)"
  using set_om_set [of k v m] by (auto simp: keyed_by_ip_def)

lemma keyed_by_ip_find: "keyed_by_ip m \<Longrightarrow> om_find m k = Some v \<Longrightarrow> ls_ip v = k"
  by (auto simp: keyed_by_ip_def dest!: om_find_SomeD)

lemma lease_inv_removeExpired [inv_intros]: "lease_inv s \<Longrightarrow> lease_inv (removeExpiredLeases e w s)"
  unfolding lease_inv_def removeExpiredLeases_def om_keep_def
  by (auto intro!: inv_intros intro: le_trans [OF length_filter_le])

lemma lease_inv_canAdd [inv_intros]: "lease_inv s \<Longrightarrow> lease_inv (snd (canAddLeaseEntry e ip s))"
  using lease_inv_removeExpired [of s e Limit]
  by (auto simp: canAddLeaseEntry_def Let_def) (auto simp: lease_inv_def)

lemma canAdd_room:
  assumes "lease_inv s" and "fst (canAddLeaseEntry e ip s)"
  shows "om_find (leases (snd (canAddLeaseEntry e ip s))) ip \<noteq> None
    \<or> length (leases (snd (canAddLeaseEntry e ip s)))
        < unat (maxLeaseEntriesEffective (snd (canAddLeaseEntry e ip s)))"
  using assms(2) by (auto simp: canAddLeaseEntry_def Let_def split: if_splits)

lemma canAdd_fields [simp]:
  "maxLeaseEntriesEffective (snd (canAddLeaseEntry e ip s)) = maxLeaseEntriesEffective s"
  "leaseTimeSec (snd (canAddLeaseEntry e ip s)) = leaseTimeSec s"
  "serverIp (snd (canAddLeaseEntry e ip s)) = serverIp s"
  "declinedTbl (snd (canAddLeaseEntry e ip s)) = declinedTbl s"
  "staticBindings (snd (canAddLeaseEntry e ip s)) = staticBindings s"
  by (auto simp: canAddLeaseEntry_def Let_def removeExpiredLeases_def)

text \<open>Putting one entry where \<open>canAddLeaseEntry\<close> allowed it.\<close>

lemma lease_inv_put:
  assumes "lease_inv s" and "ls_ip l = ip"
    and "om_find (leases s) ip \<noteq> None \<or> length (leases s) < kMaxTable"
  shows "lease_inv (s\<lparr>leases := om_set ip l (leases s)\<rparr>)"
  using assms ordered.capped_put [of "leases s" kMaxTable ip l]
  by (auto simp: lease_inv_def intro!: inv_intros)

lemma lease_inv_add_after_can:
  assumes "lease_inv s" and "fst (canAddLeaseEntry e ip s)" and "ls_ip l = ip"
  shows "lease_inv ((snd (canAddLeaseEntry e ip s))
    \<lparr>leases := om_set ip l (leases (snd (canAddLeaseEntry e ip s)))\<rparr>)"
proof (rule lease_inv_put [OF lease_inv_canAdd [OF assms(1)] assms(3)])
  have "unat (maxLeaseEntriesEffective s) \<le> kMaxTable" using assms(1) by (simp add: lease_inv_def)
  then show "om_find (leases (snd (canAddLeaseEntry e ip s))) ip \<noteq> None
    \<or> length (leases (snd (canAddLeaseEntry e ip s))) < kMaxTable"
    using canAdd_room [OF assms(1,2)] by auto
qed

lemma reserveOffer_cases:
  obtains (long) l where "om_find (leases s) ip = Some l"
      and "ls_expiry l > getCurrentTimeSec e Hold + kOfferHoldSec"
      and "reserveOffer e m ip h s = (True, if h \<noteq> []
             then s\<lparr>leases := om_set ip (l\<lparr>ls_hostname := h\<rparr>) (leases s)\<rparr> else s)"
  | (full) "\<not> fst (canAddLeaseEntry e ip s)"
      and "reserveOffer e m ip h s = (False, snd (canAddLeaseEntry e ip s))"
  | (fresh) "fst (canAddLeaseEntry e ip s)"
      and "om_find (leases s) ip = None \<or>
        \<not> ls_expiry (the (om_find (leases s) ip)) > getCurrentTimeSec e Hold + kOfferHoldSec"
      and "reserveOffer e m ip h s = (True, (snd (canAddLeaseEntry e ip s))
        \<lparr>leases := om_set ip \<lparr>ls_mac = m, ls_ip = ip,
           ls_expiry = getCurrentTimeSec e Record + kOfferHoldSec, ls_hostname = h\<rparr>
           (leases (snd (canAddLeaseEntry e ip s)))\<rparr>)"
  unfolding reserveOffer_def Let_def
  by (cases "om_find (leases s) ip"; cases "canAddLeaseEntry e ip s") (force split: if_splits)+

lemma lease_inv_reserve [inv_intros]:
  assumes "lease_inv s"
  shows "lease_inv (snd (reserveOffer e m ip h s))"
proof (cases rule: reserveOffer_cases [of s ip e m h])
  case (long l)
  have "ls_ip l = ip"
    using assms long(1) by (auto simp: lease_inv_def intro: keyed_by_ip_find)
  then show ?thesis
    using assms long by (auto intro: lease_inv_put)
next
  case full
  then show ?thesis by (simp add: assms lease_inv_canAdd)
next
  case fresh
  then show ?thesis using assms by (simp add: lease_inv_add_after_can)
qed

lemma lease_inv_applyLimit [inv_intros]:
  "lease_inv s \<Longrightarrow> lease_inv (applyLeaseLimit n a b s)"
  by (auto simp: lease_inv_def applyLeaseLimit_def Let_def kMaxTable_def word_less_nat_alt not_less)

section \<open>A server at rest\<close>

text \<open>A configured server without leases on a silent network: the state the witnesses start from.\<close>

definition quiet :: env where
  "quiet = \<lparr>clock_us = (\<lambda>_. 5000000), arp_probe = (\<lambda>_ _. None), icmp_probe = (\<lambda>_ _. False),
     arp_again = (\<lambda>_ _. None), arp_cache = []\<rparr>"

definition idle :: "u32 \<Rightarrow> u32 \<Rightarrow> dhcp" where
  "idle lo hi = \<lparr>state = RUNNING, taskRunning = True, stopRequested = False,
     serverIp = le32 192 168 1 1, serverNetmask = le32 255 255 255 0, serverGateway = le32 192 168 1 254,
     rangeStart = lo, rangeEnd = hi, leaseTimeSec = 86400,
     dnsMode = ''auto'', dnsManualIp = 0, dnsServerRunning = True,
     leases = [], declinedTbl = declined_init, maxLeaseEntries = 0, maxLeaseEntriesEffective = 64,
     leaseLimitRejects = 0, staticBindings = [], allowedList = allowed_list_new,
     allowedStaticRefs = [], allowOnly = False\<rparr>"

lemma quiet_probe [simp]: "probeIp quiet w ip = None"
  by (simp add: quiet_def probeIp_def)

lemma not_declined_init [simp]: "\<not> isDeclined declined_init ip t"
proof -
  have "first_idx (\<lambda>e. d_used e \<and> d_ip e = ip) declined_init = None"
    by (simp add: first_idx_None_iff declined_init_def)
  then show ?thesis by (simp add: isDeclined_def)
qed

lemma idle_free: "scan_free quiet (idle lo hi) k ip \<longleftrightarrow> ip \<noteq> le32 192 168 1 1"
  by (simp add: scan_free_def idle_def addressDeclined_def)

lemma idle_inv: "lease_inv (idle lo hi)"
  by (simp add: lease_inv_def idle_def keyed_by_ip_def kMaxTable_def declined_inv_init)

section \<open>Properties of the address choice\<close>

text \<open>
  The address choice of a client without a binding or a lease ends unless the configured range
  ends at 255.255.255.255, and the address it gives is never the server's own, never one in the
  lease or offer table, never one a client refused within the last hour and never one that answers
  the ARP or ICMP probe.
\<close>

lemma selectIp_scan_safe:
  assumes "rangeEnd s \<noteq> - 1"
  shows "\<exists>r. selectIp_scan e s 0 (rangeStart s) = Some r \<and>
    (r \<noteq> 0 \<longrightarrow> r \<noteq> serverIp s \<and> om_find (leases s) r = None
       \<and> (\<exists>k. \<not> isDeclined (declinedTbl s) r (getCurrentTimeMs e (Scan k)) \<and> probeIp e (Scan k) r = None))"
  using scan_terminates [OF assms, of e 0 "rangeStart s"] scan_sound [of e s 0 "rangeStart s"]
  by (fastforce simp: scan_free_def addressDeclined_def)

lemma selectIp_scan_safe_witness:
  "\<exists>r. selectIp_scan quiet (idle (le32 192 168 1 100) (le32 192 168 1 200)) 0 (le32 192 168 1 100) = Some r
    \<and> (r \<noteq> 0 \<longrightarrow> r \<noteq> le32 192 168 1 1)"
proof -
  have "le32 192 168 1 200 \<noteq> - 1"
    by (simp add: word_unat_eq_iff unat_le32 unat_minus_1)
  then show ?thesis
    using selectIp_scan_safe [of "idle (le32 192 168 1 100) (le32 192 168 1 200)" quiet]
    by (fastforce simp: idle_def)
qed

text \<open>
  For a range inside one \<open>/24\<close> whose last octet is not 255, the scan gives the lowest free
  address of the range, and 0 exactly when the range has no free address.
\<close>

lemma selectIp_scan_exact:
  assumes "rangeStart s = le32 a b c lo" and "rangeEnd s = le32 a b c hi" and "hi \<noteq> -1"
  shows "(\<exists>d. least_free e s 0 a b c lo hi d \<and> selectIp_scan e s 0 (rangeStart s) = Some (le32 a b c d))
       \<or> ((\<forall>d. lo \<le> d \<and> d \<le> hi \<longrightarrow> \<not> scan_free e s (unat d - unat lo) (le32 a b c d))
            \<and> selectIp_scan e s 0 (rangeStart s) = Some 0)"
  using scan_in_24 [OF assms(2,3), of e 0 lo] by (simp add: assms(1))

lemma selectIp_scan_exact_witness:
  "(\<exists>d. least_free quiet (idle (le32 192 168 1 100) (le32 192 168 1 200)) 0 192 168 1 100 200 d
      \<and> selectIp_scan quiet (idle (le32 192 168 1 100) (le32 192 168 1 200)) 0 (le32 192 168 1 100)
          = Some (le32 192 168 1 d))
   \<or> ((\<forall>d. 100 \<le> d \<and> d \<le> 200 \<longrightarrow>
        \<not> scan_free quiet (idle (le32 192 168 1 100) (le32 192 168 1 200)) (unat d - unat (100 :: byte)) (le32 192 168 1 d))
      \<and> selectIp_scan quiet (idle (le32 192 168 1 100) (le32 192 168 1 200)) 0 (le32 192 168 1 100) = Some 0)"
  using selectIp_scan_exact [of "idle (le32 192 168 1 100) (le32 192 168 1 200)" 192 168 1 100 200 quiet]
  by (simp add: idle_def)

text \<open>
  The scan compares addresses as stored in memory, so a range whose last octets fall (every
  range that crosses a \<open>/24\<close> boundary that way, such as 10.0.0.200 to 10.0.1.50) gives no address at
  all, although \<open>isIpInRange\<close> accepts the addresses of that range and nobody holds one.
\<close>

lemma range_across_24_is_empty:
  assumes "rangeStart s = le32 a b c lo" and "rangeEnd s = le32 a b c' hi" and "hi < lo" and "c < c'"
    and "serverIp s \<noteq> le32 a b c lo"
  shows "selectIp_scan e s 0 (rangeStart s) = Some 0 \<and> isIpInRange s (le32 a b c lo)"
proof
  have "unat hi < unat lo" using assms(3) by (simp add: word_less_nat_alt)
  moreover have "256 * unat b + unat a < 65536" "65536 * unat c' \<le> 65536 * 255"
    using unat_byte_le [of a] mult_le_mono2 [OF unat_byte_le [of b], of 256]
      mult_le_mono2 [OF unat_byte_le [of c'], of 65536] by linarith+
  ultimately have "\<not> le32 a b c lo \<le> le32 a b c' hi"
    unfolding word_le_nat_alt unat_le32 by linarith
  then show "selectIp_scan e s 0 (rangeStart s) = Some 0"
    by (subst scan_unfold) (simp add: assms(1,2))
  have "unat c < unat c'" using assms(4) by (simp add: word_less_nat_alt)
  then have "256 * unat c + 256 \<le> 256 * unat c'" by simp
  then have "unat lo + 256 * unat c \<le> unat hi + 256 * unat c'"
    using unat_byte_le [of lo] by linarith
  then show "isIpInRange s (le32 a b c lo)"
    using assms by (auto simp: isIpInRange_def word_le_nat_alt unat_le32)
qed

lemma range_across_24_is_empty_witness:
  "selectIp_scan quiet (idle (le32 10 0 0 200) (le32 10 0 1 50)) 0 (le32 10 0 0 200) = Some 0
   \<and> isIpInRange (idle (le32 10 0 0 200) (le32 10 0 1 50)) (le32 10 0 0 200)"
proof -
  have "(50 :: byte) < 200" "(0 :: byte) < 1" by (simp_all add: word_less_nat_alt)
  then show ?thesis
    using range_across_24_is_empty [of "idle (le32 10 0 0 200) (le32 10 0 1 50)" 10 0 0 200 1 50 quiet]
    by (simp add: idle_def)
qed

text \<open>
  A range that ends in octet 255 is left by the scan: when the range is used up, the next
  \<open>/24\<close>'s address 0 is handed out although it is outside the range.
\<close>

lemma range_end_255_overrun:
  assumes "rangeStart s = le32 a b c 255" and "rangeEnd s = le32 a b c 255" and "c < 254"
    and "om_find (leases s) (le32 a b c 255) = Some l" and "scan_free e s 1 (le32 a b (c + 1) 0)"
  shows "selectIp_scan e s 0 (rangeStart s) = Some (le32 a b (c + 1) 0)
    \<and> \<not> isIpInRange s (le32 a b (c + 1) 0)"
proof -
  have c: "unat (c + 1) = Suc (unat c)"
    using assms(3) by (intro unat_word_add1) (auto simp: word_less_nat_alt unat_minus_1)
  have nf: "\<not> scan_free e s k (le32 a b c 255)" for k using assms(4) by (simp add: scan_free_def)
  have inc: "le32 255 c b a + 1 = le32 0 (c + 1) b a"
  proof -
    have "unat c < 254" using assms(3) by (simp add: word_less_nat_alt)
    then have "unat (le32 255 c b a) < 4294967295"
      unfolding unat_le32
      using mult_le_mono2 [OF unat_byte_le [of b], of 65536]
        mult_le_mono2 [OF unat_byte_le [of a], of 16777216] unat_byte_le [of 255] by linarith
    then have "le32 255 c b a \<noteq> - 1" by (auto simp: unat_minus_1)
    then have "unat (le32 255 c b a + 1) = unat (le32 0 (c + 1) b a)"
      by (simp add: unat_word_add1 unat_le32 c)
    then show ?thesis by (simp add: word_unat_eq_iff)
  qed
  have le: "le32 a b (c + 1) 0 \<le> le32 a b c 255"
    using unat_byte_le [of c] mult_le_mono2 [OF unat_byte_le [of c], of 65536]
    unfolding word_le_nat_alt unat_le32 c by simp
  have "selectIp_scan e s 0 (le32 a b c 255) = Some (le32 a b (c + 1) 0)"
    using nf assms(5) le by (subst scan_unfold, subst scan_unfold) (simp add: assms(2) inc)
  moreover have "\<not> isIpInRange s (le32 a b (c + 1) 0)"
    by (simp add: isIpInRange_def assms(2) word_le_nat_alt unat_le32 c)
  ultimately show ?thesis by (simp add: assms(1))
qed

definition full_255 :: dhcp where
  "full_255 = (idle (le32 192 168 1 255) (le32 192 168 1 255))
     \<lparr>leases := [(le32 192 168 1 255, \<lparr>ls_mac = [1, 2, 3, 4, 5, 6], ls_ip = le32 192 168 1 255,
        ls_expiry = 86405, ls_hostname = []\<rparr>)]\<rparr>"

lemma range_end_255_overrun_witness:
  "selectIp_scan quiet full_255 0 (le32 192 168 1 255) = Some (le32 192 168 2 0)
    \<and> \<not> isIpInRange full_255 (le32 192 168 2 0)"
proof -
  have "(1 :: byte) < 254" by (simp add: word_less_nat_alt)
  moreover have "scan_free quiet full_255 1 (le32 192 168 2 0)"
    by (simp add: scan_free_def full_255_def idle_def addressDeclined_def)
  ultimately show ?thesis
    using range_end_255_overrun [of full_255 192 168 1 _ quiet]
    by (simp add: full_255_def idle_def)
qed

text \<open>
  The entry limit in force is between 8 and 512 for every configured value and range, and a
  message that asks for a new entry is let through exactly when, after the expired entries are
  dropped from a full table, the table is shorter than that limit.
\<close>

lemma lease_limit_exact:
  "8 \<le> maxLeaseEntriesEffective (applyLeaseLimit n a b s)
   \<and> maxLeaseEntriesEffective (applyLeaseLimit n a b s) \<le> 512
   \<and> (8 \<le> n \<and> n \<le> 512 \<longrightarrow> maxLeaseEntriesEffective (applyLeaseLimit n a b s) = n)
   \<and> (fst (canAddLeaseEntry e ip s) \<longleftrightarrow>
        om_find (leases s) ip \<noteq> None
        \<or> length (leases s) < unat (maxLeaseEntriesEffective s)
        \<or> length (filter (\<lambda>p. getCurrentTimeSec e Limit < ls_expiry (snd p)) (leases s))
            < unat (maxLeaseEntriesEffective s))"
proof (intro conjI)
  show "8 \<le> maxLeaseEntriesEffective (applyLeaseLimit n a b s)"
    by (simp add: applyLeaseLimit_def Let_def word_less_nat_alt word_le_nat_alt)
  show "maxLeaseEntriesEffective (applyLeaseLimit n a b s) \<le> 512"
    by (simp add: applyLeaseLimit_def Let_def not_less)
  show "8 \<le> n \<and> n \<le> 512 \<longrightarrow> maxLeaseEntriesEffective (applyLeaseLimit n a b s) = n"
    by (auto simp: applyLeaseLimit_def Let_def)
  show "fst (canAddLeaseEntry e ip s) \<longleftrightarrow>
        om_find (leases s) ip \<noteq> None
        \<or> length (leases s) < unat (maxLeaseEntriesEffective s)
        \<or> length (filter (\<lambda>p. getCurrentTimeSec e Limit < ls_expiry (snd p)) (leases s))
            < unat (maxLeaseEntriesEffective s)"
    by (auto simp: canAddLeaseEntry_def Let_def removeExpiredLeases_def om_keep_def not_le)
qed

lemma lease_limit_exact_witness:
  "maxLeaseEntriesEffective (applyLeaseLimit 100 0 0 (idle 0 0)) = 100"
  using lease_limit_exact [of 100 0 0 "idle 0 0"] by (simp add: word_le_nat_alt)

text \<open>
  A lease time of 0xFFFFFFFF, which DHCP reads as "for ever", is not kept: the 32-bit expiry
  wraps to one second before now, and the next sweep of the table removes the lease just granted.
\<close>

lemma infinite_lease_lost:
  assumes "om_inv (leases s)" and "leaseTimeSec s = 0xFFFFFFFF"
    and "getCurrentTimeSec e Record \<noteq> 0" and "getCurrentTimeSec e Record \<le> getCurrentTimeSec e' Purge"
  shows "om_find (leases (addLease e m ip h s)) ip \<noteq> None
    \<and> om_find (leases (removeExpiredLeases e' Purge (addLease e m ip h s))) ip = None"
proof
  let ?t = "getCurrentTimeSec e Record"
  have "(0xFFFFFFFF :: u32) = - 1" by simp
  then have "?t + leaseTimeSec s = ?t - 1" using assms(2) by simp
  moreover have "?t - 1 \<le> ?t" using assms(3) by (simp add: word_le_nat_alt unat_minus_one)
  then have "?t - 1 \<le> getCurrentTimeSec e' Purge" using assms(4) by order
  ultimately show "om_find (leases (removeExpiredLeases e' Purge (addLease e m ip h s))) ip = None"
    using assms(1) by (simp add: removeExpiredLeases_def addLease_def om_find_keep om_inv_set)
  show "om_find (leases (addLease e m ip h s)) ip \<noteq> None"
    using assms(1) by (simp add: addLease_def)
qed

lemma infinite_lease_lost_witness:
  "om_find (leases (removeExpiredLeases quiet Purge (addLease quiet [1, 2, 3, 4, 5, 6] (le32 192 168 1 100) []
     ((idle 0 0)\<lparr>leaseTimeSec := 0xFFFFFFFF\<rparr>)))) (le32 192 168 1 100) = None"
  using infinite_lease_lost [of "(idle 0 0)\<lparr>leaseTimeSec := 0xFFFFFFFF\<rparr>" quiet quiet]
  by (simp add: idle_def getCurrentTimeSec_def quiet_def)

end
