(* ===== verification/DhcpServer.thy ===== *)
theory DhcpServer
  imports DhcpLease ClientName DnsMsg "HOL-Library.Monad_Syntax"
begin

text \<open>
  The packet path and the life cycle of \<open>src/src/dhcp/DhcpServer.cpp\<close>. A received packet is the
  whole 1024-byte receive buffer with the number of bytes the last datagram wrote into it; the
  packed struct \<open>DhcpMessage\<close> is read at its byte offsets. \<open>handleDhcpMessage\<close> returns the new state
  and the list of effects (datagrams sent, events posted to the REST log); \<open>None\<close> is a read outside
  the buffer or a scan that does not end. Terminal and file logging are left out. What comes from
  lwIP and ESP-IDF (address parsing, the network interface, the task and memory allocators) is the
  record \<open>platform\<close>.
\<close>

section \<open>Constants and effects\<close>

definition DHCP_MAGIC_COOKIE :: u32 where "DHCP_MAGIC_COOKIE = 0x63825363"
definition DHCP_DISCOVER :: byte where "DHCP_DISCOVER = 1"
definition DHCP_OFFER :: byte where "DHCP_OFFER = 2"
definition DHCP_REQUEST :: byte where "DHCP_REQUEST = 3"
definition DHCP_DECLINE :: byte where "DHCP_DECLINE = 4"
definition DHCP_ACK :: byte where "DHCP_ACK = 5"
definition DHCP_NAK :: byte where "DHCP_NAK = 6"
definition DHCP_RELEASE :: byte where "DHCP_RELEASE = 7"
definition DHCP_MIN_MSGSIZE :: nat where "DHCP_MIN_MSGSIZE = 240"
definition DHCP_OPTIONS_BYTES :: nat where "DHCP_OPTIONS_BYTES = 308"
definition DHCP_CLIENT_PORT :: u16 where "DHCP_CLIENT_PORT = 68"
definition RECV_BUFFER_BYTES :: nat where "RECV_BUFFER_BYTES = 1024"

lemmas dhcp_consts = DHCP_DISCOVER_def DHCP_OFFER_def DHCP_REQUEST_def DHCP_DECLINE_def
  DHCP_ACK_def DHCP_NAK_def DHCP_RELEASE_def

record rest_record =
  rr_event :: string
  rr_mac :: string
  rr_ip :: string
  rr_mask :: string
  rr_gateway :: string
  rr_dns :: string
  rr_leaseTime :: int

datatype event = Udp u32 u16 "byte list" | Rest rest_record

section \<open>REST events\<close>

definition macToStr :: "mac \<Rightarrow> string" where
  "macToStr m = hex2 (m ! 0) @ '':'' @ hex2 (m ! 1) @ '':'' @ hex2 (m ! 2) @ '':'' @
     hex2 (m ! 3) @ '':'' @ hex2 (m ! 4) @ '':'' @ hex2 (m ! 5)"

definition ipToStr :: "u32 \<Rightarrow> string" where
  "ipToStr ipNet = (let b = mem32 ipNet in
     dec_str (unat (b ! 0)) @ ''.'' @ dec_str (unat (b ! 1)) @ ''.'' @
     dec_str (unat (b ! 2)) @ ''.'' @ dec_str (unat (b ! 3)))"

definition logDhcpRest :: "string \<Rightarrow> mac \<Rightarrow> u32 \<Rightarrow> u32 \<Rightarrow> u32 \<Rightarrow> bool \<Rightarrow> u32 \<Rightarrow> int \<Rightarrow> event" where
  "logDhcpRest ev m ipNet maskNet gatewayNet gatewaySent dnsNet leaseTime =
     Rest \<lparr>rr_event = ev, rr_mac = macToStr m,
       rr_ip = (if ipNet \<noteq> 0 then ipToStr ipNet else []),
       rr_mask = (if maskNet \<noteq> 0 then ipToStr maskNet else []),
       rr_gateway = (if gatewaySent then ipToStr gatewayNet else []),
       rr_dns = (if dnsNet \<noteq> 0 then ipToStr dnsNet else []),
       rr_leaseTime = leaseTime\<rparr>"

section \<open>Reading a message\<close>

text \<open>
  The option walk of \<open>handleDhcpMessage\<close>. \<open>off\<close> is \<open>opt - msg->options\<close>; the loop reads \<open>*opt\<close>
  before it looks at the bound, and neither test knows how many bytes were received.
\<close>

record parsed =
  p_msgType :: byte
  p_requestedIp :: u32
  p_serverId :: u32

function parseOptions :: "byte list \<Rightarrow> nat \<Rightarrow> parsed \<Rightarrow> parsed option" where
  "parseOptions buf off p =
     (case rd buf (240 + off) of
        None \<Rightarrow> None
      | Some code \<Rightarrow>
          if code \<noteq> 255 \<and> off < DHCP_OPTIONS_BYTES then
            (if code = 0 then parseOptions buf (off + 1) p
             else
               (case rd buf (240 + off + 1) of
                  None \<Rightarrow> None
                | Some optLen \<Rightarrow>
                    (case
                       (if code = 53 \<and> optLen = 1 then
                          map_option (\<lambda>v. p\<lparr>p_msgType := v\<rparr>) (rd buf (240 + off + 2))
                        else if code = 50 \<and> optLen = 4 then
                          map_option (\<lambda>v. p\<lparr>p_requestedIp := v\<rparr>) (rd32 buf (240 + off + 2))
                        else if code = 54 \<and> optLen = 4 then
                          map_option (\<lambda>v. p\<lparr>p_serverId := v\<rparr>) (rd32 buf (240 + off + 2))
                        else Some p) of
                       None \<Rightarrow> None
                     | Some p' \<Rightarrow> parseOptions buf (off + (unat optLen + 2)) p')))
          else Some p)"
  by pat_completeness auto
termination
  by (relation "measure (\<lambda>(buf, off, p). DHCP_OPTIONS_BYTES - off)") auto

declare parseOptions.simps [simp del]

definition no_options :: parsed where
  "no_options = \<lparr>p_msgType = 0, p_requestedIp = 0, p_serverId = 0\<rparr>"

section \<open>Building the replies\<close>

text \<open>The 240 bytes before the options: \<open>memset\<close> to zero, then the fields in struct order.\<close>

definition reply_header :: "u32 \<Rightarrow> u32 \<Rightarrow> u32 \<Rightarrow> u32 \<Rightarrow> mac \<Rightarrow> byte list" where
  "reply_header xid yiaddr siaddr giaddr m =
     [2, 1, 6, 0] @ mem32 xid @ [0, 0] @ [0x80, 0] @ mem32 0 @ mem32 yiaddr @ mem32 siaddr @
     mem32 giaddr @ take 6 m @ replicate 10 0 @ replicate 64 0 @ replicate 128 0 @
     mem32 (htonl DHCP_MAGIC_COOKIE)"

definition opt_ip :: "byte \<Rightarrow> u32 \<Rightarrow> byte list" where
  "opt_ip code v = [code, 4] @ mem32 v"

definition lease_options :: "byte \<Rightarrow> dhcp \<Rightarrow> mac \<Rightarrow> byte list" where
  "lease_options msgType s m =
     [53, 1, msgType] @ opt_ip 54 (serverIp s) @ opt_ip 1 (serverNetmask s) @
     (case resolveRouter s m of (routerIp, sendRouter) \<Rightarrow> if sendRouter then opt_ip 3 routerIp else []) @
     opt_ip 6 (resolveDnsServer s m) @ opt_ip 51 (htonl (leaseTimeSec s)) @ [255]"

definition reply_dest :: "u32 \<Rightarrow> u32" where
  "reply_dest relayIp = (if relayIp \<noteq> 0 then relayIp else htonl 0xFFFFFFFF)"

definition sendDhcpAck :: "dhcp \<Rightarrow> mac \<Rightarrow> u32 \<Rightarrow> u32 \<Rightarrow> u32 \<Rightarrow> event list" where
  "sendDhcpAck s m xid assignedIp relayIp =
     [Udp (reply_dest relayIp) DHCP_CLIENT_PORT
        (reply_header xid assignedIp (serverIp s) relayIp m @ lease_options DHCP_ACK s m),
      (case resolveRouter s m of (routerIp, sendRouter) \<Rightarrow>
        logDhcpRest ''ACK'' m assignedIp (serverNetmask s) routerIp sendRouter
          (resolveDnsServer s m) (sint (leaseTimeSec s)))]"

definition sendDhcpNak :: "dhcp \<Rightarrow> mac \<Rightarrow> u32 \<Rightarrow> u32 \<Rightarrow> event list" where
  "sendDhcpNak s m xid relayIp =
     [Udp (reply_dest relayIp) DHCP_CLIENT_PORT
        (reply_header xid 0 0 relayIp m @ [53, 1, DHCP_NAK] @ opt_ip 54 (serverIp s) @ [255]),
      logDhcpRest ''NAK'' m 0 0 0 False 0 0]"

text \<open>The address an OFFER is made for; \<open>Some 0\<close> is none.\<close>

definition offer_choice :: "env \<Rightarrow> dhcp \<Rightarrow> mac \<Rightarrow> u32 \<Rightarrow> u32 option" where
  "offer_choice e s m requestedIp =
     (let offerIp =
        (if requestedIp \<noteq> 0 \<and> (isIpInRange s requestedIp \<or> isStaticBindingForMac s m requestedIp) then
           (let fixed = isStaticBindingForMac s m requestedIp;
                refused = \<not> fixed \<and> addressDeclined e Ask s requestedIp
            in if fixed \<or> (\<not> refused \<and> probeIp e Ask requestedIp = None) then requestedIp else 0)
         else 0)
      in if offerIp = 0 then selectIp e s m else Some offerIp)"

definition sendDhcpOffer :: "env \<Rightarrow> dhcp \<Rightarrow> mac \<Rightarrow> u32 \<Rightarrow> u32 \<Rightarrow> u32 \<Rightarrow> string \<Rightarrow> (dhcp \<times> event list) option" where
  "sendDhcpOffer e s m xid requestedIp relayIp clientName =
     (case offer_choice e s m requestedIp of
        None \<Rightarrow> None
      | Some offerIp \<Rightarrow>
          if offerIp = 0 then Some (s, [])
          else
            (case reserveOffer e m offerIp clientName s of
               (False, s1) \<Rightarrow> Some (s1, [])
             | (True, s1) \<Rightarrow>
                 Some (s1,
                   [Udp (reply_dest relayIp) DHCP_CLIENT_PORT
                      (reply_header xid offerIp (serverIp s1) relayIp m @ lease_options DHCP_OFFER s1 m),
                    (case resolveRouter s1 m of (routerIp, sendRouter) \<Rightarrow>
                      logDhcpRest ''OFFER'' m offerIp (serverNetmask s1) routerIp sendRouter
                        (resolveDnsServer s1 m) (sint (leaseTimeSec s1)))])))"

section \<open>The handler\<close>

text \<open>The decision of DHCPREQUEST: the address is valid for the client and nothing speaks against it.\<close>

definition request_valid :: "dhcp \<Rightarrow> mac \<Rightarrow> u32 \<Rightarrow> bool" where
  "request_valid s m ip \<longleftrightarrow> ip \<noteq> 0 \<and> ip \<noteq> serverIp s \<and> (isIpInRange s ip \<or> isStaticBindingForMac s m ip)"

definition request_ack :: "env \<Rightarrow> dhcp \<Rightarrow> mac \<Rightarrow> u32 \<Rightarrow> bool" where
  "request_ack e s m ip =
     (if isStaticBindingForMac s m ip then True
      else case om_find (leases s) ip of
             Some l \<Rightarrow> ls_mac l = m
           | None \<Rightarrow>
               if addressDeclined e Ask s ip then False
               else (case probeIp e Ask ip of None \<Rightarrow> True | Some ownerMac \<Rightarrow> ownerMac = m))"

definition handleRequest ::
  "env \<Rightarrow> dhcp \<Rightarrow> mac \<Rightarrow> u32 \<Rightarrow> u32 \<Rightarrow> u32 \<Rightarrow> u32 \<Rightarrow> u32 \<Rightarrow> string \<Rightarrow> dhcp \<times> event list" where
  "handleRequest e s m xid requestedIp serverId ciaddr giaddr clientName =
     (if serverId = 0 \<or> serverId = serverIp s then
        (let assignIp = (if requestedIp \<noteq> 0 then requestedIp else ciaddr) in
         if request_valid s m assignIp then
           (if request_ack e s m assignIp then
              (case canAddLeaseEntry e assignIp s of
                 (False, s1) \<Rightarrow> (s1, sendDhcpNak s1 m xid giaddr)
               | (True, s1) \<Rightarrow> (addLease e m assignIp clientName s1, sendDhcpAck s1 m xid assignIp giaddr))
            else (s, sendDhcpNak s m xid giaddr))
         else (s, sendDhcpNak s m xid giaddr))
      else (s, []))"

definition handleRelease :: "dhcp \<Rightarrow> u32 \<Rightarrow> dhcp \<times> event list" where
  "handleRelease s ciaddr =
     (case om_find (leases s) ciaddr of
        Some l \<Rightarrow> (s\<lparr>leases := om_erase ciaddr (leases s)\<rparr>,
                   [logDhcpRest ''RELEASE'' (ls_mac l) ciaddr 0 0 False 0 0])
      | None \<Rightarrow> (s, []))"

definition handleDecline :: "env \<Rightarrow> dhcp \<Rightarrow> mac \<Rightarrow> u32 \<Rightarrow> dhcp \<times> event list" where
  "handleDecline e s m requestedIp =
     (let s1 = (case om_find (leases s) requestedIp of
                  Some l \<Rightarrow> if ls_mac l = m then s\<lparr>leases := om_erase requestedIp (leases s)\<rparr> else s
                | None \<Rightarrow> s);
          s2 = s1\<lparr>declinedTbl := snd (declined_add (declinedTbl s1) requestedIp (getCurrentTimeMs e Record))\<rparr>
      in (s2, [logDhcpRest ''DECLINE'' m requestedIp 0 0 False 0 0]))"

text \<open>The \<open>switch\<close> on the message type.\<close>

definition dispatch ::
  "env \<Rightarrow> dhcp \<Rightarrow> parsed \<Rightarrow> mac \<Rightarrow> u32 \<Rightarrow> u32 \<Rightarrow> u32 \<Rightarrow> string \<Rightarrow> (dhcp \<times> event list) option" where
  "dispatch e s p m xid ciaddr giaddr clientName =
     (if p_msgType p = DHCP_DISCOVER then sendDhcpOffer e s m xid (p_requestedIp p) giaddr clientName
      else if p_msgType p = DHCP_REQUEST then
        Some (handleRequest e s m xid (p_requestedIp p) (p_serverId p) ciaddr giaddr clientName)
      else if p_msgType p = DHCP_RELEASE then Some (handleRelease s ciaddr)
      else if p_msgType p = DHCP_DECLINE then Some (handleDecline e s m (p_requestedIp p))
      else Some (s, []))"

definition handleDhcpMessage ::
  "env \<Rightarrow> dhcp \<Rightarrow> byte list \<Rightarrow> nat \<Rightarrow> (bool \<times> dhcp \<times> event list) option" where
  "handleDhcpMessage e s buf len =
     (if len < DHCP_MIN_MSGSIZE then Some (False, s, [])
      else do {
        cookie \<leftarrow> rd32 buf 236;
        if ntohl cookie \<noteq> DHCP_MAGIC_COOKIE then Some (False, s, [])
        else do {
          p \<leftarrow> parseOptions buf 0 no_options;
          if p_msgType p = 0 then Some (False, s, [])
          else do {
            xid \<leftarrow> rd32 buf 4;
            ciaddr \<leftarrow> rd32 buf 12;
            giaddr \<leftarrow> rd32 buf 24;
            m \<leftarrow> rds buf 28 6;
            clientName \<leftarrow> (if len > 240 then fromOptions (take (len - 240) (drop 240 buf)) else Some []);
            if \<not> isClientAllowed m (allowOnly s) (allowedList s) (allowedStaticRefs s) then
              Some (False, s, [])
            else do {
              (s', evs) \<leftarrow> dispatch e s p m xid ciaddr giaddr clientName;
              Some (True, s', evs)
            }}}})"

text \<open>
  One iteration of \<open>serverLoop\<close>: \<open>None\<close> is the receive timeout, \<open>Some d\<close> a datagram, of which the
  buffer takes the first 1024 bytes and keeps the older bytes behind them.
\<close>

definition serverLoop_iter ::
  "env \<Rightarrow> byte list option \<Rightarrow> dhcp \<times> byte list \<Rightarrow> ((dhcp \<times> byte list) \<times> event list) option" where
  "serverLoop_iter e received sb =
     (case sb of (s, buf) \<Rightarrow>
      (case received of
         None \<Rightarrow> Some ((removeExpiredLeases e Purge s, buf), [])
       | Some d \<Rightarrow>
           (let data = take RECV_BUFFER_BYTES d;
                buf' = data @ drop (length data) buf
            in map_option (\<lambda>(_, s', evs). ((s', buf'), evs))
                 (handleDhcpMessage e (removeExpiredLeases e Purge s) buf' (length data)))))"

section \<open>Configuration and life cycle\<close>

record binding_cfg =
  b_mac :: string
  b_ip :: string
  b_gateway :: string
  b_useGateway :: bool
  b_enabled :: bool
  b_useDns :: bool

record config =
  c_startIp :: string
  c_endIp :: string
  c_leaseTimeSec :: u32
  c_dnsMode :: string
  c_dnsAddress :: string
  c_serverIp :: string
  c_subnet :: string
  c_gateway :: string
  c_maxLeaseEntries :: u32
  c_allowOnly :: bool
  c_allowedComputers :: string
  c_bindings :: "binding_cfg list"

text \<open>
  The platform: \<open>inet_pton\<close> (\<open>None\<close>: not an address, nothing is written), the content an
  uninitialised variable happens to have, the Ethernet interface, the memory and task allocators.
\<close>

record platform =
  o_pton :: "string \<Rightarrow> u32 option"
  o_junk :: "string \<Rightarrow> u32"
  o_junk_mac :: "string \<Rightarrow> mac"
  o_netif :: "(u32 \<times> u32 \<times> u32) option"
  o_psram :: bool
  o_task_created :: bool

definition ipStrToU32 :: "platform \<Rightarrow> string \<Rightarrow> u32" where
  "ipStrToU32 os t = (case o_pton os t of Some a \<Rightarrow> a | None \<Rightarrow> o_junk os t)"

text \<open>
  \<open>sscanf(\<dots>, "%hhx:%hhx:\<dots>")\<close>: each field skips blanks, takes an optional sign and \<open>0x\<close>, then at
  least one hexadecimal digit, and stores the value modulo 256; the first mismatch ends the call and
  the remaining bytes keep what they were.
\<close>

fun hex_digits :: "string \<Rightarrow> nat \<Rightarrow> nat \<times> string" where
  "hex_digits [] acc = (acc, [])"
| "hex_digits (c # cs) acc =
     (case hexNibble c of None \<Rightarrow> (acc, c # cs) | Some d \<Rightarrow> hex_digits cs (acc * 16 + d))"

definition scan_hhx :: "string \<Rightarrow> (byte \<times> string) option" where
  "scan_hhx t =
     (let t1 = dropWhile isspace t;
          (neg, t2) = (case t1 of c # cs \<Rightarrow> if c = CHR ''-'' then (True, cs)
                         else if c = CHR ''+'' then (False, cs) else (False, t1) | [] \<Rightarrow> (False, t1));
          t3 = (case t2 of z # x # cs \<Rightarrow>
                  if z = CHR ''0'' \<and> (x = CHR ''x'' \<or> x = CHR ''X'') then cs else t2 | _ \<Rightarrow> t2)
      in case t3 of
           [] \<Rightarrow> None
         | c # cs \<Rightarrow>
             if hexNibble c = None then None
             else (case hex_digits t3 0 of (v, rest) \<Rightarrow>
                     Some (if neg then - of_nat v else of_nat v, rest)))"

function sscanf_mac :: "nat \<Rightarrow> string \<Rightarrow> mac \<Rightarrow> mac" where
  "sscanf_mac i t m =
     (if i < 6 then
        (case scan_hhx t of
           None \<Rightarrow> m
         | Some (v, rest) \<Rightarrow>
             (case rest of
                c # cs \<Rightarrow> if c = CHR '':'' then sscanf_mac (Suc i) cs (m[i := v]) else m[i := v]
              | [] \<Rightarrow> m[i := v]))
      else m)"
  by pat_completeness auto
termination
  by (relation "measure (\<lambda>(i, t, m). 6 - i)") auto

declare sscanf_mac.simps [simp del]

definition refreshAllowedStaticRefs :: "dhcp \<Rightarrow> dhcp" where
  "refreshAllowedStaticRefs s =
     s\<lparr>allowedStaticRefs := map (\<lambda>b. \<lparr>sr_mac = se_mac b, sr_enabled = se_enabled b\<rparr>) (staticBindings s)\<rparr>"

definition binding_entry :: "platform \<Rightarrow> binding_cfg \<Rightarrow> static_entry" where
  "binding_entry os b =
     \<lparr>se_mac = sscanf_mac 0 (b_mac b) (o_junk_mac os (b_mac b)), se_ip = ipStrToU32 os (b_ip b),
      se_gatewayIp = ipStrToU32 os (b_gateway b), se_useGateway = b_useGateway b,
      se_enabled = b_enabled b, se_useDns = b_useDns b\<rparr>"

definition reloadStaticBindings :: "platform \<Rightarrow> config \<Rightarrow> dhcp \<Rightarrow> dhcp" where
  "reloadStaticBindings os c s =
     refreshAllowedStaticRefs (s\<lparr>staticBindings := map (binding_entry os) (c_bindings c)\<rparr>)"

definition reloadAllowedComputers :: "platform \<Rightarrow> config \<Rightarrow> dhcp \<Rightarrow> dhcp" where
  "reloadAllowedComputers os c s =
     (let l = (if allowed_available (allowedList s) then allowedList s
               else snd (allowed_init (allowedList s) (o_psram os)))
      in s\<lparr>allowOnly := c_allowOnly c,
           allowedList := snd (allowed_rebuild l (allowed_parse (c_allowedComputers c)))\<rparr>)"

definition applyLimit_cfg :: "platform \<Rightarrow> config \<Rightarrow> dhcp \<Rightarrow> dhcp" where
  "applyLimit_cfg os c s =
     applyLeaseLimit (c_maxLeaseEntries c) (ipStrToU32 os (c_startIp c)) (ipStrToU32 os (c_endIp c)) s"

text \<open>The part of \<open>start\<close> that caches the configuration and the interface's addresses.\<close>

definition start_cache :: "platform \<Rightarrow> config \<Rightarrow> dhcp \<Rightarrow> dhcp" where
  "start_cache os c s =
     (let s1 = s\<lparr>stopRequested := False, taskRunning := False,
            rangeStart := ipStrToU32 os (c_startIp c), rangeEnd := ipStrToU32 os (c_endIp c),
            leaseTimeSec := c_leaseTimeSec c, dnsMode := c_dnsMode c,
            dnsManualIp := ipStrToU32 os (c_dnsAddress c)\<rparr>;
          s2 = (case o_netif os of
                  Some (ip, netmask, gw) \<Rightarrow> s1\<lparr>serverIp := ip, serverNetmask := netmask, serverGateway := gw\<rparr>
                | None \<Rightarrow> s1)
      in if serverIp s2 = 0
         then s2\<lparr>serverIp := ipStrToU32 os (c_serverIp c),
                 serverNetmask := ipStrToU32 os (c_subnet c),
                 serverGateway := ipStrToU32 os (c_gateway c)\<rparr>
         else s2)"

definition start :: "platform \<Rightarrow> config \<Rightarrow> dhcp \<Rightarrow> bool \<times> dhcp" where
  "start os c s =
     (if state s = RUNNING then (True, s)
      else
        (let s3 = start_cache os c s in
         if serverIp s3 = 0 then (False, s3\<lparr>state := ERROR\<rparr>)
         else
           (let s4 = applyLimit_cfg os c (reloadAllowedComputers os c (reloadStaticBindings os c s3));
                s5 = s4\<lparr>state := RUNNING, stopRequested := False,
                        declinedTbl := declined_clear (declinedTbl s4)\<rparr>
            in if o_task_created os then (True, s5\<lparr>taskRunning := True\<rparr>)
               else (False, s5\<lparr>state := ERROR\<rparr>))))"

definition stop :: "dhcp \<Rightarrow> dhcp" where
  "stop s =
     (if state s = STOPPED then s
      else s\<lparr>stopRequested := True, taskRunning := False, state := STOPPED, leases := []\<rparr>)"

text \<open>What \<open>serverTask\<close> does after \<open>serverLoop\<close> returns.\<close>

definition serverTask_end :: "dhcp \<Rightarrow> dhcp" where
  "serverTask_end s = s\<lparr>state := ERROR, taskRunning := False\<rparr>"

definition dhcp_new :: dhcp where
  "dhcp_new = \<lparr>state = STOPPED, taskRunning = False, stopRequested = False,
     serverIp = 0, serverNetmask = 0, serverGateway = 0, rangeStart = 0, rangeEnd = 0,
     leaseTimeSec = 86400, dnsMode = ''auto'', dnsManualIp = 0, dnsServerRunning = False,
     leases = [], declinedTbl = declined_init, maxLeaseEntries = 0, maxLeaseEntriesEffective = 64,
     leaseLimitRejects = 0, staticBindings = [], allowedList = allowed_list_new,
     allowedStaticRefs = [], allowOnly = False\<rparr>"

section \<open>Client name lookup\<close>

record name_result =
  nr_name :: string
  nr_source :: string
  nr_ipNet :: u32

definition lookupClientName :: "env \<Rightarrow> network \<Rightarrow> network \<Rightarrow> u32 \<Rightarrow> u32 \<Rightarrow> dhcp \<Rightarrow> mac \<Rightarrow> name_result option" where
  "lookupClientName e dnsNet nbNet rnd1 rnd2 s m =
     (let haveIp = clientIpByMac e s m;
          ipNet = (case haveIp of Some ip \<Rightarrow> ip | None \<Rightarrow> 0);
          host = clientHostnameByMac e s m;
          nameServer = nameServerIp s
      in if host \<noteq> [] then Some \<lparr>nr_name = host, nr_source = ''lease'', nr_ipNet = ipNet\<rparr>
         else do {
           ptrName \<leftarrow> (if haveIp \<noteq> None \<and> nameServer \<noteq> 0 then
                         map_option (\<lambda>raw. if raw \<noteq> [] then
                             shortLabel (drop_while_end (\<lambda>c. c = CHR ''.'') (sanitize raw)) else [])
                           (ptr_query dnsNet rnd1 ipNet nameServer)
                       else Some []);
           if ptrName \<noteq> [] then Some \<lparr>nr_name = ptrName, nr_source = ''ptr'', nr_ipNet = ipNet\<rparr>
           else do {
             nbName \<leftarrow> (if haveIp \<noteq> None then map_option (\<lambda>raw. if raw \<noteq> [] then sanitize raw else []) (nb_query nbNet rnd2 ipNet) else Some []);
             if nbName \<noteq> [] then Some \<lparr>nr_name = nbName, nr_source = ''netbios'', nr_ipNet = ipNet\<rparr>
             else Some \<lparr>nr_name = [], nr_source = ''none'', nr_ipNet = ipNet\<rparr>
           }})"

end
