(* ===== verification/DhcpProps.thy ===== *)
theory DhcpProps
  imports DhcpServer
begin

text \<open>
  What the DHCP server promises: it reads only its receive buffer and always returns, its replies
  are well-formed messages, an ACK or OFFER is only sent for an address the client may have, and the
  lease table keeps its invariant over every sequence of packets, timeouts and reconfigurations.
\<close>

section \<open>The option walk\<close>

text \<open>The walk leaves at most \<open>307 + 2 + 255\<close> bytes after the start of the options.\<close>

lemma parseOptions_safe [mem_safe]:
  assumes "length buf = RECV_BUFFER_BYTES"
  shows "off \<le> 564 \<Longrightarrow> \<exists>p'. parseOptions buf off p = Some p'"
proof (induction "308 - off" arbitrary: off p rule: less_induct)
  case less
  have len: "length buf = 1024" using assms by (simp add: RECV_BUFFER_BYTES_def)
  let ?c = "buf ! (240 + off)" and ?l = "buf ! (240 + off + 1)"
  show ?case
  proof (cases "?c \<noteq> 255 \<and> off < 308")
    case True
    have "off + (unat ?l + 2) \<le> 564" "308 - (off + (unat ?l + 2)) < 308 - off"
      using True unat_byte_le [of ?l] by linarith+
    then have step: "\<exists>p''. parseOptions buf (off + (unat ?l + 2)) p' = Some p''" for p'
      using less.hyps by blast
    have pad: "\<exists>p''. parseOptions buf (off + 1) p = Some p''"
      by (rule less.hyps) (use True in linarith)+
    show ?thesis
      using True len step pad
      by (subst parseOptions.simps) (auto simp: DHCP_OPTIONS_BYTES_def add.commute [of off])
  next
    case False
    then show ?thesis
      using less.prems len by (subst parseOptions.simps) (auto simp: DHCP_OPTIONS_BYTES_def)
  qed
qed

text \<open>The scan ends: the range does not end at 255.255.255.255, or some address stays free.\<close>

definition scannable :: "env \<Rightarrow> dhcp \<Rightarrow> bool" where
  "scannable e s \<longleftrightarrow> rangeEnd s \<noteq> - 1 \<or> (\<exists>ip. \<forall>k. scan_free e s k ip)"

lemma selectIp_total: "scannable e s \<Longrightarrow> \<exists>r. selectIp e s m = Some r"
  unfolding selectIp_def scannable_def using scan_ends [of s e 0 "rangeStart s"]
  by (auto split: option.splits)

lemma offer_choice_total: "scannable e s \<Longrightarrow> \<exists>r. offer_choice e s m ip = Some r"
  unfolding offer_choice_def Let_def using selectIp_total [of e s m] by auto

lemma sendDhcpOffer_total:
  assumes "scannable e s"
  shows "\<exists>r. sendDhcpOffer e s m xid ip relay h = Some r"
proof -
  obtain r where "offer_choice e s m ip = Some r"
    using offer_choice_total [OF assms] by blast
  then show ?thesis
    by (simp add: sendDhcpOffer_def split: prod.splits bool.splits)
qed

lemma dispatch_total: "scannable e s \<Longrightarrow> \<exists>s' evs. dispatch e s p m xid ci gi h = Some (s', evs)"
  using sendDhcpOffer_total [of e s m xid "p_requestedIp p" gi h] by (auto simp: dispatch_def)

lemma client_name_read: "\<exists>h. (if len > 240 then fromOptions (take (len - 240) (drop 240 buf)) else Some []) = Some h"
  using fromOptions_total by auto

lemma handle_total:
  assumes "length buf = RECV_BUFFER_BYTES" and "scannable e s"
  shows "\<exists>r. handleDhcpMessage e s buf len = Some r"
proof -
  have len: "length buf = 1024" using assms(1) by (simp add: RECV_BUFFER_BYTES_def)
  obtain p where p: "parseOptions buf 0 no_options = Some p"
    using parseOptions_safe [OF assms(1), of 0] by auto
  obtain h where h: "(if len > 240 then fromOptions (take (len - 240) (drop 240 buf)) else Some []) = Some h"
    using client_name_read by blast
  have "dispatch e s p m xid ci gi h \<noteq> None" for m xid ci gi h
    using dispatch_total [OF assms(2)] by (metis option.distinct(1))
  then have "handleDhcpMessage e s buf len \<noteq> None"
    unfolding handleDhcpMessage_def h using len p
    by (simp add: bind_eq_None_conv split_beta del: not_None_eq)
  then show ?thesis by blast
qed

section \<open>The branches of the handler\<close>

abbreviation chaddr :: "byte list \<Rightarrow> mac" where
  "chaddr buf \<equiv> take 6 (drop 28 buf)"

definition served :: "dhcp \<Rightarrow> mac \<Rightarrow> bool" where
  "served s m \<longleftrightarrow> isClientAllowed m (allowOnly s) (allowedList s) (allowedStaticRefs s)"

lemma handle_dispatch:
  assumes "handleDhcpMessage e s buf len = Some (r, s', evs)"
  shows "(s' = s \<and> evs = []) \<or>
    (\<exists>p xid ci gi h. served s (chaddr buf) \<and> name_safe h \<and> parseOptions buf 0 no_options = Some p \<and>
       rd32 buf 4 = Some xid \<and> rd32 buf 12 = Some ci \<and>
       dispatch e s p (chaddr buf) xid ci gi h = Some (s', evs))"
proof -
  define name where "name = (if len > 240 then fromOptions (take (len - 240) (drop 240 buf)) else Some [])"
  have nm: "name_safe h" if "name = Some h" for h
    using that by (auto simp: name_def fromOptions_safe split: if_splits)
  show ?thesis
    using assms nm unfolding handleDhcpMessage_def served_def name_def [symmetric]
    by (auto simp: bind_eq_Some_conv dest!: rds_SomeD split: if_splits)
qed

lemma handle_cases:
  assumes "handleDhcpMessage e s buf len = Some (r, s', evs)"
  obtains (silent) "s' = s" "evs = []"
  | (offer) p xid gi h where "served s (chaddr buf)" "name_safe h" "rd32 buf 4 = Some xid"
      "sendDhcpOffer e s (chaddr buf) xid (p_requestedIp p) gi h = Some (s', evs)"
      "parseOptions buf 0 no_options = Some p"
  | (request) req sid xid ci gi h where "served s (chaddr buf)" "name_safe h" "rd32 buf 4 = Some xid"
      "handleRequest e s (chaddr buf) xid req sid ci gi h = (s', evs)"
  | (release) p ci where "served s (chaddr buf)" "rd32 buf 12 = Some ci"
      "parseOptions buf 0 no_options = Some p" "p_msgType p = DHCP_RELEASE"
      "handleRelease s ci = (s', evs)"
  | (decline) req where "served s (chaddr buf)" "handleDecline e s (chaddr buf) req = (s', evs)"
proof -
  consider "s' = s \<and> evs = []" | p xid ci gi h where "served s (chaddr buf)" "name_safe h"
      "parseOptions buf 0 no_options = Some p" "rd32 buf 4 = Some xid" "rd32 buf 12 = Some ci"
      "dispatch e s p (chaddr buf) xid ci gi h = Some (s', evs)"
    using handle_dispatch [OF assms] by blast
  then show thesis
  proof cases
    case 1
    with silent show ?thesis by blast
  next
    case (2 p xid ci gi h)
    let ?m = "chaddr buf"
    have "s' = s \<and> evs = [] \<or> sendDhcpOffer e s ?m xid (p_requestedIp p) gi h = Some (s', evs)
      \<or> handleRequest e s ?m xid (p_requestedIp p) (p_serverId p) ci gi h = (s', evs)
      \<or> p_msgType p = DHCP_RELEASE \<and> handleRelease s ci = (s', evs)
      \<or> handleDecline e s ?m (p_requestedIp p) = (s', evs)"
      using 2(6) unfolding dispatch_def by (simp split: if_splits)
    with 2 show ?thesis using silent offer request release decline by metis
  qed
qed

section \<open>The invariant\<close>

text \<open>Every host name in the table is clean text of at most 32 bytes.\<close>

definition names_inv :: "(u32, lease) omap \<Rightarrow> bool" where
  "names_inv m \<longleftrightarrow> (\<forall>p \<in> set m. name_safe (ls_hostname (snd p)))"

definition server_inv :: "dhcp \<Rightarrow> bool" where
  "server_inv s \<longleftrightarrow> lease_inv s \<and> names_inv (leases s)"

lemma names_inv_filter [inv_intros]: "names_inv m \<Longrightarrow> names_inv (filter P m)"
  by (simp add: names_inv_def)

lemma names_inv_set [inv_intros]: "names_inv m \<Longrightarrow> name_safe (ls_hostname v) \<Longrightarrow> names_inv (om_set k v m)"
  using set_om_set [of k v m] by (auto simp: names_inv_def)

lemma names_inv_canAdd [inv_intros]:
  "names_inv (leases s) \<Longrightarrow> names_inv (leases (snd (canAddLeaseEntry e ip s)))"
  by (auto simp: canAddLeaseEntry_def Let_def removeExpiredLeases_def om_keep_def intro: inv_intros)

lemma server_inv_removeExpired [inv_intros]: "server_inv s \<Longrightarrow> server_inv (removeExpiredLeases e w s)"
  by (auto simp: server_inv_def lease_inv_removeExpired)
    (auto simp: removeExpiredLeases_def om_keep_def intro: inv_intros)

lemma server_inv_reserve [inv_intros]:
  assumes "server_inv s" and "name_safe h"
  shows "server_inv (snd (reserveOffer e m ip h s))"
proof -
  have "names_inv (leases (snd (reserveOffer e m ip h s)))"
    using assms by (cases rule: reserveOffer_cases [of s ip e m h])
      (auto simp: server_inv_def intro!: inv_intros)
  then show ?thesis using assms by (simp add: server_inv_def lease_inv_reserve)
qed

lemma server_inv_offer [inv_intros]:
  assumes "server_inv s" and "name_safe h" and "sendDhcpOffer e s m xid req gi h = Some (s', evs)"
  shows "server_inv s'"
proof -
  obtain ip where ip: "offer_choice e s m req = Some ip"
    using assms(3) by (auto simp: sendDhcpOffer_def split: option.splits)
  obtain ok s1 where r: "reserveOffer e m ip h s = (ok, s1)" by (cases "reserveOffer e m ip h s")
  then have "server_inv s1" using server_inv_reserve [OF assms(1,2), of e m ip] by simp
  moreover have "s' = s \<or> s' = s1"
    using assms(3) ip r by (auto simp: sendDhcpOffer_def split: if_splits bool.splits)
  ultimately show ?thesis using assms(1) by blast
qed

lemma server_inv_request [inv_intros]:
  assumes "server_inv s" and "name_safe h" and "handleRequest e s m xid req sid ci gi h = (s', evs)"
  shows "server_inv s'"
proof -
  let ?ip = "if req \<noteq> 0 then req else ci"
  obtain ok s1 where c: "canAddLeaseEntry e ?ip s = (ok, s1)" by (cases "canAddLeaseEntry e ?ip s")
  have s1: "server_inv s1"
    using assms(1) lease_inv_canAdd [of s e ?ip] names_inv_canAdd [of s e ?ip] c
    by (simp add: server_inv_def)
  have "server_inv (addLease e m ?ip h s1)" if ok
    using that assms(1,2) s1 lease_inv_add_after_can [of s e ?ip] c
    unfolding addLease_def server_inv_def by (auto intro!: inv_intros)
  then show ?thesis
    using assms(1,3) s1 c unfolding handleRequest_def
    by (auto simp: Let_def split: if_splits bool.splits)
qed

lemma server_inv_release [inv_intros]:
  "server_inv s \<Longrightarrow> handleRelease s ci = (s', evs) \<Longrightarrow> server_inv s'"
  by (auto simp: handleRelease_def server_inv_def lease_inv_def om_erase_def
      split: option.splits intro!: inv_intros intro: le_trans [OF length_filter_le])

lemma server_inv_decline [inv_intros]:
  "server_inv s \<Longrightarrow> handleDecline e s m req = (s', evs) \<Longrightarrow> server_inv s'"
  by (auto simp: handleDecline_def Let_def server_inv_def lease_inv_def om_erase_def
      split: option.splits if_splits intro!: inv_intros intro: le_trans [OF length_filter_le])

lemma server_inv_handle [inv_intros]:
  assumes "server_inv s" and "handleDhcpMessage e s buf len = Some (r, s', evs)"
  shows "server_inv s'"
  using assms(2) by (cases rule: handle_cases) (use assms(1) in \<open>auto intro: inv_intros\<close>)

section \<open>Every run of the server\<close>

text \<open>
  One step of the running program seen from the server's state: a datagram or a timeout in the
  server task, or a call of the main program and the REST API (start, stop, reload of the settings).
\<close>

inductive dhcp_step :: "dhcp \<times> byte list \<Rightarrow> dhcp \<times> byte list \<Rightarrow> bool" where
  receive: "\<not> stopRequested s \<Longrightarrow> serverLoop_iter e received (s, buf) = Some (sb', evs) \<Longrightarrow>
    dhcp_step (s, buf) sb'"
| ended: "stopRequested s \<Longrightarrow> dhcp_step (s, buf) (serverTask_end s, buf)"
| started: "start os c s = (ok, s') \<Longrightarrow> length buf' = RECV_BUFFER_BYTES \<Longrightarrow> dhcp_step (s, buf) (s', buf')"
| stopped: "dhcp_step (s, buf) (stop s, buf)"
| bindings: "dhcp_step (s, buf) (reloadStaticBindings os c s, buf)"
| allowed: "dhcp_step (s, buf) (reloadAllowedComputers os c s, buf)"
| limit: "dhcp_step (s, buf) (applyLimit_cfg os c s, buf)"
| dns: "dhcp_step (s, buf) (s\<lparr>dnsServerRunning := b\<rparr>, buf)"

inductive_cases dhcp_stepE: "dhcp_step (s, buf) sb'"

definition machine_inv :: "dhcp \<times> byte list \<Rightarrow> bool" where
  "machine_inv sb \<longleftrightarrow> server_inv (fst sb) \<and> length (snd sb) = RECV_BUFFER_BYTES"

lemma server_inv_cong:
  "server_inv s \<Longrightarrow> leases s' = leases s \<Longrightarrow>
   maxLeaseEntriesEffective s' = maxLeaseEntriesEffective s \<Longrightarrow> declinedTbl s' = declinedTbl s \<Longrightarrow>
   server_inv s'"
  by (simp add: server_inv_def lease_inv_def)

lemma server_inv_limit [inv_intros]: "server_inv s \<Longrightarrow> server_inv (applyLimit_cfg os c s)"
  unfolding applyLimit_cfg_def server_inv_def
  by (auto intro: lease_inv_applyLimit) (simp add: applyLeaseLimit_def Let_def)

lemma server_inv_bindings [inv_intros]: "server_inv s \<Longrightarrow> server_inv (reloadStaticBindings os c s)"
  by (erule server_inv_cong) (simp_all add: reloadStaticBindings_def refreshAllowedStaticRefs_def)

lemma server_inv_allowed [inv_intros]: "server_inv s \<Longrightarrow> server_inv (reloadAllowedComputers os c s)"
  by (erule server_inv_cong) (simp_all add: reloadAllowedComputers_def Let_def)

lemma server_inv_declined_clear:
  "server_inv s \<Longrightarrow> server_inv (s\<lparr>state := x, stopRequested := y, declinedTbl := declined_clear (declinedTbl s)\<rparr>)"
  by (simp add: server_inv_def lease_inv_def declined_inv_clear)

lemma server_inv_flags:
  "server_inv s \<Longrightarrow> server_inv (s\<lparr>state := x\<rparr>)"
  "server_inv s \<Longrightarrow> server_inv (s\<lparr>taskRunning := y\<rparr>)"
  "server_inv s \<Longrightarrow> server_inv (s\<lparr>dnsServerRunning := z\<rparr>)"
  "server_inv s \<Longrightarrow> server_inv (serverTask_end s)"
  unfolding serverTask_end_def by (simp_all add: server_inv_def lease_inv_def)

lemma server_inv_cache: "server_inv s \<Longrightarrow> server_inv (start_cache os c s)"
  by (erule server_inv_cong) (simp_all add: start_cache_def Let_def split: option.split)

lemma server_inv_start [inv_intros]:
  assumes "server_inv s" and "start os c s = (ok, s')"
  shows "server_inv s'"
proof -
  define s3 where "s3 = start_cache os c s"
  define s4 where "s4 = applyLimit_cfg os c (reloadAllowedComputers os c (reloadStaticBindings os c s3))"
  define s5 where "s5 = s4\<lparr>state := RUNNING, stopRequested := False,
      declinedTbl := declined_clear (declinedTbl s4)\<rparr>"
  have s3: "server_inv s3"
    unfolding s3_def using assms(1) by (rule server_inv_cache)
  then have "server_inv s4"
    unfolding s4_def by (intro server_inv_limit server_inv_allowed server_inv_bindings)
  then have s5: "server_inv s5"
    unfolding s5_def by (rule server_inv_declined_clear)
  have "s' \<in> {s, s3\<lparr>state := ERROR\<rparr>, s5\<lparr>taskRunning := True\<rparr>, s5\<lparr>state := ERROR\<rparr>}"
    using assms(2) unfolding start_def Let_def s3_def [symmetric] s4_def [symmetric] s5_def [symmetric]
    by (auto split: if_splits)
  then show ?thesis using assms(1) s3 s5 by (auto intro: server_inv_flags)
qed

lemma server_inv_stop [inv_intros]: "server_inv s \<Longrightarrow> server_inv (stop s)"
  by (simp add: stop_def server_inv_def lease_inv_def names_inv_def keyed_by_ip_def)

lemma machine_inv_receive:
  assumes "machine_inv (s, buf)" and "serverLoop_iter e received (s, buf) = Some (sb', evs)"
  shows "machine_inv sb'"
  using assms server_inv_handle [OF server_inv_removeExpired [of s e Purge]]
  by (auto simp: serverLoop_iter_def machine_inv_def Let_def server_inv_removeExpired split: option.splits)

lemma machine_inv_step:
  assumes "dhcp_step sb sb'" and "machine_inv sb"
  shows "machine_inv sb'"
  using assms
proof (induction rule: dhcp_step.induct)
  case (receive s e received buf sb' evs)
  then show ?case using machine_inv_receive by blast
next
  case (started os c s ok s' buf' buf)
  then show ?case using server_inv_start [of s os c ok s'] by (simp add: machine_inv_def)
qed (unfold machine_inv_def fst_conv snd_conv;
    blast intro: server_inv_flags server_inv_stop server_inv_bindings server_inv_allowed server_inv_limit)+

definition dhcp_boot :: "dhcp \<times> byte list \<Rightarrow> bool" where
  "dhcp_boot sb \<longleftrightarrow> fst sb = dhcp_new \<and> length (snd sb) = RECV_BUFFER_BYTES"

lemma machine_inv_boot: "dhcp_boot sb \<Longrightarrow> machine_inv sb"
  by (simp add: dhcp_boot_def machine_inv_def dhcp_new_def server_inv_def lease_inv_def names_inv_def
      keyed_by_ip_def kMaxTable_def declined_inv_init)

interpretation dhcp_machine: safe_machine dhcp_boot dhcp_step machine_inv
  by unfold_locales (auto intro: machine_inv_boot machine_inv_step)

section \<open>Replies on the wire\<close>

definition reply_type :: "byte list \<Rightarrow> byte" where
  "reply_type data = data ! 242"

definition reply_yiaddr :: "byte list \<Rightarrow> u32" where
  "reply_yiaddr data = le32 (data ! 16) (data ! 17) (data ! 18) (data ! 19)"

definition reply_xid :: "byte list \<Rightarrow> u32" where
  "reply_xid data = le32 (data ! 4) (data ! 5) (data ! 6) (data ! 7)"

lemma six_cases:
  assumes "length m = 6"
  obtains a b c d e f where "m = [a, b, c, d, e, f]"
  using assms by (auto simp: eval_nat_numeral length_Suc_conv)

lemma mem32_nth:
  "le32 (mem32 w ! 0) (mem32 w ! Suc 0) (mem32 w ! 2) (mem32 w ! 3) = w"
  by (simp add: mem32_def)

lemma length_reply_header: "length m = 6 \<Longrightarrow> length (reply_header xid y si gi m) = 240"
  by (simp add: reply_header_def)

lemma reply_fields:
  assumes "length m = 6"
  shows "reply_type (reply_header xid y si gi m @ 53 # 1 # t # rest) = t"
    and "reply_yiaddr (reply_header xid y si gi m @ rest) = y"
    and "reply_xid (reply_header xid y si gi m @ rest) = xid"
    and "take 6 (drop 28 (reply_header xid y si gi m @ rest)) = m"
proof -
  show "reply_type (reply_header xid y si gi m @ 53 # 1 # t # rest) = t"
    using length_reply_header [OF assms] by (simp add: reply_type_def nth_append)
  show "reply_yiaddr (reply_header xid y si gi m @ rest) = y"
    by (simp add: reply_yiaddr_def reply_header_def nth_append mem32_nth)
  show "reply_xid (reply_header xid y si gi m @ rest) = xid"
    by (simp add: reply_xid_def reply_header_def nth_append mem32_nth)
  show "take 6 (drop 28 (reply_header xid y si gi m @ rest)) = m"
    using assms by (simp add: reply_header_def)
qed

text \<open>Walking over one four-byte option, and over the end marker.\<close>

lemma walk_end: "240 + off < length buf \<Longrightarrow> buf ! (240 + off) = 255 \<Longrightarrow> parseOptions buf off p = Some p"
  by (subst parseOptions.simps) simp

lemma walk_skip:
  assumes "buf = pre @ opt_ip code v @ suf" and "length pre = 240 + off" and "off < DHCP_OPTIONS_BYTES"
    and "code \<notin> {0, 50, 53, 54, 255}"
  shows "parseOptions buf off p = parseOptions buf (off + 6) p"
proof -
  have "rd buf (240 + off) = Some code" "rd buf (240 + off + 1) = Some 4"
    using assms(1,2) by (simp_all add: opt_ip_def rd_def nth_append)
  with assms(3,4) show ?thesis
    by (subst parseOptions.simps) simp
qed

lemma walk_server_id:
  assumes "buf = pre @ opt_ip 54 v @ suf" and "length pre = 240 + off" and "off < DHCP_OPTIONS_BYTES"
  shows "parseOptions buf off p = parseOptions buf (off + 6) (p\<lparr>p_serverId := v\<rparr>)"
proof -
  have "rd buf (240 + off) = Some 54" "rd buf (240 + off + 1) = Some 4"
    "rd32 buf (240 + off + 2) = Some v"
    using assms(1,2) by (simp_all add: opt_ip_def rd_def rd32_def nth_append mem32_def)
  with assms(3) show ?thesis
    by (subst parseOptions.simps) simp
qed

lemma walk_type:
  assumes "buf = pre @ [53, 1, t] @ suf" and "length pre = 240 + off" and "off < DHCP_OPTIONS_BYTES"
  shows "parseOptions buf off p = parseOptions buf (off + 3) (p\<lparr>p_msgType := t\<rparr>)"
proof -
  have "rd buf (240 + off) = Some 53" "rd buf (240 + off + 1) = Some 1"
    "rd buf (240 + off + 2) = Some t"
    using assms(1,2) by (simp_all add: rd_def nth_append)
  with assms(3) show ?thesis
    by (subst parseOptions.simps) (simp add: numeral_3_eq_3)
qed

text \<open>The options of a lease reply, walked by the same parser.\<close>

lemma walk_lease_options:
  assumes "buf = pre @ lease_options t s m @ suf" and "length pre = 240"
  shows "parseOptions buf 0 p = Some (p\<lparr>p_msgType := t, p_serverId := serverIp s\<rparr>)"
proof -
  note [simp] = DHCP_OPTIONS_BYTES_def opt_ip_def
  obtain router sendRouter where rt: "resolveRouter s m = (router, sendRouter)"
    by (cases "resolveRouter s m")
  define ro where "ro = (if sendRouter then opt_ip 3 router else [])"
  define k where "k = (if sendRouter then 6 else 0 :: nat)"
  have k: "length ro = k" by (simp add: ro_def k_def)
  have buf: "buf = pre @ [53, 1, t] @ opt_ip 54 (serverIp s) @ opt_ip 1 (serverNetmask s) @ ro @
      opt_ip 6 (resolveDnsServer s m) @ opt_ip 51 (htonl (leaseTimeSec s)) @ [255] @ suf"
    using assms(1) by (simp add: lease_options_def rt ro_def)
  let ?p1 = "p\<lparr>p_msgType := t\<rparr>" and ?p2 = "p\<lparr>p_msgType := t, p_serverId := serverIp s\<rparr>"
  have "parseOptions buf 0 p = parseOptions buf (0 + 3) ?p1"
    by (rule walk_type [OF buf]) (simp_all add: assms(2))
  also have "\<dots> = parseOptions buf (3 + 6) ?p2"
    using walk_server_id [of buf "pre @ [53, 1, t]" "serverIp s" _ 3 ?p1] buf assms(2) by simp
  also have "\<dots> = parseOptions buf (9 + 6) ?p2"
    using walk_skip [of buf "pre @ [53, 1, t] @ opt_ip 54 (serverIp s)" 1 "serverNetmask s" _ 9 ?p2]
      buf assms(2) by simp
  also have "\<dots> = parseOptions buf (15 + k) ?p2"
    using walk_skip [of buf "pre @ [53, 1, t] @ opt_ip 54 (serverIp s) @ opt_ip 1 (serverNetmask s)" 3
        router _ 15 ?p2] buf assms(2) by (cases sendRouter) (simp_all add: ro_def k_def)
  also have "\<dots> = parseOptions buf (15 + k + 6) ?p2"
    by (rule walk_skip [of buf "pre @ [53, 1, t] @ opt_ip 54 (serverIp s) @ opt_ip 1 (serverNetmask s) @ ro"
          6 "resolveDnsServer s m"]) (simp_all add: buf assms(2) k k_def)
  also have "\<dots> = parseOptions buf (15 + k + 6 + 6) ?p2"
    by (rule walk_skip [of buf "pre @ [53, 1, t] @ opt_ip 54 (serverIp s) @ opt_ip 1 (serverNetmask s) @ ro @
          opt_ip 6 (resolveDnsServer s m)" 51 "htonl (leaseTimeSec s)"]) (simp_all add: buf assms(2) k k_def)
  also have "\<dots> = Some ?p2"
    by (rule walk_end) (simp_all add: buf assms(2) k nth_append)
  finally show ?thesis by simp
qed

section \<open>When a reply is sent\<close>

definition sent :: "event list \<Rightarrow> byte list \<Rightarrow> bool" where
  "sent evs data \<longleftrightarrow> (\<exists>dest port. Udp dest port data \<in> set evs)"

lemma length_chaddr: "length buf = RECV_BUFFER_BYTES \<Longrightarrow> length (chaddr buf) = 6"
  by (simp add: RECV_BUFFER_BYTES_def)

lemma sent_nak: "sent (sendDhcpNak s m xid gi) data \<Longrightarrow> length m = 6 \<Longrightarrow> reply_type data = DHCP_NAK"
  by (auto simp: sent_def sendDhcpNak_def logDhcpRest_def reply_fields(1))

lemma sent_ack:
  assumes "sent (sendDhcpAck s m xid ip gi) data" and "length m = 6"
  shows "reply_type data = DHCP_ACK \<and> reply_yiaddr data = ip \<and> reply_xid data = xid \<and> take 6 (drop 28 data) = m"
  using assms reply_fields [OF assms(2), of xid ip "serverIp s" gi]
  by (auto simp: sent_def sendDhcpAck_def logDhcpRest_def lease_options_def split: prod.splits)

lemma request_acked:
  assumes "handleRequest e s m xid req sid ci gi h = (s', evs)" and "length m = 6"
    and "sent evs data" and "reply_type data = DHCP_ACK"
  shows "\<exists>ip. reply_yiaddr data = ip \<and> reply_xid data = xid \<and> take 6 (drop 28 data) = m
    \<and> request_valid s m ip \<and> request_ack e s m ip \<and> fst (canAddLeaseEntry e ip s)
    \<and> s' = addLease e m ip h (snd (canAddLeaseEntry e ip s))"
proof -
  let ?ip = "if req \<noteq> 0 then req else ci"
  have no: "\<not> sent (sendDhcpNak s0 m xid gi) data" "\<not> sent [] data" for s0
    using sent_nak [of s0 m xid gi data] assms(2,4) by (auto simp: dhcp_consts sent_def)
  obtain ok s1 where c: "canAddLeaseEntry e ?ip s = (ok, s1)" by (cases "canAddLeaseEntry e ?ip s")
  have "request_valid s m ?ip \<and> request_ack e s m ?ip \<and> ok \<and> s' = addLease e m ?ip h s1
      \<and> evs = sendDhcpAck s1 m xid ?ip gi"
    using assms(1,3) no unfolding handleRequest_def Let_def c
    by (cases ok) (auto split: if_splits)
  then show ?thesis
    using sent_ack [of s1 m xid ?ip gi data] assms(2,3) c by auto
qed

lemma request_sent:
  assumes "handleRequest e s m xid req sid ci gi h = (s', evs)" and "length m = 6" and "sent evs data"
  shows "reply_type data \<in> {DHCP_ACK, DHCP_NAK}"
proof -
  let ?ip = "if req \<noteq> 0 then req else ci"
  obtain ok s1 where c: "canAddLeaseEntry e ?ip s = (ok, s1)" by (cases "canAddLeaseEntry e ?ip s")
  have "evs \<in> {sendDhcpNak s m xid gi, sendDhcpNak s1 m xid gi, sendDhcpAck s1 m xid ?ip gi, []}"
    using assms(1) unfolding handleRequest_def Let_def c by (cases ok) (auto split: if_splits)
  then show ?thesis
    using assms(2,3) sent_ack [of s1 m xid ?ip gi data] sent_nak [of s m xid gi data]
      sent_nak [of s1 m xid gi data] by (auto simp: sent_def [of "[]"])
qed

lemma offer_sent:
  assumes "sendDhcpOffer e s m xid req gi h = Some (s', evs)" and "length m = 6" and "sent evs data"
  shows "\<exists>ip. reply_type data = DHCP_OFFER \<and> reply_yiaddr data = ip \<and> reply_xid data = xid
    \<and> take 6 (drop 28 data) = m \<and> ip \<noteq> 0 \<and> offer_choice e s m req = Some ip
    \<and> reserveOffer e m ip h s = (True, s')"
proof -
  obtain ip where ip: "offer_choice e s m req = Some ip"
    using assms(1) by (auto simp: sendDhcpOffer_def split: option.splits)
  obtain ok s1 where r: "reserveOffer e m ip h s = (ok, s1)" by (cases "reserveOffer e m ip h s")
  have "ip \<noteq> 0 \<and> ok \<and> s' = s1"
    using assms(1,3) ip r by (auto simp: sendDhcpOffer_def sent_def split: if_splits bool.splits)
  moreover have "data = reply_header xid ip (serverIp s1) gi m @ lease_options DHCP_OFFER s1 m"
    using assms(1,3) ip r calculation
    by (auto simp: sendDhcpOffer_def sent_def logDhcpRest_def split: if_splits bool.splits prod.splits)
  ultimately show ?thesis
    using ip r reply_fields [OF assms(2), of xid ip "serverIp s1" gi]
    by (auto simp: lease_options_def)
qed

lemma sent_nothing:
  "\<not> sent [] data"
  "handleRelease s ci = (s', evs) \<Longrightarrow> \<not> sent evs data"
  "handleDecline e s m req = (s', evs) \<Longrightarrow> \<not> sent evs data"
  by (auto simp: sent_def handleRelease_def handleDecline_def logDhcpRest_def Let_def split: option.splits)

text \<open>A reply comes out of the OFFER or the REQUEST branch.\<close>

lemma reply_cases:
  assumes "handleDhcpMessage e s buf len = Some (r, s', evs)" and "sent evs data"
  obtains (offer) p xid gi h where "name_safe h" "rd32 buf 4 = Some xid"
      "sendDhcpOffer e s (chaddr buf) xid (p_requestedIp p) gi h = Some (s', evs)"
      "parseOptions buf 0 no_options = Some p"
  | (request) req sid xid ci gi h where "name_safe h" "rd32 buf 4 = Some xid"
      "handleRequest e s (chaddr buf) xid req sid ci gi h = (s', evs)"
  using assms(1) by (cases rule: handle_cases) (use assms(2) sent_nothing that in \<open>metis+\<close>)

section \<open>Choice of the address\<close>

lemma find_SomeD: "List.find P xs = Some x \<Longrightarrow> x \<in> set xs \<and> P x"
  by (auto simp: find_Some_iff)

lemma selectIp_sound:
  assumes "lease_inv s" and "selectIp e s m = Some ip" and "ip \<noteq> 0"
  shows "isStaticBindingForMac s m ip \<or> (\<exists>l. om_find (leases s) ip = Some l \<and> ls_mac l = m) \<or> (\<exists>k. scan_free e s k ip)"
proof (cases "List.find (\<lambda>b. se_enabled b \<and> se_mac b = m \<and> om_find (leases s) (se_ip b) = None) (staticBindings s)")
  case (Some b)
  then show ?thesis
    using assms(2) find_SomeD [OF Some] by (auto simp: selectIp_def isStaticBindingForMac_def)
next
  case None
  note none = None
  show ?thesis
  proof (cases "List.find (\<lambda>(ip, l). ls_mac l = m) (leases s)")
    case (Some q)
    then show ?thesis
      using assms(1,2) none find_SomeD [OF Some]
      by (auto simp: selectIp_def lease_inv_def om_find_iff split: prod.splits)
  next
    case None
    then show ?thesis
      using assms(2,3) none scan_sound [of e s 0 "rangeStart s" ip] by (simp add: selectIp_def)
  qed
qed

lemma offer_choice_sound:
  assumes "lease_inv s" and "offer_choice e s m req = Some ip" and "ip \<noteq> 0"
  shows "isStaticBindingForMac s m ip \<or> (\<exists>l. om_find (leases s) ip = Some l \<and> ls_mac l = m)
    \<or> (\<exists>k. scan_free e s k ip)
    \<or> (ip = req \<and> isIpInRange s ip \<and> \<not> addressDeclined e Ask s ip \<and> probeIp e Ask ip = None)"
  using assms selectIp_sound [OF assms(1) _ assms(3), of e m]
  by (auto simp: offer_choice_def Let_def split: if_splits)

section \<open>Other clients' leases\<close>

lemma canAdd_keeps:
  assumes "om_inv (leases s)" and "om_find (leases s) ip = Some l" and "getCurrentTimeSec e Limit < ls_expiry l"
  shows "om_find (leases (snd (canAddLeaseEntry e jp s))) ip = Some l"
  using assms by (auto simp: canAddLeaseEntry_def Let_def removeExpiredLeases_def om_find_keep)

definition same_lease :: "dhcp \<Rightarrow> u32 \<Rightarrow> lease \<Rightarrow> bool" where
  "same_lease s ip l \<longleftrightarrow>
     (\<exists>l'. om_find (leases s) ip = Some l' \<and> ls_mac l' = ls_mac l \<and> ls_expiry l' = ls_expiry l)"

lemma same_leaseI: "om_find (leases s) ip = Some l \<Longrightarrow> same_lease s ip l"
  by (simp add: same_lease_def)

lemma reserve_keeps:
  assumes inv: "lease_inv s" and l: "om_find (leases s) ip = Some l"
    and "getCurrentTimeSec e Hold + kOfferHoldSec < ls_expiry l"
    and live: "getCurrentTimeSec e Limit < ls_expiry l"
  shows "same_lease (snd (reserveOffer e m jp h s)) ip l"
proof -
  have om: "om_inv (leases s)" using inv by (simp add: lease_inv_def)
  have can: "om_inv (leases (snd (canAddLeaseEntry e jp s)))"
    using lease_inv_canAdd [OF inv] by (simp add: lease_inv_def)
  show ?thesis
  proof (cases rule: reserveOffer_cases [of s jp e m h])
    case (long k)
    then show ?thesis using om l by (auto simp: same_lease_def)
  next
    case full
    then show ?thesis using canAdd_keeps [OF om l live] by (simp add: same_leaseI)
  next
    case fresh
    have "jp \<noteq> ip" using fresh(2) l assms(3) by auto
    then show ?thesis
      using fresh(3) can canAdd_keeps [OF om l live, of jp] by (simp add: same_lease_def)
  qed
qed

lemma request_keeps:
  assumes inv: "lease_inv s" and l: "om_find (leases s) ip = Some l"
    and live: "getCurrentTimeSec e Limit < ls_expiry l"
    and "ls_mac l \<noteq> m" and "\<not> isStaticBindingForMac s m ip"
    and "handleRequest e s m xid req sid ci gi h = (s', evs)"
  shows "same_lease s' ip l"
proof -
  let ?jp = "if req \<noteq> 0 then req else ci"
  obtain ok s1 where c: "canAddLeaseEntry e ?jp s = (ok, s1)" by (cases "canAddLeaseEntry e ?jp s")
  have om: "om_inv (leases s)" using inv by (simp add: lease_inv_def)
  have s1: "om_inv (leases s1)" "om_find (leases s1) ip = Some l"
    using lease_inv_canAdd [OF inv, of e ?jp] canAdd_keeps [OF om l live, of ?jp] c
    by (simp_all add: lease_inv_def)
  have "?jp \<noteq> ip" if "request_ack e s m ?jp"
    using that assms(4,5) l by (auto simp: request_ack_def split: if_splits)
  then have "request_ack e s m ?jp \<Longrightarrow> om_find (leases (addLease e m ?jp h s1)) ip = Some l"
    using s1 by (simp add: addLease_def)
  then show ?thesis
    using assms(6) s1(2) l unfolding handleRequest_def Let_def c
    by (cases ok) (auto split: if_splits intro: same_leaseI)
qed

lemma offer_keeps:
  assumes "lease_inv s" and l: "om_find (leases s) ip = Some l"
    and "getCurrentTimeSec e Hold + kOfferHoldSec < ls_expiry l"
    and "getCurrentTimeSec e Limit < ls_expiry l"
    and "sendDhcpOffer e s m xid req gi h = Some (s', evs)"
  shows "same_lease s' ip l"
proof -
  obtain jp where jp: "offer_choice e s m req = Some jp"
    using assms(5) by (auto simp: sendDhcpOffer_def split: option.splits)
  obtain ok s1 where r: "reserveOffer e m jp h s = (ok, s1)" by (cases "reserveOffer e m jp h s")
  have "s' = s \<or> s' = s1"
    using assms(5) jp r by (auto simp: sendDhcpOffer_def split: if_splits bool.splits)
  moreover have "same_lease s1 ip l"
    using reserve_keeps [OF assms(1-4), of m jp h] r by simp
  ultimately show ?thesis using same_leaseI [OF l] by auto
qed

section \<open>Concrete packets\<close>

text \<open>A client's message in the receive buffer: transaction 7, no relay, the options given.\<close>

definition packet :: "mac \<Rightarrow> u32 \<Rightarrow> byte list \<Rightarrow> byte list" where
  "packet m ci opts = [1, 1, 6, 0] @ mem32 7 @ replicate 4 0 @ mem32 ci @ replicate 12 0 @ m @
     replicate 202 0 @ [0x63, 0x82, 0x53, 0x63] @ opts @ replicate (784 - length opts) 0"

definition ask :: "byte \<Rightarrow> u32 \<Rightarrow> byte list" where
  "ask t ip = [53, 1, t] @ opt_ip 50 ip @ [255]"

lemma packet_split:
  assumes "length m = 6"
  obtains pre where "packet m ci opts = pre @ opts @ replicate (784 - length opts) 0" "length pre = 240"
  using assms by (intro that [of "[1, 1, 6, 0] @ mem32 7 @ replicate 4 0 @ mem32 ci @ replicate 12 0 @ m @
     replicate 202 0 @ [0x63, 0x82, 0x53, 0x63]"]) (simp_all add: packet_def)

lemma packet_fields:
  assumes "length m = 6" and "length opts \<le> 784"
  shows "length (packet m ci opts) = RECV_BUFFER_BYTES" and "chaddr (packet m ci opts) = m"
    and "rd32 (packet m ci opts) 4 = Some 7" and "rd32 (packet m ci opts) 12 = Some ci"
    and "rd32 (packet m ci opts) 24 = Some 0"
    and "rd32 (packet m ci opts) 236 = Some (le32 0x63 0x82 0x53 0x63)"
proof -
  show len: "length (packet m ci opts) = RECV_BUFFER_BYTES"
    using assms by (simp add: packet_def RECV_BUFFER_BYTES_def)
  show "chaddr (packet m ci opts) = m"
    using assms by (simp add: packet_def)
  have r: "rd32 (packet m ci opts) i = Some (le32 (packet m ci opts ! i) (packet m ci opts ! (i + 1))
      (packet m ci opts ! (i + 2)) (packet m ci opts ! (i + 3)))" if "i < 1000" for i
    using len that by (intro rd32_Some) (simp add: RECV_BUFFER_BYTES_def)
  show "rd32 (packet m ci opts) 4 = Some 7" "rd32 (packet m ci opts) 12 = Some ci"
    using r by (simp_all add: packet_def nth_append mem32_nth)
  have "le32 0 0 0 0 = 0" by (simp add: le32_def)
  then show "rd32 (packet m ci opts) 24 = Some 0"
    using r by (simp add: packet_def nth_append)
  show "rd32 (packet m ci opts) 236 = Some (le32 0x63 0x82 0x53 0x63)"
    using r assms by (simp add: packet_def nth_append)
qed

lemma magic: "le32 0x63 0x53 0x82 0x63 = DHCP_MAGIC_COOKIE"
  by (simp add: DHCP_MAGIC_COOKIE_def word_unat_eq_iff unat_le32)

definition packet_name :: "mac \<Rightarrow> u32 \<Rightarrow> byte list \<Rightarrow> string" where
  "packet_name m ci opts = the (fromOptions (take 784 (drop 240 (packet m ci opts))))"

lemma handle_packet:
  assumes "length m = 6" and "length opts \<le> 784"
    and "parseOptions (packet m ci opts) 0 no_options = Some p" and "p_msgType p \<noteq> 0" and "served s m"
  shows "handleDhcpMessage e s (packet m ci opts) 1024 =
    map_option (\<lambda>(s', evs). (True, s', evs)) (dispatch e s p m 7 ci 0 (packet_name m ci opts))"
proof -
  note f = packet_fields [OF assms(1,2), of ci]
  have len: "length (packet m ci opts) = 1024" using f(1) by (simp add: RECV_BUFFER_BYTES_def)
  obtain h where "fromOptions (take 784 (drop 240 (packet m ci opts))) = Some h" using fromOptions_total by blast
  then show ?thesis
    using assms(3-5) f len
    by (simp add: handleDhcpMessage_def DHCP_MIN_MSGSIZE_def magic served_def packet_name_def
        map_conv_bind_option case_prod_unfold comp_def)
qed

lemma walk_req_addr:
  assumes "buf = pre @ opt_ip 50 v @ suf" and "length pre = 240 + off" and "off < DHCP_OPTIONS_BYTES"
  shows "parseOptions buf off p = parseOptions buf (off + 6) (p\<lparr>p_requestedIp := v\<rparr>)"
proof -
  have "rd buf (240 + off) = Some 50" "rd buf (240 + off + 1) = Some 4"
    "rd32 buf (240 + off + 2) = Some v"
    using assms(1,2) by (simp_all add: opt_ip_def rd_def rd32_def nth_append mem32_def)
  with assms(3) show ?thesis
    by (subst parseOptions.simps) simp
qed

lemma parse_ask:
  assumes "length m = 6"
  shows "parseOptions (packet m ci (ask t ip)) 0 no_options =
    Some \<lparr>p_msgType = t, p_requestedIp = ip, p_serverId = 0\<rparr>"
proof -
  obtain pre where buf: "packet m ci (ask t ip) =
      pre @ ask t ip @ replicate (784 - length (ask t ip)) 0" and pre: "length pre = 240"
    using packet_split [OF assms] by blast
  let ?b = "packet m ci (ask t ip)"
  have "parseOptions ?b 0 no_options = parseOptions ?b (0 + 3) (no_options\<lparr>p_msgType := t\<rparr>)"
    using buf pre by (intro walk_type [of ?b pre]) (simp_all add: ask_def DHCP_OPTIONS_BYTES_def)
  also have "\<dots> = parseOptions ?b (3 + 6) (no_options\<lparr>p_msgType := t, p_requestedIp := ip\<rparr>)"
    using buf pre walk_req_addr [of ?b "pre @ [53, 1, t]" ip _ 3]
    by (simp add: ask_def DHCP_OPTIONS_BYTES_def)
  also have "\<dots> = Some (no_options\<lparr>p_msgType := t, p_requestedIp := ip\<rparr>)"
    by (rule walk_end; subst buf; simp add: pre ask_def opt_ip_def nth_append)
  finally show ?thesis by (simp add: no_options_def)
qed

lemma served_idle: "served (idle lo hi) m"
  by (simp add: served_def isClientAllowed_def idle_def)

section \<open>Properties\<close>

text \<open>
  C1. An ACK goes only to an address the client may have: not the server's own, inside the range or
  bound to this client by the operator, and either bound to it, or already leased to it, or free, not
  refused within the hour and not seen on the network under another hardware address. The lease is in
  the table when the ACK leaves, for this client, with the full lease time, and the reply carries the
  request's transaction and hardware address.
\<close>

theorem ack_safe:
  assumes "server_inv s" and "length buf = RECV_BUFFER_BYTES"
    and "handleDhcpMessage e s buf len = Some (r, s', evs)"
    and "sent evs data" and "reply_type data = DHCP_ACK"
  shows "let ip = reply_yiaddr data; m = chaddr buf in
    ip \<noteq> 0 \<and> ip \<noteq> serverIp s \<and> (isIpInRange s ip \<or> isStaticBindingForMac s m ip)
    \<and> (isStaticBindingForMac s m ip
       \<or> (\<exists>l. om_find (leases s) ip = Some l \<and> ls_mac l = m)
       \<or> (om_find (leases s) ip = None \<and> \<not> isDeclined (declinedTbl s) ip (getCurrentTimeMs e Ask)
          \<and> (probeIp e Ask ip = None \<or> probeIp e Ask ip = Some m)))
    \<and> (\<exists>h. om_find (leases s') ip = Some \<lparr>ls_mac = m, ls_ip = ip,
          ls_expiry = getCurrentTimeSec e Record + leaseTimeSec s, ls_hostname = h\<rparr>)
    \<and> rd32 buf 4 = Some (reply_xid data) \<and> take 6 (drop 28 data) = m"
  using assms(3,4)
proof (cases rule: reply_cases)
  case (offer p xid gi h)
  then show ?thesis
    using offer_sent [OF offer(3) length_chaddr [OF assms(2)] assms(4)] assms(5) by (auto simp: dhcp_consts)
next
  case (request req sid xid ci gi h)
  obtain ip where ip: "reply_yiaddr data = ip" "reply_xid data = xid" "take 6 (drop 28 data) = chaddr buf"
      "request_valid s (chaddr buf) ip" "request_ack e s (chaddr buf) ip"
      "s' = addLease e (chaddr buf) ip h (snd (canAddLeaseEntry e ip s))"
    using request_acked [OF request(3) length_chaddr [OF assms(2)] assms(4,5)] by blast
  have "om_inv (leases (snd (canAddLeaseEntry e ip s)))"
    using lease_inv_canAdd [of s e ip] assms(1) by (simp add: lease_inv_def server_inv_def)
  with ip request(2) show ?thesis
    by (auto simp: Let_def request_valid_def request_ack_def addLease_def addressDeclined_def
        split: if_splits option.splits)
qed

lemma isIpInRange_idle:
  "isIpInRange (idle (le32 192 168 1 100) (le32 192 168 1 200)) (le32 192 168 1 100)"
  by (simp add: isIpInRange_def idle_def word_le_nat_alt unat_le32)

lemma server_inv_idle: "server_inv (idle lo hi)"
  by (simp add: server_inv_def idle_inv names_inv_def) (simp add: idle_def)

text \<open>A first REQUEST for 192.168.1.100 at an idle server is acknowledged.\<close>

lemma idle_request:
  defines "s \<equiv> idle (le32 192 168 1 100) (le32 192 168 1 200)"
  shows "handleRequest quiet s m xid (le32 192 168 1 100) 0 ci gi h =
    (addLease quiet m (le32 192 168 1 100) h s, sendDhcpAck s m xid (le32 192 168 1 100) gi)"
proof -
  have "le32 192 168 1 100 \<noteq> 0" by (simp add: word_unat_eq_iff unat_le32)
  moreover have "request_valid s m (le32 192 168 1 100)"
    unfolding request_valid_def s_def using isIpInRange_idle calculation by (simp add: idle_def)
  moreover have "request_ack quiet s m (le32 192 168 1 100)"
    by (simp add: request_ack_def s_def idle_def addressDeclined_def)
  moreover have "canAddLeaseEntry quiet (le32 192 168 1 100) s = (True, s)"
    by (simp add: canAddLeaseEntry_def s_def idle_def)
  ultimately show ?thesis by (simp add: handleRequest_def Let_def)
qed

theorem ack_safe_witness:
  "\<exists>s' evs data. handleDhcpMessage quiet (idle (le32 192 168 1 100) (le32 192 168 1 200))
      (packet [2, 0, 0, 0, 0, 1] 0 (ask DHCP_REQUEST (le32 192 168 1 100))) 1024 = Some (True, s', evs)
    \<and> sent evs data \<and> reply_type data = DHCP_ACK
    \<and> om_find (leases s') (reply_yiaddr data) \<noteq> None"
proof -
  let ?s = "idle (le32 192 168 1 100) (le32 192 168 1 200)" and ?m = "[2, 0, 0, 0, 0, 1] :: mac"
  let ?b = "packet ?m 0 (ask DHCP_REQUEST (le32 192 168 1 100))"
  have m: "length ?m = 6" and o: "length (ask DHCP_REQUEST (le32 192 168 1 100)) \<le> 784"
    by (simp_all add: ask_def opt_ip_def)
  obtain s' h where h: "handleDhcpMessage quiet ?s ?b 1024 =
      Some (True, s', sendDhcpAck ?s ?m 7 (le32 192 168 1 100) 0)"
    using handle_packet [OF m o parse_ask [OF m] _ served_idle, of quiet]
    by (simp add: dispatch_def dhcp_consts idle_request)
  obtain data where d: "sent (sendDhcpAck ?s ?m 7 (le32 192 168 1 100) 0) data"
    by (auto simp: sent_def sendDhcpAck_def)
  then have t: "reply_type data = DHCP_ACK" using sent_ack m by blast
  from ack_safe [OF server_inv_idle packet_fields(1) [OF m o] h d t] h d t show ?thesis
    unfolding Let_def by (metis option.distinct(1))
qed

text \<open>
  C3. An OFFER names an address that is bound to the client by the operator; or one the client already
  holds; or one nobody holds that is not the server's own, not refused within the hour and silent on
  the network; or, when the client itself asked for it, an address of the range that is not refused and
  silent, although another client holds it (the code does not look at the table in this case). When the
  OFFER leaves, the address is in the table: held for this client for a minute, unless an entry with
  more than a minute left is there, which keeps its owner and its expiry.
\<close>

theorem offer_safe:
  assumes "server_inv s" and "length buf = RECV_BUFFER_BYTES"
    and "handleDhcpMessage e s buf len = Some (r, s', evs)"
    and "sent evs data" and "reply_type data = DHCP_OFFER"
  shows "let ip = reply_yiaddr data; m = chaddr buf in
    ip \<noteq> 0 \<and> take 6 (drop 28 data) = m
    \<and> (isStaticBindingForMac s m ip
       \<or> (\<exists>l. om_find (leases s) ip = Some l \<and> ls_mac l = m)
       \<or> (om_find (leases s) ip = None \<and> ip \<noteq> serverIp s
          \<and> (\<exists>w. \<not> isDeclined (declinedTbl s) ip (getCurrentTimeMs e w) \<and> probeIp e w ip = None))
       \<or> (\<exists>l p. om_find (leases s) ip = Some l \<and> ls_mac l \<noteq> m
          \<and> parseOptions buf 0 no_options = Some p \<and> p_requestedIp p = ip \<and> isIpInRange s ip
          \<and> \<not> isDeclined (declinedTbl s) ip (getCurrentTimeMs e Ask) \<and> probeIp e Ask ip = None))
    \<and> (\<exists>l. om_find (leases s') ip = Some l
         \<and> (ls_mac l = m \<and> ls_expiry l = getCurrentTimeSec e Record + kOfferHoldSec
            \<or> getCurrentTimeSec e Hold + kOfferHoldSec < ls_expiry l
              \<and> (\<exists>l0. om_find (leases s) ip = Some l0 \<and> ls_mac l0 = ls_mac l \<and> ls_expiry l0 = ls_expiry l)))"
  using assms(3,4)
proof (cases rule: reply_cases)
  case (request req sid xid ci gi h)
  then show ?thesis
    using request_sent [OF request(3) length_chaddr [OF assms(2)] assms(4)] assms(5)
    by (auto simp: dhcp_consts)
next
  case (offer p xid gi h)
  have inv: "lease_inv s" and om: "om_inv (leases s)"
    using assms(1) by (simp_all add: server_inv_def lease_inv_def)
  obtain ip where ip: "reply_yiaddr data = ip" "take 6 (drop 28 data) = chaddr buf" "ip \<noteq> 0"
      "offer_choice e s (chaddr buf) (p_requestedIp p) = Some ip" "reserveOffer e (chaddr buf) ip h s = (True, s')"
    using offer_sent [OF offer(3) length_chaddr [OF assms(2)] assms(4)] by blast
  have can: "om_inv (leases (snd (canAddLeaseEntry e ip s)))"
    using lease_inv_canAdd [OF inv] by (simp add: lease_inv_def)
  have held: "\<exists>l. om_find (leases s') ip = Some l
         \<and> (ls_mac l = chaddr buf \<and> ls_expiry l = getCurrentTimeSec e Record + kOfferHoldSec
            \<or> getCurrentTimeSec e Hold + kOfferHoldSec < ls_expiry l
              \<and> (\<exists>l0. om_find (leases s) ip = Some l0 \<and> ls_mac l0 = ls_mac l \<and> ls_expiry l0 = ls_expiry l))"
    using ip(5) om can by (cases rule: reserveOffer_cases [of s ip e "chaddr buf" h]) (auto split: if_splits)
  consider (own) "isStaticBindingForMac s (chaddr buf) ip \<or> (\<exists>l. om_find (leases s) ip = Some l \<and> ls_mac l = chaddr buf)"
    | (free) w where "om_find (leases s) ip = None" "ip \<noteq> serverIp s" "\<not> addressDeclined e w s ip" "probeIp e w ip = None"
    | (asked) l where "om_find (leases s) ip = Some l" "ls_mac l \<noteq> chaddr buf" "p_requestedIp p = ip" "isIpInRange s ip"
        "\<not> addressDeclined e Ask s ip" "probeIp e Ask ip = None"
    using offer_choice_sound [OF inv ip(4,3)]
    by (cases "om_find (leases s) ip") (auto simp: scan_free_def isIpInRange_def split: if_splits)
  then show ?thesis
  proof cases
    case own
    with ip held show ?thesis by (auto simp: Let_def)
  next
    case free
    with ip held show ?thesis by (auto simp: Let_def addressDeclined_def)
  next
    case asked
    with ip held offer(4) show ?thesis by (auto simp: Let_def addressDeclined_def)
  qed
qed

text \<open>A DISCOVER for 192.168.1.100 at an idle server is answered with an OFFER of it.\<close>

lemma idle_discover:
  defines "s \<equiv> idle (le32 192 168 1 100) (le32 192 168 1 200)"
  shows "\<exists>s' evs data. sendDhcpOffer quiet s m xid (le32 192 168 1 100) gi h = Some (s', evs) \<and> sent evs data"
proof -
  have nz: "le32 192 168 1 100 \<noteq> 0" by (simp add: word_unat_eq_iff unat_le32)
  have "offer_choice quiet s m (le32 192 168 1 100) = Some (le32 192 168 1 100)"
    unfolding offer_choice_def Let_def s_def using isIpInRange_idle nz
    by (simp add: idle_def isStaticBindingForMac_def addressDeclined_def)
  moreover have "fst (reserveOffer quiet m (le32 192 168 1 100) h s)"
    by (simp add: reserveOffer_def Let_def canAddLeaseEntry_def s_def idle_def)
  ultimately show ?thesis
    using nz by (cases "reserveOffer quiet m (le32 192 168 1 100) h s") (auto simp: sendDhcpOffer_def sent_def)
qed

theorem offer_safe_witness:
  "\<exists>s' evs data. handleDhcpMessage quiet (idle (le32 192 168 1 100) (le32 192 168 1 200))
      (packet [2, 0, 0, 0, 0, 1] 0 (ask DHCP_DISCOVER (le32 192 168 1 100))) 1024 = Some (True, s', evs)
    \<and> sent evs data \<and> (\<exists>l. om_find (leases s') (reply_yiaddr data) = Some l)"
proof -
  let ?s = "idle (le32 192 168 1 100) (le32 192 168 1 200)" and ?m = "[2, 0, 0, 0, 0, 1] :: mac"
  let ?b = "packet ?m 0 (ask DHCP_DISCOVER (le32 192 168 1 100))"
  let ?h = "packet_name ?m 0 (ask DHCP_DISCOVER (le32 192 168 1 100))"
  have m: "length ?m = 6" and o: "length (ask DHCP_DISCOVER (le32 192 168 1 100)) \<le> 784"
    by (simp_all add: ask_def opt_ip_def)
  obtain s' evs data where d: "sendDhcpOffer quiet ?s ?m 7 (le32 192 168 1 100) 0 ?h = Some (s', evs)"
      and st: "sent evs data"
    using idle_discover by blast
  have h: "handleDhcpMessage quiet ?s ?b 1024 = Some (True, s', evs)"
    using handle_packet [OF m o parse_ask [OF m] _ served_idle, of quiet] d
    by (simp add: dispatch_def dhcp_consts)
  have t: "reply_type data = DHCP_OFFER" using offer_sent [OF d m st] by blast
  from offer_safe [OF server_inv_idle packet_fields(1) [OF m o] h st t] h st show ?thesis
    unfolding Let_def by blast
qed

text \<open>
  C2. A message of one client leaves another client's lease alone: as long as the lease has more
  than a minute to run, its address is not bound to the sender by the operator and the message is
  not a RELEASE of that very address, the entry keeps its owner and its expiry.
\<close>

theorem lease_stable:
  assumes "server_inv s" and "handleDhcpMessage e s buf len = Some (r, s', evs)"
    and "om_find (leases s) ip = Some l" and "ls_mac l \<noteq> chaddr buf"
    and "\<not> isStaticBindingForMac s (chaddr buf) ip"
    and "\<forall>w. getCurrentTimeSec e w + kOfferHoldSec < ls_expiry l"
    and "\<forall>w. getCurrentTimeSec e w \<le> getCurrentTimeSec e w + kOfferHoldSec"
    and "\<not> (rd32 buf 12 = Some ip \<and>
            (\<exists>p. parseOptions buf 0 no_options = Some p \<and> p_msgType p = DHCP_RELEASE))"
  shows "\<exists>l'. om_find (leases s') ip = Some l' \<and> ls_mac l' = ls_mac l \<and> ls_expiry l' = ls_expiry l"
proof -
  have inv: "lease_inv s" using assms(1) by (simp add: server_inv_def)
  have hold: "getCurrentTimeSec e Hold + kOfferHoldSec < ls_expiry l" using assms(6) by blast
  have live: "getCurrentTimeSec e Limit < ls_expiry l" using assms(6,7) by (meson le_less_trans)
  have "same_lease s' ip l"
    using assms(2)
  proof (cases rule: handle_cases)
    case silent
    then show ?thesis using assms(3) by (simp add: same_leaseI)
  next
    case (offer p xid gi h)
    then show ?thesis using offer_keeps [OF inv assms(3) hold live] by blast
  next
    case (request req sid xid ci gi h)
    then show ?thesis using request_keeps [OF inv assms(3) live assms(4,5)] by blast
  next
    case (release p ci)
    then have "ci \<noteq> ip" using assms(8) by blast
    then show ?thesis
      using release(5) assms(3) by (auto simp: handleRelease_def split: option.splits intro: same_leaseI)
  next
    case (decline req)
    then show ?thesis
      using assms(3,4) by (auto simp: handleDecline_def Let_def same_lease_def split: option.splits if_splits)
  qed
  then show ?thesis by (simp add: same_lease_def)
qed

definition one_lease :: dhcp where
  "one_lease = (idle (le32 192 168 1 100) (le32 192 168 1 200))
     \<lparr>leases := [(le32 192 168 1 150, \<lparr>ls_mac = [2, 0, 0, 0, 0, 9], ls_ip = le32 192 168 1 150,
        ls_expiry = 86405, ls_hostname = []\<rparr>)]\<rparr>"

lemma one_lease_inv: "server_inv one_lease"
  by (simp add: server_inv_def lease_inv_def names_inv_def one_lease_def idle_def keyed_by_ip_def
      kMaxTable_def declined_inv_init om_inv_def)

lemma scannable_one_lease: "scannable quiet one_lease"
  by (simp add: scannable_def one_lease_def idle_def word_unat_eq_iff unat_le32 unat_minus_1)

lemma quiet_sec: "getCurrentTimeSec quiet w = 5"
  by (simp add: getCurrentTimeSec_def quiet_def)

theorem lease_stable_witness:
  "\<exists>r s' evs l'. handleDhcpMessage quiet one_lease
      (packet [2, 0, 0, 0, 0, 1] 0 (ask DHCP_REQUEST (le32 192 168 1 150))) 1024 = Some (r, s', evs)
    \<and> om_find (leases s') (le32 192 168 1 150) = Some l' \<and> ls_mac l' = [2, 0, 0, 0, 0, 9]"
proof -
  let ?m = "[2, 0, 0, 0, 0, 1] :: mac"
  let ?b = "packet ?m 0 (ask DHCP_REQUEST (le32 192 168 1 150))"
  have m: "length ?m = 6" and o: "length (ask DHCP_REQUEST (le32 192 168 1 150)) \<le> 784"
    by (simp_all add: ask_def opt_ip_def)
  obtain r s' evs where h: "handleDhcpMessage quiet one_lease ?b 1024 = Some (r, s', evs)"
    using handle_total [OF packet_fields(1) [OF m o] scannable_one_lease] by (metis prod_cases3)
  from lease_stable [OF one_lease_inv h, of "le32 192 168 1 150"] h show ?thesis
    unfolding packet_fields(2) [OF m o] parse_ask [OF m]
    by (auto simp: one_lease_def idle_def isStaticBindingForMac_def quiet_sec kOfferHoldSec_def
        word_less_nat_alt word_le_nat_alt dhcp_consts)
qed

text \<open>
  C7. With "allowed computers only" in force, a client that is neither in the list nor covered by an
  enabled binding is not served: whatever it sends, no datagram and no REST event leaves, and no lease,
  offer or refusal is recorded.
\<close>

theorem refused_client_silent:
  assumes "length buf = RECV_BUFFER_BYTES" and "allowOnly s" and "length es \<le> kMaxEntries"
    and "allowed_available l" and "allowedList s = snd (allowed_rebuild l es)"
    and "chaddr buf \<notin> grants es"
    and "\<forall>r \<in> set (allowedStaticRefs s). sr_enabled r \<longrightarrow> sr_mac r \<noteq> chaddr buf"
  shows "handleDhcpMessage e s buf len = Some (False, s, [])"
proof -
  obtain h where "(if len > 240 then fromOptions (take (len - 240) (drop 240 buf)) else Some []) = Some h"
    using client_name_read by blast
  moreover have "\<not> isClientAllowed (chaddr buf) (allowOnly s) (allowedList s) (allowedStaticRefs s)"
    using assms(2-7) allow_table.member_reload [OF assms(4,3)]
      allow_table.ready_reload [OF assms(4,3)] by (auto simp: isClientAllowed_def)
  moreover have "length buf = 1024" using assms(1) by (simp add: RECV_BUFFER_BYTES_def)
  moreover obtain p where "parseOptions buf 0 no_options = Some p"
    using parseOptions_safe [OF assms(1), of 0] by auto
  ultimately show ?thesis
    by (simp add: handleDhcpMessage_def)
qed

theorem refused_client_silent_witness:
  "handleDhcpMessage quiet
     ((idle 0 0)\<lparr>allowOnly := True,
        allowedList := snd (allowed_rebuild (snd (allowed_init allowed_list_new True)) [])\<rparr>)
     (packet [2, 0, 0, 0, 0, 1] 0 (ask DHCP_DISCOVER 0)) 1024 =
   Some (False, (idle 0 0)\<lparr>allowOnly := True,
        allowedList := snd (allowed_rebuild (snd (allowed_init allowed_list_new True)) [])\<rparr>, [])"
  by (rule refused_client_silent [where es = "[]" and l = "snd (allowed_init allowed_list_new True)"])
    (simp_all add: packet_fields ask_def opt_ip_def kMaxEntries_def allowed_available_def allowed_init_def
      grants_def idle_def)

text \<open>
  C4. The lease table over every run of the program: from boot through any sequence of datagrams,
  timeouts, starts, stops and reloads of the settings, it stays a map with at most 512 entries, each
  filed under the address it records and carrying a clean name of at most 32 bytes, and at most 32
  refusals are in force.
\<close>

theorem dhcp_reachable_inv:
  assumes "dhcp_boot sb" and "dhcp_step\<^sup>*\<^sup>* sb (s, buf)"
  shows "distinct (map fst (leases s)) \<and> length (leases s) \<le> 512
    \<and> (\<forall>(ip, l) \<in> set (leases s). ls_ip l = ip \<and> length (ls_hostname l) \<le> 32 \<and> utf8_clean (ls_hostname l))
    \<and> declined_count (declinedTbl s) t \<le> 32"
proof -
  have "machine_inv (s, buf)" using assms by (rule dhcp_machine.inv_reachable)
  then have inv: "server_inv s" by (simp add: machine_inv_def)
  then have "declined_count (declinedTbl s) t \<le> kCapacity"
    by (auto simp: server_inv_def lease_inv_def intro: count_le_capacity)
  with inv show ?thesis
    by (auto simp: server_inv_def lease_inv_def names_inv_def keyed_by_ip_def name_safe_def kMaxLen_def
        kMaxTable_def kCapacity_def om_inv_distinct)
qed

theorem dhcp_reachable_inv_witness:
  "length (leases (stop dhcp_new)) \<le> 512"
proof -
  have "dhcp_step\<^sup>*\<^sup>* (dhcp_new, replicate RECV_BUFFER_BYTES 0) (stop dhcp_new, replicate RECV_BUFFER_BYTES 0)"
    by (rule r_into_rtranclp) (rule dhcp_step.stopped)
  with dhcp_reachable_inv [of "(dhcp_new, replicate RECV_BUFFER_BYTES 0)"] show ?thesis
    by (auto simp: dhcp_boot_def)
qed

text \<open>
  C5. The server task never reads outside its 1024-byte buffer and never hangs on a datagram,
  whatever bytes arrive and whatever older bytes the buffer holds, in every state a run can reach, with
  one proviso: the configured range does not end at 255.255.255.255, or some address stays free while
  the datagram is handled. (With such a range the scan for an address wraps through all of them, and
  with none free it never ends.)
\<close>

theorem server_loop_total:
  assumes "dhcp_boot sb" and "dhcp_step\<^sup>*\<^sup>* sb (s, buf)"
    and "rangeEnd s \<noteq> - 1 \<or> (\<exists>ip. \<forall>k. scan_free e (removeExpiredLeases e Purge s) k ip)"
  shows "\<exists>sb' evs. serverLoop_iter e received (s, buf) = Some (sb', evs)"
proof -
  have "machine_inv (s, buf)" using assms(1,2) by (rule dhcp_machine.inv_reachable)
  then have len: "length buf = RECV_BUFFER_BYTES" by (simp add: machine_inv_def)
  have "scannable e (removeExpiredLeases e Purge s)"
    using assms(3) by (auto simp: scannable_def) (simp add: removeExpiredLeases_def)
  then have "\<exists>r. handleDhcpMessage e (removeExpiredLeases e Purge s) (take RECV_BUFFER_BYTES d @
      drop (length (take RECV_BUFFER_BYTES d)) buf) (length (take RECV_BUFFER_BYTES d)) = Some r" for d
    by (intro handle_total) (simp_all add: len)
  then show ?thesis
    by (cases received) (force simp: serverLoop_iter_def Let_def)+
qed

theorem server_loop_total_witness:
  "\<exists>sb' evs. serverLoop_iter quiet (Some [1, 2, 3]) (dhcp_new, replicate RECV_BUFFER_BYTES 0) = Some (sb', evs)"
  by (rule server_loop_total [of "(dhcp_new, replicate RECV_BUFFER_BYTES 0)"])
    (simp_all add: dhcp_boot_def, simp add: dhcp_new_def)

text \<open>The address of any reply with an address in it.\<close>

lemma nak_yiaddr: "sent (sendDhcpNak s m xid gi) data \<Longrightarrow> length m = 6 \<Longrightarrow> reply_yiaddr data = 0"
  by (auto simp: sent_def sendDhcpNak_def logDhcpRest_def reply_fields)

lemma reply_address_sound:
  assumes inv: "lease_inv s" and len: "length buf = RECV_BUFFER_BYTES"
    and h: "handleDhcpMessage e s buf len' = Some (r, s', evs)"
    and st: "sent evs data" and nz: "reply_yiaddr data \<noteq> 0"
  shows "take 6 (drop 28 data) = chaddr buf \<and>
    (isStaticBindingForMac s (chaddr buf) (reply_yiaddr data)
    \<or> (\<exists>l. om_find (leases s) (reply_yiaddr data) = Some l \<and> ls_mac l = chaddr buf)
    \<or> (\<exists>w. \<not> addressDeclined e w s (reply_yiaddr data)))"
  using h st
proof (cases rule: reply_cases)
  case (offer p xid gi h)
  then show ?thesis
    using offer_sent [OF offer(3) length_chaddr [OF len] st] offer_choice_sound [OF inv]
    unfolding scan_free_def by blast
next
  case (request req sid xid ci gi h)
  note m6 = length_chaddr [OF len]
  show ?thesis
  proof (cases "reply_type data = DHCP_ACK")
    case True
    then show ?thesis
      using request_acked [OF request(3) m6 st] by (auto simp: request_ack_def split: if_splits option.splits)
  next
    case False
    let ?ip = "if req \<noteq> 0 then req else ci"
    obtain ok s1 where c: "canAddLeaseEntry e ?ip s = (ok, s1)" by (cases "canAddLeaseEntry e ?ip s")
    have "evs \<in> {sendDhcpNak s (chaddr buf) xid gi, sendDhcpNak s1 (chaddr buf) xid gi,
        sendDhcpAck s1 (chaddr buf) xid ?ip gi, []}"
      using request(3) unfolding handleRequest_def Let_def c by (cases ok) (auto split: if_splits)
    then show ?thesis
      using False nz st nak_yiaddr [OF _ m6] sent_ack [OF _ m6] sent_nothing(1) by blast
  qed
qed

section \<open>The hour after a refusal\<close>

text \<open>A message changes neither the bindings nor the refusals, apart from the refusal it brings.\<close>

lemma reserve_tables:
  "staticBindings (snd (reserveOffer e m ip h s)) = staticBindings s"
  "declinedTbl (snd (reserveOffer e m ip h s)) = declinedTbl s"
  by (cases rule: reserveOffer_cases [of s ip e m h]; simp)+

lemma offer_state:
  assumes "sendDhcpOffer e s m xid req gi h = Some (s', evs)"
  obtains (same) "s' = s" | (reserved) jp where "offer_choice e s m req = Some jp" "jp \<noteq> 0" "s' = snd (reserveOffer e m jp h s)"
proof -
  obtain jp where jp: "offer_choice e s m req = Some jp"
    using assms by (auto simp: sendDhcpOffer_def split: option.splits)
  obtain ok s1 where r: "reserveOffer e m jp h s = (ok, s1)" by (cases "reserveOffer e m jp h s")
  have "jp = 0 \<and> s' = s \<or> jp \<noteq> 0 \<and> s' = s1"
    using assms jp r by (auto simp: sendDhcpOffer_def split: if_splits bool.splits)
  with same reserved [OF jp] r show thesis by auto
qed

lemma request_state:
  assumes "handleRequest e s m xid req sid ci gi h = (s', evs)"
  obtains (same) "s' = s" | (full) jp where "s' = snd (canAddLeaseEntry e jp s)"
  | (granted) jp where "request_ack e s m jp" "s' = addLease e m jp h (snd (canAddLeaseEntry e jp s))"
proof -
  let ?jp = "if req \<noteq> 0 then req else ci"
  obtain ok s1 where c: "canAddLeaseEntry e ?jp s = (ok, s1)" by (cases "canAddLeaseEntry e ?jp s")
  have "s' = s \<or> s' = s1 \<or> request_ack e s m ?jp \<and> s' = addLease e m ?jp h s1"
    using assms unfolding handleRequest_def Let_def c by (cases ok) (auto split: if_splits)
  with same full [of ?jp] granted [of ?jp] c show thesis by auto
qed

lemma handle_tables:
  assumes "handleDhcpMessage e s buf len = Some (r, s', evs)"
  shows "staticBindings s' = staticBindings s
    \<and> (declinedTbl s' = declinedTbl s
       \<or> (\<exists>jp. declinedTbl s' = snd (declined_add (declinedTbl s) jp (getCurrentTimeMs e Record))))"
  using assms
proof (cases rule: handle_cases)
  case (offer p xid gi h)
  from offer(4) show ?thesis by (cases rule: offer_state) (simp_all add: reserve_tables)
next
  case (request req sid xid ci gi h)
  from request(4) show ?thesis by (cases rule: request_state) (simp_all add: addLease_def)
qed (auto simp: handleRelease_def handleDecline_def Let_def split: option.splits)

text \<open>Who can come to hold an address that is refused at every moment of a message.\<close>

lemma canAdd_find:
  "om_inv (leases s) \<Longrightarrow> om_find (leases (snd (canAddLeaseEntry e jp s))) ip = Some l \<Longrightarrow> om_find (leases s) ip = Some l"
  by (auto simp: canAddLeaseEntry_def Let_def removeExpiredLeases_def om_find_keep split: if_splits option.splits)

lemma handle_holder:
  assumes inv: "lease_inv s" and h: "handleDhcpMessage e s buf len = Some (r, s', evs)"
    and l: "om_find (leases s') ip = Some l" and refused: "\<forall>w. addressDeclined e w s ip"
  shows "isStaticBindingForMac s (ls_mac l) ip \<or> (\<exists>l0. om_find (leases s) ip = Some l0 \<and> ls_mac l0 = ls_mac l)"
proof -
  have om: "om_inv (leases s)" using inv by (rule lease_invD)
  have can: "om_inv (leases (snd (canAddLeaseEntry e jp s)))" for jp
    using lease_inv_canAdd [OF inv] by (rule lease_invD)
  from h show ?thesis
  proof (cases rule: handle_cases)
    case (offer p xid gi h)
    from offer(4) show ?thesis
    proof (cases rule: offer_state)
      case (reserved jp)
      note choice = offer_choice_sound [OF inv reserved(1,2)]
      show ?thesis
      proof (cases rule: reserveOffer_cases [of s jp e "chaddr buf" h])
        case (long k)
        then show ?thesis using l om by (auto simp: reserved(3) split: if_splits)
      next
        case full
        then show ?thesis using l canAdd_find [OF om] by (auto simp: reserved(3))
      next
        case fresh
        then show ?thesis
          using l can [of jp] canAdd_find [OF om] choice refused
          by (cases "jp = ip") (auto simp: reserved(3) scan_free_def)
      qed
    qed (use l in auto)
  next
    case (request req sid xid ci gi h)
    from request(4) show ?thesis
    proof (cases rule: request_state)
      case (granted jp)
      then show ?thesis
        using l can [of jp] canAdd_find [OF om, of e jp ip] refused
        by (cases "jp = ip") (auto simp: addLease_def request_ack_def split: if_splits option.splits)
    qed (use l canAdd_find [OF om] in auto)
  qed (use l om in \<open>auto simp: handleRelease_def handleDecline_def Let_def split: option.splits if_splits\<close>)
qed

text \<open>
  A run of the server task after a refusal at time \<open>t\<close>: the datagrams and timeouts it handles, with
  everything it sends. The clock does not run backwards, less than the hold time has passed at every
  reading, and the table of refusals has a free slot whenever a message arrives. \<open>d\<close> is the age of the
  refusal, in milliseconds.
\<close>

inductive hour_run :: "u64 \<Rightarrow> dhcp \<times> byte list \<Rightarrow> event list \<Rightarrow> u64 \<Rightarrow> dhcp \<times> byte list \<Rightarrow> bool" for t sb where
  refusal: "hour_run t sb [] 0 sb"
| handled: "hour_run t sb evs d (s, buf) \<Longrightarrow>
    \<forall>w. d \<le> getCurrentTimeMs e w - t \<and> getCurrentTimeMs e w - t \<le> d' \<Longrightarrow> d' < kDeclineHoldMs \<Longrightarrow>
    declined_count (declinedTbl s) (getCurrentTimeMs e Record) < kCapacity \<Longrightarrow>
    serverLoop_iter e received (s, buf) = Some (sb', evs') \<Longrightarrow>
    hour_run t sb (evs @ evs') d' sb'"

definition held_slot :: "u64 \<Rightarrow> u64 \<Rightarrow> u32 \<Rightarrow> declined \<Rightarrow> bool" where
  "held_slot t d ip es \<longleftrightarrow> (\<exists>i < length es. d_used (es ! i) \<and> d_ip (es ! i) = ip \<and> d_sinceMs (es ! i) - t \<le> d)"

lemma age_diff:
  assumes "(a :: u64) - t \<le> d" and "d \<le> u - t" and "u - t < h"
  shows "u - a < h"
proof -
  have "a - t \<le> u - t" using assms(1,2) by order
  from unat_sub [OF this] have "unat ((u - t) - (a - t)) \<le> unat (u - t)" by (simp only: diff_le_self)
  then have "u - a \<le> u - t" unfolding word_le_nat_alt by simp
  with assms(3) show ?thesis by order
qed

lemma held_slot_declined:
  assumes "declined_inv es" and "held_slot t d ip es" and "d \<le> u - t" and "u - t < kDeclineHoldMs"
  shows "isDeclined es ip u"
proof -
  have "uniq_ips es" using assms(1) by (simp add: declined_inv_def)
  then show ?thesis
    using assms(2) age_diff [OF _ assms(3,4)] by (auto simp: isDeclined_iff held_slot_def)
qed

lemma held_slot_add:
  assumes "declined_inv es" and "held_slot t d ip es" and "d \<le> u - t" and "u - t \<le> d'" and "d' < kDeclineHoldMs"
    and "declined_count es u < kCapacity"
  shows "held_slot t d' ip (snd (declined_add es jp u))"
proof -
  obtain j where j: "j < length es" "d_used (es ! j)" "d_ip (es ! j) = ip" "d_sinceMs (es ! j) - t \<le> d"
    using assms(2) by (auto simp: held_slot_def)
  have u: "u - t < kDeclineHoldMs" using assms(4,5) by order
  obtain i where i: "i < length es" "d_used (snd (declined_add es jp u) ! i)" "d_ip (snd (declined_add es jp u) ! i) = ip"
      "d_sinceMs (snd (declined_add es jp u) ! i) = d_sinceMs (es ! j) \<or> d_sinceMs (snd (declined_add es jp u) ! i) = u"
    using slot_survives [OF add_with_room [OF assms(1,6)] j(1-3) age_diff [OF j(4) assms(3) u]] unfolding Let_def by blast
  moreover have "d_sinceMs (es ! j) - t \<le> d'" using j(4) assms(3,4) by order
  ultimately have "d_sinceMs (snd (declined_add es jp u) ! i) - t \<le> d'" using assms(4) by auto
  with i show ?thesis unfolding held_slot_def by (intro exI [of _ i]) simp
qed

text \<open>What holds for the refused address during the run; \<open>may\<close> are the clients that may still have it.\<close>

definition refused_inv :: "u64 \<Rightarrow> u64 \<Rightarrow> u32 \<Rightarrow> (mac \<Rightarrow> bool) \<Rightarrow> dhcp \<times> byte list \<Rightarrow> bool" where
  "refused_inv t d ip may sb \<longleftrightarrow> machine_inv sb \<and> held_slot t d ip (declinedTbl (fst sb))
     \<and> (\<forall>l. om_find (leases (fst sb)) ip = Some l \<longrightarrow> may (ls_mac l))
     \<and> (\<forall>m. isStaticBindingForMac (fst sb) m ip \<longrightarrow> may m)"

lemma refused_step:
  assumes inv: "refused_inv t d ip may (s, buf)" and nz: "ip \<noteq> 0"
    and times: "\<forall>w. d \<le> getCurrentTimeMs e w - t \<and> getCurrentTimeMs e w - t \<le> d'" and d': "d' < kDeclineHoldMs"
    and room: "declined_count (declinedTbl s) (getCurrentTimeMs e Record) < kCapacity"
    and it: "serverLoop_iter e received (s, buf) = Some (sb', evs)"
  shows "refused_inv t d' ip may sb'" and "sent evs data \<Longrightarrow> reply_yiaddr data = ip \<Longrightarrow> may (take 6 (drop 28 data))"
proof -
  define p where "p = removeExpiredLeases e Purge s"
  have mi: "machine_inv (s, buf)" using inv by (simp add: refused_inv_def)
  then have si: "server_inv p" unfolding p_def machine_inv_def by (auto intro: inv_intros)
  then have li: "lease_inv p" by (simp add: server_inv_def)
  have tb: "declinedTbl p = declinedTbl s" "staticBindings p = staticBindings s"
    by (simp_all add: p_def removeExpiredLeases_def)
  have om: "om_inv (leases s)" using mi by (simp add: machine_inv_def server_inv_def lease_inv_def)
  have sub: "om_find (leases s) ip = Some l" if "om_find (leases p) ip = Some l" for l
    using that om by (auto simp: p_def removeExpiredLeases_def om_find_keep split: if_splits option.splits)
  have bd: "isStaticBindingForMac p = isStaticBindingForMac s"
    by (intro ext) (simp add: isStaticBindingForMac_def tb)
  have dv: "declined_inv (declinedTbl s)" using lease_invD(2) [OF li] tb by simp
  have hs: "held_slot t d ip (declinedTbl s)" using inv by (simp add: refused_inv_def)
  have "getCurrentTimeMs e w - t < kDeclineHoldMs" for w using times d' by (meson le_less_trans)
  then have refused: "\<forall>w. addressDeclined e w p ip"
    using held_slot_declined [OF dv hs] times by (simp add: addressDeclined_def tb)
  have kept: "held_slot t d' ip (declinedTbl s)"
  proof -
    have "d \<le> d'" using times order_trans by blast
    with hs show ?thesis unfolding held_slot_def by (blast intro: order_trans)
  qed
  have sb': "machine_inv sb'" using machine_inv_receive [OF mi it] .
  have "refused_inv t d' ip may sb' \<and> (sent evs data \<longrightarrow> reply_yiaddr data = ip \<longrightarrow> may (take 6 (drop 28 data)))"
  proof (cases received)
    case None
    then have "sb' = (p, buf)" "evs = []" using it by (simp_all add: serverLoop_iter_def p_def)
    then show ?thesis
      using sb' inv kept sub sent_nothing(1) by (auto simp: refused_inv_def tb bd)
  next
    case (Some pkt)
    define b where "b = take RECV_BUFFER_BYTES pkt @ drop (length (take RECV_BUFFER_BYTES pkt)) buf"
    obtain r s' where h: "handleDhcpMessage e p b (length (take RECV_BUFFER_BYTES pkt)) = Some (r, s', evs)" and eq: "sb' = (s', b)"
      using it Some by (auto simp: serverLoop_iter_def Let_def p_def b_def)
    have lb: "length b = RECV_BUFFER_BYTES" using sb' eq by (simp add: machine_inv_def)
    note tab = handle_tables [OF h]
    have "held_slot t d' ip (declinedTbl s')"
      using tab kept held_slot_add [OF dv hs _ _ d' room] times unfolding tb by metis
    moreover have "may (ls_mac l)" if "om_find (leases s') ip = Some l" for l
      using handle_holder [OF li h that refused] inv sub by (auto simp: refused_inv_def bd)
    moreover have "isStaticBindingForMac s' m ip \<Longrightarrow> may m" for m
      using tab inv by (auto simp: refused_inv_def isStaticBindingForMac_def tb)
    moreover have "may (take 6 (drop 28 data))" if "sent evs data" "reply_yiaddr data = ip"
      using reply_address_sound [OF li lb h that(1)] that(2) nz refused inv sub by (auto simp: refused_inv_def bd)
    ultimately show ?thesis using sb' by (simp add: refused_inv_def eq)
  qed
  then show "refused_inv t d' ip may sb'" and "sent evs data \<Longrightarrow> reply_yiaddr data = ip \<Longrightarrow> may (take 6 (drop 28 data))"
    by blast+
qed

lemma refused_run:
  assumes "hour_run t sb evs d sb'" and "refused_inv t 0 ip may sb" and "ip \<noteq> 0"
  shows "refused_inv t d ip may sb' \<and> (\<forall>data. sent evs data \<longrightarrow> reply_yiaddr data = ip \<longrightarrow> may (take 6 (drop 28 data)))"
  using assms(1)
proof (induction rule: hour_run.induct)
  case refusal
  then show ?case using assms(2) sent_nothing(1) by blast
next
  case (handled evs d s buf e d' received sb' evs')
  note step = refused_step [OF conjunct1 [OF handled.IH] assms(3) handled.hyps(2-5)]
  have "sent (evs @ evs') data \<longleftrightarrow> sent evs data \<or> sent evs' data" for data by (auto simp: sent_def)
  with step handled.IH show ?case by blast
qed

text \<open>
  C6. After a client has refused an address, the server task gives it to nobody for the hour that
  follows: in every run of datagrams and timeouts in that hour, whoever sends what, no OFFER and no ACK
  carries the address, except to a client the operator bound to it, or to another client that held it
  when the refusal came (the refusing client's own entry is removed). The run keeps its configuration,
  its clock does not run backwards, and fewer than 32 refusals are in force whenever a message arrives:
  a table that is full forgets the oldest one.
\<close>

theorem declined_not_handed_out:
  assumes "server_inv s" and "length buf = RECV_BUFFER_BYTES" and "handleDecline e s m ip = (s1, evs1)" and "ip \<noteq> 0"
    and "hour_run (getCurrentTimeMs e Record) (s1, buf) evs d sb'" and "sent evs data" and "reply_yiaddr data = ip"
  shows "let client = take 6 (drop 28 data) in isStaticBindingForMac s client ip
    \<or> (client \<noteq> m \<and> (\<exists>l. om_find (leases s) ip = Some l \<and> ls_mac l = client))"
proof -
  let ?t = "getCurrentTimeMs e Record"
  let ?may = "\<lambda>c. isStaticBindingForMac s c ip \<or> (c \<noteq> m \<and> (\<exists>l. om_find (leases s) ip = Some l \<and> ls_mac l = c))"
  have dv: "declined_inv (declinedTbl s)" using assms(1) by (simp add: server_inv_def lease_inv_def)
  have s1: "declinedTbl s1 = snd (declined_add (declinedTbl s) ip ?t)" "staticBindings s1 = staticBindings s"
    using assms(3) by (auto simp: handleDecline_def Let_def split: option.splits if_splits)
  have holder: "om_find (leases s) ip = Some l \<and> ls_mac l \<noteq> m" if "om_find (leases s1) ip = Some l" for l
    using assms(1,3) that by (auto simp: handleDecline_def Let_def server_inv_def lease_inv_def split: option.splits if_splits)
  obtain i where "i < length (declinedTbl s)"
      "snd (declined_add (declinedTbl s) ip ?t) = (declined_expire (declinedTbl s) ?t)[i := \<lparr>d_ip = ip, d_sinceMs = ?t, d_used = True\<rparr>]"
    using add_slot [OF kCapacity_nonempty [OF dv]] by metis
  then have "held_slot ?t 0 ip (declinedTbl s1)" unfolding s1 held_slot_def by (intro exI [of _ i]) simp
  moreover have "machine_inv (s1, buf)"
    using server_inv_decline [OF assms(1,3)] assms(2) by (simp add: machine_inv_def)
  ultimately have "refused_inv ?t 0 ip ?may (s1, buf)"
    using holder s1(2) by (auto simp: refused_inv_def isStaticBindingForMac_def)
  from refused_run [OF assms(5) this assms(4)] assms(6,7) show ?thesis unfolding Let_def by blast
qed

text \<open>A DISCOVER for the refused address, one hour of readings not yet over.\<close>

theorem declined_not_handed_out_witness:
  "\<exists>s1 evs1 evs sb'. handleDecline quiet (idle (le32 192 168 1 100) (le32 192 168 1 200)) [2, 0, 0, 0, 0, 9] (le32 192 168 1 100) = (s1, evs1)
     \<and> serverLoop_iter quiet (Some (packet [2, 0, 0, 0, 0, 1] 0 (ask DHCP_DISCOVER (le32 192 168 1 100))))
         (s1, replicate RECV_BUFFER_BYTES 0) = Some (sb', evs)
     \<and> (\<forall>data. sent evs data \<longrightarrow> reply_yiaddr data \<noteq> le32 192 168 1 100)"
proof -
  let ?s = "idle (le32 192 168 1 100) (le32 192 168 1 200)" and ?ip = "le32 192 168 1 100"
  let ?b = "packet [2, 0, 0, 0, 0, 1] 0 (ask DHCP_DISCOVER ?ip)" and ?z = "replicate RECV_BUFFER_BYTES (0 :: byte)"
  obtain s1 evs1 where d: "handleDecline quiet ?s [2, 0, 0, 0, 0, 9] ?ip = (s1, evs1)" by fastforce
  have s1: "rangeEnd s1 = le32 192 168 1 200" "declinedTbl s1 = snd (declined_add declined_init ?ip 5000)"
    using d by (auto simp: handleDecline_def Let_def idle_def getCurrentTimeMs_def quiet_def)
  have "declined_count (declinedTbl s1) 5000 = card {?ip}"
    using declined_hold_exact [OF declined_inv_init, of ?ip 5000] add_with_room [OF declined_inv_init, of 5000 ?ip]
      count_eq_card [of "declinedTbl s1" 5000] declined_inv_add [OF declined_inv_init]
    by (simp add: s1 declined_inv_def) (simp add: declined_count_def declined_init_def kCapacity_def)
  then have room: "declined_count (declinedTbl s1) (getCurrentTimeMs quiet Record) < kCapacity"
    by (simp add: getCurrentTimeMs_def quiet_def kCapacity_def)
  have "scannable quiet (removeExpiredLeases quiet Purge s1)"
    by (simp add: scannable_def removeExpiredLeases_def s1 word_unat_eq_iff unat_le32 unat_minus_1)
  then obtain sb' evs where it: "serverLoop_iter quiet (Some ?b) (s1, ?z) = Some (sb', evs)"
    using handle_total [of "take RECV_BUFFER_BYTES ?b @ drop (length (take RECV_BUFFER_BYTES ?b)) ?z" quiet
        "removeExpiredLeases quiet Purge s1" "length (take RECV_BUFFER_BYTES ?b)"]
    by (fastforce simp: serverLoop_iter_def Let_def)
  have run: "hour_run (getCurrentTimeMs quiet Record) (s1, ?z) ([] @ evs) 0 sb'"
    by (rule hour_run.handled [OF hour_run.refusal _ _ room it]) (simp_all add: getCurrentTimeMs_def quiet_def kDeclineHoldMs_pos)
  have "reply_yiaddr data \<noteq> ?ip" if "sent evs data" for data
    using declined_not_handed_out [OF server_inv_idle _ d _ run, of data] that
    by (auto simp: idle_def isStaticBindingForMac_def word_unat_eq_iff unat_le32)
  with d it show ?thesis by blast
qed

text \<open>
  C35. Every OFFER and ACK is a well-formed message of at most 274 bytes: a client that parses it as
  the server parses its own input finds the message type, the server identifier, the transaction, its
  own hardware address and the address given, whatever follows the end marker.
\<close>

theorem reply_roundtrip:
  assumes "length m = 6"
  shows "let data = reply_header xid ip (serverIp s) gi m @ lease_options t s m in
    length data \<le> 274 \<and> parseOptions (data @ rest) 0 no_options =
      Some \<lparr>p_msgType = t, p_requestedIp = 0, p_serverId = serverIp s\<rparr>
    \<and> reply_yiaddr data = ip \<and> reply_xid data = xid \<and> take 6 (drop 28 data) = m
    \<and> rd32 data 236 = Some (htonl DHCP_MAGIC_COOKIE)"
proof -
  let ?h = "reply_header xid ip (serverIp s) gi m"
  have "parseOptions ((?h @ lease_options t s m) @ rest) 0 no_options =
      Some (no_options\<lparr>p_msgType := t, p_serverId := serverIp s\<rparr>)"
    by (rule walk_lease_options [where pre = ?h and suf = rest]) (simp_all add: length_reply_header assms)
  moreover have "length (?h @ lease_options t s m) \<le> 274"
    by (simp add: length_reply_header assms lease_options_def opt_ip_def split: prod.split)
  moreover have "rd32 (?h @ lease_options t s m) 236 = Some (htonl DHCP_MAGIC_COOKIE)"
    using assms by (simp add: rd32_def reply_header_def nth_append mem32_nth)
  ultimately show ?thesis
    unfolding Let_def using reply_fields(2-4) [OF assms] by (simp add: no_options_def)
qed

theorem reply_roundtrip_witness:
  "length (reply_header 7 (le32 192 168 1 100) (le32 192 168 1 1) 0 [2, 0, 0, 0, 0, 1] @
     lease_options DHCP_ACK (idle 0 0) [2, 0, 0, 0, 0, 1]) \<le> 274"
  using reply_roundtrip [of "[2, 0, 0, 0, 0, 1]" 7 "le32 192 168 1 100" "idle 0 0" 0 DHCP_ACK]
  by (simp add: Let_def idle_def)

end
