(* ===== verification/DhcpIssues.thy ===== *)
theory DhcpIssues
  imports DhcpProps
begin

text \<open>
  Behaviours of the DHCP packet path that differ from what its comments promise, each as a theorem on
  the same definitions, and the name lookup behind the page's "find the computer's name" button.
\<close>

section \<open>Walking over padding\<close>

lemma walk_padding:
  assumes "\<And>i. i \<le> DHCP_OPTIONS_BYTES \<Longrightarrow> rd buf (240 + i) = Some 0"
  shows "off \<le> DHCP_OPTIONS_BYTES \<Longrightarrow> parseOptions buf off p = Some p"
proof (induction "DHCP_OPTIONS_BYTES - off" arbitrary: off)
  case 0
  then have "off = DHCP_OPTIONS_BYTES" by simp
  with assms [of off] show ?case by (subst parseOptions.simps) simp
next
  case (Suc n)
  then have "parseOptions buf (off + 1) p = Some p" by simp
  with Suc.hyps(2) Suc.prems assms [of off] show ?case by (subst parseOptions.simps) simp
qed

lemma parse_empty_packet:
  assumes "length m = 6"
  shows "parseOptions (packet m ci []) 0 no_options = Some no_options"
proof (rule walk_padding)
  fix i
  assume i: "i \<le> DHCP_OPTIONS_BYTES"
  obtain pre where "packet m ci [] = pre @ [] @ replicate (784 - length ([] :: byte list)) 0"
      and "length pre = 240"
    using packet_split [OF assms] by blast
  with i show "rd (packet m ci []) (240 + i) = Some 0"
    by (simp add: rd_def nth_append DHCP_OPTIONS_BYTES_def)
qed simp

lemma parse_release_packet:
  assumes "length m = 6"
  shows "parseOptions (packet m ci [53, 1, 7, 255]) 0 no_options = Some (no_options\<lparr>p_msgType := 7\<rparr>)"
proof -
  let ?b = "packet m ci [53, 1, 7, 255]"
  obtain pre where buf: "?b = pre @ [53, 1, 7, 255] @ replicate (784 - length [53, 1, 7, 255 :: byte]) 0"
      and pre: "length pre = 240"
    using packet_split [OF assms] by blast
  have "parseOptions ?b 0 no_options = parseOptions ?b (0 + 3) (no_options\<lparr>p_msgType := 7\<rparr>)"
    using buf pre by (intro walk_type [of ?b pre]) (simp_all add: DHCP_OPTIONS_BYTES_def)
  also have "\<dots> = Some (no_options\<lparr>p_msgType := 7\<rparr>)"
    by (rule walk_end; subst buf; simp add: pre nth_append)
  finally show ?thesis .
qed

lemma handle_header_only:
  assumes "length m = 6" and "length opts \<le> 784"
    and "parseOptions (packet m ci opts) 0 no_options = Some p" and "served s m"
  shows "handleDhcpMessage e s (packet m ci opts) 240 =
    (if p_msgType p = 0 then Some (False, s, [])
     else map_option (\<lambda>(s', evs). (True, s', evs)) (dispatch e s p m 7 ci 0 []))"
proof -
  note f = packet_fields [OF assms(1,2), of ci]
  have "length (packet m ci opts) = 1024" using f(1) by (simp add: RECV_BUFFER_BYTES_def)
  then show ?thesis
    using assms f
    by (simp add: handleDhcpMessage_def DHCP_MIN_MSGSIZE_def magic served_def
        map_conv_bind_option case_prod_unfold comp_def)
qed

section \<open>Findings\<close>

text \<open>
  The option walk is not bounded by the length of the datagram: a 240-byte datagram, which has
  no options at all, is ignored when the rest of the buffer is blank, but releases the lease of the
  address in its header when an older RELEASE is still in the buffer behind it.
\<close>

lemma stale_options_acted_on:
  assumes "length m = 6" and "served s m" and "om_find (leases s) ip = Some l"
  shows "take 240 (packet m ip [53, 1, 7, 255]) = take 240 (packet m ip [])
    \<and> handleDhcpMessage e s (packet m ip []) 240 = Some (False, s, [])
    \<and> (\<exists>evs. handleDhcpMessage e s (packet m ip [53, 1, 7, 255]) 240 =
          Some (True, s\<lparr>leases := om_erase ip (leases s)\<rparr>, evs))"
proof (intro conjI)
  show "take 240 (packet m ip [53, 1, 7, 255]) = take 240 (packet m ip [])"
    using assms(1) by (simp add: packet_def)
  show "handleDhcpMessage e s (packet m ip []) 240 = Some (False, s, [])"
    using handle_header_only [OF assms(1) _ parse_empty_packet [OF assms(1)] assms(2)]
    by (simp add: no_options_def)
  show "\<exists>evs. handleDhcpMessage e s (packet m ip [53, 1, 7, 255]) 240 =
          Some (True, s\<lparr>leases := om_erase ip (leases s)\<rparr>, evs)"
    using handle_header_only [OF assms(1) _ parse_release_packet [OF assms(1)] assms(2), where ci = ip and e = e] assms(3)
    by (simp add: dispatch_def dhcp_consts handleRelease_def no_options_def)
qed

lemma served_one_lease: "served one_lease m"
  by (simp add: served_def isClientAllowed_def one_lease_def idle_def)

lemma stale_options_acted_on_witness:
  "handleDhcpMessage quiet one_lease (packet [2, 0, 0, 0, 0, 1] (le32 192 168 1 150) []) 240
     = Some (False, one_lease, [])"
proof -
  have "om_find (leases one_lease) (le32 192 168 1 150) = Some (snd (hd (leases one_lease)))"
    by (simp add: one_lease_def)
  from stale_options_acted_on [OF _ served_one_lease this, of "[2, 0, 0, 0, 0, 1]" quiet]
  show ?thesis by simp
qed

text \<open>
  A DISCOVER that asks for an address another client was offered a moment ago takes it over: the
  same address is offered twice, the reservation changes hands, and the first client's REQUEST for
  what it was offered is then refused.
\<close>

lemma offer_takes_reservation:
  assumes "lease_inv s" and "length m = 6" and "om_find (leases s) ip = Some l" and "ls_mac l \<noteq> m"
    and "ls_expiry l \<le> getCurrentTimeSec e Hold + kOfferHoldSec" and "ip \<noteq> 0" and "isIpInRange s ip"
    and "\<not> addressDeclined e Ask s ip" and "probeIp e Ask ip = None"
    and "\<not> isStaticBindingForMac s (ls_mac l) ip"
  shows "\<exists>s' evs data. sendDhcpOffer e s m xid ip gi h = Some (s', evs) \<and> sent evs data
    \<and> reply_type data = DHCP_OFFER \<and> reply_yiaddr data = ip
    \<and> \<not> request_ack e s' (ls_mac l) ip"
proof -
  let ?new = "\<lparr>ls_mac = m, ls_ip = ip, ls_expiry = getCurrentTimeSec e Record + kOfferHoldSec, ls_hostname = h\<rparr>"
  let ?s' = "s\<lparr>leases := om_set ip ?new (leases s)\<rparr>"
  have c: "offer_choice e s m ip = Some ip"
    using assms(6-9) by (simp add: offer_choice_def Let_def)
  have r: "reserveOffer e m ip h s = (True, ?s')"
    using assms(3,5) by (simp add: reserveOffer_def Let_def canAddLeaseEntry_def not_less)
  have "\<exists>evs data. sendDhcpOffer e s m xid ip gi h = Some (?s', evs) \<and> sent evs data"
    using c r assms(6) by (auto simp: sendDhcpOffer_def sent_def)
  then obtain evs data where o: "sendDhcpOffer e s m xid ip gi h = Some (?s', evs)" and st: "sent evs data"
    by blast
  have "om_find (leases ?s') ip = Some ?new"
    using assms(1) by (simp add: lease_inv_def)
  moreover have "\<not> isStaticBindingForMac ?s' (ls_mac l) ip"
    using assms(10) by (simp add: isStaticBindingForMac_def)
  ultimately have "\<not> request_ack e ?s' (ls_mac l) ip"
    using assms(4) by (simp add: request_ack_def)
  with offer_sent [OF o assms(2) st] o st c show ?thesis by auto
qed

definition one_offer :: dhcp where
  "one_offer = (idle (le32 192 168 1 100) (le32 192 168 1 200))
     \<lparr>leases := [(le32 192 168 1 100, \<lparr>ls_mac = [2, 0, 0, 0, 0, 9], ls_ip = le32 192 168 1 100,
        ls_expiry = 60, ls_hostname = []\<rparr>)]\<rparr>"

lemma offer_takes_reservation_witness:
  "\<exists>s' evs data. sendDhcpOffer quiet one_offer [2, 0, 0, 0, 0, 1] 7 (le32 192 168 1 100) 0 [] = Some (s', evs)
    \<and> sent evs data \<and> reply_yiaddr data = le32 192 168 1 100
    \<and> \<not> request_ack quiet s' [2, 0, 0, 0, 0, 9] (le32 192 168 1 100)"
proof -
  have "lease_inv one_offer"
    by (simp add: lease_inv_def one_offer_def idle_def keyed_by_ip_def kMaxTable_def declined_inv_init om_inv_def)
  moreover have "isIpInRange one_offer (le32 192 168 1 100)" "le32 192 168 1 100 \<noteq> 0"
    by (simp_all add: isIpInRange_def one_offer_def idle_def word_le_nat_alt unat_le32 word_unat_eq_iff)
  ultimately show ?thesis
    using offer_takes_reservation [of one_offer "[2, 0, 0, 0, 0, 1]" "le32 192 168 1 100" _ quiet 7 0 "[]"]
    by (fastforce simp: one_offer_def idle_def addressDeclined_def isStaticBindingForMac_def quiet_sec
        kOfferHoldSec_def word_le_nat_alt)
qed

text \<open>
  A RELEASE is believed whoever sends it: the lease of the address in the header goes, although
  the sender's hardware address is not the lease's.
\<close>

lemma release_by_anyone:
  assumes "length m = 6" and "served s m" and "om_find (leases s) ip = Some l"
  shows "\<exists>s' evs. handleDhcpMessage e s (packet m ip [53, 1, 7, 255]) 1024 = Some (True, s', evs)
    \<and> om_find (leases s') ip = None"
  using handle_packet [OF assms(1) _ parse_release_packet [OF assms(1)] _ assms(2), where ci = ip and e = e] assms(3)
  by (simp add: dispatch_def dhcp_consts handleRelease_def no_options_def)

lemma release_by_anyone_witness:
  "\<exists>s' evs. handleDhcpMessage quiet one_lease (packet [2, 0, 0, 0, 0, 1] (le32 192 168 1 150) [53, 1, 7, 255]) 1024
       = Some (True, s', evs) \<and> om_find (leases s') (le32 192 168 1 150) = None"
proof -
  have "om_find (leases one_lease) (le32 192 168 1 150) = Some (snd (hd (leases one_lease)))"
    by (simp add: one_lease_def)
  from release_by_anyone [OF _ served_one_lease this, of "[2, 0, 0, 0, 0, 1]" quiet]
  show ?thesis by simp
qed

text \<open>
  A range that ends at 255.255.255.255 with nothing free: the scan never ends, and with it the server
  task hangs on the first DISCOVER that has to look for an address.
\<close>

lemma endless_scan_hangs:
  assumes "rangeEnd s = - 1" and "\<forall>k ip. \<not> scan_free e s k ip"
    and "binding_for s m = None" and "\<forall>(ip, l) \<in> set (leases s). ls_mac l \<noteq> m"
  shows "sendDhcpOffer e s m xid 0 gi h = None"
proof -
  have "List.find (\<lambda>b. se_enabled b \<and> se_mac b = m \<and> om_find (leases s) (se_ip b) = None) (staticBindings s) = None"
    using assms(3) by (auto simp: binding_for_def find_None_iff)
  moreover have "List.find (\<lambda>(ip, l). ls_mac l = m) (leases s) = None" using assms(4) by (auto simp: find_None_iff)
  ultimately show ?thesis
    using scan_never_ends [OF assms(1,2)] by (simp add: sendDhcpOffer_def offer_choice_def selectIp_def Let_def)
qed

lemma endless_scan_hangs_witness:
  "sendDhcpOffer (quiet\<lparr>icmp_probe := \<lambda>_ _. True\<rparr>) (idle 0 (- 1)) [2, 0, 0, 0, 0, 1] 7 0 0 [] = None"
  by (rule endless_scan_hangs) (simp_all add: idle_def binding_for_def scan_free_def probeIp_def quiet_def)

section \<open>The name lookup\<close>

lemma ptr_query_safe [mem_safe]: "ptr_query net rnd ip server \<noteq> None"
proof (cases "ptr_buildQuery ip (nextId rnd) = []")
  case False
  then have "ip \<noteq> 0 \<and> ip \<noteq> 0xFFFFFFFF"
    by (auto simp: ptr_buildQuery_def split: if_splits)
  then have "2 \<le> length (ptr_buildQuery ip (nextId rnd))"
    by (simp add: ptr_buildQuery_eq)
  then show ?thesis
    by (auto simp: ptr_query_def Let_def ptr_parseResponse_safe simp del: not_None_eq split: option.splits)
qed (simp add: ptr_query_def)

lemma nb_query_safe [mem_safe]: "nb_query net rnd ip \<noteq> None"
  by (auto simp: nb_query_def Let_def nb_buildQuery_def nb_parseResponse_safe simp del: not_None_eq split: option.splits)

lemma clientHostname_safe: "names_inv (leases s) \<Longrightarrow> name_safe (clientHostnameByMac e s m)"
  by (auto simp: clientHostnameByMac_def names_inv_def split: option.splits dest!: find_SomeD)

text \<open>
  The lookup of a computer's name always answers, the name is clean text of at most 32 bytes
  whoever it came from (the client's own option, a DNS server, a NetBIOS reply), and the source
  says \<open>none\<close> exactly when there is no name.
\<close>

lemma lookup_name_safe:
  assumes "server_inv s"
  shows "\<exists>res. lookupClientName e dnsNet nbNet r1 r2 s m = Some res
    \<and> length (nr_name res) \<le> 32 \<and> utf8_clean (nr_name res)
    \<and> (nr_source res = ''none'' \<longleftrightarrow> nr_name res = [])"
proof -
  define ip where "ip = (case clientIpByMac e s m of Some ip \<Rightarrow> ip | None \<Rightarrow> 0)"
  obtain raw where raw: "ptr_query dnsNet r1 ip (nameServerIp s) = Some raw"
    using ptr_query_safe by blast
  obtain nb where nb: "nb_query nbNet r2 ip = Some nb"
    using nb_query_safe by blast
  have safe: "name_safe (clientHostnameByMac e s m)"
    "name_safe (shortLabel (drop_while_end (\<lambda>c. c = CHR ''.'') (sanitize raw)))" "name_safe (sanitize nb)"
    using assms clientHostname_safe
    by (auto simp: server_inv_def sanitize_safe intro!: shortLabel_safe name_safe_sublist(2))
  have "\<exists>res. lookupClientName e dnsNet nbNet r1 r2 s m = Some res \<and> name_safe (nr_name res)
    \<and> (nr_source res = ''none'' \<longleftrightarrow> nr_name res = [])"
    unfolding lookupClientName_def Let_def ip_def [symmetric] using raw nb safe by auto
  then show ?thesis by (auto simp: name_safe_def kMaxLen_def)
qed

lemma lookup_name_safe_witness:
  "\<exists>res. lookupClientName quiet (\<lambda>_ _. None) (\<lambda>_ _. None) 1 2 one_lease [2, 0, 0, 0, 0, 9] = Some res
    \<and> length (nr_name res) \<le> 32"
  using lookup_name_safe [OF one_lease_inv] by blast

end
