(* ===== verification/InternalCache.thy ===== *)
theory InternalCache
  imports Prelude "HOL-Library.Monad_Syntax"
begin

text \<open>
  \<open>src/src/dns/InternalDnsCache.cpp\<close>: the DNS cache in one block of external memory. The block is an
  array of bucket heads and an array of nodes; nodes are linked by index, free nodes by the same field.
  The model keeps that heap: \<open>buckets\<close>, \<open>nodes\<close> and \<open>freeHead\<close> are the arrays and the stack head as
  the code has them, and every loop over a chain is \<open>chain_loop\<close>, which follows \<open>next\<close> until it is
  negative and so need not end (\<open>None\<close>: a cycle, or an index outside the node array). The clock, the
  time a lock or a scan took and the address text conversions of lwIP are parameters. The mutex makes
  each operation one step.
\<close>

section \<open>State\<close>

text \<open>An IPv6 address is 16 bytes in memory order, the four words of lwIP's \<open>in6_addr\<close>.\<close>

type_synonym in6 = "u32 \<times> u32 \<times> u32 \<times> u32"

record node =
  nd_next :: int
  nd_hash :: u32
  nd_qtype :: u16
  nd_nA :: nat
  nd_nAAAA :: nat
  nd_storedMs :: u32
  nd_ttl :: u32
  nd_uses :: u32
  nd_name :: string
  nd_a4 :: "u32 list"
  nd_a6 :: "in6 list"

record cache =
  arena :: bool
  sizeMb :: nat
  buckets :: "int list"
  nodes :: "node list"
  freeHead :: int
  entries :: int
  hits :: u64
  misses :: u64
  evicted :: u64
  lookupWaitUs :: u64
  walkedNodes :: u64
  stores :: u64
  evictScans :: u64
  evictScanUs :: u64
  evictScanNodes :: u64
  usesTotal :: u32
  topUses :: u32
  topIdx :: int
  topQtype :: u16
  topName :: string
  topValid :: bool
  ignoreTtl :: bool

text \<open>The readings of the millisecond clock and of the microsecond timers during one call.\<close>

record clock =
  k_nowMs :: u32
  k_waitUs :: u64
  k_scanUs :: u64

text \<open>\<open>inet_pton\<close> and \<open>inet_ntop\<close> for both families.\<close>

record iptext =
  t_pton4 :: "string \<Rightarrow> u32 option"
  t_pton6 :: "string \<Rightarrow> in6 option"
  t_ntop4 :: "u32 \<Rightarrow> string option"
  t_ntop6 :: "in6 \<Rightarrow> string option"

definition kMaxNameLen_c :: nat where "kMaxNameLen_c = 127"
definition kMaxA :: nat where "kMaxA = 16"
definition kMaxAAAA :: nat where "kMaxAAAA = 8"
definition kTypeA :: u16 where "kTypeA = 1"
definition kTypeAaaa :: u16 where "kTypeAaaa = 28"
definition UINT32_MAX :: u32 where "UINT32_MAX = 0xFFFFFFFF"
definition NODE_BYTES :: nat where "NODE_BYTES = 352"

section \<open>Names\<close>

definition tolower_c :: "char \<Rightarrow> char" where
  "tolower_c ch = (let n = char_code ch in if 65 \<le> n \<and> n \<le> 90 then char_of (n + 32) else ch)"

definition lower :: "string \<Rightarrow> string" where
  "lower s = map tolower_c s"

text \<open>The C view of a string: up to the first NUL.\<close>

definition cstr :: "string \<Rightarrow> string" where
  "cstr s = takeWhile (\<lambda>ch. char_code ch \<noteq> 0) s"

definition hashName :: "string \<Rightarrow> u32" where
  "hashName s = foldl (\<lambda>h ch. (h XOR of_nat (char_code ch)) * 16777619) 2166136261 (cstr s)"

definition elapsedMs :: "u32 \<Rightarrow> u32 \<Rightarrow> u32" where
  "elapsedMs now stored = now - stored"

definition bucketOf :: "cache \<Rightarrow> u32 \<Rightarrow> nat" where
  "bucketOf c h = unat h mod length (buckets c)"

section \<open>Chains\<close>

text \<open>
  \<open>for (idx = head; idx >= 0; idx = nodes_[idx].next) \<dots>\<close>: the body gives the next value of its
  variables (\<open>Inl\<close>) or leaves the loop with a result (\<open>Inr\<close>).
\<close>

partial_function (option) chain_loop ::
  "('a \<Rightarrow> nat \<Rightarrow> 'a + 'r) \<Rightarrow> node list \<Rightarrow> int \<Rightarrow> 'a \<Rightarrow> ('a + 'r) option" where
  "chain_loop body ns idx acc =
     (if idx < 0 then Some (Inl acc)
      else if nat idx < length ns then
        (case body acc (nat idx) of
           Inr r \<Rightarrow> Some (Inr r)
         | Inl acc' \<Rightarrow> chain_loop body ns (nd_next (ns ! nat idx)) acc')
      else None)"

text \<open>The loop over all buckets with a chain loop inside, neither leaving early.\<close>

fun bucket_loop :: "(nat \<Rightarrow> 'a \<Rightarrow> nat \<Rightarrow> 'a) \<Rightarrow> cache \<Rightarrow> nat list \<Rightarrow> 'a \<Rightarrow> 'a option" where
  "bucket_loop body c [] acc = Some acc"
| "bucket_loop body c (b # bs) acc =
     (case chain_loop (\<lambda>a i. Inl (body b a i)) (nodes c) (buckets c ! b) acc of
        Some (Inl acc') \<Rightarrow> bucket_loop body c bs acc'
      | Some (Inr (r :: unit)) \<Rightarrow> None
      | None \<Rightarrow> None)"

definition all_buckets :: "(nat \<Rightarrow> 'a \<Rightarrow> nat \<Rightarrow> 'a) \<Rightarrow> cache \<Rightarrow> 'a \<Rightarrow> 'a option" where
  "all_buckets body c acc = bucket_loop body c [0..<length (buckets c)] acc"

section \<open>The pool\<close>

text \<open>\<open>for (i = 0; i < nodeCount_; i++) \<open>nodes_[i].next = freeHead_; freeHead_ = i\<close>\<close>\<close>

definition free_stack :: "node list \<Rightarrow> node list \<times> int" where
  "free_stack ns = foldl (\<lambda>(ms, fh) i. (ms[i := (ms ! i)\<lparr>nd_next := fh\<rparr>], int i)) (ns, - 1) [0..<length ns]"

definition zero_node :: node where
  "zero_node = \<lparr>nd_next = 0, nd_hash = 0, nd_qtype = 0, nd_nA = 0, nd_nAAAA = 0, nd_storedMs = 0,
     nd_ttl = 0, nd_uses = 0, nd_name = [], nd_a4 = replicate kMaxA 0,
     nd_a6 = replicate kMaxAAAA (0, 0, 0, 0)\<rparr>"

definition resetTop :: "cache \<Rightarrow> cache" where
  "resetTop c = c\<lparr>topUses := 0, topQtype := 0, topIdx := - 1, topName := [], topValid := False\<rparr>"

definition arena_init :: "nat \<Rightarrow> nat \<Rightarrow> nat \<Rightarrow> cache \<Rightarrow> cache" where
  "arena_init mb numBuckets nodeCount c =
     (let (ns, fh) = free_stack (replicate nodeCount zero_node)
      in resetTop (c\<lparr>arena := True, sizeMb := mb, buckets := replicate numBuckets (- 1), nodes := ns,
           freeHead := fh, entries := 0, hits := 0, misses := 0, evicted := 0, usesTotal := 0,
           lookupWaitUs := 0, walkedNodes := 0, stores := 0, evictScans := 0, evictScanUs := 0,
           evictScanNodes := 0\<rparr>))"

text \<open>\<open>enable\<close>; \<open>psram\<close> says whether the allocation of that many bytes succeeds.\<close>

definition enable :: "(nat \<Rightarrow> bool) \<Rightarrow> nat \<Rightarrow> cache \<Rightarrow> bool \<times> cache" where
  "enable psram mb0 c =
     (if arena c then (True, c\<lparr>sizeMb := mb0\<rparr>)
      else
        (let mb1 = (if mb0 < 1 then 1 else mb0);
             mb = (if mb1 > 20 then 20 else mb1);
             arenaBytes = mb * 1024 * 1024;
             nb0 = arenaBytes div 4096;
             numBuckets = (if nb0 < 1024 then 1024 else nb0);
             bucketBytes = numBuckets * 4
         in if bucketBytes \<ge> arenaBytes then (False, c)
            else
              (let nodeCount = (arenaBytes - bucketBytes) div NODE_BYTES in
               if nodeCount < 1 then (False, c)
               else if \<not> psram arenaBytes then (False, c)
               else (True, arena_init mb numBuckets nodeCount c))))"

definition disable :: "cache \<Rightarrow> cache" where
  "disable c = resetTop (c\<lparr>arena := False, buckets := [], nodes := [], freeHead := - 1, entries := 0, sizeMb := 0\<rparr>)"

definition clear :: "cache \<Rightarrow> cache" where
  "clear c =
     (if \<not> arena c then c
      else (let (ns, fh) = free_stack (nodes c)
            in resetTop (c\<lparr>buckets := replicate (length (buckets c)) (- 1), nodes := ns, freeHead := fh, entries := 0\<rparr>)))"

definition allocNode :: "cache \<Rightarrow> int \<times> cache" where
  "allocNode c =
     (if freeHead c < 0 then (- 1, c)
      else (let idx = nat (freeHead c)
            in (int idx, c\<lparr>freeHead := nd_next (nodes c ! idx),
                  nodes := (nodes c)[idx := (nodes c ! idx)\<lparr>nd_next := - 1\<rparr>]\<rparr>)))"

definition freeNode :: "nat \<Rightarrow> cache \<Rightarrow> cache" where
  "freeNode idx c = c\<lparr>nodes := (nodes c)[idx := (nodes c ! idx)\<lparr>nd_next := freeHead c\<rparr>], freeHead := int idx\<rparr>"

definition findNode :: "cache \<Rightarrow> nat \<Rightarrow> u32 \<Rightarrow> string \<Rightarrow> u16 \<Rightarrow> (int \<times> u32) option" where
  "findNode c bucket hash name qtype =
     map_option (\<lambda>r. case r of Inr p \<Rightarrow> p | Inl seen \<Rightarrow> (- 1, seen))
       (chain_loop (\<lambda>seen i.
            (let n = nodes c ! i in
             if nd_hash n = hash \<and> nd_qtype n = qtype \<and> nd_name n = cstr name
             then Inr (int i, seen + 1) else Inl (seen + 1)))
          (nodes c) (buckets c ! bucket) 0)"

record victim =
  v_best :: int
  v_uses :: u32
  v_age :: u32
  v_bucket :: int
  v_seen :: u32

text \<open>The body of the scan: the record with the fewest uses, the oldest among equals.\<close>

definition victim_body :: "cache \<Rightarrow> u32 \<Rightarrow> nat \<Rightarrow> victim \<Rightarrow> nat \<Rightarrow> victim" where
  "victim_body c now b v i =
     (let n = nodes c ! i; v1 = v\<lparr>v_seen := v_seen v + 1\<rparr>; age = elapsedMs now (nd_storedMs n) in
      if v_best v \<ge> 0 \<and> nd_uses n > v_uses v then v1
      else if v_best v \<ge> 0 \<and> nd_uses n = v_uses v \<and> age \<le> v_age v then v1
      else v1\<lparr>v_uses := nd_uses n, v_age := age, v_best := int i, v_bucket := int b\<rparr>)"

definition findEvictVictim :: "u32 \<Rightarrow> cache \<Rightarrow> victim option" where
  "findEvictVictim now c =
     all_buckets (victim_body c now) c \<lparr>v_best = - 1, v_uses = UINT32_MAX, v_age = 0, v_bucket = 0, v_seen = 0\<rparr>"

definition unlinkNode :: "nat \<Rightarrow> nat \<Rightarrow> cache \<Rightarrow> cache option" where
  "unlinkNode bucket idx c =
     map_option (\<lambda>r. case r of
         Inl _ \<Rightarrow> c
       | Inr prev \<Rightarrow>
           (let nxt = nd_next (nodes c ! idx);
                c1 = (if prev < 0 then c\<lparr>buckets := (buckets c)[bucket := nxt]\<rparr>
                      else c\<lparr>nodes := (nodes c)[nat prev := (nodes c ! nat prev)\<lparr>nd_next := nxt\<rparr>]\<rparr>);
                c2 = freeNode idx c1
            in c2\<lparr>entries := entries c2 - 1\<rparr>))
       (chain_loop (\<lambda>prev cur. if cur = idx then Inr prev else Inl (int cur)) (nodes c) (buckets c ! bucket) (- 1))"

section \<open>Usage counters\<close>

definition noteMark :: "nat \<Rightarrow> cache \<Rightarrow> cache" where
  "noteMark idx c =
     (let n = nodes c ! idx in
      if nd_uses n = 0 then c
      else if topValid c \<and> nd_uses n < topUses c then c
      else c\<lparr>topUses := nd_uses n, topQtype := nd_qtype n, topIdx := int idx, topValid := True\<rparr>)"

definition bumpUse :: "nat \<Rightarrow> cache \<Rightarrow> cache" where
  "bumpUse idx c =
     (let n = nodes c ! idx;
          c1 = (if nd_uses n \<noteq> UINT32_MAX
                then c\<lparr>nodes := (nodes c)[idx := n\<lparr>nd_uses := nd_uses n + 1\<rparr>]\<rparr> else c);
          c2 = (if usesTotal c1 \<noteq> UINT32_MAX then c1\<lparr>usesTotal := usesTotal c1 + 1\<rparr> else c1)
      in noteMark idx c2)"

definition noteTop :: "cache \<Rightarrow> cache" where
  "noteTop c =
     (if \<not> topValid c then c\<lparr>topName := []\<rparr>
      else if topIdx c < 0 \<or> topIdx c \<ge> int (length (nodes c)) then c
      else (let n = nodes c ! nat (topIdx c) in
            if nd_uses n \<noteq> topUses c then c else c\<lparr>topName := nd_name n\<rparr>))"

section \<open>Store, lookup, erase\<close>

text \<open>
  The address loops of \<open>storeInternal\<close>: a text that \<open>inet_pton\<close> rejects leaves its slot as it was,
  but is counted.
\<close>

fun put_a4 :: "(string \<Rightarrow> u32 option) \<Rightarrow> string list \<Rightarrow> node \<Rightarrow> node" where
  "put_a4 pton [] n = n"
| "put_a4 pton (ip # ips) n =
     (if nd_nA n \<ge> kMaxA then n
      else put_a4 pton ips
        (n\<lparr>nd_a4 := (case pton ip of Some a \<Rightarrow> (nd_a4 n)[nd_nA n := a] | None \<Rightarrow> nd_a4 n), nd_nA := nd_nA n + 1\<rparr>))"

fun put_a6 :: "(string \<Rightarrow> in6 option) \<Rightarrow> string list \<Rightarrow> node \<Rightarrow> node" where
  "put_a6 pton [] n = n"
| "put_a6 pton (ip # ips) n =
     (if nd_nAAAA n \<ge> kMaxAAAA then n
      else put_a6 pton ips
        (n\<lparr>nd_a6 := (case pton ip of Some a \<Rightarrow> (nd_a6 n)[nd_nAAAA n := a] | None \<Rightarrow> nd_a6 n),
           nd_nAAAA := nd_nAAAA n + 1\<rparr>))"

text \<open>A free node, evicting the least used record when there is none; a negative index is a refusal.\<close>

definition take_node :: "clock \<Rightarrow> cache \<Rightarrow> (int \<times> cache) option" where
  "take_node k c =
     (case allocNode c of (idx, c1) \<Rightarrow>
        if idx \<ge> 0 then Some (idx, c1)
        else do {
          v \<leftarrow> findEvictVictim (k_nowMs k) c1;
          let c2 = c1\<lparr>evictScanUs := evictScanUs c1 + k_scanUs k, evictScans := evictScans c1 + 1,
                      evictScanNodes := evictScanNodes c1 + ucast (v_seen v)\<rparr>;
          if v_best v < 0 then Some (- 1, c2)
          else do {
            c3 \<leftarrow> unlinkNode (nat (v_bucket v)) (nat (v_best v)) c2;
            Some (allocNode (c3\<lparr>evicted := evicted c3 + 1\<rparr>))
          }})"

text \<open>A new record at the head of its bucket.\<close>

definition link_node :: "clock \<Rightarrow> nat \<Rightarrow> u32 \<Rightarrow> u16 \<Rightarrow> string \<Rightarrow> nat \<Rightarrow> cache \<Rightarrow> cache" where
  "link_node k b h qtype lname idx c =
     c\<lparr>nodes := (nodes c)[idx := (nodes c ! idx)\<lparr>nd_hash := h, nd_qtype := qtype, nd_uses := 0,
          nd_storedMs := k_nowMs k, nd_name := cstr lname, nd_next := buckets c ! b\<rparr>],
       buckets := (buckets c)[b := int idx], entries := entries c + 1\<rparr>"

text \<open>Time, lifetime and addresses of a record, new or refreshed.\<close>

definition write_node :: "iptext \<Rightarrow> clock \<Rightarrow> u16 \<Rightarrow> string list \<Rightarrow> u32 \<Rightarrow> node \<Rightarrow> node" where
  "write_node t k qtype ips ttl n =
     (let n1 = n\<lparr>nd_storedMs := k_nowMs k, nd_ttl := ttl, nd_nA := 0, nd_nAAAA := 0\<rparr> in
      if qtype = 1 then put_a4 (t_pton4 t) ips n1
      else if qtype = 28 then put_a6 (t_pton6 t) ips n1 else n1)"

definition storeInternal ::
  "iptext \<Rightarrow> clock \<Rightarrow> string \<Rightarrow> u16 \<Rightarrow> string list \<Rightarrow> u32 \<Rightarrow> bool \<Rightarrow> u64 \<Rightarrow> cache \<Rightarrow> cache option" where
  "storeInternal t k domain qtype ips ttl countUse usesExact c =
     (if \<not> arena c \<or> domain = [] \<or> ips = [] \<or> (qtype \<noteq> kTypeA \<and> qtype \<noteq> kTypeAaaa) then Some c
      else
        (let lname = lower domain in
         if length lname \<ge> kMaxNameLen_c then Some c
         else
           (let h = hashName lname; b = bucketOf c h in
            do {
              (found, _) \<leftarrow> findNode c b h lname qtype;
              (idx, c1) \<leftarrow> (if found \<ge> 0 then Some (found, c)
                            else map_option (\<lambda>(i, c0). if i < 0 then (i, c0)
                                   else (i, link_node k b h qtype lname (nat i) c0)) (take_node k c));
              if idx < 0 then Some c1
              else
                (let i = nat idx;
                     c2 = c1\<lparr>nodes := (nodes c1)[i := write_node t k qtype ips ttl (nodes c1 ! i)],
                             stores := stores c1 + 1\<rparr>
                 in Some (if countUse then bumpUse i c2
                          else noteMark i (c2\<lparr>nodes := (nodes c2)[i := (nodes c2 ! i)\<lparr>nd_uses :=
                                 (if usesExact > ucast UINT32_MAX then UINT32_MAX else ucast usesExact)\<rparr>]\<rparr>)))
            })))"

definition store :: "iptext \<Rightarrow> clock \<Rightarrow> string \<Rightarrow> u16 \<Rightarrow> string list \<Rightarrow> u32 \<Rightarrow> cache \<Rightarrow> cache option" where
  "store t k domain qtype ips ttl c = storeInternal t k domain qtype ips ttl True 0 c"

definition expired_at :: "cache \<Rightarrow> u32 \<Rightarrow> node \<Rightarrow> bool" where
  "expired_at c now n \<longleftrightarrow> \<not> ignoreTtl c \<and> nd_ttl n \<noteq> 0 \<and> elapsedMs now (nd_storedMs n) div 1000 \<ge> nd_ttl n"

definition node_ips :: "iptext \<Rightarrow> u16 \<Rightarrow> node \<Rightarrow> string list" where
  "node_ips t qtype n =
     (if qtype = 1 then List.map_filter (t_ntop4 t) (take (nd_nA n) (nd_a4 n))
      else if qtype = 28 then List.map_filter (t_ntop6 t) (take (nd_nAAAA n) (nd_a6 n)) else [])"

definition remaining_ttl :: "cache \<Rightarrow> u32 \<Rightarrow> node \<Rightarrow> u32" where
  "remaining_ttl c now n =
     (if ignoreTtl c \<or> nd_ttl n = 0 then nd_ttl n
      else (let remainMs = nd_ttl n * 1000 - elapsedMs now (nd_storedMs n) in (remainMs + 999) div 1000))"

text \<open>\<open>lookup\<close>: \<open>Some (ips, ttl)\<close> is the return value true with its two out-parameters.\<close>

definition lookup :: "iptext \<Rightarrow> clock \<Rightarrow> string \<Rightarrow> u16 \<Rightarrow> cache \<Rightarrow> ((string list \<times> u32) option \<times> cache) option" where
  "lookup t k domain qtype c =
     (if \<not> arena c \<or> domain = [] then Some (None, c)
      else
        (let lname = lower domain in
         if length lname \<ge> kMaxNameLen_c then Some (None, c)
         else
           (let h = hashName lname; b = bucketOf c h in
            do {
              (idx, walked) \<leftarrow> findNode c b h lname qtype;
              if idx < 0 then Some (None, c\<lparr>misses := misses c + 1\<rparr>)
              else
                (let i = nat idx; n = nodes c ! i in
                 if expired_at c (k_nowMs k) n then
                   map_option (\<lambda>c1. (None, c1\<lparr>evicted := evicted c1 + 1, misses := misses c1 + 1\<rparr>)) (unlinkNode b i c)
                 else
                   (let ips = node_ips t qtype n in
                    if ips = [] then Some (None, c\<lparr>misses := misses c + 1\<rparr>)
                    else
                      (let c1 = bumpUse i (c\<lparr>lookupWaitUs := lookupWaitUs c + k_waitUs k,
                                             walkedNodes := walkedNodes c + ucast walked\<rparr>)
                       in Some (Some (ips, remaining_ttl c (k_nowMs k) n), c1\<lparr>hits := hits c1 + 1\<rparr>))))
            })))"

definition erase :: "string \<Rightarrow> u16 \<Rightarrow> cache \<Rightarrow> (bool \<times> cache) option" where
  "erase domain qtype c =
     (if \<not> arena c \<or> domain = [] then Some (False, c)
      else
        (let lname = lower domain; h = hashName lname; b = bucketOf c h in
         do {
           (idx, _) \<leftarrow> findNode c b h lname qtype;
           if idx \<ge> 0 then map_option (Pair True) (unlinkNode b (nat idx) c) else Some (False, c)
         }))"

definition contains :: "string \<Rightarrow> u16 \<Rightarrow> cache \<Rightarrow> bool option" where
  "contains domain qtype c =
     (if \<not> arena c \<or> domain = [] then Some False
      else
        (let lname = lower domain; h = hashName lname in
         map_option (\<lambda>(idx, _). idx \<ge> 0) (findNode c (bucketOf c h) h lname qtype)))"

definition restoreMeasurement :: "u64 \<Rightarrow> u64 \<Rightarrow> u64 \<Rightarrow> u64 \<Rightarrow> u64 \<Rightarrow> u64 \<Rightarrow> u64 \<Rightarrow> cache \<Rightarrow> cache" where
  "restoreMeasurement h w wn st es eu en c =
     c\<lparr>hits := h, lookupWaitUs := w, walkedNodes := wn, stores := st, evictScans := es,
       evictScanUs := eu, evictScanNodes := en\<rparr>"

end
