(* ===== verification/CacheHeap.thy ===== *)
theory CacheHeap
  imports InternalCache "HOL-Library.Multiset"
begin

text \<open>
  The shape of the cache's heap: every bucket is a finite chain, the free stack is a chain, and the
  nodes are split between them. \<open>rep c chs fl out\<close> says so with the chains written out (\<open>out\<close> is
  the node an operation has taken from the stack and not linked yet). Each pool operation is a
  change of these lists.
\<close>

section \<open>Chains of indices\<close>

fun is_chain :: "node list \<Rightarrow> int \<Rightarrow> nat list \<Rightarrow> bool" where
  "is_chain ns idx [] \<longleftrightarrow> idx < 0"
| "is_chain ns idx (i # is) \<longleftrightarrow> idx = int i \<and> i < length ns \<and> is_chain ns (nd_next (ns ! i)) is"

text \<open>The loop body run over a list.\<close>

fun fold_until :: "('a \<Rightarrow> nat \<Rightarrow> 'a + 'r) \<Rightarrow> nat list \<Rightarrow> 'a \<Rightarrow> 'a + 'r" where
  "fold_until body [] acc = Inl acc"
| "fold_until body (i # is) acc =
     (case body acc i of Inr r \<Rightarrow> Inr r | Inl acc' \<Rightarrow> fold_until body is acc')"

text \<open>On a chain the loop ends and is the loop over the chain's indices.\<close>

lemma chain_loop_eq:
  "is_chain ns idx is \<Longrightarrow> chain_loop body ns idx acc = Some (fold_until body is acc)"
proof (induction "is" arbitrary: idx acc)
  case Nil
  then show ?case by (subst chain_loop.simps) simp
next
  case (Cons i "is")
  then show ?case by (subst chain_loop.simps) (simp split: sum.split)
qed

lemma fold_until_Inl: "fold_until (\<lambda>a i. Inl (f a i)) is acc = (Inl (foldl f acc is) :: 'a + unit)"
  by (induction "is" arbitrary: acc) auto

lemma is_chain_bound: "is_chain ns idx is \<Longrightarrow> set is \<subseteq> {..<length ns}"
  by (induction ns idx "is" rule: is_chain.induct) auto

lemma is_chain_frame: "is_chain ns idx is \<Longrightarrow> i \<notin> set is \<Longrightarrow> is_chain (ns[i := n]) idx is"
  by (induction ns idx "is" rule: is_chain.induct) auto

lemma is_chain_data:
  "is_chain ns idx is \<Longrightarrow> nd_next n = nd_next (ns ! i) \<Longrightarrow> is_chain (ns[i := n]) idx is"
proof (induction ns idx "is" rule: is_chain.induct)
  case (2 ns idx j js)
  have "nd_next (ns[i := n] ! j) = nd_next (ns ! j)"
    using 2 by (cases "j = i") auto
  with 2 show ?case by simp
qed simp

lemma is_chain_append:
  "is_chain ns idx (is @ js) \<Longrightarrow> js \<noteq> [] \<Longrightarrow>
   is_chain ns (int (hd js)) js \<and> (is = [] \<longrightarrow> idx = int (hd js))
   \<and> (is \<noteq> [] \<longrightarrow> nd_next (ns ! last is) = int (hd js))"
proof (induction "is" arbitrary: idx)
  case Nil
  then show ?case by (cases js) auto
next
  case (Cons i "is")
  then show ?case by auto
qed

text \<open>Taking one node out of a chain.\<close>

lemma is_chain_remove_head:
  "is_chain ns idx (i # is) \<Longrightarrow> is_chain ns (nd_next (ns ! i)) is"
  by simp

lemma is_chain_remove:
  assumes "is_chain ns idx (p @ k # i # q)" and "distinct (p @ k # i # q)"
  shows "is_chain (ns[k := (ns ! k)\<lparr>nd_next := nd_next (ns ! i)\<rparr>]) idx (p @ k # q)"
  using assms
proof (induction p arbitrary: idx)
  case Nil
  then show ?case by (auto intro!: is_chain_frame)
next
  case (Cons j p)
  then show ?case by auto
qed

lemma fold_until_find:
  "fold_until (\<lambda>prev cur. if cur = i then Inr prev else Inl (int cur)) is prev =
    (if i \<in> set is then Inr (case takeWhile (\<lambda>j. j \<noteq> i) is of [] \<Rightarrow> prev | js \<Rightarrow> int (last js))
     else Inl (if is = [] then prev else int (last is)))"
  by (induction "is" arbitrary: prev) (auto split: list.splits)

section \<open>The representation\<close>

definition rep :: "cache \<Rightarrow> nat list list \<Rightarrow> nat list \<Rightarrow> nat list \<Rightarrow> bool" where
  "rep c chs fl out \<longleftrightarrow>
     length chs = length (buckets c) \<and> 0 < length (buckets c)
     \<and> (\<forall>b < length chs. is_chain (nodes c) (buckets c ! b) (chs ! b))
     \<and> is_chain (nodes c) (freeHead c) fl
     \<and> mset (concat chs @ fl @ out) = mset [0..<length (nodes c)]
     \<and> entries c = int (length (concat chs))"

lemma repD:
  assumes "rep c chs fl out"
  shows "length chs = length (buckets c)" and "0 < length (buckets c)"
    and "b < length (buckets c) \<Longrightarrow> is_chain (nodes c) (buckets c ! b) (chs ! b)"
    and "is_chain (nodes c) (freeHead c) fl"
    and "mset (concat chs @ fl @ out) = mset [0..<length (nodes c)]"
    and "entries c = int (length (concat chs))"
  using assms by (auto simp: rep_def)

lemma rep_distinct: "rep c chs fl out \<Longrightarrow> distinct (concat chs @ fl @ out)"
  using repD(5) mset_eq_imp_distinct_iff [of "concat chs @ fl @ out" "[0..<length (nodes c)]"] by simp

lemma rep_set: "rep c chs fl out \<Longrightarrow> set (concat chs @ fl @ out) = {..<length (nodes c)}"
  using repD(5) mset_eq_setD [of "concat chs @ fl @ out" "[0..<length (nodes c)]"]
  by (metis atLeast_upt)

lemma in_concat: "b < length chs \<Longrightarrow> i \<in> set (chs ! b) \<Longrightarrow> i \<in> set (concat chs)"
  using nth_mem by (fastforce simp: set_concat)

lemma rep_bound: "rep c chs fl out \<Longrightarrow> i \<in> set (concat chs @ fl @ out) \<Longrightarrow> i < length (nodes c)"
  using rep_set by blast

lemma mset_concat_update:
  "b < length chs \<Longrightarrow> mset (concat (chs[b := ch])) + mset (chs ! b) = mset (concat chs) + mset ch"
proof (induction chs arbitrary: b)
  case (Cons x chs)
  then show ?case by (cases b) (auto simp: ac_simps)
qed simp

lemma distinct_chain: "distinct (concat chs) \<Longrightarrow> b < length chs \<Longrightarrow> distinct (chs ! b)"
  by (simp add: distinct_concat_iff)

lemma distinct_other:
  assumes "distinct (concat chs)" and "b < length chs" and "d < length chs" and "b \<noteq> d" and "i \<in> set (chs ! b)"
  shows "i \<notin> set (chs ! d)"
proof
  assume "i \<in> set (chs ! d)"
  let ?rest = "concat (chs[b := []])"
  have eq: "mset ?rest + mset (chs ! b) = mset (concat chs)"
    using mset_concat_update [OF assms(2), of "[]"] by simp
  have "i \<in> set ?rest"
    using in_concat [of d "chs[b := []]" i] assms(3,4) \<open>i \<in> set (chs ! d)\<close> by simp
  then have "0 < count (mset ?rest) i" "0 < count (mset (chs ! b)) i"
    using assms(5) by (simp_all only: count_greater_zero_iff set_mset_mset)
  moreover have "count (mset ?rest) i + count (mset (chs ! b)) i \<le> 1"
    using assms(1) unfolding count_union [symmetric] eq by (simp add: distinct_count_atmost_1 del: mset_concat)
  ultimately show False by linarith
qed

text \<open>Only the links, the heads, the stack and the count matter for the representation.\<close>

lemma rep_cong:
  "rep c chs fl out \<Longrightarrow> buckets c' = buckets c \<Longrightarrow> nodes c' = nodes c \<Longrightarrow> freeHead c' = freeHead c \<Longrightarrow>
   entries c' = entries c \<Longrightarrow> rep c' chs fl out"
  by (simp add: rep_def)

lemma rep_data:
  assumes "rep c chs fl out" and "nd_next n = nd_next (nodes c ! i)"
  shows "rep (c\<lparr>nodes := (nodes c)[i := n]\<rparr>) chs fl out"
  using assms by (auto simp: rep_def intro: is_chain_data)

section \<open>The pool operations\<close>

lemma allocNode_empty: "rep c chs [] out \<Longrightarrow> allocNode c = (- 1, c)"
  by (simp add: allocNode_def rep_def)

lemma allocNode_cons:
  assumes "rep c chs (i # fl) []"
  obtains c' where "allocNode c = (int i, c')" and "rep c' chs fl [i]"
    and "nodes c' = (nodes c)[i := (nodes c ! i)\<lparr>nd_next := - 1\<rparr>]" and "buckets c' = buckets c"
    and "entries c' = entries c" and "c' = c\<lparr>freeHead := freeHead c', nodes := nodes c'\<rparr>"
proof -
  note r = repD [OF assms]
  let ?ns = "(nodes c)[i := (nodes c ! i)\<lparr>nd_next := - 1\<rparr>]"
  let ?c = "c\<lparr>freeHead := nd_next (nodes c ! i), nodes := ?ns\<rparr>"
  have i: "freeHead c = int i" "is_chain (nodes c) (nd_next (nodes c ! i)) fl" using r(4) by auto
  have out: "i \<notin> set fl" "i \<notin> set (concat chs)" using rep_distinct [OF assms] by auto
  have "is_chain ?ns (buckets c ! b) (chs ! b)" if "b < length chs" for b
    using r(1,3) out(2) that by (auto intro!: is_chain_frame simp: in_concat)
  moreover have "is_chain ?ns (nd_next (nodes c ! i)) fl"
    using i(2) out(1) by (rule is_chain_frame)
  ultimately have "rep ?c chs fl [i]"
    using r by (auto simp: rep_def)
  moreover have "allocNode c = (int i, ?c)"
    using i(1) by (simp add: allocNode_def)
  ultimately show thesis using that [of ?c] by simp
qed

lemma link_rep:
  assumes "rep c chs fl [i]" and "b < length (buckets c)"
    and "ns' = (nodes c)[i := n]" and "nd_next n = buckets c ! b"
  shows "rep (c\<lparr>nodes := ns', buckets := (buckets c)[b := int i], entries := entries c + 1\<rparr>)
    (chs[b := i # chs ! b]) fl []"
proof -
  note r = repD [OF assms(1)]
  have i: "i < length (nodes c)" using rep_bound [OF assms(1)] by simp
  have out: "i \<notin> set fl" "i \<notin> set (concat chs)" using rep_distinct [OF assms(1)] by auto
  have b: "b < length chs" using r(1) assms(2) by simp
  have ch: "is_chain ns' (buckets c ! d) (chs ! d)" if "d < length chs" for d
    unfolding assms(3) using r(1,3) out(2) that by (auto intro!: is_chain_frame simp: in_concat)
  have cat: "mset (concat (chs[b := i # chs ! b])) = add_mset i (mset (concat chs))"
    using mset_concat_update [OF b, of "i # chs ! b"] by simp
  have "is_chain ns' (int i) (i # chs ! b)"
    using i ch [OF b] assms(3,4) by simp
  then have "\<forall>d < length chs. is_chain ns' ((buckets c)[b := int i] ! d) (chs[b := i # chs ! b] ! d)"
    using ch b r(1) by (auto simp: nth_list_update)
  moreover have "is_chain ns' (freeHead c) fl"
    unfolding assms(3) using r(4) out(1) by (rule is_chain_frame)
  moreover have "length (concat (chs[b := i # chs ! b])) = Suc (length (concat chs))"
    using arg_cong [OF cat, of size] by (simp del: mset_concat)
  ultimately show ?thesis
    using r cat assms(3) by (simp add: rep_def del: mset_concat)
qed

text \<open>What a node says about its record, links aside.\<close>

definition strip :: "node \<Rightarrow> node" where
  "strip n = n\<lparr>nd_next := - 1\<rparr>"

lemma strip_next [simp]: "strip (n\<lparr>nd_next := x\<rparr>) = strip n"
  by (simp add: strip_def)

lemma map_strip_update: "strip n = strip (ns ! i) \<Longrightarrow> map strip (ns[i := n]) = map strip ns"
proof (rule nth_equalityI)
  fix j
  assume "strip n = strip (ns ! i)" and "j < length (map strip (ns[i := n]))"
  then show "map strip (ns[i := n]) ! j = map strip ns ! j" by (cases "j = i") auto
qed simp

text \<open>Other bookkeeping fields an operation of the pool leaves alone.\<close>

definition frame :: "cache \<Rightarrow> (bool \<times> bool \<times> nat) \<times> (u64 \<times> u64 \<times> u64 \<times> u64) \<times> u32 \<times> (u32 \<times> int \<times> u16 \<times> bool)" where
  "frame c = ((arena c, ignoreTtl c, sizeMb c), (hits c, misses c, evicted c, stores c), usesTotal c,
     (topUses c, topIdx c, topQtype c, topValid c))"

definition same_pool :: "cache \<Rightarrow> cache \<Rightarrow> bool" where
  "same_pool c c' \<longleftrightarrow> frame c' = frame c
     \<and> map strip (nodes c') = map strip (nodes c) \<and> length (buckets c') = length (buckets c)"

lemma same_pool_length: "same_pool c c' \<Longrightarrow> length (nodes c') = length (nodes c)"
  unfolding same_pool_def by (metis length_map)

lemma same_pool_strip: "same_pool c c' \<Longrightarrow> i < length (nodes c) \<Longrightarrow> strip (nodes c' ! i) = strip (nodes c ! i)"
  using same_pool_length unfolding same_pool_def by (metis nth_map)

lemma rep_free:
  assumes "is_chain ns fh fl" and "i \<notin> set fl" and "i < length ns" and "n = (ns ! i)\<lparr>nd_next := fh\<rparr>"
  shows "is_chain (ns[i := n]) (int i) (i # fl)"
  using assms by (simp add: is_chain_frame)

lemma disjoint_mono: "A \<subseteq> B \<Longrightarrow> B \<inter> C = {} \<Longrightarrow> A \<inter> C = {}"
  by blast

lemma unlink_rep:
  assumes "rep c chs fl []" and "b < length (buckets c)" and "i \<in> set (chs ! b)"
  obtains c' where "unlinkNode b i c = Some c'" and "rep c' (chs[b := remove1 i (chs ! b)]) (i # fl) []"
    and "same_pool c c'" and "freeHead c' = int i"
proof -
  note r = repD [OF assms(1)]
  have b: "b < length chs" using r(1) assms(2) by simp
  obtain p q where ch: "chs ! b = p @ i # q" and ip: "i \<notin> set p"
    using assms(3) by (meson split_list_first)
  have rm: "remove1 i (chs ! b) = p @ q" using ch ip by (simp add: remove1_append)
  have dc: "distinct (concat chs)" using rep_distinct [OF assms(1)] by simp
  have dist: "distinct (concat chs)" "distinct (p @ i # q)"
    using dc distinct_chain [OF dc b] by (simp_all only: ch)
  have sub: "set (p @ i # q) \<subseteq> set (concat chs)"
    unfolding ch [symmetric] by (rule subsetI) (rule in_concat [OF b])
  have "set (concat chs) \<inter> set fl = {}" using rep_distinct [OF assms(1)] by simp
  with sub have fl: "set (p @ i # q) \<inter> set fl = {}" by (rule disjoint_mono)
  have other: "set (p @ i # q) \<inter> set (chs ! d) = {}" if "d < length chs" "d \<noteq> b" for d
    using distinct_other [OF dist(1) b that(1)] that(2) unfolding ch disjoint_iff by simp
  have chain: "is_chain (nodes c) (buckets c ! b) (p @ i # q)" using r(3) [OF assms(2)] ch by simp
  have i: "i < length (nodes c)" using is_chain_bound [OF chain] by auto
  let ?nxt = "nd_next (nodes c ! i)"
  define c1 where "c1 = (if p = [] then c\<lparr>buckets := (buckets c)[b := ?nxt]\<rparr>
     else c\<lparr>nodes := (nodes c)[last p := (nodes c ! last p)\<lparr>nd_next := ?nxt\<rparr>]\<rparr>)"
  define c2 where "c2 = (freeNode i c1)\<lparr>entries := entries c - 1\<rparr>"
  have un: "unlinkNode b i c = Some c2"
  proof -
    have tw: "takeWhile (\<lambda>j. j \<noteq> i) (p @ i # q) = p" using ip by (subst takeWhile_append2) auto
    have "entries (freeNode i c1) = entries c" by (simp add: freeNode_def c1_def)
    then show ?thesis
      unfolding unlinkNode_def chain_loop_eq [OF chain] fold_until_find tw
      by (cases p) (simp_all add: c2_def c1_def Let_def)
  qed
  have n1: "length (nodes c1) = length (nodes c)" "map strip (nodes c1) = map strip (nodes c)"
      "freeHead c1 = freeHead c" "length (buckets c1) = length (buckets c)"
    by (auto simp: c1_def map_strip_update)
  have ch1: "is_chain (nodes c1) (buckets c1 ! b) (p @ q)"
  proof (cases p rule: rev_cases)
    case Nil
    then show ?thesis using chain assms(2) by (simp add: c1_def)
  next
    case (snoc p' k)
    then show ?thesis
      using is_chain_remove [of "nodes c" "buckets c ! b" p' k i q] chain dist(2) by (simp add: c1_def)
  qed
  have chd: "is_chain (nodes c1) (buckets c1 ! d) (chs ! d)" if "d < length chs" "d \<noteq> b" for d
    using r(1,3) that other [OF that]
    by (cases p rule: rev_cases) (auto simp: c1_def intro!: is_chain_frame)
  have fl1: "is_chain (nodes c1) (freeHead c) fl"
    using r(4) fl by (cases p rule: rev_cases) (auto simp: c1_def intro!: is_chain_frame)
  have cat: "mset (concat (chs[b := p @ q])) + {#i#} = mset (concat chs)"
    using mset_concat_update [OF b, of "p @ q"] unfolding ch by simp
  have len: "length (concat (chs[b := p @ q])) + 1 = length (concat chs)"
    using arg_cong [OF cat, of size] by (simp del: mset_concat)
  let ?ns = "(nodes c1)[i := (nodes c1 ! i)\<lparr>nd_next := freeHead c\<rparr>]"
  have c2: "nodes c2 = ?ns" "buckets c2 = buckets c1" "freeHead c2 = int i" "entries c2 = entries c - 1"
    by (simp_all add: c2_def freeNode_def n1(3))
  have "is_chain ?ns (buckets c1 ! b) (p @ q)"
    using ch1 dist(2) by (intro is_chain_frame) auto
  moreover have "is_chain ?ns (buckets c1 ! d) (chs ! d)" if "d < length chs" "d \<noteq> b" for d
    using chd [OF that] other [OF that] by (intro is_chain_frame) auto
  ultimately have "\<forall>d < length (chs[b := p @ q]). is_chain (nodes c2) (buckets c2 ! d) (chs[b := p @ q] ! d)"
    using b by (auto simp: c2 nth_list_update)
  moreover have "is_chain (nodes c2) (freeHead c2) (i # fl)"
    unfolding c2 using fl1 fl i n1(1) by (intro rep_free) auto
  moreover have "mset (concat (chs[b := p @ q]) @ (i # fl) @ []) = mset [0..<length (nodes c2)]"
    using r(5) n1(1) unfolding c2 by (simp del: mset_concat mset_upt flip: cat)
  moreover have "entries c2 = int (length (concat (chs[b := p @ q])))"
    using c2(4) r(6) len by simp
  moreover have "length (chs[b := p @ q]) = length (buckets c2)" "0 < length (buckets c2)"
    using r(1,2) n1(4) by (simp_all add: c2(2))
  ultimately have "rep c2 (chs[b := p @ q]) (i # fl) []"
    unfolding rep_def by (intro conjI)
  moreover have "same_pool c c2"
    unfolding same_pool_def using n1 by (simp add: c2 map_strip_update) (simp add: c2_def c1_def freeNode_def frame_def)
  ultimately show thesis using that un rm c2(3) by simp
qed

section \<open>A fresh pool\<close>

lemma free_stack_upto:
  assumes "k \<le> length ns"
  shows "case foldl (\<lambda>(ms, fh) i. (ms[i := (ms ! i)\<lparr>nd_next := fh\<rparr>], int i)) (ns, - 1) [0..<k] of
    (ms, fh) \<Rightarrow> length ms = length ns \<and> is_chain ms fh (rev [0..<k]) \<and> map strip ms = map strip ns"
  using assms
proof (induction k)
  case (Suc k)
  then show ?case
    by (auto simp: case_prod_beta map_strip_update intro!: is_chain_frame)
qed simp

lemma free_stack_rep:
  obtains ms fh where "free_stack ns = (ms, fh)" and "length ms = length ns"
    and "is_chain ms fh (rev [0..<length ns])" and "map strip ms = map strip ns"
  using free_stack_upto [of "length ns" ns] that unfolding free_stack_def by (auto split: prod.splits)

lemma empty_pool_rep:
  assumes "0 < nb" and "is_chain ms fh (rev [0..<length ms])"
  shows "rep (c\<lparr>buckets := replicate nb (- 1), nodes := ms, freeHead := fh, entries := 0\<rparr>)
    (replicate nb []) (rev [0..<length ms]) []"
  using assms by (simp add: rep_def)

section \<open>Searching a chain\<close>

lemma fold_until_search:
  "\<exists>w. (case fold_until (\<lambda>seen i. if P i then Inr (int i, seen + 1) else Inl (seen + 1)) is acc of
      Inr p \<Rightarrow> p | Inl seen \<Rightarrow> (- 1, seen :: u32)) = (case List.find P is of Some i \<Rightarrow> int i | None \<Rightarrow> - 1, w)"
  by (induction "is" arbitrary: acc) auto

lemma findNode_find:
  assumes "rep c chs fl out" and "b < length (buckets c)"
  shows "\<exists>w. findNode c b h name q = Some (case List.find (\<lambda>i. nd_hash (nodes c ! i) = h \<and>
      nd_qtype (nodes c ! i) = q \<and> nd_name (nodes c ! i) = cstr name) (chs ! b) of Some i \<Rightarrow> int i | None \<Rightarrow> - 1, w)"
  unfolding findNode_def chain_loop_eq [OF repD(3) [OF assms]] Let_def option.map
  using fold_until_search [of "\<lambda>i. nd_hash (nodes c ! i) = h \<and> nd_qtype (nodes c ! i) = q
      \<and> nd_name (nodes c ! i) = cstr name" "chs ! b" 0] by simp

text \<open>The loops that visit the whole pool are loops over all linked nodes.\<close>

lemma bucket_loop_eq:
  assumes "rep c chs fl out" and "set bs \<subseteq> {..<length (buckets c)}"
  shows "bucket_loop body c bs acc =
    Some (foldl (\<lambda>a b. foldl (body b) a (chs ! b)) acc bs)"
  using assms(2)
proof (induction bs arbitrary: acc)
  case (Cons b bs)
  then have "b < length (buckets c)" by simp
  from chain_loop_eq [OF repD(3) [OF assms(1) this], of "\<lambda>a i. Inl (body b a i) :: 'a + unit"] Cons show ?case
    by (simp add: fold_until_Inl)
qed simp

lemma all_buckets_eq:
  assumes "rep c chs fl out"
  shows "all_buckets body c acc = Some (foldl (\<lambda>a b. foldl (body b) a (chs ! b)) acc [0..<length (buckets c)])"
  unfolding all_buckets_def using assms by (rule bucket_loop_eq) auto

text \<open>A loop that does not look at the bucket is a loop over the concatenated chains.\<close>

lemma foldl_concat: "foldl (\<lambda>a b. foldl f a (chs ! b)) acc [0..<length chs] = foldl f acc (concat chs)"
proof (induction chs rule: rev_induct)
  case (snoc ch chs)
  have "foldl (\<lambda>a b. foldl f a ((chs @ [ch]) ! b)) acc [0..<length chs]
      = foldl (\<lambda>a b. foldl f a (chs ! b)) acc [0..<length chs]"
    by (rule foldl_cong) (auto simp: nth_append)
  with snoc show ?case by simp
qed simp

end
