(* ===== verification/CacheSpec.thy ===== *)
theory CacheSpec
  imports CacheHeap
begin

text \<open>
  The cache as a map: \<open>content c\<close> is the partial map from (name, type) to the record, \<open>cache_inv\<close> the
  invariant under which the heap represents it. Every operation is shown to be the expected change of
  the map; a full pool gives up its least used record, the oldest among equals.
\<close>

section \<open>Invariant and content\<close>

declare set_concat [simp del] mset_concat [simp del]

type_synonym key = "string \<times> u16"

definition node_key :: "node \<Rightarrow> key" where
  "node_key n = (nd_name n, nd_qtype n)"

definition node_ok :: "nat \<Rightarrow> nat \<Rightarrow> node \<Rightarrow> bool" where
  "node_ok nb b n \<longleftrightarrow> nd_hash n = hashName (nd_name n) \<and> unat (nd_hash n) mod nb = b
     \<and> cstr (nd_name n) = nd_name n \<and> length (nd_name n) < kMaxNameLen_c \<and> nd_qtype n \<in> {kTypeA, kTypeAaaa}"

definition slots_ok :: "node \<Rightarrow> bool" where
  "slots_ok n \<longleftrightarrow> length (nd_a4 n) = kMaxA \<and> length (nd_a6 n) = kMaxAAAA \<and> nd_nA n \<le> kMaxA \<and> nd_nAAAA n \<le> kMaxAAAA"

definition wf :: "cache \<Rightarrow> nat list list \<Rightarrow> nat list \<Rightarrow> nat list \<Rightarrow> bool" where
  "wf c chs fl out \<longleftrightarrow> rep c chs fl out
     \<and> (\<forall>b < length chs. \<forall>i \<in> set (chs ! b). node_ok (length (buckets c)) b (nodes c ! i))
     \<and> (\<forall>n \<in> set (nodes c). slots_ok n)
     \<and> inj_on (\<lambda>i. node_key (nodes c ! i)) (set (concat chs))"

definition cache_inv :: "cache \<Rightarrow> bool" where
  "cache_inv c \<longleftrightarrow> (arena c \<longrightarrow> nodes c \<noteq> [] \<and> (\<exists>chs fl. wf c chs fl []))"

definition linked :: "cache \<Rightarrow> nat list" where
  "linked c = concat (map (\<lambda>h. case chain_loop (\<lambda>acc i. Inl (acc @ [i]) :: nat list + unit) (nodes c) h [] of
     Some (Inl js) \<Rightarrow> js | _ \<Rightarrow> []) (buckets c))"

definition content :: "cache \<Rightarrow> key \<Rightarrow> node option" where
  "content c k = map_option (\<lambda>i. strip (nodes c ! i)) (List.find (\<lambda>i. node_key (nodes c ! i) = k) (linked c))"

lemma strip_fields [simp]:
  "nd_hash (strip n) = nd_hash n" "nd_qtype (strip n) = nd_qtype n" "nd_name (strip n) = nd_name n"
  "nd_uses (strip n) = nd_uses n" "nd_storedMs (strip n) = nd_storedMs n" "nd_ttl (strip n) = nd_ttl n"
  "nd_nA (strip n) = nd_nA n" "nd_nAAAA (strip n) = nd_nAAAA n" "nd_a4 (strip n) = nd_a4 n"
  "nd_a6 (strip n) = nd_a6 n"
  by (simp_all add: strip_def)

lemma strip_cong:
  assumes "strip n = strip m"
  shows "node_key n = node_key m" and "node_ok nb b n = node_ok nb b m" and "slots_ok n = slots_ok m"
proof -
  have "nd_hash n = nd_hash m" "nd_qtype n = nd_qtype m" "nd_name n = nd_name m"
    "nd_nA n = nd_nA m" "nd_nAAAA n = nd_nAAAA m" "nd_a4 n = nd_a4 m" "nd_a6 n = nd_a6 m"
    using assms strip_fields by metis+
  then show "node_key n = node_key m" "node_ok nb b n = node_ok nb b m" "slots_ok n = slots_ok m"
    by (simp_all add: node_key_def node_ok_def slots_ok_def)
qed

lemma foldl_snoc: "foldl (\<lambda>acc i. acc @ [i]) acc js = acc @ js"
  by (induction js arbitrary: acc) auto

lemma linked_rep: "rep c chs fl out \<Longrightarrow> linked c = concat chs"
proof -
  assume r: "rep c chs fl out"
  have "map (\<lambda>h. case chain_loop (\<lambda>acc i. Inl (acc @ [i]) :: nat list + unit) (nodes c) h [] of
     Some (Inl js) \<Rightarrow> js | _ \<Rightarrow> []) (buckets c) = chs"
  proof (rule nth_equalityI)
    fix b
    assume "b < length (map (\<lambda>h. case chain_loop (\<lambda>acc i. Inl (acc @ [i]) :: nat list + unit) (nodes c) h [] of
       Some (Inl js) \<Rightarrow> js | _ \<Rightarrow> []) (buckets c))"
    then have "b < length (buckets c)" by simp
    then show "map (\<lambda>h. case chain_loop (\<lambda>acc i. Inl (acc @ [i]) :: nat list + unit) (nodes c) h [] of
       Some (Inl js) \<Rightarrow> js | _ \<Rightarrow> []) (buckets c) ! b = chs ! b"
      using chain_loop_eq [OF repD(3) [OF r], of b "\<lambda>acc i. Inl (acc @ [i]) :: nat list + unit" "[]"]
      by (simp add: fold_until_Inl foldl_snoc)
  qed (simp add: repD(1) [OF r])
  then show ?thesis by (simp add: linked_def)
qed

lemma wfD:
  assumes "wf c chs fl out"
  shows "rep c chs fl out"
    and "b < length (buckets c) \<Longrightarrow> i \<in> set (chs ! b) \<Longrightarrow> node_ok (length (buckets c)) b (nodes c ! i)"
    and "i < length (nodes c) \<Longrightarrow> slots_ok (nodes c ! i)"
    and "inj_on (\<lambda>i. node_key (nodes c ! i)) (set (concat chs))"
    and "linked c = concat chs"
  using assms repD(1) linked_rep unfolding wf_def by auto

lemma content_iff:
  assumes "wf c chs fl out"
  shows "content c k = Some r \<longleftrightarrow> (\<exists>i \<in> set (concat chs). node_key (nodes c ! i) = k \<and> strip (nodes c ! i) = r)"
proof (cases "List.find (\<lambda>i. node_key (nodes c ! i) = k) (concat chs)")
  case None
  then have "content c k = None"
    by (simp add: content_def wfD(5) [OF assms])
  with None show ?thesis by (auto simp: find_None_iff)
next
  case (Some j)
  then have j: "j \<in> set (concat chs)" "node_key (nodes c ! j) = k"
    by (auto simp: find_Some_iff dest: nth_mem)
  have "i = j" if "i \<in> set (concat chs)" "node_key (nodes c ! i) = k" for i
    using wfD(4) [OF assms] j that by (simp add: inj_on_def)
  moreover have "content c k = Some (strip (nodes c ! j))"
    using Some by (simp add: content_def wfD(5) [OF assms])
  ultimately show ?thesis using j by (metis option.inject)
qed

lemma content_None_iff:
  "wf c chs fl out \<Longrightarrow> content c k = None \<longleftrightarrow> (\<forall>i \<in> set (concat chs). node_key (nodes c ! i) \<noteq> k)"
  using content_iff [of c chs fl out k] by (metis not_None_eq option.distinct(1))

lemma content_cong: "buckets c' = buckets c \<Longrightarrow> nodes c' = nodes c \<Longrightarrow> content c' = content c"
  by (simp add: content_def linked_def fun_eq_iff)

lemma wf_cong:
  "wf c chs fl out \<Longrightarrow> buckets c' = buckets c \<Longrightarrow> nodes c' = nodes c \<Longrightarrow> freeHead c' = freeHead c \<Longrightarrow>
   entries c' = entries c \<Longrightarrow> wf c' chs fl out"
  by (simp add: wf_def rep_def)

section \<open>Changing records\<close>

text \<open>Rewriting the record of a linked node: links stay, the key stays.\<close>

lemma wf_update:
  assumes "wf c chs fl []" and "i \<in> set (concat chs)" and "nd_next n = nd_next (nodes c ! i)"
    and "node_key n = node_key (nodes c ! i)" and "nd_hash n = nd_hash (nodes c ! i)" and "slots_ok n"
  shows "wf (c\<lparr>nodes := (nodes c)[i := n]\<rparr>) chs fl []"
    and "content (c\<lparr>nodes := (nodes c)[i := n]\<rparr>) = (content c)(node_key n \<mapsto> strip n)"
proof -
  let ?c = "c\<lparr>nodes := (nodes c)[i := n]\<rparr>"
  have i: "i < length (nodes c)" using rep_bound [OF wfD(1) [OF assms(1)]] assms(2) by simp
  have rep: "rep ?c chs fl []" using wfD(1) [OF assms(1)] assms(3) by (rule rep_data)
  have key: "node_key (nodes ?c ! j) = node_key (nodes c ! j)" for j
    using assms(4) i by (cases "j = i") auto
  have ok: "node_ok nb b (nodes ?c ! j) = node_ok nb b (nodes c ! j)" for nb b j
    using assms(4,5) i by (cases "j = i") (auto simp: node_ok_def node_key_def)
  show wf: "wf ?c chs fl []"
    unfolding wf_def
  proof (intro conjI)
    show "\<forall>b < length chs. \<forall>j \<in> set (chs ! b). node_ok (length (buckets ?c)) b (nodes ?c ! j)"
      using assms(1) unfolding ok by (simp add: wf_def)
    show "\<forall>m \<in> set (nodes ?c). slots_ok m"
      using assms(1,6) set_update_subset_insert [of "nodes c" i n] by (auto simp: wf_def)
    show "inj_on (\<lambda>j. node_key (nodes ?c ! j)) (set (concat chs))"
      unfolding key by (rule wfD(4) [OF assms(1)])
  qed (rule rep)
  have inj: "j = i" if "j \<in> set (concat chs)" "node_key (nodes c ! j) = node_key n" for j
    using wfD(4) [OF assms(1)] assms(2,4) that by (simp add: inj_on_def)
  have "content ?c k = Some r \<longleftrightarrow> ((content c)(node_key n \<mapsto> strip n)) k = Some r" for k r
  proof (cases "k = node_key n")
    case True
    have "content ?c k = Some r \<longleftrightarrow> strip (nodes ?c ! i) = r"
      unfolding content_iff [OF wf] key using True inj assms(2,4) by metis
    with True i show ?thesis by simp
  next
    case False
    have "strip (nodes ?c ! j) = strip (nodes c ! j)" if "node_key (nodes c ! j) = k" for j
      using that False assms(4) by (cases "j = i") auto
    with False show ?thesis
      using content_iff [OF wf] content_iff [OF assms(1)] key by auto
  qed
  then show "content ?c = (content c)(node_key n \<mapsto> strip n)"
    by (intro ext) (metis option.exhaust)
qed

text \<open>Two heaps with the same records and chains that differ by one node.\<close>

lemma wf_unlink:
  assumes "wf c chs fl []" and "b < length (buckets c)" and "i \<in> set (chs ! b)"
  obtains c' where "unlinkNode b i c = Some c'" and "wf c' (chs[b := remove1 i (chs ! b)]) (i # fl) []"
    and "same_pool c c'" and "content c' = (content c)(node_key (nodes c ! i) := None)"
proof -
  note rep = wfD(1) [OF assms(1)]
  have b: "b < length chs" using repD(1) [OF rep] assms(2) by simp
  let ?chs = "chs[b := remove1 i (chs ! b)]"
  obtain c' where u: "unlinkNode b i c = Some c'" and rep': "rep c' ?chs (i # fl) []"
      and sp: "same_pool c c'"
    using unlink_rep [OF rep assms(2,3)] by blast
  have str: "strip (nodes c' ! j) = strip (nodes c ! j)" if "j < length (nodes c)" for j
    using same_pool_strip [OF sp that] .
  have lb: "length (buckets c') = length (buckets c)" using sp by (simp add: same_pool_def)
  have cat: "mset (concat ?chs) + {#i#} = mset (concat chs)"
  proof -
    have "mset (chs ! b) = {#i#} + mset (remove1 i (chs ! b))" using assms(3) by simp
    from mset_concat_update [OF b, of "remove1 i (chs ! b)", unfolded this] show ?thesis
      unfolding add.assoc [symmetric] by (rule add_right_imp_eq)
  qed
  have dist: "distinct (concat chs)" using rep_distinct [OF rep] by simp
  have ic: "i \<in> set (concat chs)" using b assms(3) by (rule in_concat)
  have "mset (concat ?chs) = mset (remove1 i (concat chs))"
    unfolding mset_remove1 cat [symmetric] by simp
  then have set: "set (concat ?chs) = set (concat chs) - {i}"
    using dist mset_eq_setD by (metis set_remove1_eq)
  have bound: "j < length (nodes c)" if "j \<in> set (concat chs)" for j
    using rep_bound [OF rep] that by simp
  have wf': "wf c' ?chs (i # fl) []"
    unfolding wf_def
  proof (intro conjI)
    show "\<forall>d < length ?chs. \<forall>j \<in> set (?chs ! d). node_ok (length (buckets c')) d (nodes c' ! j)"
    proof (intro allI impI ballI)
      fix d j
      assume d: "d < length ?chs" and "j \<in> set (?chs ! d)"
      then have j: "j \<in> set (chs ! d)" 
        using b set_remove1_subset [of i "chs ! b"] by (auto simp: nth_list_update split: if_splits)
      then have "node_ok (length (buckets c)) d (nodes c ! j)"
        using d wfD(2) [OF assms(1)] repD(1) [OF rep] by simp
      then show "node_ok (length (buckets c')) d (nodes c' ! j)"
        using strip_cong(2) [OF str [OF bound [OF in_concat [of d chs j]]]] d j lb by simp
    qed
    show "\<forall>m \<in> set (nodes c'). slots_ok m"
      using assms(1) str same_pool_length [OF sp] strip_cong(3)
      by (metis (no_types, lifting) in_set_conv_nth wfD(3))
    have "inj_on (\<lambda>j. node_key (nodes c ! j)) (set (concat ?chs))"
      using wfD(4) [OF assms(1)] unfolding set by (rule inj_on_subset) blast
    moreover have "node_key (nodes c' ! j) = node_key (nodes c ! j)" if "j \<in> set (concat ?chs)" for j
      using strip_cong(1) [OF str [OF bound]] that unfolding set by blast
    ultimately show "inj_on (\<lambda>j. node_key (nodes c' ! j)) (set (concat ?chs))"
      by (simp cong: inj_on_cong)
  qed (rule rep')
  have inj: "j = i" if "j \<in> set (concat chs)" "node_key (nodes c ! j) = node_key (nodes c ! i)" for j
    using wfD(4) [OF assms(1)] ic that by (simp add: inj_on_def)
  have "content c' k = Some r \<longleftrightarrow> ((content c)(node_key (nodes c ! i) := None)) k = Some r" for k r
  proof -
    have "content c' k = Some r \<longleftrightarrow>
        (\<exists>j \<in> set (concat chs) - {i}. node_key (nodes c ! j) = k \<and> strip (nodes c ! j) = r)"
      unfolding content_iff [OF wf'] set using str bound strip_cong(1) by (metis Diff_iff)
    also have "\<dots> \<longleftrightarrow> ((content c)(node_key (nodes c ! i) := None)) k = Some r"
      using inj content_iff [OF assms(1), of k r] by auto
    finally show ?thesis .
  qed
  then have "content c' = (content c)(node_key (nodes c ! i) := None)"
    by (intro ext) (metis option.exhaust)
  with that u wf' sp show thesis by blast
qed

section \<open>Finding a record\<close>

lemma cstr_cstr [simp]: "cstr (cstr s) = cstr s"
  by (simp add: cstr_def takeWhile_idem)

lemma hashName_cstr [simp]: "hashName (cstr s) = hashName s"
  by (simp add: hashName_def)

lemma length_cstr: "length (cstr s) \<le> length s"
  by (simp add: cstr_def length_takeWhile_le)

lemma bucketOf_bound: "wf c chs fl out \<Longrightarrow> bucketOf c h < length (buckets c)"
  using repD(2) [OF wfD(1)] by (auto simp: bucketOf_def)

lemma concat_bucket:
  assumes "i \<in> set (concat chs)"
  obtains b where "b < length chs" and "i \<in> set (chs ! b)"
  using assms by (auto simp: set_concat in_set_conv_nth [of _ chs])

lemma findNode_spec:
  assumes "wf c chs fl []" and "h = hashName nm" and "b = bucketOf c h"
  obtains (found) i w where "findNode c b h nm q = Some (int i, w)" and "i \<in> set (chs ! b)"
      and "i \<in> set (concat chs)" and "node_key (nodes c ! i) = (cstr nm, q)"
  | (absent) w where "findNode c b h nm q = Some (- 1, w)" and "content c (cstr nm, q) = None"
proof -
  let ?P = "\<lambda>i. nd_hash (nodes c ! i) = h \<and> nd_qtype (nodes c ! i) = q \<and> nd_name (nodes c ! i) = cstr nm"
  have b: "b < length (buckets c)" using bucketOf_bound [OF assms(1)] assms(3) by simp
  note len = repD(1) [OF wfD(1) [OF assms(1)]]
  obtain w where w: "findNode c b h nm q =
      Some (case List.find ?P (chs ! b) of Some i \<Rightarrow> int i | None \<Rightarrow> - 1, w)"
    using findNode_find [OF wfD(1) [OF assms(1)] b] by blast
  show thesis
  proof (cases "List.find ?P (chs ! b)")
    case (Some i)
    then have i: "i \<in> set (chs ! b)" "?P i" by (auto simp: find_Some_iff)
    moreover have "i \<in> set (concat chs)" using b len i(1) by (simp add: in_concat)
    ultimately show thesis using found [of i w] w Some by (simp add: node_key_def)
  next
    case None
    have "node_key (nodes c ! i) \<noteq> (cstr nm, q)" if "i \<in> set (concat chs)" for i
    proof
      assume key: "node_key (nodes c ! i) = (cstr nm, q)"
      obtain d where d: "d < length chs" "i \<in> set (chs ! d)" using \<open>i \<in> set (concat chs)\<close> by (rule concat_bucket)
      then have "node_ok (length (buckets c)) d (nodes c ! i)" using wfD(2) [OF assms(1)] len by simp
      then have "d = b" "?P i"
        using key assms(2,3) by (auto simp: node_ok_def node_key_def bucketOf_def)
      with d None show False by (auto simp: find_None_iff)
    qed
    then have "content c (cstr nm, q) = None" using content_None_iff [OF assms(1)] by blast
    with w None show thesis using absent by simp
  qed
qed

section \<open>The eviction victim\<close>

text \<open>\<open>keeps now m n\<close>: \<open>n\<close> is to stay rather than \<open>m\<close>, or they rank equal.\<close>

definition keeps :: "u32 \<Rightarrow> node \<Rightarrow> node \<Rightarrow> bool" where
  "keeps now m n \<longleftrightarrow> nd_uses m < nd_uses n
     \<or> (nd_uses m = nd_uses n \<and> elapsedMs now (nd_storedMs n) \<le> elapsedMs now (nd_storedMs m))"

lemma keeps_refl: "keeps now n n"
  by (simp add: keeps_def)

lemma keeps_trans: "keeps now l m \<Longrightarrow> keeps now m n \<Longrightarrow> keeps now l n"
  by (auto simp: keeps_def)

definition victim_of :: "cache \<Rightarrow> u32 \<Rightarrow> nat list list \<Rightarrow> nat set \<Rightarrow> victim \<Rightarrow> bool" where
  "victim_of c now chs S v \<longleftrightarrow>
     (if S = {} then v_best v = - 1
      else \<exists>i b. v_best v = int i \<and> v_bucket v = int b \<and> b < length chs \<and> i \<in> set (chs ! b) \<and> i \<in> S
        \<and> v_uses v = nd_uses (nodes c ! i) \<and> v_age v = elapsedMs now (nd_storedMs (nodes c ! i))
        \<and> (\<forall>j \<in> S. keeps now (nodes c ! i) (nodes c ! j)))"

lemma victim_of_step:
  assumes "victim_of c now chs S v" and "b < length chs" and "j \<in> set (chs ! b)"
  shows "victim_of c now chs (insert j S) (victim_body c now b v j)"
proof (cases "S = {}")
  case True
  then have "v_best v = - 1" using assms(1) by (simp add: victim_of_def)
  with True assms(2,3) show ?thesis by (auto simp: victim_of_def victim_body_def Let_def keeps_refl)
next
  case False
  then obtain i d where v: "v_best v = int i" "v_bucket v = int d" "d < length chs" "i \<in> set (chs ! d)" "i \<in> S"
      "v_uses v = nd_uses (nodes c ! i)" "v_age v = elapsedMs now (nd_storedMs (nodes c ! i))"
      and best: "\<forall>k \<in> S. keeps now (nodes c ! i) (nodes c ! k)"
    using assms(1) by (auto simp: victim_of_def)
  show ?thesis
  proof (cases "keeps now (nodes c ! i) (nodes c ! j)")
    case True
    then have "victim_body c now b v j = v\<lparr>v_seen := v_seen v + 1\<rparr>"
      using v by (auto simp: victim_body_def Let_def keeps_def)
    with True v best show ?thesis unfolding victim_of_def by fastforce
  next
    case False
    then have "keeps now (nodes c ! j) (nodes c ! i)" by (auto simp: keeps_def not_less)
    then have "\<forall>k \<in> S. keeps now (nodes c ! j) (nodes c ! k)" using best keeps_trans by blast
    moreover have "victim_body c now b v j = v\<lparr>v_seen := v_seen v + 1, v_uses := nd_uses (nodes c ! j),
        v_age := elapsedMs now (nd_storedMs (nodes c ! j)), v_best := int j, v_bucket := int b\<rparr>"
      using False v by (auto simp: victim_body_def Let_def keeps_def)
    ultimately show ?thesis using assms(2,3) keeps_refl by (auto simp: victim_of_def)
  qed
qed

lemma victim_of_chain:
  "victim_of c now chs S v \<Longrightarrow> b < length chs \<Longrightarrow> set js \<subseteq> set (chs ! b) \<Longrightarrow>
   victim_of c now chs (S \<union> set js) (foldl (victim_body c now b) v js)"
proof (induction js arbitrary: S v)
  case (Cons j js)
  then have "victim_of c now chs (insert j S) (victim_body c now b v j)"
    by (intro victim_of_step) auto
  from Cons.IH [OF this] Cons.prems show ?case by simp
qed simp

lemma victim_of_buckets:
  "victim_of c now chs S v \<Longrightarrow> set bs \<subseteq> {..<length chs} \<Longrightarrow>
   victim_of c now chs (S \<union> (\<Union>b \<in> set bs. set (chs ! b)))
     (foldl (\<lambda>a b. foldl (victim_body c now b) a (chs ! b)) v bs)"
proof (induction bs arbitrary: S v)
  case (Cons b bs)
  then have "victim_of c now chs (S \<union> set (chs ! b)) (foldl (victim_body c now b) v (chs ! b))"
    by (intro victim_of_chain) auto
  from Cons.IH [OF this] Cons.prems show ?case by (simp add: Un_assoc)
qed simp

lemma findEvictVictim_spec:
  assumes "rep c chs fl out"
  obtains v where "findEvictVictim now c = Some v" and "victim_of c now chs (set (concat chs)) v"
proof -
  let ?start = "\<lparr>v_best = - 1, v_uses = UINT32_MAX, v_age = 0, v_bucket = 0, v_seen = 0\<rparr>"
  let ?v = "foldl (\<lambda>a b. foldl (victim_body c now b) a (chs ! b)) ?start [0..<length (buckets c)]"
  have "findEvictVictim now c = Some ?v"
    unfolding findEvictVictim_def by (rule all_buckets_eq [OF assms])
  moreover have "set (concat chs) = {} \<union> (\<Union>b \<in> set [0..<length (buckets c)]. set (chs ! b))"
    using repD(1) [OF assms] by (force simp: set_concat in_set_conv_nth [of _ chs])
  moreover have "set [0..<length (buckets c)] \<subseteq> {..<length chs}"
    using repD(1) [OF assms] by auto
  moreover have "victim_of c now chs {} ?start" by (simp add: victim_of_def)
  ultimately show thesis
    using that [of ?v] victim_of_buckets [of c now chs "{}" ?start "[0..<length (buckets c)]"] by metis
qed

section \<open>Taking and linking a node\<close>

text \<open>The record that makes room when the pool is full.\<close>

definition evicts :: "cache \<Rightarrow> u32 \<Rightarrow> key \<Rightarrow> bool" where
  "evicts c now k \<longleftrightarrow> (\<exists>r. content c k = Some r \<and> (\<forall>k' r'. content c k' = Some r' \<longrightarrow> keeps now r r'))"

lemma keeps_strip [simp]: "keeps now (strip m) (strip n) = keeps now m n"
  by (simp add: keeps_def)

lemma wf_alloc:
  assumes "wf c chs (i # fl) []"
  obtains c' where "allocNode c = (int i, c')" and "wf c' chs fl [i]" and "same_pool c c'" and "content c' = content c"
proof -
  note rep = wfD(1) [OF assms]
  obtain c' where al: "allocNode c = (int i, c')" and rep': "rep c' chs fl [i]"
      and ns: "nodes c' = (nodes c)[i := (nodes c ! i)\<lparr>nd_next := - 1\<rparr>]" and bs: "buckets c' = buckets c"
      and en: "entries c' = entries c" and rest: "c' = c\<lparr>freeHead := freeHead c', nodes := nodes c'\<rparr>"
    using allocNode_cons [OF rep] by blast
  have strips: "map strip (nodes c') = map strip (nodes c)" unfolding ns by (simp add: map_strip_update)
  have sp: "same_pool c c'"
    unfolding same_pool_def using strips bs by (subst rest) (simp add: frame_def)
  have str: "strip (nodes c' ! j) = strip (nodes c ! j)" if "j < length (nodes c)" for j
    using same_pool_strip [OF sp that] .
  have bound: "j < length (nodes c)" if "j \<in> set (concat chs)" for j
    using rep_bound [OF rep] that by simp
  have key: "node_key (nodes c' ! j) = node_key (nodes c ! j)" if "j \<in> set (concat chs)" for j
    using strip_cong(1) [OF str [OF bound [OF that]]] .
  have wf': "wf c' chs fl [i]"
    unfolding wf_def
  proof (intro conjI)
    show "\<forall>b < length chs. \<forall>j \<in> set (chs ! b). node_ok (length (buckets c')) b (nodes c' ! j)"
      using assms strip_cong(2) [OF str [OF bound [OF in_concat]]] by (simp add: wf_def bs)
    show "\<forall>m \<in> set (nodes c'). slots_ok m"
      using str same_pool_length [OF sp] strip_cong(3) wfD(3) [OF assms] by (metis in_set_conv_nth)
    show "inj_on (\<lambda>j. node_key (nodes c' ! j)) (set (concat chs))"
      using wfD(4) [OF assms] key by (simp cong: inj_on_cong)
  qed (rule rep')
  have "content c' k = Some r \<longleftrightarrow> content c k = Some r" for k r
    unfolding content_iff [OF wf'] content_iff [OF assms] using str bound key by auto
  then have "content c' = content c" by (intro ext) (metis option.exhaust)
  with that al wf' sp show thesis by blast
qed

lemma take_node_spec:
  assumes "wf c chs fl []" and "nodes c \<noteq> []"
  obtains i c' chs' fl' where "take_node k c = Some (int i, c')" and "wf c' chs' fl' [i]"
    and "length (buckets c') = length (buckets c)" and "arena c' = arena c" and "ignoreTtl c' = ignoreTtl c"
    and "length (nodes c') = length (nodes c)"
    and "(fl \<noteq> [] \<and> content c' = content c) \<or>
         (fl = [] \<and> (\<exists>vk. evicts c (k_nowMs k) vk \<and> content c' = (content c)(vk := None)))"
proof (cases fl)
  case (Cons i fl')
  obtain c' where "allocNode c = (int i, c')" "wf c' chs fl' [i]" "same_pool c c'" "content c' = content c"
    using wf_alloc assms(1) Cons by blast
  then show thesis
    using that [of i c' chs fl'] Cons same_pool_length [of c c']
    by (simp add: take_node_def same_pool_def frame_def)
next
  case Nil
  have rep: "rep c chs [] []" using wfD(1) [OF assms(1)] Nil by simp
  have ne: "set (concat chs) \<noteq> {}"
    using rep_set [OF rep] assms(2) by auto
  obtain v where v: "findEvictVictim (k_nowMs k) c = Some v" and vo: "victim_of c (k_nowMs k) chs (set (concat chs)) v"
    using findEvictVictim_spec [OF rep] by blast
  from vo ne obtain i b where i: "v_best v = int i" "v_bucket v = int b" "b < length chs" "i \<in> set (chs ! b)"
      "i \<in> set (concat chs)" and best: "\<forall>j \<in> set (concat chs). keeps (k_nowMs k) (nodes c ! i) (nodes c ! j)"
    unfolding victim_of_def by (auto split: if_splits)
  define c2 where "c2 = c\<lparr>evictScanUs := evictScanUs c + k_scanUs k, evictScans := evictScans c + 1,
      evictScanNodes := evictScanNodes c + ucast (v_seen v)\<rparr>"
  have wf2: "wf c2 chs [] []" using assms(1) Nil unfolding c2_def by (auto intro: wf_cong)
  have cont2: "content c2 = content c" by (rule content_cong) (simp_all add: c2_def)
  have b2: "b < length (buckets c2)" using i(3) repD(1) [OF rep] by (simp add: c2_def)
  obtain c3 where c3: "unlinkNode b i c2 = Some c3" "wf c3 (chs[b := remove1 i (chs ! b)]) [i] []" "same_pool c2 c3"
      "content c3 = (content c2)(node_key (nodes c2 ! i) := None)"
    using wf_unlink [OF wf2 b2 i(4)] by blast
  let ?c3 = "c3\<lparr>evicted := evicted c3 + 1\<rparr>"
  have "wf ?c3 (chs[b := remove1 i (chs ! b)]) [i] []" using c3(2) by (rule wf_cong) simp_all
  then obtain c4 where c4: "allocNode ?c3 = (int i, c4)" "wf c4 (chs[b := remove1 i (chs ! b)]) [] [i]"
      "same_pool ?c3 c4" "content c4 = content ?c3"
    using wf_alloc by blast
  have "take_node k c = Some (int i, c4)"
    using allocNode_empty [OF rep] v i(1,2) c3(1) c4(1) by (simp add: take_node_def c2_def Let_def)
  moreover have "content c4 = (content c)(node_key (nodes c ! i) := None)"
    using c4(4) c3(4) cont2 content_cong [of ?c3 c3] by (simp add: c2_def)
  moreover have "evicts c (k_nowMs k) (node_key (nodes c ! i))"
    unfolding evicts_def using i(5) best content_iff [OF assms(1)] by (metis keeps_strip)
  moreover have "length (buckets c4) = length (buckets c)" "length (nodes c4) = length (nodes c)"
    using same_pool_length [OF c4(3)] same_pool_length [OF c3(3)] c3(3) c4(3) by (simp_all add: same_pool_def c2_def)
  moreover have "arena c4 = arena c \<and> ignoreTtl c4 = ignoreTtl c"
    using c3(3) c4(3) by (simp add: same_pool_def frame_def c2_def)
  ultimately show thesis using that [of i c4] c4(2) Nil by metis
qed

lemma wf_link:
  assumes "wf c chs fl [i]" and "h = hashName nm" and "b = bucketOf c h"
    and "content c (cstr nm, q) = None" and "length nm < kMaxNameLen_c" and "q \<in> {kTypeA, kTypeAaaa}"
    and "c' = link_node k b h q nm i c"
  shows "wf c' (chs[b := i # chs ! b]) fl []" and "i \<in> set (concat (chs[b := i # chs ! b]))"
    and "node_key (nodes c' ! i) = (cstr nm, q)" and "nd_uses (nodes c' ! i) = 0"
    and "content c' = (content c)((cstr nm, q) \<mapsto> strip (nodes c' ! i))"
proof -
  note rep = wfD(1) [OF assms(1)]
  let ?n = "(nodes c ! i)\<lparr>nd_hash := h, nd_qtype := q, nd_uses := 0,
          nd_storedMs := k_nowMs k, nd_name := cstr nm, nd_next := buckets c ! b\<rparr>"
  let ?chs = "chs[b := i # chs ! b]"
  have b: "b < length (buckets c)" using bucketOf_bound [OF assms(1)] assms(3) by simp
  have bl: "b < length chs" using b repD(1) [OF rep] by simp
  have i: "i < length (nodes c)" "i \<notin> set (concat chs)"
    using rep_bound [OF rep] rep_distinct [OF rep] by auto
  have rep': "rep c' ?chs fl []"
    unfolding assms(7) link_node_def using link_rep [OF rep b refl, of ?n] by simp
  have ns: "nodes c' = (nodes c)[i := ?n]" "length (buckets c') = length (buckets c)"
    by (simp_all add: assms(7) link_node_def)
  have other: "nodes c' ! j = nodes c ! j" if "j \<in> set (concat chs)" for j
    using that i(2) ns(1) by (metis nth_list_update_neq)
  have "mset (concat ?chs) = add_mset i (mset (concat chs))"
    using mset_concat_update [OF bl, of "i # chs ! b"] by simp
  then have set: "set (concat ?chs) = insert i (set (concat chs))"
    by (metis set_mset_add_mset_insert set_mset_mset)
  show key: "node_key (nodes c' ! i) = (cstr nm, q)" and uses: "nd_uses (nodes c' ! i) = 0"
    using i by (simp_all add: ns node_key_def)
  have fresh: "node_key (nodes c ! j) \<noteq> (cstr nm, q)" if "j \<in> set (concat chs)" for j
    using content_None_iff [OF assms(1)] assms(4) that by blast
  have new_ok: "node_ok (length (buckets c)) b (nodes c' ! i)"
    using i assms(2,3,5,6) length_cstr [of nm] by (simp add: ns node_ok_def bucketOf_def)
  show wf': "wf c' ?chs fl []"
    unfolding wf_def
  proof (intro conjI)
    show "\<forall>d < length ?chs. \<forall>j \<in> set (?chs ! d). node_ok (length (buckets c')) d (nodes c' ! j)"
    proof (intro allI impI ballI)
      fix d j
      assume d: "d < length ?chs" and j: "j \<in> set (?chs ! d)"
      show "node_ok (length (buckets c')) d (nodes c' ! j)"
      proof (cases "j = i \<and> d = b")
        case True
        then show ?thesis using new_ok ns(2) by simp
      next
        case False
        have jd: "j \<in> set (chs ! d)"
          using j False d bl i(2) in_concat [of d chs i] by (auto simp: nth_list_update split: if_splits)
        then show ?thesis
          using other [OF in_concat [OF _ jd]] wfD(2) [OF assms(1) _ jd] d repD(1) [OF rep] ns(2) by simp
      qed
    qed
    have "slots_ok ?n" using wfD(3) [OF assms(1) i(1)] by (simp add: slots_ok_def)
    then show "\<forall>m \<in> set (nodes c'). slots_ok m"
      using assms(1) set_update_subset_insert [of "nodes c" i ?n] by (auto simp: wf_def ns)
    show "inj_on (\<lambda>j. node_key (nodes c' ! j)) (set (concat ?chs))"
      unfolding set inj_on_insert
    proof
      show "inj_on (\<lambda>j. node_key (nodes c' ! j)) (set (concat chs))"
        using wfD(4) [OF assms(1)] other by (simp cong: inj_on_cong)
      show "node_key (nodes c' ! i) \<notin> (\<lambda>j. node_key (nodes c' ! j)) ` (set (concat chs) - {i})"
      proof
        assume "node_key (nodes c' ! i) \<in> (\<lambda>j. node_key (nodes c' ! j)) ` (set (concat chs) - {i})"
        then obtain j where "node_key (nodes c' ! i) = node_key (nodes c' ! j)" "j \<in> set (concat chs) - {i}"
          by (rule imageE)
        then show False using other [of j] fresh [of j] key by simp
      qed
    qed
  qed (rule rep')
  show "i \<in> set (concat ?chs)" by (simp add: set)
  have "content c' x = Some r \<longleftrightarrow> ((content c)((cstr nm, q) \<mapsto> strip (nodes c' ! i))) x = Some r" for x r
  proof (cases "x = (cstr nm, q)")
    case True
    then show ?thesis unfolding content_iff [OF wf'] set using other fresh key by fastforce
  next
    case False
    then show ?thesis
      unfolding content_iff [OF wf'] set using content_iff [OF assms(1), of x r] other key by fastforce
  qed
  then show "content c' = (content c)((cstr nm, q) \<mapsto> strip (nodes c' ! i))"
    by (intro ext) (metis option.exhaust)
qed

section \<open>Writing addresses\<close>

lemma put_a4_frame:
  "nd_next (put_a4 p ips n) = nd_next n" "node_key (put_a4 p ips n) = node_key n"
  "nd_hash (put_a4 p ips n) = nd_hash n" "nd_uses (put_a4 p ips n) = nd_uses n"
  "nd_storedMs (put_a4 p ips n) = nd_storedMs n" "nd_ttl (put_a4 p ips n) = nd_ttl n"
  "nd_nAAAA (put_a4 p ips n) = nd_nAAAA n" "nd_a6 (put_a4 p ips n) = nd_a6 n"
  by (induction p ips n rule: put_a4.induct) (auto simp: node_key_def)

lemma put_a6_frame:
  "nd_next (put_a6 p ips n) = nd_next n" "node_key (put_a6 p ips n) = node_key n"
  "nd_hash (put_a6 p ips n) = nd_hash n" "nd_uses (put_a6 p ips n) = nd_uses n"
  "nd_storedMs (put_a6 p ips n) = nd_storedMs n" "nd_ttl (put_a6 p ips n) = nd_ttl n"
  "nd_nA (put_a6 p ips n) = nd_nA n" "nd_a4 (put_a6 p ips n) = nd_a4 n"
  by (induction p ips n rule: put_a6.induct) (auto simp: node_key_def)

lemma put_a4_slots: "slots_ok n \<Longrightarrow> slots_ok (put_a4 p ips n)"
  by (induction p ips n rule: put_a4.induct) (auto simp: slots_ok_def split: option.splits)

lemma put_a6_slots: "slots_ok n \<Longrightarrow> slots_ok (put_a6 p ips n)"
  by (induction p ips n rule: put_a6.induct) (auto simp: slots_ok_def split: option.splits)

lemma put_a4_addrs:
  assumes "\<forall>ip \<in> set ips. p ip = Some (f ip)" and "slots_ok n"
  shows "take (nd_nA (put_a4 p ips n)) (nd_a4 (put_a4 p ips n))
    = take (nd_nA n) (nd_a4 n) @ map f (take (kMaxA - nd_nA n) ips)"
  using assms
proof (induction p ips n rule: put_a4.induct)
  case (2 p ip ips n)
  show ?case
  proof (cases "nd_nA n \<ge> kMaxA")
    case False
    then have "nd_nA n < length (nd_a4 n)" using 2(3) by (simp add: slots_ok_def)
    moreover have "kMaxA - nd_nA n = Suc (kMaxA - Suc (nd_nA n))" using False by linarith
    ultimately show ?thesis
      using False 2 by (simp add: slots_ok_def take_Suc_conv_app_nth)
  qed (use 2 in \<open>simp add: slots_ok_def\<close>)
qed simp

lemma put_a6_addrs:
  assumes "\<forall>ip \<in> set ips. p ip = Some (f ip)" and "slots_ok n"
  shows "take (nd_nAAAA (put_a6 p ips n)) (nd_a6 (put_a6 p ips n))
    = take (nd_nAAAA n) (nd_a6 n) @ map f (take (kMaxAAAA - nd_nAAAA n) ips)"
  using assms
proof (induction p ips n rule: put_a6.induct)
  case (2 p ip ips n)
  show ?case
  proof (cases "nd_nAAAA n \<ge> kMaxAAAA")
    case False
    then have "nd_nAAAA n < length (nd_a6 n)" using 2(3) by (simp add: slots_ok_def)
    moreover have "kMaxAAAA - nd_nAAAA n = Suc (kMaxAAAA - Suc (nd_nAAAA n))" using False by linarith
    ultimately show ?thesis
      using False 2 by (simp add: slots_ok_def take_Suc_conv_app_nth)
  qed (use 2 in \<open>simp add: slots_ok_def\<close>)
qed simp

lemma write_node_frame:
  "nd_next (write_node t k q ips ttl n) = nd_next n" "node_key (write_node t k q ips ttl n) = node_key n"
  "nd_hash (write_node t k q ips ttl n) = nd_hash n" "nd_uses (write_node t k q ips ttl n) = nd_uses n"
  "nd_storedMs (write_node t k q ips ttl n) = k_nowMs k" "nd_ttl (write_node t k q ips ttl n) = ttl"
  by (auto simp: write_node_def Let_def put_a4_frame put_a6_frame) (simp_all add: node_key_def)

lemma write_node_slots: "slots_ok n \<Longrightarrow> slots_ok (write_node t k q ips ttl n)"
  unfolding write_node_def Let_def
  by (auto intro!: put_a4_slots put_a6_slots) (simp_all add: slots_ok_def)

end
