(* ===== verification/CacheOps.thy ===== *)
theory CacheOps
  imports CacheSpec
begin

text \<open>
  The public operations of the cache against its map: store, lookup, erase, contains, clear and
  enable. Each is total on a well-formed heap, keeps the invariant and changes the map as stated.
\<close>

section \<open>Counters\<close>

definition sat_inc :: "u32 \<Rightarrow> u32" where
  "sat_inc u = (if u = UINT32_MAX then u else u + 1)"

lemma noteMark_pool [simp]:
  "buckets (noteMark i c) = buckets c" "nodes (noteMark i c) = nodes c" "freeHead (noteMark i c) = freeHead c"
  "entries (noteMark i c) = entries c" "arena (noteMark i c) = arena c" "ignoreTtl (noteMark i c) = ignoreTtl c"
  "hits (noteMark i c) = hits c" "misses (noteMark i c) = misses c" "usesTotal (noteMark i c) = usesTotal c"
  by (simp_all add: noteMark_def Let_def)

lemma bumpUse_fields [simp]:
  "arena (bumpUse i c) = arena c" "ignoreTtl (bumpUse i c) = ignoreTtl c" "buckets (bumpUse i c) = buckets c"
  "freeHead (bumpUse i c) = freeHead c" "entries (bumpUse i c) = entries c"
  "hits (bumpUse i c) = hits c" "misses (bumpUse i c) = misses c"
  by (simp_all add: bumpUse_def Let_def)

lemma bumpUse_nodes:
  "nodes (bumpUse i c) = (nodes c)[i := (nodes c ! i)\<lparr>nd_uses := sat_inc (nd_uses (nodes c ! i))\<rparr>]"
proof -
  have "(nodes c ! i)\<lparr>nd_uses := UINT32_MAX\<rparr> = nodes c ! i" if "nd_uses (nodes c ! i) = UINT32_MAX"
    using that by (cases "nodes c ! i") simp
  then have "(nodes c)[i := (nodes c ! i)\<lparr>nd_uses := UINT32_MAX\<rparr>] = nodes c"
    if "nd_uses (nodes c ! i) = UINT32_MAX"
    using that by (metis list_update_id)
  then show ?thesis by (simp add: bumpUse_def Let_def sat_inc_def)
qed

lemma strip_uses: "strip (n\<lparr>nd_uses := u\<rparr>) = (strip n)\<lparr>nd_uses := u\<rparr>"
  by (cases n) (simp add: strip_def)

lemma wf_set_uses:
  assumes "wf c chs fl []" and "i \<in> set (concat chs)"
    and "c' = c\<lparr>nodes := (nodes c)[i := (nodes c ! i)\<lparr>nd_uses := u\<rparr>]\<rparr>"
  shows "wf c' chs fl []"
    and "content c' = (content c)(node_key (nodes c ! i) \<mapsto> (strip (nodes c ! i))\<lparr>nd_uses := u\<rparr>)"
proof -
  let ?n = "(nodes c ! i)\<lparr>nd_uses := u\<rparr>"
  have i: "i < length (nodes c)" using rep_bound [OF wfD(1) [OF assms(1)]] assms(2) by simp
  have "slots_ok ?n" using wfD(3) [OF assms(1) i] by (simp add: slots_ok_def)
  then show "wf c' chs fl []"
    and "content c' = (content c)(node_key (nodes c ! i) \<mapsto> (strip (nodes c ! i))\<lparr>nd_uses := u\<rparr>)"
    using wf_update [OF assms(1,2), of ?n] by (simp_all add: assms(3) node_key_def strip_uses)
qed

lemma wf_bump:
  assumes "wf c chs fl []" and "i \<in> set (concat chs)"
  shows "wf (bumpUse i c) chs fl []"
    and "content (bumpUse i c) = (content c)(node_key (nodes c ! i) \<mapsto>
      (strip (nodes c ! i))\<lparr>nd_uses := sat_inc (nd_uses (nodes c ! i))\<rparr>)"
proof -
  define c' where "c' = c\<lparr>nodes := (nodes c)[i := (nodes c ! i)\<lparr>nd_uses := sat_inc (nd_uses (nodes c ! i))\<rparr>]\<rparr>"
  have same: "buckets (bumpUse i c) = buckets c'" "nodes (bumpUse i c) = nodes c'"
      "freeHead (bumpUse i c) = freeHead c'" "entries (bumpUse i c) = entries c'"
    by (simp_all add: c'_def bumpUse_nodes)
  note w = wf_set_uses [OF assms c'_def]
  show "wf (bumpUse i c) chs fl []" using wf_cong [OF w(1) same] .
  show "content (bumpUse i c) = (content c)(node_key (nodes c ! i) \<mapsto>
      (strip (nodes c ! i))\<lparr>nd_uses := sat_inc (nd_uses (nodes c ! i))\<rparr>)"
    using content_cong [OF same(1,2)] w(2) by simp
qed

lemma content_linked:
  "wf c chs fl [] \<Longrightarrow> i \<in> set (concat chs) \<Longrightarrow> content c (node_key (nodes c ! i)) = Some (strip (nodes c ! i))"
  using content_iff by blast

lemma pool_count:
  assumes "wf c chs fl []"
  shows "entries c < int (length (nodes c)) \<longleftrightarrow> fl \<noteq> []"
proof -
  have "length (concat chs) + length fl = length (nodes c)"
    using arg_cong [OF repD(5) [OF wfD(1) [OF assms]], of size] by simp
  then show ?thesis using repD(6) [OF wfD(1) [OF assms]] by (cases fl) auto
qed

section \<open>The records of the whole pool\<close>

text \<open>What no operation on links changes: every record is one that was there before.\<close>

lemma strip_update_subset:
  "strip n \<in> strip ` set ns \<Longrightarrow> strip ` set (ns[i := n]) \<subseteq> strip ` set ns"
  using set_update_subset_insert [of ns i n] by auto

lemma strip_relink: "strip ` set (ns[i := (ns ! i)\<lparr>nd_next := x\<rparr>]) \<subseteq> strip ` set ns"
proof (cases "i < length ns")
  case True
  then show ?thesis by (intro strip_update_subset) simp
qed (simp add: list_update_beyond)

lemma allocNode_pool: "strip ` set (nodes (snd (allocNode c))) \<subseteq> strip ` set (nodes c)"
  by (simp add: allocNode_def Let_def strip_relink)

lemma unlinkNode_pool:
  assumes "unlinkNode b i c = Some c'"
  shows "strip ` set (nodes c') \<subseteq> strip ` set (nodes c)"
proof -
  obtain r :: "int + int" where r: "c' = (case r of Inl _ \<Rightarrow> c
       | Inr prev \<Rightarrow>
           (let nxt = nd_next (nodes c ! i);
                c1 = (if prev < 0 then c\<lparr>buckets := (buckets c)[b := nxt]\<rparr>
                      else c\<lparr>nodes := (nodes c)[nat prev := (nodes c ! nat prev)\<lparr>nd_next := nxt\<rparr>]\<rparr>);
                c2 = freeNode i c1
            in c2\<lparr>entries := entries c2 - 1\<rparr>))"
    using assms unfolding unlinkNode_def map_option_eq_Some by blast
  show ?thesis
  proof (cases r)
    case (Inr prev)
    let ?ns = "(nodes c)[nat prev := (nodes c ! nat prev)\<lparr>nd_next := nd_next (nodes c ! i)\<rparr>]"
    have "nodes c' = (if prev < 0 then (nodes c)[i := (nodes c ! i)\<lparr>nd_next := freeHead c\<rparr>]
        else ?ns[i := (?ns ! i)\<lparr>nd_next := freeHead c\<rparr>])"
      by (simp add: r Inr freeNode_def Let_def)
    then show ?thesis
      using strip_relink [of "nodes c"] subset_trans [OF strip_relink strip_relink] by metis
  qed (simp add: r)
qed

lemma take_node_pool:
  assumes "take_node k c = Some (i, c')"
  shows "strip ` set (nodes c') \<subseteq> strip ` set (nodes c)"
proof (cases "fst (allocNode c) \<ge> 0")
  case True
  then show ?thesis using assms allocNode_pool [of c] by (auto simp: take_node_def split: prod.splits)
next
  case False
  then have a: "allocNode c = (- 1, c)" by (auto simp: allocNode_def Let_def split: if_splits)
  obtain v where fv: "findEvictVictim (k_nowMs k) c = Some v"
    using assms a by (cases "findEvictVictim (k_nowMs k) c") (auto simp: take_node_def)
  define c2 where "c2 = c\<lparr>evictScanUs := evictScanUs c + k_scanUs k, evictScans := evictScans c + 1,
        evictScanNodes := evictScanNodes c + ucast (v_seen v)\<rparr>"
  have v: "nodes c2 = nodes c"
      "(if v_best v < 0 then Some (- 1, c2)
        else do { c3 \<leftarrow> unlinkNode (nat (v_bucket v)) (nat (v_best v)) c2;
                  Some (allocNode (c3\<lparr>evicted := evicted c3 + 1\<rparr>)) }) = Some (i, c')"
    using assms a fv by (simp_all add: take_node_def c2_def Let_def split: if_splits)
  show ?thesis
  proof (cases "v_best v < 0")
    case True
    then show ?thesis using v by simp
  next
    case False
    then obtain c3 where c3: "unlinkNode (nat (v_bucket v)) (nat (v_best v)) c2 = Some c3"
        "allocNode (c3\<lparr>evicted := evicted c3 + 1\<rparr>) = (i, c')"
      using v(2) by (auto simp: bind_eq_Some_conv)
    then show ?thesis
      using unlinkNode_pool [OF c3(1)] allocNode_pool [of "c3\<lparr>evicted := evicted c3 + 1\<rparr>"] v(1) by auto
  qed
qed

section \<open>Storing\<close>

text \<open>The map a new record goes into: as it was, or with one record given up.\<close>

definition makes_room :: "cache \<Rightarrow> u32 \<Rightarrow> key \<Rightarrow> (key \<Rightarrow> node option) \<Rightarrow> bool" where
  "makes_room c now x m \<longleftrightarrow>
     (if content c x \<noteq> None \<or> entries c < int (length (nodes c)) then m = content c
      else \<exists>vk. evicts c now vk \<and> m = (content c)(vk := None))"

text \<open>The counter a store leaves behind.\<close>

definition uses_after :: "cache \<Rightarrow> key \<Rightarrow> bool \<Rightarrow> u64 \<Rightarrow> u32" where
  "uses_after c x countUse usesExact =
     (if countUse then sat_inc (case content c x of Some r \<Rightarrow> nd_uses r | None \<Rightarrow> 0)
      else if usesExact > ucast UINT32_MAX then UINT32_MAX else ucast usesExact)"

text \<open>Finding or making the node of a name.\<close>

lemma place_spec:
  assumes "wf c chs fl []" and "nodes c \<noteq> []" and "h = hashName nm" and "b = bucketOf c h"
    and "length nm < kMaxNameLen_c" and "q \<in> {kTypeA, kTypeAaaa}"
  obtains w i c1 chs1 fl1 m found where "findNode c b h nm q = Some (found, w)"
    and "(if found \<ge> 0 then Some (found, c)
          else map_option (\<lambda>(i, c0). if i < 0 then (i, c0) else (i, link_node k b h q nm (nat i) c0)) (take_node k c))
         = Some (int i, c1)"
    and "wf c1 chs1 fl1 []" and "i \<in> set (concat chs1)" and "node_key (nodes c1 ! i) = (cstr nm, q)"
    and "nd_uses (nodes c1 ! i) = (case content c (cstr nm, q) of Some r \<Rightarrow> nd_uses r | None \<Rightarrow> 0)"
    and "makes_room c (k_nowMs k) (cstr nm, q) m"
    and "content c1 = m((cstr nm, q) \<mapsto> strip (nodes c1 ! i))"
    and "arena c1 = arena c" and "ignoreTtl c1 = ignoreTtl c" and "length (nodes c1) = length (nodes c)"
    and "\<forall>j < length (nodes c1). j \<noteq> i \<longrightarrow> strip (nodes c1 ! j) \<in> strip ` set (nodes c)"
  using assms(1,3,4)
proof (cases rule: findNode_spec [where q = q])
  case (found i w)
  have ci: "content c (cstr nm, q) = Some (strip (nodes c ! i))"
    using content_linked [OF assms(1) found(3)] found(4) by simp
  show thesis
    by (rule that [of "int i" w i c chs fl "content c"])
      (use found assms(1) ci in \<open>auto simp: makes_room_def\<close>)
next
  case (absent w)
  obtain i c0 chs0 fl0 where t: "take_node k c = Some (int i, c0)" "wf c0 chs0 fl0 [i]"
      "length (buckets c0) = length (buckets c)" "arena c0 = arena c" "ignoreTtl c0 = ignoreTtl c"
      "length (nodes c0) = length (nodes c)"
      and room: "(fl \<noteq> [] \<and> content c0 = content c) \<or>
         (fl = [] \<and> (\<exists>vk. evicts c (k_nowMs k) vk \<and> content c0 = (content c)(vk := None)))"
    using take_node_spec [OF assms(1,2)] by blast
  have b: "b = bucketOf c0 h" using assms(4) t(3) by (simp add: bucketOf_def)
  have abs0: "content c0 (cstr nm, q) = None" using room absent(2) by auto
  define c1 where "c1 = link_node k b h q nm i c0"
  note l = wf_link [OF t(2) assms(3) b abs0 assms(5,6) c1_def]
  have mr: "makes_room c (k_nowMs k) (cstr nm, q) (content c0)"
    using room absent(2) pool_count [OF assms(1)] by (auto simp: makes_room_def)
  have "strip (nodes c1 ! j) \<in> strip ` set (nodes c)" if "j < length (nodes c1)" "j \<noteq> i" for j
  proof -
    have "nodes c1 ! j = nodes c0 ! j" "j < length (nodes c0)" using that by (simp_all add: c1_def link_node_def)
    then show ?thesis using take_node_pool [OF t(1)] nth_mem by auto
  qed
  then show thesis
    by (intro that [of "- 1" w i c1, OF _ _ l(1,2,3) _ mr l(5)])
      (use absent t l(4) in \<open>simp_all add: c1_def link_node_def\<close>)
qed

text \<open>The record a store leaves for the key.\<close>

definition stored_record :: "iptext \<Rightarrow> clock \<Rightarrow> key \<Rightarrow> string list \<Rightarrow> u32 \<Rightarrow> u32 \<Rightarrow> node \<Rightarrow> bool" where
  "stored_record t k x ips ttl u r \<longleftrightarrow>
     (\<exists>n. slots_ok n \<and> node_key n = x \<and> r = (strip (write_node t k (snd x) ips ttl n))\<lparr>nd_uses := u\<rparr>)"

lemma storeInternal_spec:
  assumes "cache_inv c" and "arena c" and "domain \<noteq> []" and "ips \<noteq> []" and "q \<in> {kTypeA, kTypeAaaa}"
    and "length domain < kMaxNameLen_c"
  obtains c' m r where "storeInternal t k domain q ips ttl countUse usesExact c = Some c'" and "cache_inv c'"
    and "makes_room c (k_nowMs k) (cstr (lower domain), q) m"
    and "content c' = m((cstr (lower domain), q) \<mapsto> r)"
    and "stored_record t k (cstr (lower domain), q) ips ttl (uses_after c (cstr (lower domain), q) countUse usesExact) r"
    and "arena c'" and "ignoreTtl c' = ignoreTtl c" and "length (nodes c') = length (nodes c)"
    and "\<forall>n \<in> set (nodes c'). strip n \<in> insert r (strip ` set (nodes c))"
proof -
  obtain chs fl where wf: "wf c chs fl []" and ne: "nodes c \<noteq> []"
    using assms(1,2) by (auto simp: cache_inv_def)
  define nm where "nm = lower domain"
  have len: "length nm < kMaxNameLen_c" using assms(6) by (simp add: nm_def lower_def)
  let ?x = "(cstr nm, q)" and ?h = "hashName nm"
  obtain w i c1 chs1 fl1 m found where p: "findNode c (bucketOf c ?h) ?h nm q = Some (found, w)"
      "(if found \<ge> 0 then Some (found, c)
        else map_option (\<lambda>(i, c0). if i < 0 then (i, c0) else (i, link_node k (bucketOf c ?h) ?h q nm (nat i) c0)) (take_node k c))
       = Some (int i, c1)"
      "wf c1 chs1 fl1 []" "i \<in> set (concat chs1)" "node_key (nodes c1 ! i) = ?x"
      "nd_uses (nodes c1 ! i) = (case content c ?x of Some r \<Rightarrow> nd_uses r | None \<Rightarrow> 0)"
      "makes_room c (k_nowMs k) ?x m" "content c1 = m(?x \<mapsto> strip (nodes c1 ! i))"
      "arena c1 = arena c" "ignoreTtl c1 = ignoreTtl c" "length (nodes c1) = length (nodes c)"
      "\<forall>j < length (nodes c1). j \<noteq> i \<longrightarrow> strip (nodes c1 ! j) \<in> strip ` set (nodes c)"
    by (rule place_spec [OF wf ne refl refl len assms(5), of k])
  have i: "i < length (nodes c1)" using rep_bound [OF wfD(1) [OF p(3)]] p(4) by simp
  define n where "n = write_node t k q ips ttl (nodes c1 ! i)"
  have sl: "slots_ok (nodes c1 ! i)" using wfD(3) [OF p(3) i] .
  define c2 where "c2 = c1\<lparr>nodes := (nodes c1)[i := n], stores := stores c1 + 1\<rparr>"
  have key_n: "node_key n = ?x" using p(5) by (simp add: n_def write_node_frame)
  note u = wf_update [OF p(3,4), of n]
  have upd: "wf (c1\<lparr>nodes := (nodes c1)[i := n]\<rparr>) chs1 fl1 []"
      "content (c1\<lparr>nodes := (nodes c1)[i := n]\<rparr>) = (content c1)(?x \<mapsto> strip n)"
    using u sl p(5) key_n by (simp_all add: n_def write_node_frame write_node_slots)
  have w2: "wf c2 chs1 fl1 []" unfolding c2_def by (rule wf_cong [OF upd(1)]) simp_all
  have "content c2 = content (c1\<lparr>nodes := (nodes c1)[i := n]\<rparr>)"
    by (rule content_cong) (simp_all add: c2_def)
  then have cont2: "content c2 = m(?x \<mapsto> strip n)" using upd(2) p(8) by (simp add: fun_upd_idem)
  have n2: "nodes c2 ! i = n" using i by (simp add: c2_def)
  define uu where "uu = uses_after c ?x countUse usesExact"
  define c3 where "c3 = c2\<lparr>nodes := (nodes c2)[i := (nodes c2 ! i)\<lparr>nd_uses :=
      (if usesExact > ucast UINT32_MAX then UINT32_MAX else ucast usesExact)\<rparr>]\<rparr>"
  define c' where "c' = (if countUse then bumpUse i c2 else noteMark i c3)"
  have qq: "(q \<noteq> kTypeA \<and> q \<noteq> kTypeAaaa) = False" using assms(5) by auto
  have run: "storeInternal t k domain q ips ttl countUse usesExact c = Some c'"
    using assms(2-4) len p(1,2) i
    unfolding storeInternal_def nm_def [symmetric] Let_def qq c'_def c3_def c2_def n_def
    by (simp add: not_le)
  have wc: "wf c' chs1 fl1 [] \<and> content c' = m(?x \<mapsto> (strip n)\<lparr>nd_uses := uu\<rparr>)"
  proof (cases countUse)
    case True
    have "nd_uses n = (case content c ?x of Some r \<Rightarrow> nd_uses r | None \<Rightarrow> 0)"
      using p(6) by (simp add: n_def write_node_frame)
    then show ?thesis
      using True wf_bump [OF w2 p(4)] cont2 n2 key_n
      by (simp add: c'_def uu_def uses_after_def)
  next
    case False
    note s = wf_set_uses [OF w2 p(4) c3_def]
    have "wf (noteMark i c3) chs1 fl1 []" by (rule wf_cong [OF s(1)]) simp_all
    moreover have "content (noteMark i c3) = content c3" by (rule content_cong) simp_all
    ultimately show ?thesis
      using False s(2) cont2 n2 key_n by (simp add: c'_def uu_def uses_after_def)
  qed
  have c'f: "arena c'" "ignoreTtl c' = ignoreTtl c" "length (nodes c') = length (nodes c)"
    using assms(2) p(9-11) by (auto simp: c'_def c3_def c2_def bumpUse_nodes)
  have ns: "nodes c' = (nodes c1)[i := n\<lparr>nd_uses := uu\<rparr>]"
    using p(6) i by (simp add: c'_def bumpUse_nodes c3_def c2_def uu_def uses_after_def n_def write_node_frame)
  have "\<forall>m \<in> set (nodes c'). strip m \<in> insert ((strip n)\<lparr>nd_uses := uu\<rparr>) (strip ` set (nodes c))"
    using p(12) i unfolding ns all_set_conv_all_nth by (auto simp: nth_list_update strip_uses)
  moreover have "cache_inv c'" using wc c'f ne by (auto simp: cache_inv_def)
  moreover have "stored_record t k ?x ips ttl uu ((strip n)\<lparr>nd_uses := uu\<rparr>)"
    unfolding stored_record_def n_def using sl p(5) by auto
  ultimately show thesis
    using that [OF run [unfolded] _ _ _ _ c'f] p(7) wc unfolding uu_def nm_def by blast
qed

section \<open>Looking up and removing\<close>

lemma strip_views [simp]:
  "expired_at c now (strip n) = expired_at c now n" "node_ips t q (strip n) = node_ips t q n"
  "remaining_ttl c now (strip n) = remaining_ttl c now n"
  by (simp_all add: expired_at_def node_ips_def remaining_ttl_def)

lemma content_upd_idem: "content c x = Some r \<Longrightarrow> (content c)(x \<mapsto> r) = content c"
  by (simp add: fun_upd_idem)

lemma cache_invI: "wf c chs fl [] \<Longrightarrow> nodes c \<noteq> [] \<Longrightarrow> cache_inv c"
  by (auto simp: cache_inv_def)

text \<open>What the answer and the map are after a lookup.\<close>

definition lookup_result ::
  "iptext \<Rightarrow> clock \<Rightarrow> cache \<Rightarrow> key \<Rightarrow> (string list \<times> u32) option \<times> (key \<Rightarrow> node option)" where
  "lookup_result t k c x =
     (case content c x of
        None \<Rightarrow> (None, content c)
      | Some r \<Rightarrow>
          if expired_at c (k_nowMs k) r then (None, (content c)(x := None))
          else if node_ips t (snd x) r = [] then (None, content c)
          else (Some (node_ips t (snd x) r, remaining_ttl c (k_nowMs k) r),
                (content c)(x \<mapsto> r\<lparr>nd_uses := sat_inc (nd_uses r)\<rparr>)))"

lemma lookup_spec:
  assumes "cache_inv c" and "arena c" and "domain \<noteq> []" and "length domain < kMaxNameLen_c"
  obtains res c' where "lookup t k domain q c = Some (res, c')" and "cache_inv c'" and "arena c'"
    and "(res, content c') = lookup_result t k c (cstr (lower domain), q)"
    and "length (nodes c') = length (nodes c)" and "ignoreTtl c' = ignoreTtl c"
proof -
  obtain chs fl where wf: "wf c chs fl []" and ne: "nodes c \<noteq> []"
    using assms(1,2) by (auto simp: cache_inv_def)
  define nm where "nm = lower domain"
  have len: "\<not> length nm \<ge> kMaxNameLen_c" using assms(4) by (simp add: nm_def lower_def)
  let ?x = "(cstr nm, q)" and ?h = "hashName nm"
  let ?b = "bucketOf c ?h"
  have run: "lookup t k domain q c = (case findNode c ?b ?h nm q of None \<Rightarrow> None | Some (idx, walked) \<Rightarrow>
      if idx < 0 then Some (None, c\<lparr>misses := misses c + 1\<rparr>)
      else if expired_at c (k_nowMs k) (nodes c ! nat idx) then
        map_option (\<lambda>c1. (None, c1\<lparr>evicted := evicted c1 + 1, misses := misses c1 + 1\<rparr>)) (unlinkNode ?b (nat idx) c)
      else if node_ips t q (nodes c ! nat idx) = [] then Some (None, c\<lparr>misses := misses c + 1\<rparr>)
      else (let c1 = bumpUse (nat idx) (c\<lparr>lookupWaitUs := lookupWaitUs c + k_waitUs k,
                                             walkedNodes := walkedNodes c + ucast walked\<rparr>)
            in Some (Some (node_ips t q (nodes c ! nat idx), remaining_ttl c (k_nowMs k) (nodes c ! nat idx)),
                 c1\<lparr>hits := hits c1 + 1\<rparr>)))"
    unfolding lookup_def nm_def [symmetric] Let_def using assms(2,3) len by (simp split: option.splits prod.splits)
  have miss: "cache_inv (c\<lparr>misses := misses c + 1\<rparr>)" "content (c\<lparr>misses := misses c + 1\<rparr>) = content c"
    using wf_cong [OF wf, of "c\<lparr>misses := misses c + 1\<rparr>"] ne content_cong [of "c\<lparr>misses := misses c + 1\<rparr>" c]
    by (auto intro: cache_invI)
  show thesis
    using wf refl refl
  proof (cases rule: findNode_spec [where q = q and nm = nm])
    case (absent w)
    then show thesis
      using that [of None "c\<lparr>misses := misses c + 1\<rparr>"] run miss assms(2)
      by (simp add: lookup_result_def nm_def)
  next
    case (found i w)
    have ci: "content c ?x = Some (strip (nodes c ! i))"
      using content_linked [OF wf found(3)] found(4) by simp
    have b: "?b < length (buckets c)" using bucketOf_bound [OF wf] .
    consider (old) "expired_at c (k_nowMs k) (nodes c ! i)"
      | (blank) "\<not> expired_at c (k_nowMs k) (nodes c ! i)" "node_ips t q (nodes c ! i) = []"
      | (hit) "\<not> expired_at c (k_nowMs k) (nodes c ! i)" "node_ips t q (nodes c ! i) \<noteq> []"
      by blast
    then show thesis
    proof cases
      case old
      obtain c1 where c1: "unlinkNode ?b i c = Some c1" "wf c1 (chs[?b := remove1 i (chs ! ?b)]) (i # fl) []"
          "same_pool c c1" "content c1 = (content c)(node_key (nodes c ! i) := None)"
        using wf_unlink [OF wf b found(2)] by blast
      let ?c = "c1\<lparr>evicted := evicted c1 + 1, misses := misses c1 + 1\<rparr>"
      have wc: "wf ?c (chs[?b := remove1 i (chs ! ?b)]) (i # fl) []" by (rule wf_cong [OF c1(2)]) simp_all
      have l: "length (nodes ?c) = length (nodes c)" using same_pool_length [OF c1(3)] by simp
      then have "nodes ?c \<noteq> []" using ne by auto
      then have "cache_inv ?c" using wc by (rule cache_invI [rotated])
      moreover have "content ?c = (content c)(?x := None)"
        using content_cong [of ?c c1] c1(4) found(4) by simp
      ultimately show thesis
        using that [of None ?c] run found(1) old c1(1,3) ci l assms(2)
        by (simp add: lookup_result_def nm_def same_pool_def frame_def)
    next
      case blank
      then show thesis
        using that [of None "c\<lparr>misses := misses c + 1\<rparr>"] run miss found(1) ci assms(2)
        by (simp add: lookup_result_def nm_def)
    next
      case hit
      define c0 where "c0 = c\<lparr>lookupWaitUs := lookupWaitUs c + k_waitUs k, walkedNodes := walkedNodes c + ucast w\<rparr>"
      define c' where "c' = (bumpUse i c0)\<lparr>hits := hits (bumpUse i c0) + 1\<rparr>"
      have w0: "wf c0 chs fl []" unfolding c0_def by (rule wf_cong [OF wf]) simp_all
      have "content c0 = content c" by (rule content_cong) (simp_all add: c0_def)
      note bump = wf_bump [OF w0 found(3)]
      have "wf c' chs fl []" unfolding c'_def by (rule wf_cong [OF bump(1)]) simp_all
      moreover have "nodes c' \<noteq> []" "length (nodes c') = length (nodes c)"
        using ne by (simp_all add: c'_def bumpUse_nodes c0_def)
      ultimately have "cache_inv c'" by (blast intro: cache_invI)
      moreover have "content c' = (content c)(?x \<mapsto> (strip (nodes c ! i))\<lparr>nd_uses := sat_inc (nd_uses (nodes c ! i))\<rparr>)"
        using content_cong [of c' "bumpUse i c0"] bump(2) \<open>content c0 = content c\<close> found(4)
        by (simp add: c'_def) (simp add: c0_def)
      moreover have "lookup t k domain q c = Some (Some (node_ips t q (nodes c ! i), remaining_ttl c (k_nowMs k) (nodes c ! i)), c')"
        using run found(1) hit by (simp add: c'_def c0_def Let_def)
      moreover have "arena c'" "ignoreTtl c' = ignoreTtl c" "length (nodes c') = length (nodes c)"
        using assms(2) by (simp_all add: c'_def c0_def bumpUse_nodes)
      ultimately show thesis
        using that hit ci by (simp add: lookup_result_def nm_def)
    qed
  qed
qed

lemma erase_spec:
  assumes "cache_inv c" and "arena c" and "domain \<noteq> []"
  obtains c' where "erase domain q c = Some (content c (cstr (lower domain), q) \<noteq> None, c')" and "cache_inv c'"
    and "content c' = (content c)((cstr (lower domain), q) := None)" and "arena c'"
    and "length (nodes c') = length (nodes c)"
proof -
  obtain chs fl where wf: "wf c chs fl []" and ne: "nodes c \<noteq> []"
    using assms(1,2) by (auto simp: cache_inv_def)
  define nm where "nm = lower domain"
  let ?h = "hashName nm"
  let ?b = "bucketOf c ?h"
  have b: "?b < length (buckets c)" using bucketOf_bound [OF wf] .
  show thesis
    using wf refl refl
  proof (cases rule: findNode_spec [where q = q and nm = nm])
    case (absent w)
    then show thesis
      using that [of c] assms by (simp add: erase_def Let_def nm_def fun_upd_idem)
  next
    case (found i w)
    obtain c1 where c1: "unlinkNode ?b i c = Some c1" "wf c1 (chs[?b := remove1 i (chs ! ?b)]) (i # fl) []"
        "same_pool c c1" "content c1 = (content c)(node_key (nodes c ! i) := None)"
      using wf_unlink [OF wf b found(2)] by blast
    have "nodes c1 \<noteq> []" using same_pool_length [OF c1(3)] ne by auto
    then have "cache_inv c1" using c1(2) by (rule cache_invI [rotated])
    moreover have "length (nodes c1) = length (nodes c)" using same_pool_length [OF c1(3)] .
    moreover have "arena c1" using c1(3) assms(2) by (simp add: same_pool_def frame_def)
    moreover have "content c (cstr nm, q) \<noteq> None"
      using content_linked [OF wf found(3)] found(4) by simp
    ultimately show thesis
      using that [of c1] assms c1(1,4) found(1,4) by (simp add: erase_def Let_def nm_def)
  qed
qed

lemma contains_spec:
  assumes "cache_inv c" and "arena c" and "domain \<noteq> []"
  shows "contains domain q c = Some (content c (cstr (lower domain), q) \<noteq> None)"
proof -
  obtain chs fl where wf: "wf c chs fl []"
    using assms(1,2) by (auto simp: cache_inv_def)
  show ?thesis
    using wf refl refl
    by (cases rule: findNode_spec [where q = q and nm = "lower domain"])
      (use assms content_linked [OF wf] in \<open>force simp: contains_def Let_def\<close>)+
qed

section \<open>A new and a cleared cache\<close>

lemma concat_replicate_Nil [simp]: "concat (replicate n []) = []"
  by (induction n) auto

lemma fresh_pool:
  assumes "0 < nb" and "ns \<noteq> []" and "\<forall>n \<in> set ns. slots_ok n" and "free_stack ns = (ms, fh)"
    and "buckets c = replicate nb (- 1)" and "nodes c = ms" and "freeHead c = fh" and "entries c = 0"
  shows "cache_inv c" and "content c = Map.empty" and "length (nodes c) = length ns"
proof -
  obtain ms' fh' where f: "free_stack ns = (ms', fh')" "length ms' = length ns"
      "is_chain ms' fh' (rev [0..<length ns])" "map strip ms' = map strip ns"
    by (rule free_stack_rep)
  then have eq: "ms' = ms" "fh' = fh" using assms(4) by auto
  show len: "length (nodes c) = length ns" using f eq assms(6) by simp
  have "rep (c\<lparr>buckets := replicate nb (- 1), nodes := ms, freeHead := fh, entries := 0\<rparr>)
      (replicate nb []) (rev [0..<length ms]) []"
    using assms(1) f(2,3) eq by (intro empty_pool_rep) simp_all
  then have rep: "rep c (replicate nb []) (rev [0..<length ms]) []"
    by (rule rep_cong) (use assms in simp_all)
  have "slots_ok (ms ! i)" if "i < length ms" for i
  proof -
    have "map strip ms ! i = map strip ns ! i" using f(4) eq by simp
    then have "strip (ms ! i) = strip (ns ! i)" using that f(2) eq by simp
    then show ?thesis using assms(3) that f(2) eq strip_cong(3) nth_mem by metis
  qed
  then have wf: "wf c (replicate nb []) (rev [0..<length ms]) []"
    unfolding wf_def using rep assms(6) by (auto simp: in_set_conv_nth)
  moreover have "nodes c \<noteq> []" using len assms(2) by auto
  ultimately show "cache_inv c" by (rule cache_invI)
  have "content c x = None" for x using content_None_iff [OF wf] by simp
  then show "content c = Map.empty" by (intro ext)
qed

lemma slots_ok_zero: "slots_ok zero_node"
  by (simp add: slots_ok_def zero_node_def)

lemma arena_init_spec:
  assumes "0 < nb" and "0 < cap"
  shows "cache_inv (arena_init mb nb cap c)" and "content (arena_init mb nb cap c) = Map.empty"
    and "length (nodes (arena_init mb nb cap c)) = cap" and "arena (arena_init mb nb cap c)"
proof -
  obtain ms fh where f: "free_stack (replicate cap zero_node) = (ms, fh)"
    by (cases "free_stack (replicate cap zero_node)")
  have a: "buckets (arena_init mb nb cap c) = replicate nb (- 1)" "nodes (arena_init mb nb cap c) = ms"
      "freeHead (arena_init mb nb cap c) = fh" "entries (arena_init mb nb cap c) = 0"
      "arena (arena_init mb nb cap c)"
    by (simp_all add: arena_init_def f resetTop_def)
  note p = fresh_pool [OF assms(1) _ _ f a(1-4)]
  show "cache_inv (arena_init mb nb cap c)" "content (arena_init mb nb cap c) = Map.empty"
    "length (nodes (arena_init mb nb cap c)) = cap" "arena (arena_init mb nb cap c)"
    using p a(5) assms(2) slots_ok_zero by auto
qed

lemma clear_spec:
  assumes "cache_inv c" and "arena c"
  shows "cache_inv (clear c)" and "content (clear c) = Map.empty" and "length (nodes (clear c)) = length (nodes c)"
proof -
  obtain chs fl where wf: "wf c chs fl []" and ne: "nodes c \<noteq> []"
    using assms by (auto simp: cache_inv_def)
  obtain ms fh where f: "free_stack (nodes c) = (ms, fh)" by (cases "free_stack (nodes c)")
  have a: "buckets (clear c) = replicate (length (buckets c)) (- 1)" "nodes (clear c) = ms"
      "freeHead (clear c) = fh" "entries (clear c) = 0"
    using assms(2) by (simp_all add: clear_def f resetTop_def)
  have "\<forall>n \<in> set (nodes c). slots_ok n" using wf by (simp add: wf_def)
  note p = fresh_pool [OF repD(2) [OF wfD(1) [OF wf]] ne this f a]
  show "cache_inv (clear c)" "content (clear c) = Map.empty" "length (nodes (clear c)) = length (nodes c)"
    using p by simp_all
qed

lemma enable_spec:
  assumes "cache_inv c" and "enable psram mb c = (ok, c')"
  shows "cache_inv c'" and "ok \<longleftrightarrow> arena c'"
    and "\<not> arena c \<Longrightarrow> ok \<Longrightarrow> content c' = Map.empty \<and> 0 < length (nodes c')"
    and "arena c \<Longrightarrow> content c' = content c"
proof -
  define mb' where "mb' = (let mb1 = (if mb < 1 then 1 else mb) in if mb1 > 20 then 20 else mb1)"
  define nb where "nb = (let nb0 = mb' * 1024 * 1024 div 4096 in if nb0 < 1024 then 1024 else nb0)"
  have nb: "0 < nb" by (simp add: nb_def Let_def)
  have "(arena c \<and> c' = c\<lparr>sizeMb := mb\<rparr> \<and> ok) \<or> (\<not> arena c \<and> c' = c \<and> \<not> ok) \<or>
      (\<not> arena c \<and> ok \<and> (\<exists>cap. 0 < cap \<and> c' = arena_init mb' nb cap c))"
    using assms(2) unfolding enable_def Let_def mb'_def nb_def by (auto split: if_splits)
  then consider (on) "arena c" "c' = c\<lparr>sizeMb := mb\<rparr>" ok | (off) "\<not> arena c" "c' = c" "\<not> ok"
    | (new) cap where "\<not> arena c" ok "0 < cap" "c' = arena_init mb' nb cap c"
    by blast
  then have "cache_inv c' \<and> (ok \<longleftrightarrow> arena c') \<and> (\<not> arena c \<longrightarrow> ok \<longrightarrow> content c' = Map.empty \<and> 0 < length (nodes c'))
      \<and> (arena c \<longrightarrow> content c' = content c)"
  proof cases
    case on
    then obtain chs fl where "wf c chs fl []" and ne: "nodes c \<noteq> []"
      using assms(1) by (auto simp: cache_inv_def)
    then have "wf c' chs fl []" using on(2) by (auto intro: wf_cong)
    then have "cache_inv c'" by (rule cache_invI) (use on(2) ne in simp)
    then show ?thesis
      using on content_cong [of "c\<lparr>sizeMb := mb\<rparr>" c] by simp
  next
    case off
    then show ?thesis using assms(1) by simp
  next
    case new
    then show ?thesis using arena_init_spec [OF nb new(3), of mb' c] by simp
  qed
  then show "cache_inv c'" "ok \<longleftrightarrow> arena c'" "\<not> arena c \<Longrightarrow> ok \<Longrightarrow> content c' = Map.empty \<and> 0 < length (nodes c')"
    "arena c \<Longrightarrow> content c' = content c"
    by blast+
qed

lemma disable_spec: "cache_inv (disable c)" "\<not> arena (disable c)"
  by (simp_all add: cache_inv_def disable_def resetTop_def)

end
