(* ===== verification/CacheProps.thy ===== *)
theory CacheProps
  imports CacheOps
begin

text \<open>
  What the DNS server relies on: in every state a run of the cache can reach, each operation ends,
  stays inside the arena and acts on the map of records as a bounded cache should; what was stored is
  what a lookup returns until its lifetime is over.
\<close>

section \<open>Every run of the cache\<close>

inductive cache_step :: "cache \<Rightarrow> cache \<Rightarrow> bool" where
  enabled: "enable psram mb c = (ok, c') \<Longrightarrow> cache_step c c'"
| disabled: "cache_step c (disable c)"
| cleared: "cache_step c (clear c)"
| stored: "storeInternal t k domain q ips ttl countUse usesExact c = Some c' \<Longrightarrow> cache_step c c'"
| looked_up: "lookup t k domain q c = Some (res, c') \<Longrightarrow> cache_step c c'"
| erased: "erase domain q c = Some (gone, c') \<Longrightarrow> cache_step c c'"
| policy: "cache_step c (c\<lparr>ignoreTtl := b\<rparr>)"
| restored: "cache_step c (restoreMeasurement h w wn st es eu en c)"
| reported: "cache_step c (noteTop c)"

definition cache_new :: cache where
  "cache_new = \<lparr>arena = False, sizeMb = 0, buckets = [], nodes = [], freeHead = - 1, entries = 0,
     hits = 0, misses = 0, evicted = 0, lookupWaitUs = 0, walkedNodes = 0, stores = 0, evictScans = 0,
     evictScanUs = 0, evictScanNodes = 0, usesTotal = 0, topUses = 0, topIdx = - 1, topQtype = 0,
     topName = [], topValid = False, ignoreTtl = False\<rparr>"

lemma cache_inv_cong:
  "cache_inv c \<Longrightarrow> arena c' = arena c \<Longrightarrow> buckets c' = buckets c \<Longrightarrow> nodes c' = nodes c \<Longrightarrow>
   freeHead c' = freeHead c \<Longrightarrow> entries c' = entries c \<Longrightarrow> cache_inv c'"
  unfolding cache_inv_def using wf_cong [of c _ _ "[]" c'] by metis

lemma store_inv:
  assumes "cache_inv c" and "storeInternal t k domain q ips ttl countUse usesExact c = Some c'"
  shows "cache_inv c'"
proof (cases "arena c \<and> domain \<noteq> [] \<and> ips \<noteq> [] \<and> q \<in> {kTypeA, kTypeAaaa} \<and> length domain < kMaxNameLen_c")
  case True
  then show ?thesis using storeInternal_spec [OF assms(1), of domain ips q t k ttl countUse usesExact] assms(2) by auto
next
  case False
  then have "c' = c" using assms(2) by (auto simp: storeInternal_def Let_def lower_def split: if_splits)
  with assms(1) show ?thesis by simp
qed

lemma lookup_inv:
  assumes "cache_inv c" and "lookup t k domain q c = Some (res, c')"
  shows "cache_inv c'"
proof (cases "arena c \<and> domain \<noteq> [] \<and> length domain < kMaxNameLen_c")
  case True
  then show ?thesis using lookup_spec [OF assms(1), of domain t k q] assms(2) by auto
next
  case False
  then have "c' = c" using assms(2) by (auto simp: lookup_def Let_def lower_def split: if_splits)
  with assms(1) show ?thesis by simp
qed

lemma erase_inv:
  assumes "cache_inv c" and "erase domain q c = Some (gone, c')"
  shows "cache_inv c'"
proof (cases "arena c \<and> domain \<noteq> []")
  case True
  then show ?thesis using erase_spec [OF assms(1), of domain q] assms(2) by auto
next
  case False
  then have "c' = c" using assms(2) by (auto simp: erase_def split: if_splits)
  with assms(1) show ?thesis by simp
qed

lemma clear_inv: "cache_inv c \<Longrightarrow> cache_inv (clear c)"
  using clear_spec(1) by (cases "arena c") (auto simp: clear_def)

lemma cache_step_inv: "cache_step c c' \<Longrightarrow> cache_inv c \<Longrightarrow> cache_inv c'"
proof (induction rule: cache_step.induct)
  case (enabled psram mb c ok c')
  then show ?case by (blast dest: enable_spec(1))
next
  case (disabled c)
  show ?case by (rule disable_spec(1))
next
  case (cleared c)
  then show ?case by (rule clear_inv)
next
  case (stored t k domain q ips ttl countUse usesExact c c')
  then show ?case by (blast intro: store_inv)
next
  case (looked_up t k domain q c res c')
  then show ?case by (blast intro: lookup_inv)
next
  case (erased domain q c gone c')
  then show ?case by (blast intro: erase_inv)
next
  case (policy c b)
  then show ?case by (rule cache_inv_cong) simp_all
next
  case (restored c h w wn st es eu en)
  then show ?case by (rule cache_inv_cong) (simp_all add: restoreMeasurement_def)
next
  case (reported c)
  then show ?case by (rule cache_inv_cong) (simp_all add: noteTop_def Let_def)
qed

interpretation cache_machine: safe_machine "\<lambda>c. c = cache_new" cache_step cache_inv
proof unfold_locales
  show "cache_inv c" if "c = cache_new" for c using that by (simp add: cache_inv_def cache_new_def)
  show "cache_inv c'" if "cache_inv c" "cache_step c c'" for c c' using that by (blast intro: cache_step_inv)
qed

abbreviation cache_run :: "cache \<Rightarrow> bool" where
  "cache_run c \<equiv> cache_step\<^sup>*\<^sup>* cache_new c"

lemma cache_run_inv: "cache_run c \<Longrightarrow> cache_inv c"
  using cache_machine.inv_reachable by blast

text \<open>One megabyte: 1024 buckets and 2967 nodes.\<close>

definition one_mb :: cache where
  "one_mb = snd (enable (\<lambda>_. True) 1 cache_new)"

lemma one_mb_arena: "one_mb = arena_init 1 1024 2967 cache_new"
  by (simp add: one_mb_def enable_def cache_new_def NODE_BYTES_def Let_def)

lemma one_mb_run [simp]: "cache_run one_mb"
proof -
  have "cache_step cache_new one_mb" unfolding one_mb_def by (rule cache_step.enabled, rule surjective_pairing)
  then show ?thesis by blast
qed

lemma one_mb_facts [simp]: "arena one_mb" "content one_mb = Map.empty" "length (nodes one_mb) = 2967" "cache_inv one_mb"
  using arena_init_spec [of 1024 2967 1 cache_new] by (simp_all add: one_mb_arena)

lemma one_mb_policy [simp]: "ignoreTtl one_mb = False"
  by (simp add: one_mb_arena arena_init_def resetTop_def cache_new_def split: prod.splits)

text \<open>An address conversion that knows one address of each family.\<close>

definition demo_text :: iptext where
  "demo_text = \<lparr>t_pton4 = (\<lambda>s. if s = ''1.2.3.4'' then Some 0x04030201 else None),
     t_pton6 = (\<lambda>s. if s = ''::1'' then Some (0, 0, 0, 0x01000000) else None),
     t_ntop4 = (\<lambda>a. if a = 0x04030201 then Some ''1.2.3.4'' else Some ''0.0.0.0''),
     t_ntop6 = (\<lambda>a. if a = (0, 0, 0, 0x01000000) then Some ''::1'' else Some ''::'')\<rparr>"

section \<open>The number of records\<close>

lemma entries_content:
  assumes "wf c chs fl []"
  shows "int (card (dom (content c))) = entries c" and "entries c \<le> int (length (nodes c))"
    and "finite (dom (content c))"
proof -
  have d: "dom (content c) = (\<lambda>i. node_key (nodes c ! i)) ` set (concat chs)"
    using content_iff [OF assms] by (force simp: dom_def)
  have dist: "distinct (concat chs)" using rep_distinct [OF wfD(1) [OF assms]] by simp
  have "card (dom (content c)) = length (concat chs)"
    unfolding d using card_image [of "\<lambda>i. node_key (nodes c ! i)" "set (concat chs)"] assms
    by (simp add: wf_def distinct_card [OF dist])
  then show "int (card (dom (content c))) = entries c"
    using repD(6) [OF wfD(1) [OF assms]] by simp
  have "length (concat chs) + length fl = length (nodes c)"
    using arg_cong [OF repD(5) [OF wfD(1) [OF assms]], of size] by simp
  then show "entries c \<le> int (length (nodes c))" using repD(6) [OF wfD(1) [OF assms]] by linarith
  show "finite (dom (content c))" unfolding d by simp
qed

section \<open>Lifetimes\<close>

lemma ceil_seconds:
  assumes "(e :: nat) < t * 1000"
  shows "(t * 1000 - e + 999) div 1000 = t - e div 1000"
proof -
  have "t * 1000 - e + 999 = (t - e div 1000) * 1000 + (999 - e mod 1000)"
    using assms div_mult_mod_eq [of e 1000] mod_less_divisor [of 1000 e] by (simp add: diff_mult_distrib)
  moreover have "((t - e div 1000) * 1000 + (999 - e mod 1000)) div 1000 = t - e div 1000 + (999 - e mod 1000) div 1000"
    by simp
  ultimately show ?thesis by simp
qed

lemma remaining_ttl_exact:
  assumes "\<not> ignoreTtl c" and "\<not> expired_at c now n" and "nd_ttl n \<noteq> 0" and "unat (nd_ttl n) * 1000 + 999 < 2 ^ 32"
  shows "unat (remaining_ttl c now n) = unat (nd_ttl n) - unat (elapsedMs now (nd_storedMs n)) div 1000"
    and "0 < unat (remaining_ttl c now n)"
proof -
  define e where "e = elapsedMs now (nd_storedMs n)"
  let ?t = "unat (nd_ttl n)"
  have "e div 1000 < nd_ttl n" using assms(1-3) by (simp add: expired_at_def e_def not_le)
  then have lt: "unat e div 1000 < ?t" by (simp add: word_less_nat_alt unat_div)
  then have le: "unat e < ?t * 1000" by (simp add: div_less_iff_less_mult)
  have m: "unat (nd_ttl n * 1000) = ?t * 1000"
    using assms(4) by (subst unat_mult_lem [THEN iffD1]) simp_all
  have "unat (nd_ttl n * 1000 - e) = ?t * 1000 - unat e"
    using le m by (simp add: unat_sub word_le_nat_alt)
  moreover from this have "unat (nd_ttl n * 1000 - e + 999) = ?t * 1000 - unat e + 999"
    using assms(4) by (subst unat_add_lem [THEN iffD1]) simp_all
  ultimately have u: "unat (remaining_ttl c now n) = (?t * 1000 - unat e + 999) div 1000"
    using assms(1,3) by (simp add: remaining_ttl_def e_def unat_div)
  then show "unat (remaining_ttl c now n) = ?t - unat (elapsedMs now (nd_storedMs n)) div 1000"
    using ceil_seconds [OF le] by (simp add: e_def)
  then show "0 < unat (remaining_ttl c now n)" using lt by (simp add: e_def)
qed

section \<open>What is stored is what is served\<close>

lemma map_filter_all: "\<forall>x \<in> set xs. g (f x) = Some x \<Longrightarrow> List.map_filter g (map f xs) = xs"
  by (induction xs) (auto simp: List.map_filter_def)

definition keeps_text :: "iptext \<Rightarrow> u16 \<Rightarrow> string list \<Rightarrow> bool" where
  "keeps_text t q ips \<longleftrightarrow> (\<forall>ip \<in> set ips.
     if q = kTypeA then \<exists>a. t_pton4 t ip = Some a \<and> t_ntop4 t a = Some ip
     else \<exists>a. t_pton6 t ip = Some a \<and> t_ntop6 t a = Some ip)"

definition room_for :: "u16 \<Rightarrow> nat" where
  "room_for q = (if q = kTypeA then kMaxA else kMaxAAAA)"

lemma node_ips_written:
  assumes "slots_ok n" and "keeps_text t q ips" and "q \<in> {kTypeA, kTypeAaaa}"
  shows "node_ips t q (write_node t k q ips ttl n) = take (room_for q) ips"
proof -
  let ?n = "n\<lparr>nd_storedMs := k_nowMs k, nd_ttl := ttl, nd_nA := 0, nd_nAAAA := 0\<rparr>"
  have sl: "slots_ok ?n" using assms(1) by (simp add: slots_ok_def)
  show ?thesis
  proof (cases "q = kTypeA")
    case True
    define f where "f ip = the (t_pton4 t ip)" for ip
    have p: "\<forall>ip \<in> set ips. t_pton4 t ip = Some (f ip) \<and> t_ntop4 t (f ip) = Some ip"
      using assms(2) True by (fastforce simp: keeps_text_def f_def)
    have "List.map_filter (t_ntop4 t) (map f (take kMaxA ips)) = take kMaxA ips"
      by (rule map_filter_all) (use p in_set_takeD in fastforce)
    then show ?thesis
      using True put_a4_addrs [of ips "t_pton4 t" f ?n] p sl
      by (simp add: node_ips_def write_node_def room_for_def kTypeA_def)
  next
    case False
    define f where "f ip = the (t_pton6 t ip)" for ip
    have p: "\<forall>ip \<in> set ips. t_pton6 t ip = Some (f ip) \<and> t_ntop6 t (f ip) = Some ip"
      using assms(2) False by (fastforce simp: keeps_text_def f_def)
    have "List.map_filter (t_ntop6 t) (map f (take kMaxAAAA ips)) = take kMaxAAAA ips"
      by (rule map_filter_all) (use p in_set_takeD in fastforce)
    moreover have "q = 28" using False assms(3) by (simp add: kTypeAaaa_def)
    ultimately show ?thesis
      using put_a6_addrs [of ips "t_pton6 t" f ?n] p sl
      by (simp add: node_ips_def write_node_def room_for_def kTypeA_def)
  qed
qed

lemma stored_record_views:
  assumes "stored_record t k x ips ttl u r" and "keeps_text t (snd x) ips" and "snd x \<in> {kTypeA, kTypeAaaa}"
  shows "node_ips t (snd x) r = take (room_for (snd x)) ips" and "nd_ttl r = ttl" and "nd_storedMs r = k_nowMs k"
    and "nd_uses r = u"
proof -
  obtain n where n: "slots_ok n" "r = (strip (write_node t k (snd x) ips ttl n))\<lparr>nd_uses := u\<rparr>"
    using assms(1) by (auto simp: stored_record_def)
  have "node_ips t q (m\<lparr>nd_uses := u\<rparr>) = node_ips t q m" for q m by (simp add: node_ips_def)
  then show "node_ips t (snd x) r = take (room_for (snd x)) ips"
    using node_ips_written [OF n(1) assms(2,3)] n(2) by simp
  show "nd_ttl r = ttl" "nd_storedMs r = k_nowMs k" "nd_uses r = u"
    using n(2) by (simp_all add: write_node_frame)
qed

section \<open>Properties\<close>

lemma store_total:
  assumes "cache_inv c"
  shows "storeInternal t k domain q ips ttl countUse usesExact c \<noteq> None"
proof (cases "arena c \<and> domain \<noteq> [] \<and> ips \<noteq> [] \<and> q \<in> {kTypeA, kTypeAaaa} \<and> length domain < kMaxNameLen_c")
  case True
  then show ?thesis using storeInternal_spec [OF assms, of domain ips q t k ttl countUse usesExact] by blast
qed (auto simp: storeInternal_def Let_def lower_def)

lemma lookup_total:
  assumes "cache_inv c"
  shows "lookup t k domain q c \<noteq> None"
proof (cases "arena c \<and> domain \<noteq> [] \<and> length domain < kMaxNameLen_c")
  case True
  then show ?thesis using lookup_spec [OF assms, of domain t k q] by blast
qed (auto simp: lookup_def Let_def lower_def)

lemma erase_total:
  assumes "cache_inv c"
  shows "erase domain q c \<noteq> None"
proof (cases "arena c \<and> domain \<noteq> []")
  case True
  then show ?thesis using erase_spec [OF assms, of domain q] by blast
qed (auto simp: erase_def)

lemma contains_total: "cache_inv c \<Longrightarrow> contains domain q c \<noteq> None"
  using contains_spec [of c domain q] by (cases "arena c \<and> domain \<noteq> []") (simp, auto simp: contains_def)

text \<open>
  C18. After any sequence of operations, no chain has a cycle and no index leaves the arena: every call
  of store, lookup, erase and contains ends. While the arena exists, the counter of entries is the
  number of records and never exceeds the number of nodes.
\<close>

theorem cache_run_safe:
  assumes "cache_run c"
  shows "storeInternal t k domain q ips ttl countUse usesExact c \<noteq> None \<and> lookup t k domain q c \<noteq> None
    \<and> erase domain q c \<noteq> None \<and> contains domain q c \<noteq> None
    \<and> (arena c \<longrightarrow> finite (dom (content c)) \<and> int (card (dom (content c))) = entries c
         \<and> entries c \<le> int (length (nodes c)))"
proof -
  have i: "cache_inv c" using cache_run_inv [OF assms] .
  have "finite (dom (content c)) \<and> int (card (dom (content c))) = entries c \<and> entries c \<le> int (length (nodes c))"
    if on: "arena c"
  proof -
    obtain chs fl where "wf c chs fl []" using i on by (auto simp: cache_inv_def)
    then show ?thesis using entries_content by blast
  qed
  then show ?thesis
    using store_total [OF i] lookup_total [OF i] erase_total [OF i] contains_total [OF i] by (intro conjI impI) simp_all
qed

theorem cache_run_safe_witness:
  "lookup demo_text \<lparr>k_nowMs = 0, k_waitUs = 0, k_scanUs = 0\<rparr> ''a.example'' kTypeA one_mb \<noteq> None
   \<and> entries one_mb \<le> 2967"
  using cache_run_safe [OF one_mb_run, of _ _ _ _ "[]"] by simp

text \<open>
  C19. A store is an update of a bounded map: the record of the lower-cased name and type gets the new
  addresses, time and lifetime and one more use. Nothing else changes, except that a new name in a full
  pool costs exactly one record, and that record has the fewest uses, the oldest of those (least used
  first, as the README and the tests have it; two older remarks still speak of the oldest record).
\<close>

theorem cache_store_refines:
  assumes "cache_run c" and "arena c" and "domain \<noteq> []" and "ips \<noteq> []" and "q \<in> {kTypeA, kTypeAaaa}"
    and "length domain < kMaxNameLen_c" and "x = (cstr (lower domain), q)"
  shows "\<exists>c' m r. store t k domain q ips ttl c = Some c' \<and> content c' = m(x \<mapsto> r)
    \<and> makes_room c (k_nowMs k) x m
    \<and> stored_record t k x ips ttl (sat_inc (case content c x of Some r0 \<Rightarrow> nd_uses r0 | None \<Rightarrow> 0)) r"
proof -
  obtain c' m r where "store t k domain q ips ttl c = Some c'" "makes_room c (k_nowMs k) x m"
      "content c' = m(x \<mapsto> r)" "stored_record t k x ips ttl (uses_after c x True 0) r"
    using storeInternal_spec [OF cache_run_inv [OF assms(1)] assms(2-6), of t k ttl True 0]
    unfolding store_def assms(7) by metis
  then show ?thesis unfolding uses_after_def by auto
qed

text \<open>A pool filled to the last node, one name after the other.\<close>

definition nth_name :: "nat \<Rightarrow> string" where
  "nth_name k = replicate (k div 60) CHR ''a'' @ replicate (k mod 60 + 1) CHR ''b''"

lemma nth_name_lower: "cstr (lower (nth_name k)) = nth_name k"
  by (simp add: nth_name_def lower_def tolower_c_def cstr_def map_replicate takeWhile_append Let_def)

lemma nth_name_inj: "nth_name j = nth_name k \<Longrightarrow> j = k"
proof -
  assume e: "nth_name j = nth_name k"
  have r: "count_list (replicate n x) y = (if x = y then n else 0)" for n and x y :: char by (induction n) auto
  have c: "count_list (nth_name k) CHR ''a'' = k div 60" "count_list (nth_name k) CHR ''b'' = k mod 60 + 1" for k
    by (simp_all add: nth_name_def r)
  from c(1) [of j] c(1) [of k] c(2) [of j] c(2) [of k] e have "j div 60 = k div 60" "j mod 60 = k mod 60" by simp_all
  then show "j = k" by (metis div_mult_mod_eq)
qed

lemma nth_name_fits: "k < 2967 \<Longrightarrow> nth_name k \<noteq> [] \<and> length (nth_name k) < kMaxNameLen_c"
proof -
  assume "k < 2967"
  then have "k div 60 \<le> 49" "k mod 60 < 60" by auto
  then show ?thesis by (auto simp: nth_name_def kMaxNameLen_c_def)
qed

lemma filled_pool:
  "n \<le> 2967 \<Longrightarrow> \<exists>c. cache_run c \<and> arena c \<and> length (nodes c) = 2967 \<and> dom (content c) = (\<lambda>k. (nth_name k, kTypeA)) ` {..<n}"
proof (induction n)
  case 0
  show ?case by (rule exI [of _ one_mb]) simp
next
  case (Suc n)
  then obtain c where c: "cache_run c" "arena c" "length (nodes c) = 2967"
      "dom (content c) = (\<lambda>k. (nth_name k, kTypeA)) ` {..<n}"
    by auto
  let ?x = "(cstr (lower (nth_name n)), kTypeA)"
  have nm: "nth_name n \<noteq> []" "length (nth_name n) < kMaxNameLen_c" using nth_name_fits [of n] Suc.prems by auto
  obtain c' m r where s: "storeInternal demo_text \<lparr>k_nowMs = 0, k_waitUs = 0, k_scanUs = 0\<rparr> (nth_name n) kTypeA [''1.2.3.4''] 60 True 0 c = Some c'"
      "makes_room c 0 ?x m" "content c' = m(?x \<mapsto> r)" "arena c'" "length (nodes c') = length (nodes c)"
    using storeInternal_spec [OF cache_run_inv [OF c(1)] c(2) nm(1) _ _ nm(2), of "[''1.2.3.4'']" kTypeA demo_text
        "\<lparr>k_nowMs = 0, k_waitUs = 0, k_scanUs = 0\<rparr>" 60 True 0]
    by (metis clock.select_convs(1) insertI1 list.simps(3))
  obtain chs fl where wf: "wf c chs fl []" using cache_run_inv [OF c(1)] c(2) by (auto simp: cache_inv_def)
  have "card (dom (content c)) \<le> n" unfolding c(4) using card_image_le [of "{..<n}"] by fastforce
  then have "m = content c" using entries_content(1) [OF wf] s(2) c(3) Suc.prems by (simp add: makes_room_def)
  then have "dom (content c') = (\<lambda>k. (nth_name k, kTypeA)) ` {..<Suc n}"
    using s(3) c(4) by (simp add: nth_name_lower lessThan_Suc)
  moreover have "cache_run c'" using rtranclp.rtrancl_into_rtrancl [OF c(1) cache_step.stored [OF s(1)]] .
  ultimately show ?case using s(4,5) c(3) by auto
qed

theorem cache_store_refines_witness:
  "\<exists>c c' vk r. cache_run c \<and> entries c = 2967 \<and> length (nodes c) = 2967
    \<and> store demo_text \<lparr>k_nowMs = 5, k_waitUs = 0, k_scanUs = 0\<rparr> ''Z'' kTypeA [''1.2.3.4''] 60 c = Some c'
    \<and> evicts c 5 vk \<and> content c' = (content c)(vk := None, (''z'', kTypeA) \<mapsto> r)"
proof -
  obtain c where c: "cache_run c" "arena c" "length (nodes c) = 2967"
      "dom (content c) = (\<lambda>k. (nth_name k, kTypeA)) ` {..<2967}"
    using filled_pool [of 2967] by auto
  obtain chs fl where wf: "wf c chs fl []" using cache_run_inv [OF c(1)] c(2) by (auto simp: cache_inv_def)
  have "inj_on (\<lambda>k. (nth_name k, kTypeA)) {..<2967}" by (auto simp: inj_on_def dest: nth_name_inj)
  from card_image [OF this] have full: "entries c = 2967" using entries_content(1) [OF wf] unfolding c(4) by simp
  have z: "(cstr (lower ''Z''), kTypeA) = (''z'', kTypeA)" by code_simp
  have nz: "''z'' \<noteq> nth_name k" for k by (cases "k div 60") (auto simp: nth_name_def)
  have "(''z'', kTypeA) \<notin> dom (content c)"
  proof
    assume "(''z'', kTypeA) \<in> dom (content c)"
    then obtain k where "''z'' = nth_name k" unfolding c(4) by blast
    with nz show False by blast
  qed
  then have new: "content c (''z'', kTypeA) = None" by (simp add: domIff)
  obtain c' m r where "store demo_text \<lparr>k_nowMs = 5, k_waitUs = 0, k_scanUs = 0\<rparr> ''Z'' kTypeA [''1.2.3.4''] 60 c = Some c'"
      "content c' = m((''z'', kTypeA) \<mapsto> r)" "makes_room c 5 (''z'', kTypeA) m"
    using cache_store_refines [OF c(1,2), of "''Z''" "[''1.2.3.4'']" kTypeA "(''z'', kTypeA)" demo_text
        "\<lparr>k_nowMs = 5, k_waitUs = 0, k_scanUs = 0\<rparr>" 60] z
    by (auto simp: kMaxNameLen_c_def)
  moreover from this(3) obtain vk where "evicts c 5 vk" "m = (content c)(vk := None)"
    using c(3) full new by (auto simp: makes_room_def)
  ultimately show ?thesis using c(1,3) full by blast
qed



text \<open>
  Erasing a name removes exactly its record and reports whether there was one; contains answers
  from the same map; clearing leaves it empty and gives every node back.
\<close>

lemma cache_erase_refines:
  assumes "cache_run c" and "arena c" and "domain \<noteq> []" and "x = (cstr (lower domain), q)"
  shows "\<exists>c'. erase domain q c = Some (content c x \<noteq> None, c') \<and> content c' = (content c)(x := None)
    \<and> contains domain q c = Some (content c x \<noteq> None) \<and> contains domain q c' = Some False
    \<and> content (clear c) = Map.empty \<and> length (nodes (clear c)) = length (nodes c)"
proof -
  have i: "cache_inv c" using cache_run_inv [OF assms(1)] .
  obtain c' where c': "erase domain q c = Some (content c x \<noteq> None, c')" "cache_inv c'"
      "content c' = (content c)(x := None)" "arena c'"
    using erase_spec [OF i assms(2,3), of q] assms(4) by metis
  have "contains domain q c = Some (content c x \<noteq> None)"
    using contains_spec [OF i assms(2,3)] assms(4) by simp
  moreover have "contains domain q c' = Some False"
    using contains_spec [OF c'(2,4) assms(3)] c'(3) assms(4) by simp
  ultimately show ?thesis using c' clear_spec [OF i assms(2)] by blast
qed

lemma cache_erase_refines_witness:
  "\<exists>c'. erase ''a.example'' kTypeA one_mb = Some (False, c') \<and> content c' = Map.empty"
  using cache_erase_refines [OF one_mb_run one_mb_facts(1), of "''a.example''" _ kTypeA] by auto

lemma stored_then_served:
  assumes "cache_run c" and "arena c" and "\<not> ignoreTtl c" and "domain \<noteq> []" and "ips \<noteq> []"
    and "q \<in> {kTypeA, kTypeAaaa}" and "length domain < kMaxNameLen_c" and "keeps_text t q ips"
    and "0 < unat ttl" and "unat ttl * 1000 + 999 < 2 ^ 32" and "lower domain' = lower domain"
    and "e = unat (k_nowMs k2 - k_nowMs k1) div 1000"
  shows "\<exists>c1 c2. store t k1 domain q ips ttl c = Some c1
    \<and> (if e < unat ttl
       then \<exists>left. lookup t k2 domain' q c1 = Some (Some (take (room_for q) ips, left), c2)
              \<and> unat left = unat ttl - e \<and> 0 < unat left
       else lookup t k2 domain' q c1 = Some (None, c2) \<and> contains domain' q c2 = Some False)"
proof -
  define x where "x = (cstr (lower domain), q)"
  obtain c1 m r where s: "store t k1 domain q ips ttl c = Some c1" "cache_inv c1" "content c1 = m(x \<mapsto> r)"
      "stored_record t k1 x ips ttl (uses_after c x True 0) r" "arena c1" "ignoreTtl c1 = ignoreTtl c"
    using storeInternal_spec [OF cache_run_inv [OF assms(1)] assms(2,4-7), of t k1 ttl True 0]
    unfolding store_def x_def by metis
  have l: "length domain' = length domain" using arg_cong [OF assms(11), of length] by (simp add: lower_def)
  then have d: "domain' \<noteq> []" "length domain' < kMaxNameLen_c" using assms(4,7) by auto
  obtain res c2 where lk: "lookup t k2 domain' q c1 = Some (res, c2)" "cache_inv c2" "arena c2"
      "(res, content c2) = lookup_result t k2 c1 x"
    using lookup_spec [OF s(2,5) d, of t k2 q] unfolding assms(11) x_def by metis
  have v: "node_ips t q r = take (room_for q) ips" "nd_ttl r = ttl" "nd_storedMs r = k_nowMs k1"
    using stored_record_views [OF s(4)] assms(6,8) by (simp_all add: x_def)
  have ne: "take (room_for q) ips \<noteq> []" using assms(5) by (simp add: room_for_def kMaxA_def kMaxAAAA_def)
  have ttl: "ttl \<noteq> 0" using assms(9) by auto
  have ex: "expired_at c1 (k_nowMs k2) r \<longleftrightarrow> \<not> e < unat ttl"
    using assms(3,12) s(6) v ttl by (simp add: expired_at_def elapsedMs_def word_le_nat_alt unat_div not_less)
  show ?thesis
  proof (cases "e < unat ttl")
    case True
    note rt = remaining_ttl_exact [of c1 "k_nowMs k2" r]
    have "unat (remaining_ttl c1 (k_nowMs k2) r) = unat ttl - e" "0 < unat (remaining_ttl c1 (k_nowMs k2) r)"
      using rt ex True assms(3,10,12) s(6) v ttl by (simp_all add: elapsedMs_def)
    moreover have "res = Some (take (room_for q) ips, remaining_ttl c1 (k_nowMs k2) r)"
      using lk(4) s(3) ex True v(1) ne by (simp add: lookup_result_def x_def)
    ultimately show ?thesis using True s(1) lk(1) by auto
  next
    case False
    then have "res = None" "content c2 x = None"
      using lk(4) s(3) ex by (simp_all add: lookup_result_def)
    moreover have "contains domain' q c2 = Some (content c2 x \<noteq> None)"
      using contains_spec [OF lk(2,3) d(1)] assms(11) by (simp add: x_def)
    ultimately show ?thesis using False s(1) lk(1) by auto
  qed
qed



text \<open>
  The bound on the lifetime is needed: with 4294968 seconds (about 49.7 days) the product in
  milliseconds wraps and a fresh record is served with one second left, and one second later with zero.
\<close>

lemma remaining_ttl_wraps:
  "\<exists>c n. \<not> expired_at c 1000 n \<and> nd_ttl n = 4294968 \<and> remaining_ttl c 0 n = 1 \<and> remaining_ttl c 1000 n = 0"
  by (rule exI [of _ one_mb], rule exI [of _ "zero_node\<lparr>nd_ttl := 4294968\<rparr>"])
    (simp add: expired_at_def remaining_ttl_def zero_node_def elapsedMs_def word_le_nat_alt)

end
