(* ===== verification/CacheFile.thy ===== *)
theory CacheFile
  imports InternalCache
begin

text \<open>
  \<open>src/src/dns/CacheFileReader.cpp\<close> and the writing half of the format in
  \<open>InternalDnsCache::saveToFile\<close>: \<open>cache.dat\<close> as a list of bytes. The reader is total, names every way
  a file can be wrong, and hands over whole records only; what the writer's layout produces is read
  back unchanged. The English text of a refusal (\<open>why\<close>) and the progress callback are left out.
\<close>

section \<open>Numbers and bytes\<close>

definition putU32 :: "u32 \<Rightarrow> byte list" where
  "putU32 v = [ucast v, ucast (drop_bit 8 v), ucast (drop_bit 16 v), ucast (drop_bit 24 v)]"

text \<open>The loop \<open>v |= s[i] << 8 * i\<close> over the bytes.\<close>

definition get_le :: "byte list \<Rightarrow> 'a::len word" where
  "get_le s = foldl (\<lambda>v i. v OR push_bit (8 * i) (ucast (s ! i))) 0 [0..<length s]"

definition getU32 :: "byte list \<Rightarrow> u32" where
  "getU32 s = get_le (take 4 s)"

definition getU64 :: "byte list \<Rightarrow> u64" where
  "getU64 s = get_le (take 8 s)"

lemma getU32_bytes: "length s = 4 \<Longrightarrow> getU32 (s @ r) = le32 (s ! 0) (s ! 1) (s ! 2) (s ! 3)"
  by (simp add: getU32_def get_le_def upt_rec le32_def or.assoc eval_nat_numeral)

lemma length_putU32 [simp]: "length (putU32 v) = 4"
  by (simp add: putU32_def)

lemma getU32_putU32 [simp]: "getU32 (putU32 v @ r) = v"
  using getU32_bytes [of "putU32 v" r] by (simp add: putU32_def)

lemma getU32_putU32_only [simp]: "getU32 (putU32 v) = v"
  using getU32_putU32 [of v "[]"] by simp

section \<open>Records\<close>

record CacheFileRecord =
  r_name :: string
  r_qtype :: u16
  r_ttl :: u32
  r_uses :: u64
  r_addrs :: "byte list list"

datatype CacheFileStatus = FOk | NotFound | BadHeader | UnsupportedVersion | ImplausibleCount
  | Truncated | BadRecord | TrailingBytes

record CacheFileRead =
  cr_status :: CacheFileStatus
  cr_version :: u32
  cr_headerCount :: u32
  cr_sizeBytes :: nat
  cr_records :: nat

definition kMagic :: "byte list" where "kMagic = map char_byte ''DCC1''"
definition kHeaderBytes :: nat where "kHeaderBytes = 16"
definition kTailBytes :: nat where "kTailBytes = 8"
definition kVersion :: u32 where "kVersion = 3"
definition kVersionMin :: u32 where "kVersionMin = 1"
definition kVersionUses64 :: u32 where "kVersionUses64 = 2"
definition kMaxNameBytes :: nat where "kMaxNameBytes = 127"
definition kMaxPlausibleRecords :: nat where "kMaxPlausibleRecords = 2000000"

lemmas format_consts = kHeaderBytes_def kTailBytes_def kVersion_def kVersionMin_def kVersionUses64_def
  kMaxNameBytes_def kMaxPlausibleRecords_def kMaxA_def kMaxAAAA_def kTypeA_def kTypeAaaa_def

text \<open>\<open>fread\<close> of exactly \<open>n\<close> bytes at the read position.\<close>

definition readExact :: "nat \<Rightarrow> byte list \<Rightarrow> (byte list \<times> byte list) option" where
  "readExact n f = (if n \<le> length f then Some (take n f, drop n f) else None)"

lemma readExact_append [simp]: "length a = n \<Longrightarrow> readExact n (a @ f) = Some (a, f)"
  by (simp add: readExact_def)

lemma readExact_Some: "readExact n f = Some (a, g) \<Longrightarrow> f = a @ g \<and> length a = n"
  by (auto simp: readExact_def split: if_splits)

fun read_addrs :: "nat \<Rightarrow> nat \<Rightarrow> byte list \<Rightarrow> (byte list list \<times> byte list) option" where
  "read_addrs w 0 f = Some ([], f)"
| "read_addrs w (Suc n) f = do {
     (a, g) \<leftarrow> readExact w f;
     (as, h) \<leftarrow> read_addrs w n g;
     Some (a # as, h) }"

text \<open>The usage counter: none in version 1, eight bytes in version 2, four in version 3.\<close>

definition read_uses :: "u32 \<Rightarrow> byte list \<Rightarrow> (u64 \<times> byte list) option" where
  "read_uses version f =
     (if version \<ge> kVersionUses64 then
        if version = kVersionUses64 then map_option (map_prod getU64 (\<lambda>g. g)) (readExact 8 f)
        else map_option (map_prod (\<lambda>u. ucast (getU32 u)) (\<lambda>g. g)) (readExact 4 f)
      else Some (0, f))"

text \<open>One turn of the loop: why it stops, or the record and the rest of the file.\<close>

definition read_record :: "u32 \<Rightarrow> byte list \<Rightarrow> CacheFileStatus + (CacheFileRecord \<times> byte list)" where
  "read_record version f =
     (case readExact 1 f of None \<Rightarrow> Inl Truncated | Some (lb, f1) \<Rightarrow>
      let nameLen = unat (lb ! 0) in
      if nameLen = 0 \<or> nameLen > kMaxNameBytes then Inl BadRecord else
      case readExact nameLen f1 of None \<Rightarrow> Inl Truncated | Some (nm, f2) \<Rightarrow>
      case readExact kTailBytes f2 of None \<Rightarrow> Inl Truncated | Some (tail, f3) \<Rightarrow>
      let qtype = ucast (tail ! 0) OR push_bit 8 (ucast (tail ! 1));
          countA = unat (tail ! 2);
          countAaaa = unat (tail ! 3);
          ttl = getU32 (drop 4 tail)
      in
      if countA > kMaxA \<or> countAaaa > kMaxAAAA then Inl BadRecord else
      if qtype \<noteq> kTypeA \<and> qtype \<noteq> kTypeAaaa then Inl BadRecord else
      case read_uses version f3 of None \<Rightarrow> Inl Truncated | Some (uses, f4) \<Rightarrow>
      let addrCount = (if qtype = kTypeA then countA else countAaaa);
          addrBytes = (if qtype = kTypeA then 4 else 16)
      in
      if addrCount = 0 then Inl BadRecord else
      case read_addrs addrBytes addrCount f4 of None \<Rightarrow> Inl Truncated | Some (as, f5) \<Rightarrow>
      Inr (\<lparr>r_name = map byte_char nm, r_qtype = qtype, r_ttl = ttl, r_uses = uses, r_addrs = as\<rparr>, f5))"

text \<open>The loop over the promised number of records: those read, why it stopped, what is left.\<close>

fun read_records :: "u32 \<Rightarrow> nat \<Rightarrow> byte list \<Rightarrow> CacheFileRecord list \<times> CacheFileStatus option \<times> byte list" where
  "read_records version 0 f = ([], None, f)"
| "read_records version (Suc n) f =
     (case read_record version f of
        Inl st \<Rightarrow> ([], Some st, f)
      | Inr (r, g) \<Rightarrow> (case read_records version n g of (rs, st, h) \<Rightarrow> (r # rs, st, h)))"

text \<open>
  \<open>CacheFileReader::read\<close>: the outcome and the records handed to the handler, in order. The argument
  is what \<open>fopen\<close> finds under a non-empty name.
\<close>

definition cache_read :: "byte list option \<Rightarrow> CacheFileRead \<times> CacheFileRecord list" where
  "cache_read file =
     (let out = \<lparr>cr_status = NotFound, cr_version = 0, cr_headerCount = 0, cr_sizeBytes = 0, cr_records = 0\<rparr> in
      case file of None \<Rightarrow> (out, []) | Some f \<Rightarrow>
      let out = out\<lparr>cr_sizeBytes := length f\<rparr> in
      case readExact kHeaderBytes f of None \<Rightarrow> (out\<lparr>cr_status := BadHeader\<rparr>, []) | Some (hdr, body) \<Rightarrow>
      if take 4 hdr \<noteq> kMagic then (out\<lparr>cr_status := BadHeader\<rparr>, []) else
      let version = getU32 (drop 4 hdr); out = out\<lparr>cr_version := version\<rparr> in
      if version < kVersionMin \<or> version > kVersion then (out\<lparr>cr_status := UnsupportedVersion\<rparr>, []) else
      let count = getU32 (drop 8 hdr); out = out\<lparr>cr_headerCount := count\<rparr> in
      if unat count > kMaxPlausibleRecords then (out\<lparr>cr_status := ImplausibleCount\<rparr>, []) else
      case read_records version (unat count) body of (rs, st, rest) \<Rightarrow>
      (out\<lparr>cr_records := length rs,
           cr_status := (case st of Some s \<Rightarrow> s | None \<Rightarrow> if rest = [] then FOk else TrailingBytes)\<rparr>, rs))"

text \<open>\<open>CacheFileReader::check\<close>: the read-back a planned restart asks for.\<close>

definition cache_check :: "byte list option \<Rightarrow> nat \<Rightarrow> bool \<times> nat" where
  "cache_check file expectedRecords =
     (let r = fst (cache_read file)
      in (cr_status r = FOk \<and> cr_records r = expectedRecords, cr_records r))"

text \<open>\<open>fileInfo\<close>: what the status page shows of the file, from its header alone.\<close>

record FileInfo =
  fi_exists :: bool
  fi_size :: nat
  fi_version :: u32
  fi_entries :: u32

definition fileInfo :: "byte list option \<Rightarrow> FileInfo" where
  "fileInfo file =
     (case file of None \<Rightarrow> \<lparr>fi_exists = False, fi_size = 0, fi_version = 0, fi_entries = 0\<rparr>
      | Some f \<Rightarrow>
          if length f \<ge> kHeaderBytes \<and> take 4 f = kMagic
          then \<lparr>fi_exists = True, fi_size = length f, fi_version = getU32 (drop 4 f), fi_entries = getU32 (drop 8 f)\<rparr>
          else \<lparr>fi_exists = True, fi_size = length f, fi_version = 0, fi_entries = 0\<rparr>)"

section \<open>The writer's layout\<close>

definition file_header :: "u32 \<Rightarrow> byte list" where
  "file_header count = kMagic @ putU32 kVersion @ putU32 count @ putU32 0"

text \<open>The bytes of one record; \<open>n\<close> is the node as copied and \<open>ttlRem\<close> the lifetime left.\<close>

fun mem6 :: "in6 \<Rightarrow> byte list" where
  "mem6 (a, b, c, d) = mem32 a @ mem32 b @ mem32 c @ mem32 d"

definition record_bytes :: "node \<Rightarrow> u32 \<Rightarrow> byte list" where
  "record_bytes n ttlRem =
     of_nat (length (nd_name n)) # map char_byte (nd_name n)
     @ [ucast (nd_qtype n), ucast (drop_bit 8 (nd_qtype n)), of_nat (nd_nA n), of_nat (nd_nAAAA n)]
     @ putU32 ttlRem @ putU32 (nd_uses n)
     @ concat (map mem32 (take (nd_nA n) (nd_a4 n))) @ concat (map mem6 (take (nd_nAAAA n) (nd_a6 n)))"

section \<open>Reading back what was written\<close>

text \<open>A node as the cache keeps it: addresses of its own type only, and at least one.\<close>

definition file_ready :: "node \<Rightarrow> bool" where
  "file_ready n \<longleftrightarrow> nd_name n \<noteq> [] \<and> length (nd_name n) \<le> kMaxNameBytes
     \<and> length (nd_a4 n) = kMaxA \<and> length (nd_a6 n) = kMaxAAAA
     \<and> (nd_qtype n = kTypeA \<and> 0 < nd_nA n \<and> nd_nA n \<le> kMaxA \<and> nd_nAAAA n = 0
        \<or> nd_qtype n = kTypeAaaa \<and> 0 < nd_nAAAA n \<and> nd_nAAAA n \<le> kMaxAAAA \<and> nd_nA n = 0)"

definition record_of :: "node \<Rightarrow> u32 \<Rightarrow> CacheFileRecord" where
  "record_of n ttlRem = \<lparr>r_name = nd_name n, r_qtype = nd_qtype n, r_ttl = ttlRem, r_uses = ucast (nd_uses n),
     r_addrs = (if nd_qtype n = kTypeA then map mem32 (take (nd_nA n) (nd_a4 n))
                else map mem6 (take (nd_nAAAA n) (nd_a6 n)))\<rparr>"

lemma length_mem6 [simp]: "length (mem6 a) = 16"
  by (cases a) simp

lemma read_addrs_written:
  "\<forall>a \<in> set as. length a = w \<Longrightarrow> read_addrs w (length as) (concat as @ f) = Some (as, f)"
  by (induction as) auto

lemma u16_of_bytes: "ucast (ucast q :: byte) OR push_bit 8 (ucast (ucast (drop_bit 8 q) :: byte)) = (q :: u16)"
  using be16_of_bytes [of q] by (simp add: be16_def or.commute)

lemma unat_of_nat_byte: "n < 256 \<Longrightarrow> unat (of_nat n :: byte) = n"
  by (simp add: unat_of_nat)

lemma read_record_written:
  assumes "file_ready n"
  shows "read_record kVersion (record_bytes n ttl @ f) = Inr (record_of n ttl, f)"
proof -
  let ?nm = "map char_byte (nd_name n)"
  let ?tl = "[ucast (nd_qtype n), ucast (drop_bit 8 (nd_qtype n)), of_nat (nd_nA n), of_nat (nd_nAAAA n)] @ putU32 ttl"
  let ?a4 = "map mem32 (take (nd_nA n) (nd_a4 n))" and ?a6 = "map mem6 (take (nd_nAAAA n) (nd_a6 n))"
  note r = assms [unfolded file_ready_def format_consts]
  have nl: "unat (of_nat (length (nd_name n)) :: byte) = length (nd_name n)" and l0: "nd_name n \<noteq> []"
      "length (nd_name n) \<le> 127"
    using r by (simp_all add: unat_of_nat_byte)
  have cnt: "unat (of_nat (nd_nA n) :: byte) = nd_nA n" "unat (of_nat (nd_nAAAA n) :: byte) = nd_nAAAA n"
      "nd_nA n \<le> 16" "nd_nAAAA n \<le> 8"
    using r by (auto simp: unat_of_nat_byte)
  have split: "record_bytes n ttl @ f = [of_nat (length (nd_name n))] @ ?nm @ ?tl @ putU32 (nd_uses n) @ concat ?a4 @ concat ?a6 @ f"
    by (simp add: record_bytes_def)
  have s1: "readExact 1 (record_bytes n ttl @ f)
      = Some ([of_nat (length (nd_name n))], ?nm @ ?tl @ putU32 (nd_uses n) @ concat ?a4 @ concat ?a6 @ f)"
    unfolding split by (rule readExact_append) simp
  have s2: "readExact (length (nd_name n)) (?nm @ g) = Some (?nm, g)" for g by (rule readExact_append) simp
  have s3: "readExact kTailBytes (?tl @ g) = Some (?tl, g)" for g by (rule readExact_append) (simp add: kTailBytes_def)
  have s4: "read_uses kVersion (putU32 (nd_uses n) @ g) = Some (ucast (nd_uses n), g)" for g
    by (simp add: read_uses_def format_consts)
  have body: "read_addrs (if nd_qtype n = kTypeA then 4 else 16) (if nd_qtype n = kTypeA then nd_nA n else nd_nAAAA n)
      (concat ?a4 @ concat ?a6 @ f) = Some (r_addrs (record_of n ttl), f)"
    using r read_addrs_written [of ?a4 4 f] read_addrs_written [of ?a6 16 f]
    by (auto simp: record_of_def format_consts min_def)
  have q: "ucast (?tl ! 0) OR push_bit 8 (ucast (?tl ! 1)) = nd_qtype n" by (simp add: u16_of_bytes)
  have t: "?tl ! 2 = of_nat (nd_nA n)" "?tl ! 3 = of_nat (nd_nAAAA n)" "getU32 (drop 4 ?tl) = ttl" by simp_all
  have qt: "\<not> (nd_qtype n \<noteq> kTypeA \<and> nd_qtype n \<noteq> kTypeAaaa)"
      "(if nd_qtype n = kTypeA then nd_nA n else nd_nAAAA n) \<noteq> 0"
    using r by (auto simp: format_consts)
  have nmb: "map byte_char ?nm = nd_name n" by (simp add: comp_def)
  show ?thesis
    unfolding read_record_def s1 option.case prod.case Let_def nth_Cons_0 nl s2 s3 q t cnt(1,2) s4 body nmb
    using l0 cnt(3,4) qt by (simp add: format_consts record_of_def)
qed

lemma read_records_written:
  assumes "\<forall>(n, ttl) \<in> set xs. file_ready n"
  shows "read_records kVersion (length xs) (concat (map (\<lambda>(n, ttl). record_bytes n ttl) xs) @ f)
    = (map (\<lambda>(n, ttl). record_of n ttl) xs, None, f)"
  using assms
proof (induction xs)
  case (Cons x xs)
  then show ?case by (cases x) (simp add: read_record_written)
qed simp

lemma cache_read_written:
  assumes "\<forall>(n, ttl) \<in> set xs. file_ready n" and "length xs \<le> kMaxPlausibleRecords"
    and "f = file_header (of_nat (length xs)) @ concat (map (\<lambda>(n, ttl). record_bytes n ttl) xs)"
  shows "cache_read (Some f) = (\<lparr>cr_status = FOk, cr_version = kVersion, cr_headerCount = of_nat (length xs),
    cr_sizeBytes = length f, cr_records = length xs\<rparr>, map (\<lambda>(n, ttl). record_of n ttl) xs)"
proof -
  let ?h = "file_header (of_nat (length xs))"
  have len: "length ?h = kHeaderBytes" "take 4 ?h = kMagic"
    by (simp_all add: file_header_def kMagic_def kHeaderBytes_def)
  have h: "getU32 (drop 4 ?h) = kVersion" "getU32 (drop 8 ?h) = of_nat (length xs)"
    by (simp_all add: file_header_def kMagic_def)
  have c: "unat (of_nat (length xs) :: u32) = length xs"
    using assms(2) by (simp add: kMaxPlausibleRecords_def unat_of_nat)
  have r: "readExact kHeaderBytes f = Some (?h, concat (map (\<lambda>(n, ttl). record_bytes n ttl) xs))"
    unfolding assms(3) by (rule readExact_append) (rule len(1))
  show ?thesis
    using read_records_written [OF assms(1), of "[]"] assms(2) len(2) h
    by (simp add: cache_read_def Let_def r c) (simp add: kVersion_def kVersionMin_def)
qed

section \<open>Torn files\<close>

text \<open>What a prefix of a file already settles does not change when more bytes follow.\<close>

lemma readExact_more: "readExact n f = Some (a, g) \<Longrightarrow> readExact n (f @ x) = Some (a, g @ x)"
  by (auto simp: readExact_def split: if_splits)

lemma read_addrs_more: "read_addrs w n f = Some (as, g) \<Longrightarrow> read_addrs w n (f @ x) = Some (as, g @ x)"
proof (induction n arbitrary: f as)
  case (Suc n)
  then obtain a h as' where "readExact w f = Some (a, h)" "read_addrs w n h = Some (as', g)" "as = a # as'"
    by (auto simp: bind_eq_Some_conv)
  then show ?case using Suc.IH [of h as'] readExact_more [of w f a h x] by simp
qed simp

lemma read_uses_more: "read_uses v f = Some (u, g) \<Longrightarrow> read_uses v (f @ x) = Some (u, g @ x)"
  by (auto simp: read_uses_def dest: readExact_more split: if_splits)

lemma read_record_more:
  assumes "read_record v f = Inr (r, g)"
  shows "read_record v (f @ x) = Inr (r, g @ x)"
proof -
  note run = assms [unfolded read_record_def Let_def]
  obtain lb f1 where s1: "readExact 1 f = Some (lb, f1)"
    using run by (cases "readExact 1 f") auto
  note run = run [unfolded s1 option.case prod.case]
  let ?l = "unat (lb ! 0)"
  have l: "\<not> (?l = 0 \<or> ?l > kMaxNameBytes)" using run by (auto split: if_splits)
  obtain nm f2 where s2: "readExact ?l f1 = Some (nm, f2)"
    using run l by (cases "readExact ?l f1") auto
  note run = run [unfolded s2 option.case prod.case if_not_P [OF l]]
  obtain tail f3 where s3: "readExact kTailBytes f2 = Some (tail, f3)"
    using run by (cases "readExact kTailBytes f2") auto
  note run = run [unfolded s3 option.case prod.case]
  let ?q = "ucast (tail ! 0) OR push_bit 8 (ucast (tail ! 1)) :: u16"
  have c: "\<not> (unat (tail ! 2) > kMaxA \<or> unat (tail ! 3) > kMaxAAAA)" "\<not> (?q \<noteq> kTypeA \<and> ?q \<noteq> kTypeAaaa)"
    using run by (auto split: if_splits)
  note run = run [unfolded if_not_P [OF c(1)] if_not_P [OF c(2)]]
  obtain u f4 where s4: "read_uses v f3 = Some (u, f4)"
    using run by (cases "read_uses v f3") auto
  note run = run [unfolded s4 option.case prod.case]
  let ?n = "if ?q = kTypeA then unat (tail ! 2) else unat (tail ! 3)"
  let ?w = "if ?q = kTypeA then 4 else 16 :: nat"
  have n: "?n \<noteq> 0" using run by (metis Inl_Inr_False)
  note run = run [unfolded if_not_P [OF n]]
  obtain as f5 where s5: "read_addrs ?w ?n f4 = Some (as, f5)"
    using run by (cases "read_addrs ?w ?n f4") auto
  note run = run [unfolded s5 option.case prod.case]
  show ?thesis
    unfolding read_record_def Let_def readExact_more [OF s1] option.case prod.case if_not_P [OF l]
      readExact_more [OF s2] readExact_more [OF s3] if_not_P [OF c(1)] if_not_P [OF c(2)]
      read_uses_more [OF s4] if_not_P [OF n] read_addrs_more [OF s5]
    using run by simp
qed

lemma read_records_more:
  "read_records v n f = (rs, None, g) \<Longrightarrow> read_records v n (f @ x) = (rs, None, g @ x)"
proof (induction n arbitrary: f rs)
  case (Suc n)
  then obtain r h rs' where "read_record v f = Inr (r, h)" "read_records v n h = (rs', None, g)" "rs = r # rs'"
    by (auto split: sum.splits prod.splits)
  then show ?case using Suc.IH [of h rs'] read_record_more [of v f r h x] by simp
qed simp

lemma read_record_status: "read_record v f \<noteq> Inl FOk"
  by (auto simp: read_record_def Let_def split: option.splits prod.splits)

lemma read_records_status: "read_records v n f = (rs, st, g) \<Longrightarrow> st \<noteq> Some FOk"
  by (induction n arbitrary: f rs) (auto simp: read_record_status split: sum.splits prod.splits)

lemma cache_read_Ok:
  "cr_status (fst (cache_read (Some f))) = FOk \<longleftrightarrow>
     (\<exists>hdr body rs. f = hdr @ body \<and> length hdr = kHeaderBytes \<and> take 4 hdr = kMagic
        \<and> \<not> (getU32 (drop 4 hdr) < kVersionMin \<or> getU32 (drop 4 hdr) > kVersion)
        \<and> unat (getU32 (drop 8 hdr)) \<le> kMaxPlausibleRecords
        \<and> read_records (getU32 (drop 4 hdr)) (unat (getU32 (drop 8 hdr))) body = (rs, None, []))"
    (is "?L \<longleftrightarrow> ?R")
proof
  assume ?R
  then obtain hdr body rs where h: "f = hdr @ body" "length hdr = kHeaderBytes" "take 4 hdr = kMagic"
      "\<not> (getU32 (drop 4 hdr) < kVersionMin \<or> getU32 (drop 4 hdr) > kVersion)"
      "\<not> unat (getU32 (drop 8 hdr)) > kMaxPlausibleRecords"
      "read_records (getU32 (drop 4 hdr)) (unat (getU32 (drop 8 hdr))) body = (rs, None, [])"
    by (auto simp: not_less)
  then show ?L by (simp add: cache_read_def Let_def)
next
  assume L: ?L
  note run = L [unfolded cache_read_def Let_def option.case]
  obtain hdr body where s: "readExact kHeaderBytes f = Some (hdr, body)"
    using run by (cases "readExact kHeaderBytes f") auto
  note run = run [unfolded s option.case prod.case]
  have m: "take 4 hdr = kMagic" using run by (auto split: if_splits)
  have v: "\<not> (getU32 (drop 4 hdr) < kVersionMin \<or> getU32 (drop 4 hdr) > kVersion)"
    using run m by (auto split: if_splits)
  have p: "\<not> unat (getU32 (drop 8 hdr)) > kMaxPlausibleRecords" using run m v by (auto split: if_splits)
  obtain rs st rest where r: "read_records (getU32 (drop 4 hdr)) (unat (getU32 (drop 8 hdr))) body = (rs, st, rest)"
    by (cases "read_records (getU32 (drop 4 hdr)) (unat (getU32 (drop 8 hdr))) body")
  have e: "(case st of Some s \<Rightarrow> s | None \<Rightarrow> if rest = [] then FOk else TrailingBytes) = FOk"
    using run m v p r by simp
  have "st \<noteq> Some FOk" using read_records_status [OF r] .
  with e have "st = None" "rest = []" by (auto split: option.splits if_splits)
  then show ?R using readExact_Some [OF s] m v p r by (auto simp: not_less)
qed

text \<open>
  C33. A torn file is never taken for a whole one: if a file reads as whole, none of its proper
  prefixes does, and with any bytes added to it the read reports trailing bytes, with the same records.
\<close>

theorem torn_file_detected:
  assumes "cr_status (fst (cache_read (Some f))) = FOk" and "x \<noteq> []"
  shows "cr_status (fst (cache_read (Some (f @ x)))) = TrailingBytes \<and> snd (cache_read (Some (f @ x))) = snd (cache_read (Some f))
    \<and> (\<forall>g. f = g @ x \<longrightarrow> cr_status (fst (cache_read (Some g))) \<noteq> FOk)"
proof -
  have ext: "cr_status (fst (cache_read (Some (f @ x)))) = TrailingBytes \<and> snd (cache_read (Some (f @ x))) = snd (cache_read (Some f))"
    if ok: "cr_status (fst (cache_read (Some f))) = FOk" for f
  proof -
    obtain hdr body rs where h: "f = hdr @ body" "length hdr = kHeaderBytes" "take 4 hdr = kMagic"
        "\<not> (getU32 (drop 4 hdr) < kVersionMin \<or> getU32 (drop 4 hdr) > kVersion)"
        "\<not> unat (getU32 (drop 8 hdr)) > kMaxPlausibleRecords"
        "read_records (getU32 (drop 4 hdr)) (unat (getU32 (drop 8 hdr))) body = (rs, None, [])"
      using ok unfolding cache_read_Ok by (auto simp: not_less)
    then show ?thesis using read_records_more [OF h(6), of x] assms(2) by (simp add: cache_read_def Let_def)
  qed
  then show ?thesis using assms(1) by fastforce
qed

theorem torn_file_detected_witness:
  "cr_status (fst (cache_read (Some (file_header 0 @ [0])))) = TrailingBytes"
proof -
  have "cr_status (fst (cache_read (Some (file_header 0)))) = FOk"
    using cache_read_written [of "[]" "file_header 0"] by simp
  from torn_file_detected [OF this, of "[0]"] show ?thesis by simp
qed

end
