(* ===== verification/CachePool.thy ===== *)
theory CachePool
  imports CacheProps CacheFile
begin

text \<open>
  What a save of the cache relies on: it copies nodes one by one, each under its own lock, so between
  two of them a node may have been freed or reused. Every node of the pool, linked or free, is
  therefore shown to be either unused or a complete record, in every state a run can reach.
\<close>

section \<open>What every node of the pool looks like\<close>

text \<open>
  Used or free, a node has an empty name or is a complete record: addresses of its own type only, at
  least one of them, and a lower-case name without NUL that fits.
\<close>

definition node_shape :: "node \<Rightarrow> bool" where
  "node_shape n \<longleftrightarrow> slots_ok n \<and> (nd_name n = [] \<or>
     length (nd_name n) < kMaxNameLen_c \<and> lower (nd_name n) = nd_name n \<and> cstr (nd_name n) = nd_name n
     \<and> (nd_qtype n = kTypeA \<and> 0 < nd_nA n \<and> nd_nAAAA n = 0 \<or> nd_qtype n = kTypeAaaa \<and> 0 < nd_nAAAA n \<and> nd_nA n = 0))"

definition pool_inv :: "cache \<Rightarrow> bool" where
  "pool_inv c \<longleftrightarrow> cache_inv c \<and> (\<forall>n \<in> set (nodes c). node_shape n) \<and> length (nodes c) \<le> kMaxPlausibleRecords"

lemma node_shape_strip: "node_shape (strip n) = node_shape n"
  by (simp add: node_shape_def slots_ok_def)

lemma node_shape_uses [simp]: "node_shape (n\<lparr>nd_uses := u\<rparr>) = node_shape n"
  by (simp add: node_shape_def slots_ok_def)

lemma shapes_mono:
  "strip ` set ns' \<subseteq> strip ` set ns \<Longrightarrow> \<forall>n \<in> set ns. node_shape n \<Longrightarrow> \<forall>n \<in> set ns'. node_shape n"
  by (metis image_iff node_shape_strip subset_iff)

lemma lower_lower [simp]: "lower (lower s) = lower s"
  by (auto simp: lower_def tolower_c_def Let_def)

lemma lower_cstr: "lower (cstr s) = cstr (lower s)"
proof -
  have "(char_code (tolower_c ch) \<noteq> 0) = (char_code ch \<noteq> 0)" for ch
    by (auto simp: tolower_c_def Let_def)
  then show ?thesis by (simp add: lower_def cstr_def takeWhile_map comp_def)
qed

lemma types_differ [simp]: "kTypeAaaa \<noteq> kTypeA" "kTypeA \<noteq> kTypeAaaa"
  by (simp_all add: kTypeA_def kTypeAaaa_def)

lemma put_a4_counts: "ips \<noteq> [] \<Longrightarrow> nd_nA n < kMaxA \<Longrightarrow> nd_nA n < nd_nA (put_a4 p ips n)"
proof (induction p ips n rule: put_a4.induct)
  case (2 p ip ips n)
  then show ?case by (cases "ips = []"; cases "Suc (nd_nA n) < kMaxA") (force simp: neq_Nil_conv)+
qed simp

lemma put_a6_counts: "ips \<noteq> [] \<Longrightarrow> nd_nAAAA n < kMaxAAAA \<Longrightarrow> nd_nAAAA n < nd_nAAAA (put_a6 p ips n)"
proof (induction p ips n rule: put_a6.induct)
  case (2 p ip ips n)
  then show ?case by (cases "ips = []"; cases "Suc (nd_nAAAA n) < kMaxAAAA") (force simp: neq_Nil_conv)+
qed simp

lemma put_a4_other: "nd_nAAAA (put_a4 p ips n) = nd_nAAAA n"
  by (induction p ips n rule: put_a4.induct) simp_all

lemma put_a6_other: "nd_nA (put_a6 p ips n) = nd_nA n"
  by (induction p ips n rule: put_a6.induct) simp_all

lemma write_node_counts:
  assumes "ips \<noteq> []" and "q \<in> {kTypeA, kTypeAaaa}"
  shows "q = kTypeA \<Longrightarrow> 0 < nd_nA (write_node t k q ips ttl n) \<and> nd_nAAAA (write_node t k q ips ttl n) = 0"
    and "q \<noteq> kTypeA \<Longrightarrow> 0 < nd_nAAAA (write_node t k q ips ttl n) \<and> nd_nA (write_node t k q ips ttl n) = 0"
  using assms put_a4_counts [OF assms(1), of "n\<lparr>nd_storedMs := k_nowMs k, nd_ttl := ttl, nd_nA := 0, nd_nAAAA := 0\<rparr>" "t_pton4 t"]
    put_a6_counts [OF assms(1), of "n\<lparr>nd_storedMs := k_nowMs k, nd_ttl := ttl, nd_nA := 0, nd_nAAAA := 0\<rparr>" "t_pton6 t"]
  by (auto simp: write_node_def Let_def put_a4_other put_a6_other kTypeA_def kTypeAaaa_def kMaxA_def kMaxAAAA_def)

lemma stored_record_shape:
  assumes "stored_record t k (cstr (lower domain), q) ips ttl u r" and "ips \<noteq> []" and "q \<in> {kTypeA, kTypeAaaa}"
    and "length domain < kMaxNameLen_c"
  shows "node_shape r"
proof -
  obtain n where n: "slots_ok n" "node_key n = (cstr (lower domain), q)"
      "r = (strip (write_node t k q ips ttl n))\<lparr>nd_uses := u\<rparr>"
    using assms(1) by (auto simp: stored_record_def)
  let ?w = "write_node t k q ips ttl n"
  have k: "nd_name ?w = cstr (lower domain)" "nd_qtype ?w = q"
    using n(2) write_node_frame(2) [of t k q ips ttl n] by (simp_all add: node_key_def)
  have "length (cstr (lower domain)) < kMaxNameLen_c"
    using assms(4) length_cstr [of "lower domain"] by (simp add: lower_def)
  then have "node_shape ?w"
    using k write_node_slots [OF n(1)] write_node_counts [OF assms(2,3), of t k ttl n] assms(3)
    by (auto simp: node_shape_def lower_cstr)
  then show ?thesis by (simp add: n(3) node_shape_strip)
qed

lemma set_uses_shape:
  "\<forall>n \<in> set ns. node_shape n \<Longrightarrow> \<forall>n \<in> set (ns[i := (ns ! i)\<lparr>nd_uses := u\<rparr>]). node_shape n"
  by (cases "i < length ns") (auto simp: list_update_beyond dest!: set_update_subset_insert [THEN subsetD])

section \<open>Every operation keeps it\<close>

lemma store_pool_inv:
  assumes "pool_inv c" and "storeInternal t k domain q ips ttl countUse usesExact c = Some c'"
  shows "pool_inv c'"
proof (cases "arena c \<and> domain \<noteq> [] \<and> ips \<noteq> [] \<and> q \<in> {kTypeA, kTypeAaaa} \<and> length domain < kMaxNameLen_c")
  case True
  have i: "cache_inv c" and sh: "\<forall>n \<in> set (nodes c). node_shape n" and l: "length (nodes c) \<le> kMaxPlausibleRecords"
    using assms(1) by (simp_all add: pool_inv_def)
  obtain r where r: "cache_inv c'" "length (nodes c') = length (nodes c)"
      "stored_record t k (cstr (lower domain), q) ips ttl (uses_after c (cstr (lower domain), q) countUse usesExact) r"
      "\<forall>n \<in> set (nodes c'). strip n \<in> insert r (strip ` set (nodes c))"
    using storeInternal_spec [OF i, of domain ips q t k ttl countUse usesExact] True assms(2) by (metis option.inject)
  have "node_shape r" using stored_record_shape [OF r(3)] True by blast
  then have "\<forall>n \<in> set (nodes c'). node_shape n"
    using r(4) sh by (metis image_iff insert_iff node_shape_strip)
  then show ?thesis using r l by (simp add: pool_inv_def)
next
  case False
  then have "c' = c" using assms(2) by (auto simp: storeInternal_def Let_def lower_def split: if_splits)
  with assms(1) show ?thesis by simp
qed

lemma lookup_pool:
  assumes "lookup t k domain q c = Some (res, c')" and "\<forall>n \<in> set (nodes c). node_shape n"
  shows "\<forall>n \<in> set (nodes c'). node_shape n"
proof -
  consider "nodes c' = nodes c" | b i c1 where "unlinkNode b i c = Some c1" "nodes c' = nodes c1"
    | i u where "nodes c' = (nodes c)[i := (nodes c ! i)\<lparr>nd_uses := u\<rparr>]"
    using assms(1) by (auto simp: lookup_def Let_def bind_eq_Some_conv bumpUse_nodes split: if_splits)
  then show ?thesis
  proof cases
    case 2
    then show ?thesis using unlinkNode_pool [OF 2(1)] shapes_mono assms(2) by metis
  next
    case 3
    then show ?thesis using set_uses_shape assms(2) by metis
  qed (use assms(2) in simp)
qed

lemma lookup_pool_inv:
  assumes "pool_inv c" and "lookup t k domain q c = Some (res, c')"
  shows "pool_inv c'"
proof -
  have "length (nodes c') = length (nodes c)"
  proof (cases "arena c \<and> domain \<noteq> [] \<and> length domain < kMaxNameLen_c")
    case True
    then show ?thesis
      using lookup_spec [of c domain t k q] assms by (metis pool_inv_def option.inject prod.inject)
  next
    case False
    then show ?thesis using assms(2) by (auto simp: lookup_def Let_def lower_def split: if_splits)
  qed
  then show ?thesis
    using assms lookup_inv [OF _ assms(2)] lookup_pool [OF assms(2)] by (simp add: pool_inv_def)
qed

lemma erase_pool_inv:
  assumes "pool_inv c" and "erase domain q c = Some (gone, c')"
  shows "pool_inv c'"
proof -
  have "length (nodes c') = length (nodes c)"
  proof (cases "arena c \<and> domain \<noteq> []")
    case True
    then show ?thesis using erase_spec [of c domain q] assms by (metis pool_inv_def option.inject prod.inject)
  next
    case False
    then show ?thesis using assms(2) by (auto simp: erase_def split: if_splits)
  qed
  moreover have "strip ` set (nodes c') \<subseteq> strip ` set (nodes c)"
    using assms(2) unlinkNode_pool by (fastforce simp: erase_def Let_def bind_eq_Some_conv split: if_splits)
  ultimately show ?thesis
    using assms erase_inv [OF _ assms(2)] shapes_mono by (metis pool_inv_def)
qed

lemma free_stack_pool: "free_stack ns = (ms, fh) \<Longrightarrow> strip ` set ms = strip ` set ns \<and> length ms = length ns"
  using free_stack_rep [of ns] by (metis list.set_map prod.inject)

lemma clear_pool_inv: "pool_inv c \<Longrightarrow> pool_inv (clear c)"
proof (cases "arena c")
  case True
  assume i: "pool_inv c"
  obtain ms fh where f: "free_stack (nodes c) = (ms, fh)" by (cases "free_stack (nodes c)")
  have "nodes (clear c) = ms" using True by (simp add: clear_def f resetTop_def)
  then show ?thesis
    using i clear_inv [of c] free_stack_pool [OF f] shapes_mono [of ms "nodes c"] by (simp add: pool_inv_def)
qed (simp add: clear_def)

lemma enable_pool_inv:
  assumes "pool_inv c" and "enable psram mb c = (ok, c')"
  shows "pool_inv c'"
proof -
  define mb' where "mb' = (let mb1 = (if mb < 1 then 1 else mb) in if mb1 > 20 then 20 else mb1)"
  define nb where "nb = (let nb0 = mb' * 1024 * 1024 div 4096 in if nb0 < 1024 then 1024 else nb0)"
  define cap where "cap = (mb' * 1024 * 1024 - nb * 4) div NODE_BYTES"
  have "mb' \<le> 20" by (simp add: mb'_def Let_def)
  then have "mb' * 1024 * 1024 - nb * 4 \<le> 20 * 1024 * 1024" by simp
  from div_le_mono [OF this, of NODE_BYTES] have cap: "cap \<le> 59578" by (simp add: cap_def NODE_BYTES_def)
  have "nodes c' = nodes c \<or> c' = arena_init mb' nb cap c"
    using assms(2) unfolding enable_def Let_def mb'_def nb_def cap_def by (auto split: if_splits)
  moreover have "\<forall>n \<in> set (nodes (arena_init mb nb cap c)). node_shape n" "length (nodes (arena_init mb nb cap c)) = cap"
    for mb nb cap
  proof -
    obtain ms fh where f: "free_stack (replicate cap zero_node) = (ms, fh)" by (cases "free_stack (replicate cap zero_node)")
    have "node_shape zero_node" using slots_ok_zero by (simp add: node_shape_def zero_node_def)
    then have "\<forall>n \<in> set (replicate cap zero_node). node_shape n" by simp
    then have "\<forall>n \<in> set ms. node_shape n"
      by (rule shapes_mono [rotated]) (use free_stack_pool [OF f] in blast)
    moreover have "length ms = cap" using free_stack_pool [OF f] by (simp only: length_replicate)
    ultimately show "\<forall>n \<in> set (nodes (arena_init mb nb cap c)). node_shape n" "length (nodes (arena_init mb nb cap c)) = cap"
      by (simp_all add: arena_init_def f resetTop_def)
  qed
  ultimately show ?thesis
    using assms(1) cap enable_spec(1) [OF _ assms(2)] by (auto simp: pool_inv_def kMaxPlausibleRecords_def)
qed

lemma pool_inv_cong:
  "pool_inv c \<Longrightarrow> arena c' = arena c \<Longrightarrow> buckets c' = buckets c \<Longrightarrow> nodes c' = nodes c \<Longrightarrow>
   freeHead c' = freeHead c \<Longrightarrow> entries c' = entries c \<Longrightarrow> pool_inv c'"
  unfolding pool_inv_def using cache_inv_cong [of c c'] by metis

lemma cache_step_pool_inv: "cache_step c c' \<Longrightarrow> pool_inv c \<Longrightarrow> pool_inv c'"
proof (induction rule: cache_step.induct)
  case (enabled psram mb c ok c')
  then show ?case by (blast intro: enable_pool_inv)
next
  case (disabled c)
  show ?case using disable_spec(1) [of c] by (simp add: pool_inv_def) (simp add: disable_def resetTop_def)
next
  case (cleared c)
  then show ?case by (rule clear_pool_inv)
next
  case (stored t k domain q ips ttl countUse usesExact c c')
  then show ?case by (blast intro: store_pool_inv)
next
  case (looked_up t k domain q c res c')
  then show ?case by (blast intro: lookup_pool_inv)
next
  case (erased domain q c gone c')
  then show ?case by (blast intro: erase_pool_inv)
next
  case (policy c b)
  then show ?case by (rule pool_inv_cong) simp_all
next
  case (restored c h w wn st es eu en)
  then show ?case by (rule pool_inv_cong) (simp_all add: restoreMeasurement_def)
next
  case (reported c)
  then show ?case by (rule pool_inv_cong) (simp_all add: noteTop_def Let_def)
qed

interpretation pool_machine: safe_machine "\<lambda>c. c = cache_new" cache_step pool_inv
proof unfold_locales
  show "pool_inv c" if "c = cache_new" for c
    using that by (simp add: pool_inv_def cache_inv_def cache_new_def)
  show "pool_inv c'" if "pool_inv c" "cache_step c c'" for c c' using that by (blast intro: cache_step_pool_inv)
qed

lemma cache_run_pool: "cache_run c \<Longrightarrow> pool_inv c"
  using pool_machine.inv_reachable by blast

end
