(* ===== verification/AtomicFile.thy ===== *)
theory AtomicFile
  imports Prelude
begin

text \<open>
  \<open>src/src/core/AtomicFile.cpp\<close>: publishing a file through \<open>path.part\<close>. A volume is a map from names to
  contents. The calls of the C library work on a disk: the volume, the file that is open for writing
  and the instants the disk has been through, in order. Whether a call succeeds is a parameter. A power
  cut can strike at every instant; a file that is open then is left with any content or not at all, a
  directory operation has happened or not.
\<close>

section \<open>The disk\<close>

type_synonym volume = "string \<Rightarrow> byte list option"

type_synonym instant = "volume \<times> string option"

record disk =
  dk_vol :: volume
  dk_writing :: "string option"
  dk_past :: "instant list"

definition instants :: "disk \<Rightarrow> instant list" where
  "instants d = dk_past d @ [(dk_vol d, dk_writing d)]"

definition mounted :: "volume \<Rightarrow> disk" where
  "mounted v = \<lparr>dk_vol = v, dk_writing = None, dk_past = []\<rparr>"

definition advance :: "volume \<Rightarrow> string option \<Rightarrow> disk \<Rightarrow> disk" where
  "advance v w d = \<lparr>dk_vol = v, dk_writing = w, dk_past = instants d\<rparr>"

text \<open>\<open>fopen\<close> with \<open>wb\<close>, the content after a \<open>fwrite\<close>, and \<open>fclose\<close>.\<close>

definition fs_create :: "string \<Rightarrow> disk \<Rightarrow> disk" where
  "fs_create p d = advance ((dk_vol d)(p \<mapsto> [])) (Some p) d"

definition fs_write :: "string \<Rightarrow> byte list \<Rightarrow> disk \<Rightarrow> disk" where
  "fs_write p bs d = advance ((dk_vol d)(p \<mapsto> bs)) (Some p) d"

definition fs_close :: "disk \<Rightarrow> disk" where
  "fs_close d = advance (dk_vol d) None d"

text \<open>\<open>remove\<close>; true when the name is gone, also when it was never there (\<open>ENOENT\<close>).\<close>

definition fs_remove :: "bool \<Rightarrow> string \<Rightarrow> disk \<Rightarrow> bool \<times> disk" where
  "fs_remove ok p d =
     (if dk_vol d p = None then (True, d)
      else if ok then (True, advance ((dk_vol d)(p := None)) (dk_writing d) d) else (False, d))"

text \<open>\<open>rename\<close>, which FatFS refuses when the destination exists.\<close>

definition fs_rename :: "bool \<Rightarrow> string \<Rightarrow> string \<Rightarrow> disk \<Rightarrow> bool \<times> disk" where
  "fs_rename ok p q d =
     (if ok \<and> dk_vol d p \<noteq> None \<and> dk_vol d q = None
      then (True, advance ((dk_vol d)(q := dk_vol d p, p := None)) (dk_writing d) d) else (False, d))"

inductive power_cut :: "instant \<Rightarrow> volume \<Rightarrow> bool" where
  settled: "power_cut (v, None) v"
| torn: "power_cut (v, Some p) (v(p \<mapsto> bs))"
| lost: "power_cut (v, Some p) (v(p := None))"

inductive_cases power_cutE: "power_cut i u"

section \<open>The component\<close>

definition partPath :: "string \<Rightarrow> string" where
  "partPath path = path @ ''.part''"

definition readable :: "string \<Rightarrow> disk \<Rightarrow> bool" where
  "readable path d \<longleftrightarrow> dk_vol d path \<noteq> None"

definition publish :: "bool \<Rightarrow> bool \<Rightarrow> string \<Rightarrow> disk \<Rightarrow> bool \<times> disk" where
  "publish rmOk mvOk path d =
     (let part = partPath path in
      if \<not> readable part d then (False, d)
      else case fs_remove rmOk path d of
        (False, d1) \<Rightarrow> (False, d1)
      | (True, d1) \<Rightarrow> (case fs_rename mvOk part path d1 of (False, d2) \<Rightarrow> (False, d2) | (True, d2) \<Rightarrow> (True, d2)))"

definition recover :: "bool \<Rightarrow> string \<Rightarrow> disk \<Rightarrow> disk" where
  "recover mvOk path d =
     (let part = partPath path in
      if readable path d then d
      else if \<not> readable part d then d
      else snd (fs_rename mvOk part path d))"

lemma partPath_neq [simp]: "partPath path \<noteq> path" "path \<noteq> partPath path"
  by (simp_all add: partPath_def)

lemmas fs_defs = fs_create_def fs_write_def fs_close_def advance_def

section \<open>Restarts\<close>

text \<open>
  What the file can hold once the device runs again: the first recovery may fail or be cut itself, the
  last one goes through.
\<close>

definition after_restart :: "string \<Rightarrow> volume \<Rightarrow> byte list option set" where
  "after_restart path u =
     {dk_vol (recover True path (mounted x)) path | ok j x. j \<in> set (instants (recover ok path (mounted u))) \<and> power_cut j x}"

text \<open>An instant of a save of \<open>new\<close> over \<open>old\<close> from which nothing is lost.\<close>

definition recoverable :: "string \<Rightarrow> byte list \<Rightarrow> byte list \<Rightarrow> instant \<Rightarrow> bool" where
  "recoverable path old new i \<longleftrightarrow> (case i of (v, w) \<Rightarrow>
     w \<in> {None, Some (partPath path)}
     \<and> (v path = Some old \<or> v path = Some new \<or> v path = None \<and> v (partPath path) = Some new \<and> w = None))"

lemma recover_cut:
  assumes "recoverable path old new i" and "power_cut i u"
  shows "\<forall>j \<in> set (instants (recover ok path (mounted u))). recoverable path old new j"
    and "dk_vol (recover True path (mounted u)) path \<in> {Some old, Some new}"
proof -
  have u: "recoverable path old new (u, None)"
    using assms(2,1) by (cases rule: power_cut.cases) (auto simp: recoverable_def)
  then show "\<forall>j \<in> set (instants (recover ok path (mounted u))). recoverable path old new j"
    and "dk_vol (recover True path (mounted u)) path \<in> {Some old, Some new}"
    by (auto simp: recover_def recoverable_def readable_def mounted_def instants_def fs_rename_def advance_def Let_def)
qed

lemma after_restart_safe:
  assumes "recoverable path old new i" and "power_cut i u"
  shows "after_restart path u \<subseteq> {Some old, Some new}"
proof
  fix c
  assume "c \<in> after_restart path u"
  then obtain ok j x where "j \<in> set (instants (recover ok path (mounted u)))" "power_cut j x"
      and c: "c = dk_vol (recover True path (mounted x)) path"
    by (auto simp: after_restart_def)
  then show "c \<in> {Some old, Some new}"
    using recover_cut(2) [OF recover_cut(1) [OF assms, rule_format]] by blast
qed

lemma publish_spec:
  assumes "publish rmOk mvOk path d = (ok, d')" and "dk_vol d (partPath path) = Some new" and "dk_writing d = None"
  shows "ok \<Longrightarrow> dk_vol d' = (dk_vol d)(path \<mapsto> new, partPath path := None)"
    and "\<not> ok \<Longrightarrow> dk_vol d' = dk_vol d \<or> dk_vol d' = (dk_vol d)(path := None)"
    and "\<forall>i \<in> set (instants d'). i \<in> set (instants d) \<or> i = ((dk_vol d)(path := None), None)
           \<or> i = ((dk_vol d)(path \<mapsto> new, partPath path := None), None)"
    and "dk_writing d' = None"
  using assms
  by (auto simp: publish_def readable_def fs_remove_def fs_rename_def advance_def instants_def Let_def fun_upd_twist fun_upd_idem
      split: if_splits bool.splits)

lemma publish_works: "dk_vol d (partPath path) \<noteq> None \<Longrightarrow> \<exists>d'. publish True True path d = (True, d')"
  by (auto simp: publish_def readable_def fs_remove_def fs_rename_def advance_def Let_def)

text \<open>
  Without a previous version a save is not atomic: a cut during the very first write leaves a torn part,
  which recovery publishes as the file.
\<close>

lemma first_save_not_atomic:
  "\<exists>i u torn. i \<in> set (instants (fs_create (partPath ''c'') (mounted (\<lambda>_. None)))) \<and> power_cut i u \<and> torn \<noteq> new
     \<and> Some torn \<in> after_restart ''c'' u"
proof -
  obtain torn :: "byte list" where t: "torn \<noteq> new" using ex_new_if_finite [of "{new}"] infinite_UNIV_listI by blast
  let ?v = "(\<lambda>_. None)(partPath ''c'' \<mapsto> [])" and ?u = "(\<lambda>_. None)(partPath ''c'' \<mapsto> torn)"
  have i: "(?v, Some (partPath ''c'')) \<in> set (instants (fs_create (partPath ''c'') (mounted (\<lambda>_. None))))"
    by (simp add: fs_create_def advance_def instants_def mounted_def)
  have u: "power_cut (?v, Some (partPath ''c'')) ?u"
    using power_cut.torn [of ?v "partPath ''c''" torn] by simp
  have j: "(?u, None) \<in> set (instants (recover False ''c'' (mounted ?u)))"
    by (simp add: recover_def readable_def mounted_def instants_def fs_rename_def Let_def)
  have "dk_vol (recover True ''c'' (mounted ?u)) ''c'' = Some torn"
    by (simp add: recover_def readable_def mounted_def fs_rename_def advance_def Let_def)
  then have "Some torn \<in> after_restart ''c'' ?u"
    unfolding after_restart_def using j power_cut.settled [of ?u] by force
  with i u t show ?thesis by blast
qed

end
