(* ===== verification/CacheSave.thy ===== *)
theory CacheSave
  imports CachePool AtomicFile
begin

text \<open>
  \<open>InternalDnsCache::saveToFile\<close> and \<open>loadFromFile\<close>. A save takes the indices of the records worth
  keeping under one lock and then copies each node under a lock of its own, so it sees as many states
  of the cache as there are records: \<open>se_at\<close> gives them. Memory, the calls on the disk and the clock are
  parameters; \<open>se_room\<close> is how many bytes the volume takes, \<open>se_drop\<close> whether a failed part can be removed.
\<close>

section \<open>Saving\<close>

record save_env =
  se_now1 :: u32
  se_now2 :: u32
  se_at :: "nat \<Rightarrow> cache"
  se_mem :: bool
  se_open :: bool
  se_room :: nat
  se_seek :: bool
  se_patch :: bool
  se_close :: bool
  se_drop :: bool
  se_rm :: bool
  se_mv :: bool

datatype save_result = Saved nat | NothingToSave | SaveFailed

definition worth_saving :: "cache \<Rightarrow> u32 \<Rightarrow> node \<Rightarrow> bool" where
  "worth_saving c now n \<longleftrightarrow> nd_name n \<noteq> [] \<and> \<not> expired_at c now n"

definition snapshot :: "u32 \<Rightarrow> cache \<Rightarrow> nat list option" where
  "snapshot now c = all_buckets (\<lambda>b acc i. if worth_saving c now (nodes c ! i) then acc @ [i] else acc) c []"

text \<open>The lifetime written: what is left, or one second when it ran out after the snapshot.\<close>

definition ttl_left :: "cache \<Rightarrow> u32 \<Rightarrow> node \<Rightarrow> u32" where
  "ttl_left c now n =
     (if \<not> ignoreTtl c \<and> nd_ttl n \<noteq> 0 then
        (let ageSec = elapsedMs now (nd_storedMs n) div 1000
         in if ageSec \<ge> nd_ttl n then 1 else nd_ttl n - ageSec)
      else nd_ttl n)"

text \<open>
  The write loop: whether every write succeeded, the records written and what was written of the one
  that failed; \<open>None\<close> is a read of a node outside the pool.
\<close>

fun save_loop :: "save_env \<Rightarrow> nat \<Rightarrow> nat list \<Rightarrow> nat \<Rightarrow> (node \<times> u32) list
    \<Rightarrow> (bool \<times> (node \<times> u32) list \<times> byte list) option" where
  "save_loop e s [] used ws = Some (True, ws, [])"
| "save_loop e s (i # snap) used ws =
     (if \<not> i < length (nodes (se_at e s)) then None
      else
        (let n = nodes (se_at e s) ! i; nameLen = length (nd_name n) in
         if nameLen = 0 \<or> nameLen > kMaxNameBytes then save_loop e (Suc s) snap used ws
         else
           (let ttlRem = ttl_left (se_at e s) (se_now2 e) n; len = length (record_bytes n ttlRem) in
            if used + len > se_room e then Some (False, ws, take (se_room e - used) (record_bytes n ttlRem))
            else save_loop e (Suc s) snap (used + len) (ws @ [(n, ttlRem)]))))"

definition file_body :: "(node \<times> u32) list \<Rightarrow> byte list" where
  "file_body ws = concat (map (\<lambda>(n, ttl). record_bytes n ttl) ws)"

text \<open>
  The part while it is written: created, the header with a count of zero, the records, the count patched
  in when \<open>fseek\<close> reached it, closed.
\<close>

definition write_part :: "save_env \<Rightarrow> string \<Rightarrow> bool \<Rightarrow> (node \<times> u32) list \<Rightarrow> byte list \<Rightarrow> disk \<Rightarrow> disk" where
  "write_part e part ok ws partial d =
     (let d1 = fs_write part (file_header 0) (fs_create part d);
          d2 = fs_write part (file_header 0 @ file_body ws @ partial) d1;
          hdr = (if se_patch e then file_header (of_nat (length ws)) else file_header 0);
          d3 = (if ok \<and> se_seek e then fs_write part (hdr @ file_body ws @ partial) d2 else d2)
      in fs_close d3)"

definition saveToFile :: "save_env \<Rightarrow> string \<Rightarrow> cache \<Rightarrow> disk \<Rightarrow> (save_result \<times> disk) option" where
  "saveToFile e path c d =
     (if path = [] \<or> \<not> arena c then Some (SaveFailed, d)
      else do {
        snap \<leftarrow> snapshot (se_now1 e) c;
        if snap = [] then Some (NothingToSave, d)
        else if \<not> se_mem e \<or> \<not> se_open e then Some (SaveFailed, d)
        else if kHeaderBytes > se_room e then
          Some (SaveFailed, fs_close (fs_write (partPath path) (take (se_room e) (file_header 0)) (fs_create (partPath path) d)))
        else do {
          (ok, ws, partial) \<leftarrow> save_loop e 0 snap kHeaderBytes [];
          let d1 = write_part e (partPath path) ok ws partial d;
          if \<not> ok \<or> (se_seek e \<and> \<not> se_patch e) \<or> \<not> se_close e
          then Some (SaveFailed, snd (fs_remove (se_drop e) (partPath path) d1))
          else
            (case publish (se_rm e) (se_mv e) path d1 of
               (True, d2) \<Rightarrow> Some (Saved (length ws), d2)
             | (False, d2) \<Rightarrow> Some (SaveFailed, d2))
        }})"

section \<open>Restoring\<close>

definition addr_text :: "iptext \<Rightarrow> u16 \<Rightarrow> byte list \<Rightarrow> string option" where
  "addr_text t q raw =
     (let w = (\<lambda>i. le32 (raw ! i) (raw ! (i + 1)) (raw ! (i + 2)) (raw ! (i + 3))) in
      if q = kTypeAaaa then t_ntop6 t (w 0, w 4, w 8, w 12) else t_ntop4 t (w 0))"

fun load_loop :: "iptext \<Rightarrow> (nat \<Rightarrow> clock) \<Rightarrow> CacheFileRecord list \<Rightarrow> nat \<Rightarrow> cache \<Rightarrow> (nat \<times> cache) option" where
  "load_loop t ks [] loaded c = Some (loaded, c)"
| "load_loop t ks (r # rs) loaded c =
     (let ips = List.map_filter (addr_text t (r_qtype r)) (r_addrs r) in
      if ips = [] then load_loop t ks rs loaded c
      else do {
        c1 \<leftarrow> storeInternal t (ks loaded) (r_name r) (r_qtype r) ips (r_ttl r) False (r_uses r) c;
        load_loop t ks rs (Suc loaded) c1
      })"

definition loadFromFile ::
  "iptext \<Rightarrow> (nat \<Rightarrow> clock) \<Rightarrow> bool \<Rightarrow> string \<Rightarrow> disk \<Rightarrow> cache \<Rightarrow> ((bool \<times> nat) \<times> cache \<times> disk) option" where
  "loadFromFile t ks mvOk path d c =
     (if path = [] \<or> \<not> arena c then Some ((False, 0), c, d)
      else
        (let d1 = recover mvOk path d in
         case cache_read (dk_vol d1 path) of (r, rs) \<Rightarrow>
         map_option (\<lambda>(n, c').
             if cr_status r \<in> {NotFound, BadHeader, UnsupportedVersion, ImplausibleCount} then ((False, 0), c', d1)
             else ((True, n), c', d1))
           (load_loop t ks rs 0 c)))"

section \<open>A save of a changing cache\<close>

lemma snapshot_eq:
  assumes "wf c chs fl []"
  shows "snapshot now c = Some (filter (\<lambda>i. worth_saving c now (nodes c ! i)) (concat chs))"
proof -
  have f: "foldl (\<lambda>acc i. if P i then acc @ [i] else acc) acc js = acc @ filter P js" for P acc js
    by (induction js arbitrary: acc) auto
  have l: "length (buckets c) = length chs" using repD(1) [OF wfD(1) [OF assms]] by simp
  show ?thesis
    unfolding snapshot_def all_buckets_eq [OF wfD(1) [OF assms]] l
    using foldl_concat [of "\<lambda>acc i. if worth_saving c now (nodes c ! i) then acc @ [i] else acc" chs "[]"] by (simp add: f)
qed

lemma shape_file_ready: "node_shape n \<Longrightarrow> nd_name n \<noteq> [] \<Longrightarrow> file_ready n"
  by (auto simp: node_shape_def slots_ok_def file_ready_def kMaxNameLen_c_def kMaxNameBytes_def)

lemma save_loop_spec:
  assumes "\<forall>s. \<forall>n \<in> set (nodes (se_at e s)). node_shape n" and "\<forall>s. \<forall>i \<in> set snap. i < length (nodes (se_at e s))"
    and "\<forall>(n, ttl) \<in> set ws. file_ready n"
  obtains ok ws' bs where "save_loop e s snap used ws = Some (ok, ws', bs)" and "\<forall>(n, ttl) \<in> set ws'. file_ready n"
    and "length ws' \<le> length ws + length snap" and "ok \<Longrightarrow> bs = []"
  using assms(2,3)
proof (induction snap arbitrary: s used ws thesis)
  case (Cons i snap)
  let ?n = "nodes (se_at e s) ! i" and ?t = "ttl_left (se_at e s) (se_now2 e) (nodes (se_at e s) ! i)"
  have i: "i < length (nodes (se_at e s))" and rest: "\<forall>s. \<forall>i \<in> set snap. i < length (nodes (se_at e s))"
    using Cons.prems(2) by simp_all
  consider (skip) "length (nd_name ?n) = 0 \<or> length (nd_name ?n) > kMaxNameBytes"
    | (full) "\<not> (length (nd_name ?n) = 0 \<or> length (nd_name ?n) > kMaxNameBytes)" "used + length (record_bytes ?n ?t) > se_room e"
    | (put) "\<not> (length (nd_name ?n) = 0 \<or> length (nd_name ?n) > kMaxNameBytes)" "\<not> used + length (record_bytes ?n ?t) > se_room e"
    by blast
  then show ?case
  proof cases
    case skip
    then have "save_loop e s (i # snap) used ws = save_loop e (Suc s) snap used ws" using i by (simp add: Let_def)
    then show ?thesis
      using Cons.IH [of "Suc s" used ws] Cons.prems(1,3) rest by (metis le_SucI length_Cons add_Suc_right)
  next
    case full
    then have "save_loop e s (i # snap) used ws = Some (False, ws, take (se_room e - used) (record_bytes ?n ?t))"
      using i by (simp add: Let_def)
    from Cons.prems(1) [OF this Cons.prems(3)] show ?thesis by simp
  next
    case put
    let ?ws = "ws @ [(?n, ?t)]"
    have "node_shape ?n" using assms(1) i nth_mem by blast
    then have "file_ready ?n" using put(1) by (intro shape_file_ready) auto
    then have fr: "\<forall>(n, ttl) \<in> set ?ws. file_ready n" using Cons.prems(3) by auto
    have "save_loop e s (i # snap) used ws = save_loop e (Suc s) snap (used + length (record_bytes ?n ?t)) ?ws"
      using put i by (simp add: Let_def)
    moreover obtain ok ws' bs where "save_loop e (Suc s) snap (used + length (record_bytes ?n ?t)) ?ws = Some (ok, ws', bs)"
        "\<forall>(n, ttl) \<in> set ws'. file_ready n" "length ws' \<le> length ?ws + length snap" "ok \<Longrightarrow> bs = []"
      using Cons.IH [OF _ rest fr] by blast
    ultimately show ?thesis using Cons.prems(1) by simp
  qed
qed simp

text \<open>
  The state of the cache when each node is copied: any reachable one with the same arena.
\<close>

definition traffic :: "save_env \<Rightarrow> cache \<Rightarrow> bool" where
  "traffic e c \<longleftrightarrow> (\<forall>s. cache_run (se_at e s) \<and> length (nodes (se_at e s)) = length (nodes c))"

text \<open>What is being written is the part, and nothing else on the volume changes.\<close>

definition part_only :: "string \<Rightarrow> volume \<Rightarrow> instant \<Rightarrow> bool" where
  "part_only path v i \<longleftrightarrow> (\<forall>p. p \<noteq> partPath path \<longrightarrow> fst i p = v p) \<and> snd i \<in> {None, Some (partPath path)}"

lemma write_part_spec:
  assumes "d1 = write_part e (partPath path) ok ws bs (mounted v)"
  shows "\<forall>i \<in> set (instants d1). part_only path v i" and "dk_writing d1 = None"
    and "ok \<Longrightarrow> bs = [] \<Longrightarrow> \<not> (se_seek e \<and> \<not> se_patch e) \<Longrightarrow> dk_vol d1 =
      v(partPath path \<mapsto> (if se_seek e then file_header (of_nat (length ws)) else file_header 0) @ file_body ws)"
  by (auto simp: assms write_part_def fs_defs instants_def mounted_def part_only_def Let_def)

text \<open>The ways a save can end: before the part is complete, and in the publication of the part.\<close>

lemma saveToFile_cases:
  assumes "cache_run c" and "traffic e c"
  obtains (idle) "saveToFile e path c (mounted v) = Some (NothingToSave, mounted v)"
  | (early) d' where "saveToFile e path c (mounted v) = Some (SaveFailed, d')" and "\<forall>i \<in> set (instants d'). part_only path v i"
  | (publishing) d1 ws b d' where
      "saveToFile e path c (mounted v) = Some (if b then Saved (length ws) else SaveFailed, d')"
      and "publish (se_rm e) (se_mv e) path d1 = (b, d')" and "\<forall>i \<in> set (instants d1). part_only path v i"
      and "dk_writing d1 = None"
      and "dk_vol d1 = v(partPath path \<mapsto> (if se_seek e then file_header (of_nat (length ws)) else file_header 0) @ file_body ws)"
      and "se_seek e \<Longrightarrow> fst (cache_check (Some (file_header (of_nat (length ws)) @ file_body ws)) (length ws))"
proof (cases "path = [] \<or> \<not> arena c")
  case True
  then show thesis using early [of "mounted v"] by (simp add: saveToFile_def instants_def mounted_def part_only_def)
next
  case False
  then obtain chs fl where wf: "wf c chs fl []" using cache_run_inv [OF assms(1)] by (auto simp: cache_inv_def)
  define snap where "snap = filter (\<lambda>i. worth_saving c (se_now1 e) (nodes c ! i)) (concat chs)"
  have sn: "snapshot (se_now1 e) c = Some snap" unfolding snap_def by (rule snapshot_eq [OF wf])
  have lc: "length (concat chs) \<le> length (nodes c)" using repD(6) [OF wfD(1) [OF wf]] entries_content(2) [OF wf] by simp
  have ls: "length snap \<le> kMaxPlausibleRecords"
    unfolding snap_def using lc cache_run_pool [OF assms(1)] length_filter_le le_trans by (metis pool_inv_def)
  have inb: "\<forall>s. \<forall>i \<in> set snap. i < length (nodes (se_at e s))"
    using rep_bound [OF wfD(1) [OF wf]] assms(2) by (auto simp: snap_def traffic_def)
  have shp: "\<forall>s. \<forall>n \<in> set (nodes (se_at e s)). node_shape n"
    using assms(2) cache_run_pool by (auto simp: traffic_def pool_inv_def)
  obtain ok ws bs where sl: "save_loop e 0 snap kHeaderBytes [] = Some (ok, ws, bs)" "\<forall>(n, ttl) \<in> set ws. file_ready n"
      "length ws \<le> length snap" "ok \<Longrightarrow> bs = []"
    using save_loop_spec [OF shp inb, of "[]" 0 kHeaderBytes] by auto
  let ?d1 = "write_part e (partPath path) ok ws bs (mounted v)"
  note wp = write_part_spec [OF refl, where e = e and path = path and ok = ok and ws = ws and bs = bs and v = v]
  consider (none) "snap = []" | (nomem) "snap \<noteq> []" "\<not> se_mem e \<or> \<not> se_open e"
    | (nohdr) "snap \<noteq> []" "se_mem e" "se_open e" "kHeaderBytes > se_room e"
    | (bad) "snap \<noteq> []" "se_mem e" "se_open e" "\<not> kHeaderBytes > se_room e"
        "\<not> ok \<or> (se_seek e \<and> \<not> se_patch e) \<or> \<not> se_close e"
    | (good) "snap \<noteq> []" "se_mem e" "se_open e" "\<not> kHeaderBytes > se_room e"
        "\<not> (\<not> ok \<or> (se_seek e \<and> \<not> se_patch e) \<or> \<not> se_close e)"
    by blast
  then show thesis
  proof cases
    case none
    show thesis by (rule idle) (use none False sn in \<open>simp add: saveToFile_def\<close>)
  next
    case nomem
    then show thesis using early [of "mounted v"] False sn
      by (auto simp: saveToFile_def instants_def mounted_def part_only_def)
  next
    case nohdr
    then show thesis
      using early [of "fs_close (fs_write (partPath path) (take (se_room e) (file_header 0)) (fs_create (partPath path) (mounted v)))"] False sn
      by (auto simp: saveToFile_def fs_defs instants_def mounted_def part_only_def)
  next
    case bad
    have "saveToFile e path c (mounted v) = Some (SaveFailed, snd (fs_remove (se_drop e) (partPath path) ?d1))"
      using bad False sn sl(1) by (auto simp: saveToFile_def Let_def)
    moreover have "\<forall>i \<in> set (instants (snd (fs_remove (se_drop e) (partPath path) ?d1))). part_only path v i"
      using wp(1,2) by (auto simp: fs_remove_def advance_def instants_def part_only_def)
    ultimately show thesis by (rule early)
  next
    case good
    obtain b d' where pub: "publish (se_rm e) (se_mv e) path ?d1 = (b, d')" by fastforce
    have run: "saveToFile e path c (mounted v) = Some (if b then Saved (length ws) else SaveFailed, d')"
      using good False sn sl(1) pub by (auto simp: saveToFile_def Let_def split: bool.splits)
    have "fst (cache_check (Some (file_header (of_nat (length ws)) @ file_body ws)) (length ws))"
      using cache_read_written [OF sl(2) le_trans [OF sl(3) ls] refl] by (simp add: cache_check_def file_body_def)
    then show thesis using publishing [OF run pub wp(1,2) wp(3)] good sl(4) by blast
  qed
qed

end
