(* ===== verification/CacheRestore.thy ===== *)
theory CacheRestore
  imports CacheSave
begin

text \<open>
  What a save and the load after a restart guarantee together: the file a save reports is one the
  reader accepts, whatever the DNS traffic did meanwhile, a save that fails or is cut off by a power loss
  leaves the old file or the complete new one, and a cache that held still comes back with
  the records, counters, addresses and lifetimes it had.
\<close>

declare set_concat [simp del]

section \<open>A restore of a saved cache\<close>

text \<open>What a record of the file leads to: its name, type, lifetime, counter and the texts of its addresses.\<close>

definition rec_key :: "CacheFileRecord \<Rightarrow> key" where
  "rec_key r = (r_name r, r_qtype r)"

definition rec_texts :: "iptext \<Rightarrow> CacheFileRecord \<Rightarrow> string list" where
  "rec_texts t r = List.map_filter (addr_text t (r_qtype r)) (r_addrs r)"

definition loadable :: "iptext \<Rightarrow> CacheFileRecord \<Rightarrow> bool" where
  "loadable t r \<longleftrightarrow> r_name r \<noteq> [] \<and> length (r_name r) < kMaxNameLen_c \<and> cstr (lower (r_name r)) = r_name r
     \<and> r_qtype r \<in> {kTypeA, kTypeAaaa} \<and> rec_texts t r \<noteq> [] \<and> keeps_text t (r_qtype r) (rec_texts t r)
     \<and> length (rec_texts t r) \<le> room_for (r_qtype r) \<and> r_uses r \<le> ucast UINT32_MAX"

definition restored :: "iptext \<Rightarrow> CacheFileRecord \<Rightarrow> node \<Rightarrow> bool" where
  "restored t r n \<longleftrightarrow> nd_uses n = ucast (r_uses r) \<and> nd_ttl n = r_ttl r \<and> node_ips t (r_qtype r) n = rec_texts t r"

lemma load_one:
  assumes "cache_inv c" and "arena c" and "loadable t r" and "content c (rec_key r) = None"
    and "card (dom (content c)) < length (nodes c)"
  obtains c1 n where "storeInternal t k (r_name r) (r_qtype r) (rec_texts t r) (r_ttl r) False (r_uses r) c = Some c1"
    and "cache_inv c1" and "arena c1" and "length (nodes c1) = length (nodes c)"
    and "content c1 = (content c)(rec_key r \<mapsto> n)" and "restored t r n"
proof -
  note l = assms(3) [unfolded loadable_def]
  have k: "(cstr (lower (r_name r)), r_qtype r) = rec_key r" using l by (simp add: rec_key_def)
  obtain c1 m n where s: "storeInternal t k (r_name r) (r_qtype r) (rec_texts t r) (r_ttl r) False (r_uses r) c = Some c1"
      "cache_inv c1" "makes_room c (k_nowMs k) (rec_key r) m" "content c1 = m(rec_key r \<mapsto> n)"
      "stored_record t k (rec_key r) (rec_texts t r) (r_ttl r) (uses_after c (rec_key r) False (r_uses r)) n"
      "arena c1" "length (nodes c1) = length (nodes c)"
    using storeInternal_spec [OF assms(1,2), of "r_name r" "rec_texts t r" "r_qtype r" t k "r_ttl r" False "r_uses r"] l
    unfolding k by metis
  obtain chs fl where "wf c chs fl []" using assms(1,2) by (auto simp: cache_inv_def)
  then have "entries c < int (length (nodes c))" using entries_content(1) assms(5) by fastforce
  then have "m = content c" using s(3) by (simp add: makes_room_def)
  moreover have "uses_after c (rec_key r) False (r_uses r) = ucast (r_uses r)"
    using l by (auto simp: uses_after_def)
  moreover have "node_ips t (r_qtype r) n = take (room_for (r_qtype r)) (rec_texts t r)" "nd_ttl n = r_ttl r"
      "nd_uses n = uses_after c (rec_key r) False (r_uses r)"
    using stored_record_views [OF s(5)] l by (simp_all add: rec_key_def)
  ultimately show thesis using that s l by (simp add: restored_def)
qed

lemma load_loop_spec:
  assumes "cache_inv c" and "arena c" and "\<forall>r \<in> set rs. loadable t r" and "distinct (map rec_key rs)"
    and "rec_key ` set rs \<inter> dom (content c) = {}" and "card (dom (content c)) + length rs \<le> length (nodes c)"
  obtains c' where "load_loop t ks rs n c = Some (n + length rs, c')"
    and "\<forall>x. x \<notin> rec_key ` set rs \<longrightarrow> content c' x = content c x"
    and "\<forall>r \<in> set rs. \<exists>m. content c' (rec_key r) = Some m \<and> restored t r m"
  using assms
proof (induction rs arbitrary: c n thesis)
  case (Cons r rs)
  have ld: "loadable t r" "\<forall>r \<in> set rs. loadable t r" using Cons.prems(4) by simp_all
  have fresh: "content c (rec_key r) = None" using Cons.prems(6) by auto
  have cap: "card (dom (content c)) < length (nodes c)" using Cons.prems(7) by simp
  obtain c1 m where s: "storeInternal t (ks n) (r_name r) (r_qtype r) (rec_texts t r) (r_ttl r) False (r_uses r) c = Some c1"
      "cache_inv c1" "arena c1" "length (nodes c1) = length (nodes c)"
      "content c1 = (content c)(rec_key r \<mapsto> m)" "restored t r m"
    by (rule load_one [OF Cons.prems(2,3) ld(1) fresh cap])
  obtain chs fl where wf: "wf c chs fl []" using Cons.prems(2,3) by (auto simp: cache_inv_def)
  have "dom (content c1) = insert (rec_key r) (dom (content c))" using s(5) by simp
  then have "card (dom (content c1)) = Suc (card (dom (content c)))"
    using fresh entries_content(3) [OF wf] by (simp add: card_insert_disjoint domIff)
  then have room: "card (dom (content c1)) + length rs \<le> length (nodes c1)" using Cons.prems(7) s(4) by simp
  have dis: "distinct (map rec_key rs)" "rec_key r \<notin> rec_key ` set rs" using Cons.prems(5) by auto
  have new: "rec_key ` set rs \<inter> dom (content c1) = {}" using Cons.prems(6) dis(2) s(5) by auto
  obtain c' where c': "load_loop t ks rs (Suc n) c1 = Some (Suc n + length rs, c')"
      "\<forall>x. x \<notin> rec_key ` set rs \<longrightarrow> content c' x = content c1 x"
      "\<forall>r \<in> set rs. \<exists>m. content c' (rec_key r) = Some m \<and> restored t r m"
    using Cons.IH [OF _ s(2,3) ld(2) dis(1) new room] by blast
  have "rec_texts t r \<noteq> []" using ld(1) by (simp add: loadable_def)
  then have "load_loop t ks (r # rs) n c = Some (n + length (r # rs), c')"
    using s(1) c'(1) by (simp add: rec_texts_def Let_def)
  moreover have "content c' (rec_key r) = Some m" using c'(2) [rule_format, OF dis(2)] s(5) by simp
  ultimately show ?case using Cons.prems(1) c'(2,3) s(5,6) by auto
qed simp

text \<open>Text and binary form of an address determine each other.\<close>

definition text_exact :: "iptext \<Rightarrow> bool" where
  "text_exact t \<longleftrightarrow> (\<forall>a. \<exists>s. t_ntop4 t a = Some s \<and> t_pton4 t s = Some a)
     \<and> (\<forall>a. \<exists>s. t_ntop6 t a = Some s \<and> t_pton6 t s = Some a)"

lemma le32_mem32: "le32 (mem32 w ! 0) (mem32 w ! 1) (mem32 w ! 2) (mem32 w ! 3) = w"
  by (simp add: mem32_def)

lemma addr_text_mem32: "addr_text t kTypeA (mem32 a) = t_ntop4 t a"
  using le32_mem32 [of a] by (simp add: addr_text_def numeral_3_eq_3 numeral_2_eq_2)

lemma addr_text_mem6: "addr_text t kTypeAaaa (mem6 a) = t_ntop6 t a"
  by (cases a) (simp add: addr_text_def mem32_def)

lemma map_filter_map: "List.map_filter f (map g xs) = List.map_filter (f \<circ> g) xs"
  by (induction xs) (auto simp: List.map_filter_def)

lemma rec_texts_record:
  assumes "file_ready n"
  shows "rec_texts t (record_of n ttl) = node_ips t (nd_qtype n) n"
  using assms
  by (auto simp: rec_texts_def record_of_def node_ips_def file_ready_def map_filter_map comp_def
      addr_text_mem32 addr_text_mem6 kTypeA_def [symmetric] kTypeAaaa_def [symmetric])


lemma mem_map_filter: "y \<in> set (List.map_filter f xs) \<Longrightarrow> \<exists>x. f x = Some y"
  by (auto simp: List.map_filter_def)

lemma map_filter_nonempty: "f x \<noteq> None \<Longrightarrow> x \<in> set xs \<Longrightarrow> List.map_filter f xs \<noteq> []"
  by (induction xs) (auto simp: List.map_filter_def)

lemma text_exactD:
  assumes "text_exact t"
  shows "t_ntop4 t a \<noteq> None" and "t_ntop6 t b \<noteq> None"
    and "t_ntop4 t a = Some s \<Longrightarrow> t_pton4 t s = Some a" and "t_ntop6 t b = Some s \<Longrightarrow> t_pton6 t s = Some b"
  using assms unfolding text_exact_def by (metis option.distinct(1) option.inject)+

lemma keeps_text_node_ips:
  assumes "text_exact t" and "q \<in> {kTypeA, kTypeAaaa}"
  shows "keeps_text t q (node_ips t q n)"
proof (cases "q = kTypeA")
  case True
  have "\<exists>a. t_pton4 t ip = Some a \<and> t_ntop4 t a = Some ip" if "ip \<in> set (List.map_filter (t_ntop4 t) as)" for ip as
    using mem_map_filter [OF that] text_exactD(3) [OF assms(1)] by blast
  then show ?thesis using True by (simp add: keeps_text_def node_ips_def kTypeA_def)
next
  case False
  have "\<exists>a. t_pton6 t ip = Some a \<and> t_ntop6 t a = Some ip" if "ip \<in> set (List.map_filter (t_ntop6 t) as)" for ip as
    using mem_map_filter [OF that] text_exactD(4) [OF assms(1)] by blast
  then show ?thesis using False assms(2) by (simp add: keeps_text_def node_ips_def kTypeA_def kTypeAaaa_def)
qed

lemma length_map_filter: "length (List.map_filter f xs) \<le> length xs"
  by (simp add: List.map_filter_def)

lemma node_ips_bounds:
  assumes "node_shape n" and "nd_name n \<noteq> []"
  shows "length (node_ips t (nd_qtype n) n) \<le> room_for (nd_qtype n)" and "text_exact t \<Longrightarrow> node_ips t (nd_qtype n) n \<noteq> []"
proof -
  have q: "nd_qtype n = kTypeA \<and> 0 < nd_nA n \<or> nd_qtype n = kTypeAaaa \<and> 0 < nd_nAAAA n"
    and sl: "length (nd_a4 n) = kMaxA" "length (nd_a6 n) = kMaxAAAA" "nd_nA n \<le> kMaxA" "nd_nAAAA n \<le> kMaxAAAA"
    using assms by (auto simp: node_shape_def slots_ok_def)
  show "length (node_ips t (nd_qtype n) n) \<le> room_for (nd_qtype n)"
    using q sl length_map_filter [of "t_ntop4 t" "take (nd_nA n) (nd_a4 n)"] length_map_filter [of "t_ntop6 t" "take (nd_nAAAA n) (nd_a6 n)"]
    by (auto simp: node_ips_def room_for_def kTypeA_def kTypeAaaa_def)
  assume t: "text_exact t"
  have m4: "List.map_filter (t_ntop4 t) as \<noteq> []" if "as \<noteq> []" for as
    using map_filter_nonempty [of "t_ntop4 t" "hd as" as] text_exactD(1) [OF t] hd_in_set [OF that] by blast
  have m6: "List.map_filter (t_ntop6 t) as \<noteq> []" if "as \<noteq> []" for as
    using map_filter_nonempty [of "t_ntop6 t" "hd as" as] text_exactD(2) [OF t] hd_in_set [OF that] by blast
  have "length (nd_a4 n) \<noteq> 0" "length (nd_a6 n) \<noteq> 0" using sl by (simp_all add: kMaxA_def kMaxAAAA_def)
  then have "0 < nd_nA n \<Longrightarrow> take (nd_nA n) (nd_a4 n) \<noteq> []" "0 < nd_nAAAA n \<Longrightarrow> take (nd_nAAAA n) (nd_a6 n) \<noteq> []"
    by simp_all
  then show "node_ips t (nd_qtype n) n \<noteq> []"
    using q m4 m6 unfolding node_ips_def kTypeA_def kTypeAaaa_def by auto
qed

lemma uses_fit: "(ucast (u :: u32) :: u64) \<le> ucast UINT32_MAX" "ucast (ucast (u :: u32) :: u64) = u"
proof -
  have "unat u < 2 ^ LENGTH(32)" by (rule unsigned_less)
  then have "unat u \<le> 4294967295" by simp
  then show "(ucast (u :: u32) :: u64) \<le> ucast UINT32_MAX"
    by (simp add: word_le_nat_alt UINT32_MAX_def unsigned_ucast_eq take_bit_nat_eq_self)
  show "ucast (ucast u :: u64) = u" by (rule bit_word_eqI) (simp add: bit_simps)
qed

lemma record_loadable:
  assumes "node_shape n" and "nd_name n \<noteq> []" and "text_exact t"
  shows "loadable t (record_of n ttl)"
proof -
  have r: "rec_texts t (record_of n ttl) = node_ips t (nd_qtype n) n"
    by (rule rec_texts_record [OF shape_file_ready [OF assms(1,2)]])
  have f: "r_name (record_of n ttl) = nd_name n" "r_qtype (record_of n ttl) = nd_qtype n"
      "r_uses (record_of n ttl) = ucast (nd_uses n)"
    by (simp_all add: record_of_def)
  show ?thesis
    unfolding loadable_def r f
    using assms node_ips_bounds [OF assms(1,2)] keeps_text_node_ips [OF assms(3), of "nd_qtype n" n] uses_fit(1)
    by (auto simp: node_shape_def)
qed


text \<open>A save of a cache that nobody changes meanwhile writes the snapshot, record by record.\<close>

definition file_rows :: "save_env \<Rightarrow> cache \<Rightarrow> nat list \<Rightarrow> (node \<times> u32) list" where
  "file_rows e c snap = map (\<lambda>i. (nodes c ! i, ttl_left c (se_now2 e) (nodes c ! i))) snap"

definition savable :: "cache \<Rightarrow> nat \<Rightarrow> bool" where
  "savable c i \<longleftrightarrow> i < length (nodes c) \<and> nd_name (nodes c ! i) \<noteq> [] \<and> node_shape (nodes c ! i)"

lemma save_loop_step:
  assumes "\<forall>s. se_at e s = c" and "savable c i"
  shows "save_loop e s (i # snap) used ws =
      (if used + length (record_bytes (nodes c ! i) (ttl_left c (se_now2 e) (nodes c ! i))) > se_room e
       then Some (False, ws, take (se_room e - used) (record_bytes (nodes c ! i) (ttl_left c (se_now2 e) (nodes c ! i))))
       else save_loop e (Suc s) snap (used + length (record_bytes (nodes c ! i) (ttl_left c (se_now2 e) (nodes c ! i))))
              (ws @ [(nodes c ! i, ttl_left c (se_now2 e) (nodes c ! i))]))"
  using assms by (auto simp: savable_def node_shape_def kMaxNameLen_c_def kMaxNameBytes_def Let_def)

lemma save_loop_quiet:
  assumes "\<forall>s. se_at e s = c"
  shows "\<forall>i \<in> set snap. savable c i \<Longrightarrow> save_loop e s snap used ws = Some (True, ws', bs) \<Longrightarrow> ws' = ws @ file_rows e c snap"
proof (induction snap arbitrary: s used ws)
  case (Cons i snap)
  then have "savable c i" by simp
  from Cons.prems(2) [unfolded save_loop_step [OF assms this]] Cons.IH Cons.prems(1) show ?case
    by (fastforce simp: file_rows_def split: if_splits)
qed (simp add: file_rows_def)

lemma save_loop_fits:
  assumes "\<forall>s. se_at e s = c"
  shows "\<forall>i \<in> set snap. savable c i \<Longrightarrow> used + length (file_body (file_rows e c snap)) \<le> se_room e \<Longrightarrow>
      save_loop e s snap used ws = Some (True, ws @ file_rows e c snap, [])"
proof (induction snap arbitrary: s used ws)
  case (Cons i snap)
  then have "savable c i" by simp
  with Cons show ?case
    unfolding save_loop_step [OF assms \<open>savable c i\<close>] by (simp add: file_rows_def file_body_def)
qed (simp add: file_rows_def)

lemma save_loop_done: "save_loop e s snap used ws = Some (True, ws', bs) \<Longrightarrow> bs = []"
  by (induction e s snap used ws rule: save_loop.induct) (auto simp: Let_def split: if_splits)

lemma save_Saved:
  assumes "saveToFile e path c d = Some (Saved n, d')" and "se_seek e"
  obtains snap ws where "path \<noteq> []" and "arena c" and "snapshot (se_now1 e) c = Some snap"
    and "save_loop e 0 snap kHeaderBytes [] = Some (True, ws, [])" and "n = length ws"
    and "dk_vol d' path = Some (file_header (of_nat n) @ file_body ws)"
proof -
  have p: "path \<noteq> []" "arena c" using assms(1) by (auto simp: saveToFile_def split: if_splits)
  obtain snap where sn: "snapshot (se_now1 e) c = Some snap"
    using assms(1) p by (cases "snapshot (se_now1 e) c") (auto simp: saveToFile_def)
  obtain ok ws bs where sl: "save_loop e 0 snap kHeaderBytes [] = Some (ok, ws, bs)"
    using assms(1) p sn by (cases "save_loop e 0 snap kHeaderBytes []") (auto simp: saveToFile_def split: if_splits)
  let ?f = "file_header (of_nat (length ws)) @ file_body ws"
  let ?d1 = "write_part e (partPath path) ok ws bs d"
  have ok: "ok" "se_patch e" and pub: "publish (se_rm e) (se_mv e) path ?d1 = (True, d')" "n = length ws"
    using assms p sn sl by (auto simp: saveToFile_def Let_def split: if_splits prod.splits bool.splits)
  have bs: "bs = []" using save_loop_done sl ok(1) by simp
  have "dk_vol ?d1 (partPath path) = Some ?f" "dk_writing ?d1 = None"
    using ok assms(2) by (simp_all add: write_part_def fs_defs bs Let_def)
  from publish_spec(1) [OF pub(1) this] have "dk_vol d' path = Some ?f" by simp
  with that p sn sl ok bs pub(2) show thesis by simp
qed

lemma snapshot_savable:
  assumes "cache_run c" and "wf c chs fl []" and "snap = filter (\<lambda>i. worth_saving c now (nodes c ! i)) (concat chs)"
  shows "\<forall>i \<in> set snap. savable c i"
  using rep_bound [OF wfD(1) [OF assms(2)]] cache_run_pool [OF assms(1)]
  by (auto simp: assms(3) savable_def worth_saving_def pool_inv_def)

section \<open>The records of a quiet save\<close>

definition saved_rec :: "save_env \<Rightarrow> cache \<Rightarrow> nat \<Rightarrow> CacheFileRecord" where
  "saved_rec e c i = record_of (nodes c ! i) (ttl_left c (se_now2 e) (nodes c ! i))"

lemma rec_key_saved: "rec_key (saved_rec e c i) = node_key (nodes c ! i)"
  by (simp add: saved_rec_def rec_key_def record_of_def node_key_def)

lemma snapshot_bound:
  assumes "cache_run c" and "wf c chs fl []"
  shows "length (filter P (concat chs)) \<le> kMaxPlausibleRecords"
proof -
  have "length (filter P (concat chs)) \<le> length (concat chs)" by (rule length_filter_le)
  also have "\<dots> \<le> length (nodes c)" using entries_content(2) [OF assms(2)] repD(6) [OF wfD(1) [OF assms(2)]] by simp
  also have "\<dots> \<le> kMaxPlausibleRecords" using cache_run_pool [OF assms(1)] by (simp add: pool_inv_def)
  finally show ?thesis .
qed

lemma quiet_save_file:
  assumes "cache_run c" and "\<forall>s. se_at e s = c" and "se_seek e" and "saveToFile e path c d = Some (Saved n, d')"
  obtains chs fl snap where "wf c chs fl []"
    and "snap = filter (\<lambda>i. worth_saving c (se_now1 e) (nodes c ! i)) (concat chs)"
    and "path \<noteq> []" and "n = length snap" and "dk_vol d' path \<noteq> None"
    and "cr_status (fst (cache_read (dk_vol d' path))) = FOk" and "snd (cache_read (dk_vol d' path)) = map (saved_rec e c) snap"
proof -
  obtain snap ws where s: "path \<noteq> []" "arena c" "snapshot (se_now1 e) c = Some snap"
      "save_loop e 0 snap kHeaderBytes [] = Some (True, ws, [])" "n = length ws"
      "dk_vol d' path = Some (file_header (of_nat n) @ file_body ws)"
    by (rule save_Saved [OF assms(4,3)])
  obtain chs fl where wf: "wf c chs fl []" using cache_run_inv [OF assms(1)] s(2) by (auto simp: cache_inv_def)
  have snap: "snap = filter (\<lambda>i. worth_saving c (se_now1 e) (nodes c ! i)) (concat chs)"
    using snapshot_eq [OF wf, of "se_now1 e"] s(3) by simp
  note sv = snapshot_savable [OF assms(1) wf snap]
  have ws: "ws = file_rows e c snap" using save_loop_quiet [OF assms(2) sv s(4)] by simp
  have fr: "\<forall>(m, ttl) \<in> set ws. file_ready m"
    using sv shape_file_ready by (auto simp: ws file_rows_def savable_def)
  have le: "length ws \<le> kMaxPlausibleRecords"
    using snapshot_bound [OF assms(1) wf] by (simp add: ws file_rows_def snap)
  have "map (\<lambda>(m, ttl). record_of m ttl) ws = map (saved_rec e c) snap"
    by (simp add: ws file_rows_def saved_rec_def)
  then have "cr_status (fst (cache_read (dk_vol d' path))) = FOk" "snd (cache_read (dk_vol d' path)) = map (saved_rec e c) snap"
    using cache_read_written [OF fr le refl] s(5,6) by (simp_all add: file_body_def)
  moreover have "n = length snap" by (simp add: s(5) ws file_rows_def)
  ultimately show thesis using that [OF wf snap s(1)] s(6) by simp
qed

lemma snapshot_keys:
  assumes "wf c chs fl []" and "snap = filter P (concat chs)"
  shows "distinct (map rec_key (map (saved_rec e c) snap))"
    and "content c x = None \<Longrightarrow> x \<notin> rec_key ` set (map (saved_rec e c) snap)"
    and "i \<in> set (concat chs) \<Longrightarrow> rec_key (saved_rec e c i) \<in> rec_key ` set (map (saved_rec e c) snap) \<longleftrightarrow> P i"
proof -
  have inj: "inj_on (\<lambda>i. node_key (nodes c ! i)) (set (concat chs))" using assms(1) by (simp add: wf_def)
  have sub: "set snap \<subseteq> set (concat chs)" by (auto simp: assms(2))
  have "distinct snap" using rep_distinct [OF wfD(1) [OF assms(1)]] by (simp add: assms(2))
  then show "distinct (map rec_key (map (saved_rec e c) snap))"
    using inj_on_subset [OF inj sub] by (simp add: comp_def rec_key_saved distinct_map)
  show "content c x = None \<Longrightarrow> x \<notin> rec_key ` set (map (saved_rec e c) snap)"
    using content_None_iff [OF assms(1), of x] sub by (auto simp: rec_key_saved)
  show "i \<in> set (concat chs) \<Longrightarrow> rec_key (saved_rec e c i) \<in> rec_key ` set (map (saved_rec e c) snap) \<longleftrightarrow> P i"
    using inj sub assms(2) by (auto simp: rec_key_saved inj_on_def image_image)
qed

lemma ttl_left_strip: "ttl_left c now (strip n) = ttl_left c now n"
  by (simp add: ttl_left_def Let_def)

lemma restored_saved:
  assumes "savable c i" and "restored t (saved_rec e c i) m" and "r = strip (nodes c ! i)"
  shows "nd_uses m = nd_uses r \<and> nd_ttl m = ttl_left c (se_now2 e) r \<and> node_ips t (nd_qtype r) m = node_ips t (nd_qtype r) r"
proof -
  have "rec_texts t (saved_rec e c i) = node_ips t (nd_qtype (nodes c ! i)) (nodes c ! i)"
    using assms(1) unfolding saved_rec_def by (intro rec_texts_record shape_file_ready) (auto simp: savable_def)
  then show ?thesis
    using assms(2,3) by (auto simp: restored_def saved_rec_def record_of_def uses_fit(2) ttl_left_strip)
qed

section \<open>Properties\<close>

text \<open>
  C23. A save ends, whatever the DNS traffic does meanwhile, also when nodes it has listed are freed or
  reused before it copies them (the cache stays enabled). When it reports a number of records, the file
  it leaves passes the read-back check with exactly that number and no part is left behind. When it
  reports a failure, either the old file is untouched or it was just removed and the complete new one
  stands in the part, where recovery finds it. No other file changes. The header must be reachable by
  \<open>fseek\<close> for the count to be patched in.
\<close>

theorem save_under_traffic:
  assumes "cache_run c" and "traffic e c" and "se_seek e"
  shows "\<exists>res d'. saveToFile e path c (mounted v) = Some (res, d')
    \<and> (case res of
         Saved n \<Rightarrow> (\<exists>f. dk_vol d' path = Some f \<and> fst (cache_check (Some f) n)) \<and> dk_vol d' (partPath path) = None
       | NothingToSave \<Rightarrow> dk_vol d' = v
       | SaveFailed \<Rightarrow> dk_vol d' path = v path
           \<or> dk_vol d' path = None \<and> (\<exists>f n. dk_vol d' (partPath path) = Some f \<and> fst (cache_check (Some f) n)))
    \<and> (\<forall>p. p \<notin> {path, partPath path} \<longrightarrow> dk_vol d' p = v p)"
  using assms(1,2)
proof (cases rule: saveToFile_cases [where path = path and v = v])
  case idle
  then show ?thesis by (auto simp: mounted_def)
next
  case (early d')
  then have "part_only path v (dk_vol d', dk_writing d')" by (simp add: instants_def)
  with early(1) show ?thesis by (auto simp: part_only_def)
next
  case (publishing d1 ws b d')
  let ?f = "file_header (of_nat (length ws)) @ file_body ws"
  have part: "dk_vol d1 = v(partPath path \<mapsto> ?f)" and ok: "fst (cache_check (Some ?f) (length ws))"
    using publishing(5,6) assms(3) by simp_all
  then have "dk_vol d1 (partPath path) = Some ?f" by simp
  note p = publish_spec [OF publishing(2) this publishing(4)]
  show ?thesis
  proof (cases b)
    case True
    with p(1) publishing(1) ok part show ?thesis by auto
  next
    case False
    with p(2) publishing(1) ok part show ?thesis by (auto split: if_splits)
  qed
qed

text \<open>
  C24. A save over an existing file is atomic under power cuts: there is one complete file that passes
  the read-back check such that, wherever among the instants of the save the power is cut and whatever
  that leaves of a file being written, the device has after its restart the old file or that new one,
  also when the first recovery fails or is cut itself.
\<close>

theorem save_survives_power_cut:
  assumes "cache_run c" and "traffic e c" and "se_seek e" and "v path = Some old"
  shows "\<exists>res d' f n. saveToFile e path c (mounted v) = Some (res, d') \<and> (f = old \<or> fst (cache_check (Some f) n))
    \<and> (\<forall>i \<in> set (instants d'). \<forall>u. power_cut i u \<longrightarrow> after_restart path u \<subseteq> {Some old, Some f})"
proof -
  have safe: "?thesis" if "saveToFile e path c (mounted v) = Some (res, d')" "f = old \<or> fst (cache_check (Some f) n)"
      "\<forall>i \<in> set (instants d'). recoverable path old f i" for res d' f n
  proof -
    have "\<forall>i \<in> set (instants d'). \<forall>u. power_cut i u \<longrightarrow> after_restart path u \<subseteq> {Some old, Some f}"
      by (intro ballI allI impI after_restart_safe) (use that(3) in blast)
    with that(1,2) show ?thesis by blast
  qed
  have part: "recoverable path old f i" if "part_only path v i" for f i
    using that assms(4) by (cases i) (auto simp: part_only_def recoverable_def)
  have keep: "old = old \<or> fst (cache_check (Some old) 0)" by simp
  from assms(1,2) show ?thesis
  proof (cases rule: saveToFile_cases [where path = path and v = v])
    case idle
    show ?thesis by (rule safe [OF idle keep]) (simp add: instants_def mounted_def recoverable_def assms(4))
  next
    case (early d')
    have "\<forall>i \<in> set (instants d'). recoverable path old old i" using early(2) part by simp
    then show ?thesis by (intro safe [OF early(1) keep])
  next
    case (publishing d1 ws b d')
    let ?f = "file_header (of_nat (length ws)) @ file_body ws"
    have d1: "dk_vol d1 = v(partPath path \<mapsto> ?f)" "fst (cache_check (Some ?f) (length ws))"
      using publishing(5,6) assms(3) by simp_all
    then have "dk_vol d1 (partPath path) = Some ?f" by simp
    note p = publish_spec(3) [OF publishing(2) this publishing(4)]
    have "recoverable path old ?f i" if "i \<in> set (instants d')" for i
      using p [rule_format, OF that] publishing(3) part d1(1) by (auto simp: recoverable_def)
    then show ?thesis by (intro safe [OF publishing(1) disjI2 [OF d1(2)]] ballI)
  qed
qed

text \<open>A working volume with room, and a cache that holds still.\<close>

definition calm :: "cache \<Rightarrow> u32 \<Rightarrow> save_env" where
  "calm c now = \<lparr>se_now1 = now, se_now2 = now, se_at = (\<lambda>_. c), se_mem = True, se_open = True, se_room = 2000000,
     se_seek = True, se_patch = True, se_close = True, se_drop = True, se_rm = True, se_mv = True\<rparr>"

lemma calm_traffic: "cache_run c \<Longrightarrow> traffic (calm c now) c"
  by (simp add: traffic_def calm_def)

text \<open>
  C22. A planned restart loses nothing: a cache saved while it holds still and loaded into an empty one
  with as many nodes has, after the load, exactly the named records that had not expired, each with its
  addresses in order, its use counter and the lifetime that was left.
\<close>

theorem restart_roundtrip:
  assumes "cache_run c" and "\<forall>s. se_at e s = c" and "se_seek e" and "saveToFile e path c d = Some (Saved n, d')"
    and "cache_run c2" and "arena c2" and "content c2 = Map.empty" and "n \<le> length (nodes c2)" and "text_exact t"
  shows "\<exists>c3. loadFromFile t ks mvOk path d' c2 = Some ((True, n), c3, d')
    \<and> (\<forall>x. case content c x of
          None \<Rightarrow> content c3 x = None
        | Some r \<Rightarrow>
            if worth_saving c (se_now1 e) r
            then \<exists>r'. content c3 x = Some r' \<and> nd_uses r' = nd_uses r \<and> nd_ttl r' = ttl_left c (se_now2 e) r
                   \<and> node_ips t (snd x) r' = node_ips t (snd x) r
            else content c3 x = None)"
proof -
  obtain chs fl snap where q: "wf c chs fl []"
      "snap = filter (\<lambda>i. worth_saving c (se_now1 e) (nodes c ! i)) (concat chs)"
      "path \<noteq> []" "n = length snap" "dk_vol d' path \<noteq> None"
      "cr_status (fst (cache_read (dk_vol d' path))) = FOk" "snd (cache_read (dk_vol d' path)) = map (saved_rec e c) snap"
    by (rule quiet_save_file [OF assms(1-4)])
  note sv = snapshot_savable [OF assms(1) q(1,2)] and keys = snapshot_keys [where e = e, OF q(1,2)]
  define rs where "rs = map (saved_rec e c) snap"
  have ld: "\<forall>r \<in> set rs. loadable t r"
    using sv record_loadable [OF _ _ assms(9)] by (auto simp: rs_def savable_def saved_rec_def)
  obtain c3 where c3: "load_loop t ks rs 0 c2 = Some (0 + length rs, c3)"
      "\<forall>x. x \<notin> rec_key ` set rs \<longrightarrow> content c3 x = content c2 x"
      "\<forall>r \<in> set rs. \<exists>m. content c3 (rec_key r) = Some m \<and> restored t r m"
    using load_loop_spec [OF cache_run_inv [OF assms(5)] assms(6) ld, of ks 0] keys(1) assms(7,8) q(4)
    by (auto simp: rs_def)
  have "recover mvOk path d' = d'" using q(5) by (simp add: recover_def readable_def)
  moreover obtain rd where "cache_read (dk_vol d' path) = (rd, rs)" "cr_status rd = FOk"
    using q(6,7) by (metis prod.collapse rs_def)
  ultimately have load: "loadFromFile t ks mvOk path d' c2 = Some ((True, n), c3, d')"
    using q(3,4) assms(6) c3(1) by (simp add: loadFromFile_def Let_def rs_def)
  have gone: "content c3 x = None" if "x \<notin> rec_key ` set rs" for x
    using c3(2) [rule_format, OF that] assms(7) by simp
  have "case content c x of None \<Rightarrow> content c3 x = None
      | Some r \<Rightarrow> if worth_saving c (se_now1 e) r
            then \<exists>r'. content c3 x = Some r' \<and> nd_uses r' = nd_uses r \<and> nd_ttl r' = ttl_left c (se_now2 e) r
                   \<and> node_ips t (snd x) r' = node_ips t (snd x) r
            else content c3 x = None" for x
  proof (cases "content c x")
    case None
    then show ?thesis using gone keys(2) by (simp add: rs_def)
  next
    case (Some r)
    then obtain i where i: "i \<in> set (concat chs)" "x = node_key (nodes c ! i)" "r = strip (nodes c ! i)"
      using content_iff [OF q(1), of x r] by blast
    have w: "worth_saving c (se_now1 e) r \<longleftrightarrow> i \<in> set snap" using i by (simp add: q(2) worth_saving_def)
    show ?thesis
    proof (cases "i \<in> set snap")
      case True
      then obtain m where m: "content c3 x = Some m" "restored t (saved_rec e c i) m"
        using c3(3) i(2) by (auto simp: rs_def rec_key_saved)
      have "nd_qtype r = snd x" using i by (simp add: node_key_def)
      then show ?thesis using restored_saved [OF _ m(2) i(3)] sv True m(1) Some w by auto
    next
      case False
      then have "x \<notin> rec_key ` set rs" using keys(3) [OF i(1)] i w by (simp add: rs_def rec_key_saved worth_saving_def)
      then show ?thesis using gone False Some w by simp
    qed
  qed
  with load show ?thesis by blast
qed


text \<open>An address text that is just the bytes.\<close>

definition byte_text :: iptext where
  "byte_text = \<lparr>t_pton4 = (\<lambda>s. let b = map char_byte s in Some (le32 (b ! 0) (b ! 1) (b ! 2) (b ! 3))),
     t_pton6 = (\<lambda>s. let b = map char_byte s; w = (\<lambda>i. le32 (b ! i) (b ! (i + 1)) (b ! (i + 2)) (b ! (i + 3)))
                    in Some (w 0, w 4, w 8, w 12)),
     t_ntop4 = (\<lambda>a. Some (map byte_char (mem32 a))), t_ntop6 = (\<lambda>a. Some (map byte_char (mem6 a)))\<rparr>"

lemma byte_text_exact: "text_exact byte_text"
  by (auto simp: text_exact_def byte_text_def mem32_def Let_def)

lemma length_record_bytes: "file_ready n \<Longrightarrow> length (record_bytes n ttl) \<le> 400"
proof -
  assume r: "file_ready n"
  have "length (concat (map mem32 xs)) = 4 * length xs" "length (concat (map mem6 ys)) = 16 * length ys" for xs ys
    by (induction xs, simp_all, induction ys, simp_all)
  then show ?thesis using r by (auto simp: record_bytes_def file_ready_def format_consts)
qed

lemma calm_save:
  assumes "cache_run c" and "arena c" and "path \<noteq> []" and "content c x = Some r" and "worth_saving c now r"
    and "length (nodes c) < 4000"
  shows "\<exists>n d'. saveToFile (calm c now) path c d = Some (Saved n, d') \<and> n \<le> length (nodes c)"
proof -
  obtain chs fl where wf: "wf c chs fl []" using cache_run_inv [OF assms(1)] assms(2) by (auto simp: cache_inv_def)
  define snap where "snap = filter (\<lambda>i. worth_saving c now (nodes c ! i)) (concat chs)"
  note sv = snapshot_savable [OF assms(1) wf snap_def]
  have "length snap \<le> length (concat chs)" unfolding snap_def by (rule length_filter_le)
  also have "\<dots> \<le> length (nodes c)" using entries_content(2) [OF wf] repD(6) [OF wfD(1) [OF wf]] by simp
  finally have ls: "length snap \<le> length (nodes c)" .
  obtain i where "i \<in> set (concat chs)" "r = strip (nodes c ! i)" using assms(4) content_iff [OF wf, of x r] by auto
  then have "i \<in> set snap" using assms(5) by (simp add: snap_def worth_saving_def)
  then have ne: "snap \<noteq> []" by auto
  have "length (file_body (file_rows (calm c now) c js)) \<le> 400 * length js" if "\<forall>i \<in> set js. savable c i" for js
    using that
  proof (induction js)
    case (Cons j js)
    then have "file_ready (nodes c ! j)" by (auto simp: savable_def intro: shape_file_ready)
    from length_record_bytes [OF this] Cons show ?case
      by (simp add: file_body_def file_rows_def) (meson add_mono order_trans)
  qed (simp add: file_body_def file_rows_def)
  from this [OF sv] have fit: "kHeaderBytes + length (file_body (file_rows (calm c now) c snap)) \<le> se_room (calm c now)"
    using ls assms(6) by (simp add: calm_def kHeaderBytes_def)
  have at: "\<forall>s. se_at (calm c now) s = c" by (simp add: calm_def)
  have e: "se_mem (calm c now)" "se_open (calm c now)" "se_seek (calm c now)" "se_patch (calm c now)" "se_close (calm c now)"
      "se_rm (calm c now)" "se_mv (calm c now)" "\<not> kHeaderBytes > se_room (calm c now)" "se_now1 (calm c now) = now"
    by (simp_all add: calm_def kHeaderBytes_def)
  let ?d1 = "write_part (calm c now) (partPath path) True (file_rows (calm c now) c snap) [] d"
  obtain d' where "publish True True path ?d1 = (True, d')"
  proof -
    have "dk_vol ?d1 (partPath path) \<noteq> None" by (simp add: write_part_def fs_defs Let_def)
    from publish_works [OF this] that show thesis by blast
  qed
  then have "saveToFile (calm c now) path c d = Some (Saved (length snap), d')"
    using e assms(2,3) ne snapshot_eq [OF wf, of now] save_loop_fits [OF at sv fit, of 0 "[]"]
    unfolding saveToFile_def by (simp add: snap_def [symmetric] file_rows_def Let_def)
  with ls show ?thesis by blast
qed


text \<open>One record in a cache of one megabyte.\<close>

lemma one_record:
  obtains c r where "cache_run c" and "arena c" and "length (nodes c) = 2967"
    and "content c (''a.example'', kTypeA) = Some r" and "worth_saving c 5 r"
proof -
  let ?k = "\<lparr>k_nowMs = 5, k_waitUs = 0, k_scanUs = 0\<rparr> :: clock"
  have key: "cstr (lower ''a.example'') = ''a.example''" by code_simp
  obtain c m r where c: "storeInternal byte_text ?k ''a.example'' kTypeA [''abcd''] 60 True 0 one_mb = Some c"
      "content c = m((cstr (lower ''a.example''), kTypeA) \<mapsto> r)" "arena c" "length (nodes c) = length (nodes one_mb)"
      "ignoreTtl c = ignoreTtl one_mb"
      "stored_record byte_text ?k (cstr (lower ''a.example''), kTypeA) [''abcd''] 60
         (uses_after one_mb (cstr (lower ''a.example''), kTypeA) True 0) r"
    by (rule storeInternal_spec [OF one_mb_facts(4,1), of "''a.example''" "[''abcd'']" kTypeA byte_text ?k 60 True 0])
      (auto simp: kMaxNameLen_c_def)
  have "cache_run c" using rtranclp.rtrancl_into_rtrancl [OF one_mb_run cache_step.stored [OF c(1)]] .
  moreover obtain n u where n: "node_key n = (''a.example'', kTypeA)"
      "r = (strip (write_node byte_text ?k kTypeA [''abcd''] 60 n))\<lparr>nd_uses := u\<rparr>"
    using c(6) unfolding stored_record_def key by auto
  have "nd_name r = ''a.example''" "nd_storedMs r = 5" "nd_ttl r = 60"
    using n write_node_frame(2) [of byte_text ?k kTypeA "[''abcd'']" 60 n] by (simp_all add: write_node_frame node_key_def)
  ultimately show thesis
    using that [of c r] c(2-5) key by (simp add: worth_saving_def expired_at_def elapsedMs_def)
qed

theorem save_under_traffic_witness:
  "\<exists>c n d' f. saveToFile (calm c 5) ''cache.dat'' c (mounted (\<lambda>_. Some [1])) = Some (Saved n, d')
    \<and> dk_vol d' ''cache.dat'' = Some f \<and> fst (cache_check (Some f) n) \<and> dk_vol d' ''cache.dat.part'' = None"
proof -
  obtain c r where c: "cache_run c" "arena c" "length (nodes c) = 2967"
      "content c (''a.example'', kTypeA) = Some r" "worth_saving c 5 r"
    by (rule one_record)
  obtain n d' where s: "saveToFile (calm c 5) ''cache.dat'' c (mounted (\<lambda>_. Some [1])) = Some (Saved n, d')"
    using calm_save [OF c(1,2) _ c(4,5), of "''cache.dat''" "mounted (\<lambda>_. Some [1])"] c(3) by auto
  have "se_seek (calm c 5)" by (simp add: calm_def)
  from save_under_traffic [OF c(1) calm_traffic [OF c(1)] this, of "''cache.dat''" "\<lambda>_. Some [1]"] s
  show ?thesis by (auto simp: partPath_def)
qed

theorem save_survives_power_cut_witness:
  "\<exists>c n d' f m. saveToFile (calm c 5) ''cache.dat'' c (mounted (\<lambda>_. Some [1])) = Some (Saved n, d')
    \<and> (f = [1] \<or> fst (cache_check (Some f) m))
    \<and> (\<forall>i \<in> set (instants d'). \<forall>u. power_cut i u \<longrightarrow> after_restart ''cache.dat'' u \<subseteq> {Some [1], Some f})"
proof -
  obtain c r where c: "cache_run c" "arena c" "length (nodes c) = 2967"
      "content c (''a.example'', kTypeA) = Some r" "worth_saving c 5 r"
    by (rule one_record)
  obtain n d' where s: "saveToFile (calm c 5) ''cache.dat'' c (mounted (\<lambda>_. Some [1])) = Some (Saved n, d')"
    using calm_save [OF c(1,2) _ c(4,5), of "''cache.dat''" "mounted (\<lambda>_. Some [1])"] c(3) by auto
  have "se_seek (calm c 5)" by (simp add: calm_def)
  from save_survives_power_cut [OF c(1) calm_traffic [OF c(1)] this, of "\<lambda>_. Some [1]" "''cache.dat''" "[1]"] s
  show ?thesis by auto blast
qed

theorem restart_roundtrip_witness:
  "\<exists>c n d' c3 r'. saveToFile (calm c 5) ''cache.dat'' c (mounted (\<lambda>_. None)) = Some (Saved n, d')
    \<and> loadFromFile byte_text (\<lambda>_. \<lparr>k_nowMs = 9, k_waitUs = 0, k_scanUs = 0\<rparr>) True ''cache.dat'' d' one_mb = Some ((True, n), c3, d')
    \<and> content c3 (''a.example'', kTypeA) = Some r'"
proof -
  obtain c r where c: "cache_run c" "arena c" "length (nodes c) = 2967"
      "content c (''a.example'', kTypeA) = Some r" "worth_saving c 5 r"
    by (rule one_record)
  obtain n d' where s: "saveToFile (calm c 5) ''cache.dat'' c (mounted (\<lambda>_. None)) = Some (Saved n, d')" "n \<le> length (nodes one_mb)"
    using calm_save [OF c(1,2) _ c(4,5), of "''cache.dat''" "mounted (\<lambda>_. None)"] c(3) by auto
  have e: "\<forall>s. se_at (calm c 5) s = c" "se_seek (calm c 5)" "se_now1 (calm c 5) = 5" by (simp_all add: calm_def)
  from restart_roundtrip [OF c(1) e(1,2) s(1) one_mb_run one_mb_facts(1,2) s(2) byte_text_exact,
      of "\<lambda>_. \<lparr>k_nowMs = 9, k_waitUs = 0, k_scanUs = 0\<rparr>" True]
  obtain c3 where l: "loadFromFile byte_text (\<lambda>_. \<lparr>k_nowMs = 9, k_waitUs = 0, k_scanUs = 0\<rparr>) True ''cache.dat'' d' one_mb = Some ((True, n), c3, d')"
      "case content c (''a.example'', kTypeA) of None \<Rightarrow> content c3 (''a.example'', kTypeA) = None
       | Some r \<Rightarrow> if worth_saving c (se_now1 (calm c 5)) r
           then \<exists>r'. content c3 (''a.example'', kTypeA) = Some r' \<and> nd_uses r' = nd_uses r
             \<and> nd_ttl r' = ttl_left c (se_now2 (calm c 5)) r
             \<and> node_ips byte_text (snd (''a.example'', kTypeA)) r' = node_ips byte_text (snd (''a.example'', kTypeA)) r
           else content c3 (''a.example'', kTypeA) = None"
    by blast
  from l(2) have "\<exists>r'. content c3 (''a.example'', kTypeA) = Some r'" using c(5) unfolding c(4) e(3) by auto
  with l(1) show ?thesis using s(1) by blast
qed

end
