(* ===== verification/CacheView.thy ===== *)
theory CacheView
  imports CacheProps "HOL-Library.Product_Lexorder"
begin

text \<open>
  The reading side of the cache: \<open>src/src/dns/CacheEntryView.h\<close> with \<open>InternalDnsCache::entries\<close> (the
  pages of the cache view), \<open>stats\<close>, and \<open>oldestEntries\<close>, from which the automatic update takes the
  records it refreshes.
\<close>

declare set_concat [simp del]

section \<open>Filters and pages\<close>

definition kCacheViewPageSize :: nat where "kCacheViewPageSize = 100"
definition kCacheViewMaxPageSize :: nat where "kCacheViewMaxPageSize = 200"

record CacheEntryView =
  v_name :: string
  v_qtype :: u16
  v_a4 :: "u32 list"
  v_a6 :: "in6 list"
  v_ttl :: u32
  v_remaining :: u32
  v_agesec :: u32
  v_usecount :: u32
  v_expired :: bool

record CacheEntryQuery =
  q_name :: string
  q_qtype :: u16
  q_offset :: nat
  q_limit :: nat

record CacheEntryPage =
  p_available :: bool
  p_total :: nat
  p_offset :: nat
  p_limit :: nat
  p_scanned :: nat
  p_items :: "CacheEntryView list"

definition cacheViewLowerName :: "string \<Rightarrow> string" where
  "cacheViewLowerName s = map (\<lambda>ch. let n = char_code ch in if 65 \<le> n \<and> n \<le> 90 then char_of (n - 65 + 97) else ch) s"

definition view_blank :: "char \<Rightarrow> bool" where
  "view_blank ch \<longleftrightarrow> char_code ch = 32 \<or> char_code ch = 9"

definition cacheEntryTypeFromText :: "string \<Rightarrow> u16 option" where
  "cacheEntryTypeFromText s =
     (let trimmed = drop_while_end view_blank (dropWhile view_blank s) in
      if trimmed = [] then None
      else
        (let low = cacheViewLowerName trimmed in
         if low = ''a'' then Some kTypeA else if low = ''aaaa'' then Some kTypeAaaa else None))"

definition cacheEntryTypeText :: "u16 \<Rightarrow> string" where
  "cacheEntryTypeText q = (if q = kTypeA then ''A'' else if q = kTypeAaaa then ''AAAA'' else ''type '' @ dec_str (unat q))"

text \<open>\<open>strstr\<close> found a match.\<close>

definition strstr_found :: "string \<Rightarrow> string \<Rightarrow> bool" where
  "strstr_found s p = list_ex (\<lambda>i. take (length p) (drop i s) = p) [0..<Suc (length s)]"

definition cacheEntryMatches :: "string \<Rightarrow> u16 \<Rightarrow> CacheEntryQuery \<Rightarrow> bool" where
  "cacheEntryMatches name qtype q \<longleftrightarrow>
     \<not> (q_qtype q \<noteq> 0 \<and> qtype \<noteq> q_qtype q) \<and> (q_name q = [] \<or> strstr_found name (cstr (q_name q)))"

definition cacheViewClampLimit :: "nat \<Rightarrow> nat" where
  "cacheViewClampLimit limit =
     (if limit = 0 then kCacheViewPageSize else if limit > kCacheViewMaxPageSize then kCacheViewMaxPageSize else limit)"

definition cacheViewPageCount :: "nat \<Rightarrow> nat \<Rightarrow> nat" where
  "cacheViewPageCount recs limit =
     (if limit = 0 then 1 else (let pages = (recs + limit - 1) div limit in if pages = 0 then 1 else pages))"

definition cacheViewPageNumber :: "nat \<Rightarrow> nat \<Rightarrow> nat" where
  "cacheViewPageNumber offset limit = (if limit = 0 then 1 else offset div limit + 1)"

section \<open>The walk of the viewer\<close>

definition fillEntryView :: "cache \<Rightarrow> node \<Rightarrow> u32 \<Rightarrow> CacheEntryView" where
  "fillEntryView c n now =
     (let age = elapsedMs now (nd_storedMs n) div 1000 in
      \<lparr>v_name = nd_name n, v_qtype = nd_qtype n, v_a4 = take (min (nd_nA n) kMaxA) (nd_a4 n),
       v_a6 = take (min (nd_nAAAA n) kMaxAAAA) (nd_a6 n), v_ttl = nd_ttl n,
       v_remaining = (if age \<ge> nd_ttl n then 0 else nd_ttl n - age), v_agesec = age, v_usecount = nd_uses n,
       v_expired = (\<not> ignoreTtl c \<and> nd_ttl n \<noteq> 0 \<and> age \<ge> nd_ttl n)\<rparr>)"

text \<open>The body of the walk: the records counted so far and the page being filled.\<close>

definition entries_body :: "cache \<Rightarrow> u32 \<Rightarrow> CacheEntryQuery \<Rightarrow> nat \<times> CacheEntryPage \<Rightarrow> nat \<Rightarrow> nat \<times> CacheEntryPage" where
  "entries_body c now q acc i =
     (case acc of (matched, pg) \<Rightarrow>
      let n = nodes c ! i in
      if nd_name n = [] then (matched, pg)
      else
        (let pg1 = pg\<lparr>p_scanned := p_scanned pg + 1\<rparr> in
         if \<not> cacheEntryMatches (nd_name n) (nd_qtype n) q then (matched, pg1)
         else
           (Suc matched,
            if matched \<ge> p_offset pg1 \<and> length (p_items pg1) < p_limit pg1
            then pg1\<lparr>p_items := p_items pg1 @ [fillEntryView c n now]\<rparr> else pg1)))"

definition cache_entries :: "u32 \<Rightarrow> CacheEntryQuery \<Rightarrow> cache \<Rightarrow> CacheEntryPage option" where
  "cache_entries now q c =
     (let pg = \<lparr>p_available = arena c, p_total = 0, p_offset = 0, p_limit = 0, p_scanned = 0, p_items = []\<rparr> in
      if \<not> arena c then Some pg
      else
        map_option (\<lambda>(matched, pg'). pg'\<lparr>p_total := matched\<rparr>)
          (all_buckets (\<lambda>b. entries_body c now q) c
             (0, pg\<lparr>p_limit := cacheViewClampLimit (q_limit q), p_offset := q_offset q\<rparr>)))"

section \<open>Statistics\<close>

record Stats =
  s_available :: bool
  s_sizeMb :: nat
  s_capacity :: nat
  s_entries :: int
  s_hits :: u64
  s_misses :: u64
  s_evicted :: u64
  s_waitUs :: u64
  s_walkedNodes :: u64
  s_stores :: u64
  s_evictScans :: u64
  s_evictScanUs :: u64
  s_evictScanNodes :: u64
  s_usesTotal :: u32
  s_usesMax :: u32
  s_topName :: string
  s_topQtype :: u16
  s_usedBytes :: int
  s_freeBytes :: int

definition stats :: "cache \<Rightarrow> Stats \<times> cache" where
  "stats c0 =
     (let c = noteTop c0 in
      (\<lparr>s_available = arena c, s_sizeMb = sizeMb c, s_capacity = length (nodes c), s_entries = entries c,
        s_hits = hits c, s_misses = misses c, s_evicted = evicted c, s_waitUs = lookupWaitUs c,
        s_walkedNodes = walkedNodes c, s_stores = stores c, s_evictScans = evictScans c,
        s_evictScanUs = evictScanUs c, s_evictScanNodes = evictScanNodes c, s_usesTotal = usesTotal c,
        s_usesMax = topUses c, s_topName = (if topValid c then topName c else []),
        s_topQtype = (if topValid c then topQtype c else 0), s_usedBytes = entries c * int NODE_BYTES,
        s_freeBytes = (if int (length (nodes c)) > entries c
          then (int (length (nodes c)) - entries c) * int NODE_BYTES else 0)\<rparr>, c))"

section \<open>Candidates for the automatic update\<close>

text \<open>
  \<open>priority_queue<pair<uint32_t, int>>\<close>: its content in ascending order; \<open>top\<close> and \<open>pop\<close> are at the
  greatest pair, the last of the list.
\<close>

definition heap_push :: "u32 \<times> int \<Rightarrow> (u32 \<times> int) list \<Rightarrow> (u32 \<times> int) list" where
  "heap_push p h = insort p h"

definition heap_pop :: "(u32 \<times> int) list \<Rightarrow> (u32 \<times> int) list" where
  "heap_pop h = butlast h"

definition oldest_body ::
  "cache \<Rightarrow> u32 \<Rightarrow> nat \<Rightarrow> (string \<Rightarrow> u16 \<Rightarrow> bool) \<Rightarrow> (u32 \<times> int) list \<Rightarrow> nat \<Rightarrow> (u32 \<times> int) list" where
  "oldest_body c now mx skip h i =
     (let n = nodes c ! i in
      if skip (nd_name n) (nd_qtype n) then h
      else
        (let h1 = heap_push (elapsedMs now (nd_storedMs n), int i) h
         in if length h1 > mx then heap_pop h1 else h1))"

function heap_drain :: "(u32 \<times> int) list \<Rightarrow> int list" where
  "heap_drain h = (if h = [] then [] else snd (last h) # heap_drain (heap_pop h))"
  by auto
termination by (relation "measure length") (auto simp: heap_pop_def)

declare heap_drain.simps [simp del]

definition oldestEntries :: "u32 \<Rightarrow> nat \<Rightarrow> (string \<Rightarrow> u16 \<Rightarrow> bool) \<Rightarrow> cache \<Rightarrow> (string \<times> u16) list option" where
  "oldestEntries now mx skip c =
     (if \<not> arena c \<or> mx = 0 then Some []
      else
        map_option (\<lambda>h. map (\<lambda>i. (nd_name (nodes c ! nat i), nd_qtype (nodes c ! nat i))) (heap_drain h))
          (all_buckets (\<lambda>b. oldest_body c now mx skip) c []))"

section \<open>What the page shows\<close>

definition matching :: "cache \<Rightarrow> CacheEntryQuery \<Rightarrow> nat \<Rightarrow> bool" where
  "matching c q i \<longleftrightarrow> nd_name (nodes c ! i) \<noteq> [] \<and> cacheEntryMatches (nd_name (nodes c ! i)) (nd_qtype (nodes c ! i)) q"

lemma entries_body_eq:
  "\<exists>s. entries_body c now q (matched, pg) j =
     (if \<not> matching c q j then (matched, pg\<lparr>p_scanned := s\<rparr>)
      else (Suc matched, if matched \<ge> p_offset pg \<and> length (p_items pg) < p_limit pg
        then pg\<lparr>p_scanned := s, p_items := p_items pg @ [fillEntryView c (nodes c ! j) now]\<rparr> else pg\<lparr>p_scanned := s\<rparr>))"
proof (cases "nd_name (nodes c ! j) = []")
  case True
  then show ?thesis by (intro exI [of _ "p_scanned pg"]) (simp add: entries_body_def matching_def Let_def)
next
  case False
  then show ?thesis by (intro exI [of _ "p_scanned pg + 1"]) (simp add: entries_body_def matching_def Let_def)
qed

lemma entries_walk:
  assumes "length (p_items pg) = min (matched - p_offset pg) (p_limit pg)"
  shows "\<exists>k. foldl (entries_body c now q) (matched, pg) js =
    (matched + length (filter (matching c q) js),
     pg\<lparr>p_scanned := k, p_items := p_items pg @ map (\<lambda>i. fillEntryView c (nodes c ! i) now)
        (take (p_limit pg - length (p_items pg)) (drop (p_offset pg - matched) (filter (matching c q) js)))\<rparr>)"
  using assms
proof (induction js arbitrary: matched pg)
  case Nil
  show ?case by (intro exI [of _ "p_scanned pg"]) simp
next
  case (Cons j js)
  let ?n = "nodes c ! j"
  obtain s where s: "entries_body c now q (matched, pg) j =
     (if \<not> matching c q j then (matched, pg\<lparr>p_scanned := s\<rparr>)
      else (Suc matched, if matched \<ge> p_offset pg \<and> length (p_items pg) < p_limit pg
        then pg\<lparr>p_scanned := s, p_items := p_items pg @ [fillEntryView c ?n now]\<rparr> else pg\<lparr>p_scanned := s\<rparr>))"
    using entries_body_eq by blast
  consider (other) "entries_body c now q (matched, pg) j = (matched, pg\<lparr>p_scanned := s\<rparr>)" "\<not> matching c q j"
    | (counted) "entries_body c now q (matched, pg) j = (Suc matched, pg\<lparr>p_scanned := s\<rparr>)" "matching c q j"
        "\<not> (matched \<ge> p_offset pg \<and> length (p_items pg) < p_limit pg)"
    | (shown) "entries_body c now q (matched, pg) j =
          (Suc matched, pg\<lparr>p_scanned := s, p_items := p_items pg @ [fillEntryView c ?n now]\<rparr>)" "matching c q j"
        "matched \<ge> p_offset pg" "length (p_items pg) < p_limit pg"
    using s by (auto split: if_splits)
  then show ?case
  proof cases
    case other
    then show ?thesis using Cons.IH [of "pg\<lparr>p_scanned := s\<rparr>" matched] Cons.prems by simp
  next
    case counted
    have len: "length (p_items (pg\<lparr>p_scanned := s\<rparr>)) = min (Suc matched - p_offset (pg\<lparr>p_scanned := s\<rparr>)) (p_limit (pg\<lparr>p_scanned := s\<rparr>))"
      using Cons.prems counted(3) by auto
    have "take (p_limit pg - length (p_items pg)) (drop (p_offset pg - Suc matched) xs)
        = take (p_limit pg - length (p_items pg)) (drop (p_offset pg - matched) (j # xs))" for xs
    proof (cases "matched \<ge> p_offset pg")
      case False
      then have "p_offset pg - matched = Suc (p_offset pg - Suc matched)" by simp
      then show ?thesis by simp
    qed (use counted(3) in simp)
    then show ?thesis using Cons.IH [OF len] counted by simp
  next
    case shown
    let ?pg = "pg\<lparr>p_scanned := s, p_items := p_items pg @ [fillEntryView c ?n now]\<rparr>"
    have len: "length (p_items ?pg) = min (Suc matched - p_offset ?pg) (p_limit ?pg)"
      using Cons.prems shown(3,4) by auto
    have "p_limit pg - length (p_items pg) = Suc (p_limit pg - Suc (length (p_items pg)))" using shown(4) by simp
    then show ?thesis using Cons.IH [OF len] shown by simp
  qed
qed

lemma cache_entries_spec:
  assumes "cache_run c" and "arena c"
  obtains pg where "cache_entries now q c = Some pg" and "p_total pg = length (filter (matching c q) (linked c))"
    and "p_items pg = map (\<lambda>i. fillEntryView c (nodes c ! i) now)
      (take (cacheViewClampLimit (q_limit q)) (drop (q_offset q) (filter (matching c q) (linked c))))"
proof -
  obtain chs fl where wf: "wf c chs fl []" using cache_run_inv [OF assms(1)] assms(2) by (auto simp: cache_inv_def)
  have l: "length (buckets c) = length chs" "linked c = concat chs"
    using repD(1) [OF wfD(1) [OF wf]] linked_rep [OF wfD(1) [OF wf]] by simp_all
  define pg where "pg = \<lparr>p_available = arena c, p_total = 0, p_offset = q_offset q,
      p_limit = cacheViewClampLimit (q_limit q), p_scanned = 0, p_items = []\<rparr>"
  have "all_buckets (\<lambda>b. entries_body c now q) c (0, pg) = Some (foldl (entries_body c now q) (0, pg) (concat chs))"
    unfolding all_buckets_eq [OF wfD(1) [OF wf]] l(1) using foldl_concat [of "entries_body c now q" chs] by simp
  moreover obtain k where "foldl (entries_body c now q) (0, pg) (concat chs) =
    (length (filter (matching c q) (concat chs)),
     pg\<lparr>p_scanned := k, p_items := map (\<lambda>i. fillEntryView c (nodes c ! i) now)
        (take (cacheViewClampLimit (q_limit q)) (drop (q_offset q) (filter (matching c q) (concat chs))))\<rparr>)"
    using entries_walk [of pg 0 c now q "concat chs"] by (auto simp: pg_def)
  ultimately show thesis
    using that assms(2) by (simp add: cache_entries_def Let_def pg_def l(2))
qed

section \<open>What the queue keeps\<close>

lemma take_insort: "take m (insort p (take m xs)) = take m (insort p xs)"
proof (induction xs arbitrary: m)
  case (Cons x xs)
  then show ?case by (cases m) (auto simp: take_Cons')
qed simp

lemma keep_step:
  assumes "h = take m (sort ps)"
  shows "(let h1 = heap_push p h in if length h1 > m then heap_pop h1 else h1) = take m (sort (p # ps))"
proof -
  let ?h = "insort p h"
  have "(if length ?h > m then butlast ?h else ?h) = take m ?h"
  proof (cases "length ?h > m")
    case True
    moreover have "length ?h \<le> Suc m" using assms by simp
    ultimately have "length ?h = Suc m" by simp
    then show ?thesis by (simp add: butlast_conv_take)
  qed simp
  also have "\<dots> = take m (sort (p # ps))" using take_insort [of m p "sort ps"] assms by simp
  finally show ?thesis by (simp only: heap_push_def heap_pop_def Let_def)
qed

definition candidate :: "cache \<Rightarrow> (string \<Rightarrow> u16 \<Rightarrow> bool) \<Rightarrow> nat \<Rightarrow> bool" where
  "candidate c skip i \<longleftrightarrow> \<not> skip (nd_name (nodes c ! i)) (nd_qtype (nodes c ! i))"

definition age_of :: "cache \<Rightarrow> u32 \<Rightarrow> nat \<Rightarrow> u32" where
  "age_of c now i = elapsedMs now (nd_storedMs (nodes c ! i))"

definition aged :: "cache \<Rightarrow> u32 \<Rightarrow> (string \<Rightarrow> u16 \<Rightarrow> bool) \<Rightarrow> nat list \<Rightarrow> (u32 \<times> int) list" where
  "aged c now skip js = map (\<lambda>i. (age_of c now i, int i)) (filter (candidate c skip) js)"

lemma oldest_walk: "foldl (oldest_body c now m skip) (take m (sort ps)) js = take m (sort (rev (aged c now skip js) @ ps))"
proof (induction js arbitrary: ps)
  case (Cons j js)
  show ?case
  proof (cases "candidate c skip j")
    case True
    then have "oldest_body c now m skip (take m (sort ps)) j = take m (sort ((age_of c now j, int j) # ps))"
      using keep_step [OF refl, where m = m and ps = ps and p = "(age_of c now j, int j)"]
      by (simp add: oldest_body_def candidate_def age_of_def Let_def)
    then show ?thesis using Cons.IH [of "(age_of c now j, int j) # ps"] True by (simp add: aged_def)
  next
    case False
    then show ?thesis using Cons.IH by (simp add: aged_def candidate_def oldest_body_def)
  qed
qed (simp add: aged_def)

lemma heap_drain_rev: "heap_drain h = map snd (rev h)"
proof (induction h rule: rev_induct)
  case (snoc p h)
  then show ?case by (subst heap_drain.simps) (simp add: heap_pop_def)
qed (simp add: heap_drain.simps)

lemma oldestEntries_eq:
  assumes "cache_run c" and "arena c" and "0 < m"
  shows "oldestEntries now m skip c = Some (map (\<lambda>p. node_key (nodes c ! nat (snd p)))
    (rev (take m (sort (rev (aged c now skip (linked c)))))))"
proof -
  obtain chs fl where wf: "wf c chs fl []" using cache_run_inv [OF assms(1)] assms(2) by (auto simp: cache_inv_def)
  have l: "length (buckets c) = length chs" "linked c = concat chs"
    using repD(1) [OF wfD(1) [OF wf]] linked_rep [OF wfD(1) [OF wf]] by simp_all
  have "all_buckets (\<lambda>b. oldest_body c now m skip) c [] = Some (foldl (oldest_body c now m skip) [] (concat chs))"
    unfolding all_buckets_eq [OF wfD(1) [OF wf]] l(1) using foldl_concat [of "oldest_body c now m skip" chs] by simp
  then show ?thesis
    using assms(2,3) oldest_walk [of c now m skip "[]" "concat chs"]
    by (simp add: oldestEntries_def heap_drain_rev l(2) comp_def node_key_def)
qed

section \<open>Pages put together\<close>

lemma concat_chunks: "concat (map (\<lambda>k. take l (drop (k * l) xs)) [0..<n]) = take (n * l) xs"
proof (induction n)
  case (Suc n)
  have "take (Suc n * l) xs = take (n * l) xs @ take l (drop (n * l) xs)" by (simp only: mult_Suc add.commute [of l] take_add)
  with Suc show ?case by simp
qed simp

lemma pageCount_enough: "0 < l \<Longrightarrow> n \<le> cacheViewPageCount n l * l"
proof -
  assume l: "0 < l"
  have "n + l - 1 < (n + l - 1) div l * l + l" using dividend_less_div_times [OF l, of "n + l - 1"] by linarith
  then have "n \<le> (n + l - 1) div l * l" using l by linarith
  then show ?thesis using l by (auto simp: cacheViewPageCount_def Let_def)
qed

lemma fillEntryView_times:
  "let v = fillEntryView c n now; age = elapsedMs now (nd_storedMs n) div 1000 in
     unat (v_remaining v) = unat (nd_ttl n) - unat age
     \<and> (\<not> ignoreTtl c \<longrightarrow> (v_expired v \<longleftrightarrow> nd_ttl n \<noteq> 0 \<and> v_remaining v = 0))"
proof -
  define age where "age = elapsedMs now (nd_storedMs n) div 1000"
  have "unat (if age \<ge> nd_ttl n then 0 else nd_ttl n - age) = unat (nd_ttl n) - unat age"
    by (auto simp: word_le_nat_alt unat_sub)
  then show ?thesis by (auto simp: fillEntryView_def Let_def age_def [symmetric] split: if_splits)
qed

section \<open>Properties\<close>

text \<open>
  C34. The pages of the cache view show every matching record exactly once: on a cache that does not
  change, the pages the pager counts, put together, are all the records that match the filter, in the
  order of the walk, each page of at most 200, with the number of matches on each. The time left shown
  for a record is its lifetime less its age and never negative; and while lifetimes are obeyed a record
  is marked expired exactly when its lifetime is not 0 and no time is left.
\<close>

theorem view_pages_cover:
  assumes "cache_run c" and "arena c" and "limit = cacheViewClampLimit l"
    and "found = filter (matching c q) (linked c)"
  shows "concat (map (\<lambda>k. case cache_entries now (q\<lparr>q_offset := k * limit, q_limit := l\<rparr>) c of
           Some pg \<Rightarrow> p_items pg | None \<Rightarrow> []) [0..<cacheViewPageCount (length found) limit])
      = map (\<lambda>i. fillEntryView c (nodes c ! i) now) found
    \<and> (\<forall>k. \<exists>pg. cache_entries now (q\<lparr>q_offset := k * limit, q_limit := l\<rparr>) c = Some pg
         \<and> p_total pg = length found \<and> length (p_items pg) \<le> 200)
    \<and> (\<forall>n. let v = fillEntryView c n now; age = elapsedMs now (nd_storedMs n) div 1000 in
         unat (v_remaining v) = unat (nd_ttl n) - unat age
         \<and> (\<not> ignoreTtl c \<longrightarrow> (v_expired v \<longleftrightarrow> nd_ttl n \<noteq> 0 \<and> v_remaining v = 0)))"
proof -
  have l: "0 < limit" "limit \<le> 200"
    by (simp_all add: assms(3) cacheViewClampLimit_def kCacheViewPageSize_def kCacheViewMaxPageSize_def)
  have m: "matching c (q\<lparr>q_offset := k, q_limit := l\<rparr>) = matching c q" for k
    by (rule ext) (simp add: matching_def cacheEntryMatches_def)
  have page: "\<exists>pg. cache_entries now (q\<lparr>q_offset := k * limit, q_limit := l\<rparr>) c = Some pg \<and> p_total pg = length found
      \<and> p_items pg = take limit (drop (k * limit) (map (\<lambda>i. fillEntryView c (nodes c ! i) now) found))" for k
    by (rule cache_entries_spec [OF assms(1,2), of now "q\<lparr>q_offset := k * limit, q_limit := l\<rparr>"])
      (simp add: m assms(3,4) take_map drop_map)
  then have "(case cache_entries now (q\<lparr>q_offset := k * limit, q_limit := l\<rparr>) c of Some pg \<Rightarrow> p_items pg | None \<Rightarrow> [])
      = take limit (drop (k * limit) (map (\<lambda>i. fillEntryView c (nodes c ! i) now) found))" for k
    by (metis option.simps(5))
  moreover have "length found \<le> cacheViewPageCount (length found) limit * limit"
    using pageCount_enough [OF l(1)] .
  moreover have "let v = fillEntryView c n now; age = elapsedMs now (nd_storedMs n) div 1000 in
      unat (v_remaining v) = unat (nd_ttl n) - unat age
      \<and> (\<not> ignoreTtl c \<longrightarrow> (v_expired v \<longleftrightarrow> nd_ttl n \<noteq> 0 \<and> v_remaining v = 0))" for n
    by (rule fillEntryView_times)
  moreover have "\<exists>pg. cache_entries now (q\<lparr>q_offset := k * limit, q_limit := l\<rparr>) c = Some pg
         \<and> p_total pg = length found \<and> length (p_items pg) \<le> 200" for k
    using page [of k] l(2) by auto
  ultimately show ?thesis by (simp add: concat_chunks)
qed

text \<open>A filter that every one of 150 records passes, read in three pages.\<close>

theorem view_pages_cover_witness:
  "\<exists>c. cache_run c \<and> length (concat (map (\<lambda>k. case cache_entries 9 \<lparr>q_name = ''b'', q_qtype = 1, q_offset = k * 50, q_limit = 50\<rparr> c of
      Some pg \<Rightarrow> p_items pg | None \<Rightarrow> []) [0..<3])) = 150"
proof -
  obtain c where c: "cache_run c" "arena c" "dom (content c) = (\<lambda>k. (nth_name k, kTypeA)) ` {..<150}"
    using filled_pool [of 150] by auto
  obtain chs fl where wf: "wf c chs fl []" using cache_run_inv [OF c(1)] c(2) by (auto simp: cache_inv_def)
  have "inj_on (\<lambda>k. (nth_name k, kTypeA)) {..<150}" by (auto simp: inj_on_def dest: nth_name_inj)
  from card_image [OF this] have "length (linked c) = 150"
    using entries_content(1) [OF wf] repD(6) [OF wfD(1) [OF wf]] linked_rep [OF wfD(1) [OF wf]] unfolding c(3) by simp
  moreover have "matching c \<lparr>q_name = ''b'', q_qtype = 1, q_offset = 0, q_limit = 0\<rparr> i" if "i \<in> set (linked c)" for i
  proof -
    have "content c (node_key (nodes c ! i)) \<noteq> None"
      using content_linked [OF wf] that linked_rep [OF wfD(1) [OF wf]] by simp
    then obtain k where k: "nd_name (nodes c ! i) = nth_name k" "nd_qtype (nodes c ! i) = kTypeA"
      using c(3) by (fastforce simp: node_key_def)
    have "strstr_found (nth_name k) ''b''"
      unfolding strstr_found_def list_ex_iff by (rule bexI [of _ "k div 60"]) (auto simp: nth_name_def)
    moreover have "cstr ''b'' = ''b''" by code_simp
    ultimately show ?thesis
      using k by (simp add: matching_def cacheEntryMatches_def kTypeA_def) (simp add: nth_name_def)
  qed
  ultimately have f: "length (filter (matching c \<lparr>q_name = ''b'', q_qtype = 1, q_offset = 0, q_limit = 0\<rparr>) (linked c)) = 150"
    by (simp add: filter_id_conv [THEN iffD2])
  have "cacheViewPageCount 150 50 = 3" "cacheViewClampLimit 50 = 50" by code_simp+
  with view_pages_cover [OF c(1,2) refl refl, where l = 50 and now = 9 and q = "\<lparr>q_name = ''b'', q_qtype = 1, q_offset = 0, q_limit = 0\<rparr>"] f
  have "length (concat (map (\<lambda>k. case cache_entries 9 \<lparr>q_name = ''b'', q_qtype = 1, q_offset = k * 50, q_limit = 50\<rparr> c of
      Some pg \<Rightarrow> p_items pg | None \<Rightarrow> []) [0..<3])) = 150"
    by (simp only: CacheEntryQuery.update_convs) simp
  with c(1) show ?thesis by blast
qed

text \<open>
  With the lifetimes ignored no record is ever marked expired, however old (\<open>Docs/Rest.md\<close> says so; the
  README and the header of the view say it is marked).
\<close>

lemma ignored_ttl_never_marked: "ignoreTtl c \<Longrightarrow> \<not> v_expired (fillEntryView c n now)"
  by (simp add: fillEntryView_def Let_def)

text \<open>
  The queue of the automatic update gives up its greatest element when it is over the limit, so
  \<open>oldestEntries\<close> returns the youngest records, in descending age: whenever records are left out, no
  record returned is older than any of them. (The header promises those stored longest ago.)
\<close>

lemma oldest_entries_are_youngest:
  assumes "cache_run c" and "arena c" and "0 < m"
  shows "\<exists>chosen. oldestEntries now m skip c = Some (map (\<lambda>i. node_key (nodes c ! i)) chosen)
    \<and> distinct chosen \<and> set chosen \<subseteq> {i \<in> set (linked c). candidate c skip i}
    \<and> length chosen = min m (length (filter (candidate c skip) (linked c)))
    \<and> sorted_wrt (\<lambda>i j. age_of c now i \<ge> age_of c now j) chosen
    \<and> (\<forall>i \<in> set chosen. \<forall>j \<in> set (linked c) - set chosen. candidate c skip j \<longrightarrow> age_of c now i \<le> age_of c now j)"
proof -
  let ?ps = "rev (aged c now skip (linked c))"
  define ch where "ch = map (\<lambda>p. nat (snd p)) (rev (take m (sort ?ps)))"
  obtain chs fl where wf: "wf c chs fl []" using cache_run_inv [OF assms(1)] assms(2) by (auto simp: cache_inv_def)
  have dl: "distinct (linked c)"
    using rep_distinct [OF wfD(1) [OF wf]] linked_rep [OF wfD(1) [OF wf]] by simp
  have pair: "p = (age_of c now (nat (snd p)), int (nat (snd p))) \<and> nat (snd p) \<in> set (linked c) \<and> candidate c skip (nat (snd p))"
    if "p \<in> set (sort ?ps)" for p
    using that by (auto simp: aged_def)
  have "inj_on (\<lambda>p. nat (snd p)) (set (sort ?ps))" by (rule inj_onI) (metis pair)
  moreover have "distinct (sort ?ps)" using dl by (auto simp: aged_def distinct_map inj_on_def)
  ultimately have dm: "distinct (map (\<lambda>p. nat (snd p)) (sort ?ps))" by (simp add: distinct_map)
  then have dc: "distinct ch" unfolding ch_def by (simp add: rev_map [symmetric] take_map [symmetric] distinct_take)
  have sub: "set ch \<subseteq> {i \<in> set (linked c). candidate c skip i}"
    using pair by (auto simp: ch_def dest!: in_set_takeD)
  have srt: "sorted_wrt (\<lambda>p q. fst p \<le> fst q) (sort ?ps)"
    using sorted_sort [of ?ps] by (rule sorted_wrt_mono_rel [rotated]) (auto simp: less_eq_prod_def less_le)
  have desc: "sorted_wrt (\<lambda>i j. age_of c now i \<ge> age_of c now j) ch"
  proof -
    have "sorted_wrt (\<lambda>p q. fst p \<le> fst q) (take m (sort ?ps))" by (rule sorted_wrt_take [OF srt])
    then have "sorted_wrt (\<lambda>p q. age_of c now (nat (snd p)) \<le> age_of c now (nat (snd q))) (take m (sort ?ps))"
      by (rule sorted_wrt_mono_rel [rotated]) (metis pair fst_conv in_set_takeD)
    then show ?thesis unfolding ch_def by (simp add: sorted_wrt_map sorted_wrt_rev)
  qed
  have young: "age_of c now i \<le> age_of c now j" if "i \<in> set ch" "j \<in> set (linked c) - set ch" "candidate c skip j" for i j
  proof -
    obtain p where p: "p \<in> set (take m (sort ?ps))" "i = nat (snd p)" using \<open>i \<in> set ch\<close> by (auto simp: ch_def)
    have "(age_of c now j, int j) \<in> set (sort ?ps)" using that(2,3) by (auto simp: aged_def)
    moreover have "(age_of c now j, int j) \<notin> set (take m (sort ?ps))"
      using that(2) by (force simp: ch_def)
    ultimately have "(age_of c now j, int j) \<in> set (drop m (sort ?ps))"
      by (metis Un_iff append_take_drop_id set_append)
    moreover have "\<forall>x \<in> set (take m (sort ?ps)). \<forall>y \<in> set (drop m (sort ?ps)). fst x \<le> fst y"
      using srt sorted_wrt_append [of "\<lambda>p q. fst p \<le> fst q" "take m (sort ?ps)" "drop m (sort ?ps)"]
      unfolding append_take_drop_id by blast
    ultimately have "fst p \<le> age_of c now j" using p(1) by (metis fst_conv)
    then show ?thesis using pair [OF in_set_takeD [OF p(1)]] p(2) by (metis fst_conv)
  qed
  have "length ch = min m (length (filter (candidate c skip) (linked c)))" by (simp add: ch_def aged_def)
  moreover have "oldestEntries now m skip c = Some (map (\<lambda>i. node_key (nodes c ! i)) ch)"
    unfolding oldestEntries_eq [OF assms] ch_def by (simp add: comp_def)
  ultimately show ?thesis using dc sub desc young by blast
qed

lemma oldest_entries_are_youngest_witness:
  "\<exists>chosen. oldestEntries 9 1 (\<lambda>_ _. False) one_mb = Some (map (\<lambda>i. node_key (nodes one_mb ! i)) chosen) \<and> distinct chosen"
proof -
  note w = oldest_entries_are_youngest [OF one_mb_run one_mb_facts(1) zero_less_one, of 9 "\<lambda>_ _. False"]
  from w obtain chosen where "oldestEntries 9 1 (\<lambda>_ _. False) one_mb = Some (map (\<lambda>i. node_key (nodes one_mb ! i)) chosen)"
      "distinct chosen"
    by (elim exE conjE)
  then show ?thesis by (intro exI conjI)
qed

end
