(* ===== verification/DnsWire.thy ===== *)
theory DnsWire
  imports DnsMsg CacheProps
begin

text \<open>
  The DNS message code of \<open>src/src/dns/DnsServer.cpp\<close>: names with compression pointers, the client's
  query, the upstream's answer, and the replies the server builds. Reads are \<open>rd\<close> and writes \<open>put\<close>:
  both are \<open>None\<close> outside the message or the buffer. \<open>inet_pton\<close> and \<open>inet_ntop\<close> are parameters; a
  text they refuse leaves an uninitialised variable (IPv4) or the buffer's old bytes (IPv6) in the reply.
\<close>

section \<open>Names\<close>

definition kMaxDnsName :: nat where "kMaxDnsName = 255"
definition kMaxPointers :: nat where "kMaxPointers = 32"

text \<open>The result is the name, empty on any damage, and where the caller's \<open>offset\<close> ends up.\<close>

function decode_from :: "byte list \<Rightarrow> nat \<Rightarrow> nat \<Rightarrow> string \<Rightarrow> nat \<Rightarrow> bool \<Rightarrow> (string \<times> nat) option" where
  "decode_from dat pos jumps domain offset offsetSet =
     (if pos \<ge> length dat then Some ([], offset)
      else case rd dat pos of None \<Rightarrow> None | Some b \<Rightarrow>
        if b = 0 then Some (domain, if offsetSet then offset else pos + 1)
        else if b AND 0xC0 = 0xC0 then
          (if pos + 1 \<ge> length dat then Some ([], offset)
           else case rd dat (pos + 1) of None \<Rightarrow> None | Some lo \<Rightarrow>
             let offset' = (if offsetSet then offset else pos + 2) in
             if jumps + 1 > kMaxPointers then Some ([], offset')
             else decode_from dat (pointer_target b lo) (jumps + 1) domain offset' True)
        else if b AND 0xC0 \<noteq> 0 then Some ([], offset)
        else
          (let pos1 = pos + 1; labelLen = unat b in
           if labelLen > length dat - pos1 then Some ([], offset)
           else if length domain + labelLen > kMaxDnsName then Some ([], offset)
           else (case rds dat pos1 labelLen of None \<Rightarrow> None | Some label \<Rightarrow>
             decode_from dat (pos1 + labelLen) jumps
               ((if domain \<noteq> [] then domain @ ''.'' else domain) @ map byte_char label) offset offsetSet)))"
  by pat_completeness auto
termination
  by (relation "measures [\<lambda>(dat, pos, jumps, _). kMaxPointers - jumps, \<lambda>(dat, pos, jumps, _). length dat - pos]") auto

declare decode_from.simps [simp del]

definition decodeDomainName :: "byte list \<Rightarrow> nat \<Rightarrow> (string \<times> nat) option" where
  "decodeDomainName dat offset = decode_from dat offset 0 [] offset False"

definition encode_label :: "string \<Rightarrow> byte list" where
  "encode_label l = (let l' = take 63 l in of_nat (length l') # map char_byte l')"

function encode_labels :: "string \<Rightarrow> byte list" where
  "encode_labels d =
     (if d = [] then []
      else case split_at (CHR ''.'') d of
        None \<Rightarrow> encode_label d
      | Some (l, rest) \<Rightarrow> encode_label l @ encode_labels rest)"
  by pat_completeness auto
termination
  by (relation "measure length") (auto dest: split_at_length)

declare encode_labels.simps [simp del]

definition encodeDomainName :: "string \<Rightarrow> byte list" where
  "encodeDomainName d = encode_labels d @ [0]"

section \<open>The client's query\<close>

record query =
  q_domain :: string
  q_type :: u16
  q_cls :: u16
  q_id :: u16

text \<open>The inner \<open>None\<close> is the return value false.\<close>

definition parseQuery :: "byte list \<Rightarrow> query option option" where
  "parseQuery buf =
     (if length buf < DnsMsg.kHeaderBytes then Some None
      else do {
        qid \<leftarrow> rd16 buf 0;
        flags \<leftarrow> rd16 buf 2;
        if flags AND 0x8000 \<noteq> 0 then Some None
        else do {
          qdcount \<leftarrow> rd16 buf 4;
          if qdcount = 0 then Some None
          else do {
            (domain, offset) \<leftarrow> decodeDomainName buf DnsMsg.kHeaderBytes;
            if domain = [] then Some None
            else if offset + kQuestionTailBytes > length buf then Some None
            else do {
              typ \<leftarrow> rd16 buf offset;
              cls \<leftarrow> rd16 buf (offset + 2);
              Some (Some \<lparr>q_domain = domain, q_type = typ, q_cls = cls, q_id = qid\<rparr>) }}}})"

section \<open>The upstream's answer\<close>

definition dotted4 :: "byte \<Rightarrow> byte \<Rightarrow> byte \<Rightarrow> byte \<Rightarrow> string" where
  "dotted4 a b c d = dec_str (unat a) @ ''.'' @ dec_str (unat b) @ ''.'' @ dec_str (unat c) @ ''.'' @ dec_str (unat d)"

fun skip_questions :: "byte list \<Rightarrow> nat \<Rightarrow> nat \<Rightarrow> nat option" where
  "skip_questions buf 0 offset = Some offset"
| "skip_questions buf (Suc n) offset =
     (if offset \<ge> length buf then Some offset
      else case decodeDomainName buf offset of None \<Rightarrow> None
        | Some (_, off) \<Rightarrow> skip_questions buf n (off + kQuestionTailBytes))"

text \<open>The sixteen bytes of an IPv6 address as \<open>inet_ntop\<close> takes them.\<close>

definition in6_at :: "byte list \<Rightarrow> nat \<Rightarrow> in6 option" where
  "in6_at buf i = do { a \<leftarrow> rd32 buf i; b \<leftarrow> rd32 buf (i + 4); c \<leftarrow> rd32 buf (i + 8); d \<leftarrow> rd32 buf (i + 12); Some (a, b, c, d) }"

text \<open>The text of an address record; the inner \<open>None\<close> when it is none.\<close>

definition answer_text :: "iptext \<Rightarrow> byte list \<Rightarrow> nat \<Rightarrow> u16 \<Rightarrow> nat \<Rightarrow> string option option" where
  "answer_text t buf off typ rdlen =
     (if typ = kTypeA \<and> rdlen = 4 then
        do { a \<leftarrow> rd buf off; b \<leftarrow> rd buf (off + 1); c \<leftarrow> rd buf (off + 2); d \<leftarrow> rd buf (off + 3); Some (Some (dotted4 a b c d)) }
      else if typ = kTypeAaaa \<and> rdlen = 16 then map_option (t_ntop6 t) (in6_at buf off)
      else Some None)"

fun walk_answers :: "iptext \<Rightarrow> byte list \<Rightarrow> nat \<Rightarrow> nat \<Rightarrow> string list \<Rightarrow> u32 \<Rightarrow> (string list \<times> u32) option" where
  "walk_answers t buf 0 offset ips ttlSec = Some (ips, ttlSec)"
| "walk_answers t buf (Suc n) offset ips ttlSec =
     (if offset + kRecordFixedBytes > length buf then Some (ips, ttlSec)
      else do {
        (_, off) \<leftarrow> decodeDomainName buf offset;
        if off + kRecordFixedBytes > length buf then Some (ips, ttlSec)
        else do {
          typ \<leftarrow> rd16 buf off;
          b4 \<leftarrow> rd buf (off + 4);
          b5 \<leftarrow> rd buf (off + 5);
          b6 \<leftarrow> rd buf (off + 6);
          b7 \<leftarrow> rd buf (off + 7);
          rdlen \<leftarrow> rd16 buf (off + 8);
          let ttlN = le32 b7 b6 b5 b4;
          let off2 = off + kRecordFixedBytes;
          if off2 + unat rdlen > length buf then Some (ips, ttlSec)
          else
            (case answer_text t buf off2 typ (unat rdlen) of
               None \<Rightarrow> None
             | Some (Some ip) \<Rightarrow> walk_answers t buf n (off2 + unat rdlen) (ips @ [ip])
                            (if ttlSec = 0 \<or> ttlN < ttlSec then ttlN else ttlSec)
             | Some None \<Rightarrow> walk_answers t buf n (off2 + unat rdlen) ips ttlSec)
        }})"

definition parseForwardAnswer :: "iptext \<Rightarrow> byte list \<Rightarrow> (string list \<times> u32) option" where
  "parseForwardAnswer t buf =
     (if length buf < DnsMsg.kHeaderBytes then Some ([], 0)
      else do {
        qdcount \<leftarrow> rd16 buf 4;
        ancount \<leftarrow> rd16 buf 6;
        offset \<leftarrow> skip_questions buf (unat qdcount) DnsMsg.kHeaderBytes;
        walk_answers t buf (unat ancount) offset [] 0 })"

datatype DnsQueryOutcome = Answered | NoData | Blocked | Nxdomain | Timeout | NoSlot | NoSocket

definition forwardingOutcome :: "byte list \<Rightarrow> DnsQueryOutcome" where
  "forwardingOutcome reply =
     (if length reply < 4 then Answered else if reply ! 3 AND 0x0F = 3 then Nxdomain else Answered)"

section \<open>Replies\<close>

text \<open>The reply buffer: its size, the bytes an earlier reply left in it, an uninitialised word.\<close>

record reply_env =
  re_size :: nat
  re_old :: "nat \<Rightarrow> byte"
  re_junk :: u32
  re_text :: iptext

definition put :: "reply_env \<Rightarrow> byte list \<Rightarrow> byte list \<Rightarrow> byte list option" where
  "put e out bs = (if length out + length bs \<le> re_size e then Some (out @ bs) else None)"

definition mem16be :: "u16 \<Rightarrow> byte list" where
  "mem16be w = [ucast (drop_bit 8 w), ucast w]"

fun mem_in6 :: "in6 \<Rightarrow> byte list" where
  "mem_in6 (a, b, c, d) = mem32 a @ mem32 b @ mem32 c @ mem32 d"

text \<open>The fixed part and data of one address record; \<open>pos\<close> is where the data goes.\<close>

definition rr_bytes :: "reply_env \<Rightarrow> nat \<Rightarrow> u16 \<Rightarrow> u32 \<Rightarrow> string \<Rightarrow> byte list" where
  "rr_bytes e pos cls ttl ip =
     [0xC0, 12] @ mem16be (if has_colon ip then kTypeAaaa else kTypeA) @ mem16be cls @ mem32 (htonl ttl)
     @ (if has_colon ip then
          [0, 16] @ (case t_pton6 (re_text e) ip of Some a \<Rightarrow> mem_in6 a | None \<Rightarrow> map (\<lambda>i. re_old e (pos + 12 + i)) [0..<16])
        else [0, 4] @ mem32 (case t_pton4 (re_text e) ip of Some a \<Rightarrow> a | None \<Rightarrow> re_junk e))"

fun put_answers :: "reply_env \<Rightarrow> u16 \<Rightarrow> u32 \<Rightarrow> string list \<Rightarrow> byte list \<Rightarrow> byte list option" where
  "put_answers e cls ttl [] out = Some out"
| "put_answers e cls ttl (ip # ips) out =
     (if length out + DnsMsg.kHeaderBytes + kQuestionTailBytes > re_size e then Some out
      else do { out1 \<leftarrow> put e out (rr_bytes e (length out) cls ttl ip); put_answers e cls ttl ips out1 })"

definition reply_head :: "u16 \<Rightarrow> byte \<Rightarrow> u16 \<Rightarrow> byte list" where
  "reply_head qid flags2 ancount = mem16be qid @ [0x81, flags2] @ mem16be 1 @ mem16be ancount @ [0, 0, 0, 0]"

text \<open>Both replies: the empty list is the return value 0.\<close>

definition put_question :: "reply_env \<Rightarrow> byte list \<Rightarrow> string \<Rightarrow> u16 \<Rightarrow> u16 \<Rightarrow> byte list option" where
  "put_question e hd_bytes domain typ cls =
     (if DnsMsg.kHeaderBytes > re_size e then Some []
      else do {
        out \<leftarrow> put e hd_bytes (encodeDomainName domain);
        if length out + 4 > re_size e then Some [] else Some (out @ mem16be typ @ mem16be cls) })"

definition buildAnswer :: "reply_env \<Rightarrow> u16 \<Rightarrow> string \<Rightarrow> u16 \<Rightarrow> u16 \<Rightarrow> string list \<Rightarrow> u32 \<Rightarrow> byte list option" where
  "buildAnswer e qid domain typ cls ips ttl =
     (case put_question e (reply_head qid 0x80 (of_nat (length ips))) domain typ cls of
        None \<Rightarrow> None
      | Some out \<Rightarrow> if out = [] then Some [] else put_answers e cls ttl ips out)"

definition buildNxdomain :: "reply_env \<Rightarrow> u16 \<Rightarrow> string \<Rightarrow> u16 \<Rightarrow> u16 \<Rightarrow> byte list option" where
  "buildNxdomain e qid domain typ cls = put_question e (reply_head qid 0x83 0) domain typ cls"

section \<open>Memory safety\<close>

lemma decode_from_safe: "\<exists>d off. decode_from dat pos jumps domain offset offsetSet = Some (d, off)"
proof (induction dat pos jumps domain offset offsetSet rule: decode_from.induct)
  case (1 dat pos jumps domain offset offsetSet)
  show ?case
    by (subst decode_from.simps) (use 1 in \<open>auto simp: Let_def rd_def rds_def\<close>)
qed

lemma decode_from_length:
  "decode_from dat pos jumps domain offset offsetSet = Some (d, off) \<Longrightarrow> length domain \<le> 256 \<Longrightarrow> length d \<le> 256"
proof (induction dat pos jumps domain offset offsetSet rule: decode_from.induct)
  case (1 dat pos jumps domain offset offsetSet)
  show ?case
    using "1.prems" "1.IH"
    by (subst (asm) decode_from.simps)
      (auto simp: Let_def rds_def kMaxDnsName_def split: option.splits if_splits)
qed

lemma answer_text_safe: "answer_text t buf off typ rdlen = None \<Longrightarrow> length buf < off + rdlen"
  by (rule ccontr) (auto simp: answer_text_def in6_at_def split: if_splits)

lemma decodeDomainName_safe: obtains d off where "decodeDomainName dat offset = Some (d, off)"
  using decode_from_safe unfolding decodeDomainName_def by blast

lemma parseQuery_safe [mem_safe]: "parseQuery buf \<noteq> None"
proof (cases "length buf < DnsMsg.kHeaderBytes")
  case False
  obtain d off where d: "decodeDomainName buf DnsMsg.kHeaderBytes = Some (d, off)" by (rule decodeDomainName_safe)
  show ?thesis using False d by (auto simp: parseQuery_def dns_consts)
qed (simp add: parseQuery_def)

lemma skip_questions_safe [mem_safe]: "skip_questions buf n offset \<noteq> None"
proof (induction n arbitrary: offset)
  case (Suc n)
  obtain d off where "decodeDomainName buf offset = Some (d, off)" by (rule decodeDomainName_safe)
  with Suc show ?case by simp
qed simp

lemma walk_answers_safe [mem_safe]: "walk_answers t buf n offset ips ttl \<noteq> None"
proof (induction n arbitrary: offset ips ttl)
  case (Suc n)
  obtain d off where d: "decodeDomainName buf offset = Some (d, off)" by (rule decodeDomainName_safe)
  show ?case
    using Suc d by (auto simp: dns_consts Let_def split: option.splits dest: answer_text_safe)
qed simp

lemma parseForwardAnswer_safe [mem_safe]: "parseForwardAnswer t buf \<noteq> None"
proof (cases "length buf < DnsMsg.kHeaderBytes")
  case False
  obtain off where "skip_questions buf (unat (be16 (buf ! 4) (buf ! 5))) DnsMsg.kHeaderBytes = Some off"
    using skip_questions_safe by blast
  with False walk_answers_safe show ?thesis by (simp add: parseForwardAnswer_def dns_consts)
qed (simp add: parseForwardAnswer_def)

section \<open>Names written and read back\<close>

lemma plain_label_type: "n < 64 \<Longrightarrow> (of_nat n :: byte) AND 0xC0 = 0"
proof -
  assume "n < 64"
  moreover have "\<forall>k \<in> set [0..<64]. (of_nat k :: byte) AND 0xC0 = 0" by code_simp
  ultimately show ?thesis by simp
qed

definition label_ok :: "string \<Rightarrow> bool" where
  "label_ok l \<longleftrightarrow> 0 < length l \<and> length l \<le> 63 \<and> CHR ''.'' \<notin> set l"

lemma length_dotted: "length out \<le> length (dotted out ps)"
  by (induction out ps rule: dotted.induct) (auto intro: le_trans)

lemma length_label_bytes [simp]: "length (label_bytes p) = Suc (length p)"
  by (simp add: label_bytes_def)

lemma decode_labels:
  assumes "\<forall>p \<in> set ps. label_ok p" and "length (dotted out ps) \<le> kMaxDnsName"
  shows "decode_from (pre @ concat (map label_bytes ps) @ 0 # tail) (length pre) jumps out offset offsetSet
    = Some (dotted out ps, if offsetSet then offset else length pre + length (concat (map label_bytes ps)) + 1)"
  using assms
proof (induction ps arbitrary: pre out)
  case Nil
  then show ?case by (subst decode_from.simps) simp
next
  case (Cons p ps)
  let ?buf = "pre @ concat (map label_bytes (p # ps)) @ 0 # tail"
  define out2 where "out2 = (if out \<noteq> [] then out @ ''.'' else out) @ p"
  have dot: "dotted out (p # ps) = dotted out2 ps" by (simp add: out2_def)
  have p: "0 < length p" "length p \<le> 63" using Cons.prems by (auto simp: label_ok_def)
  have u: "unat (of_nat (length p) :: byte) = length p" using p by (intro unat_small) linarith
  then have nz: "(of_nat (length p) :: byte) \<noteq> 0" using p(1) by (metis less_irrefl unat_0)
  have ty: "(of_nat (length p) :: byte) AND 0xC0 = 0" using p(2) by (intro plain_label_type) linarith
  have lbl: "map byte_char (take (length p) (drop (length pre + 1) ?buf)) = p"
    by (simp add: label_bytes_def comp_def)
  have in1: "\<not> length pre \<ge> length ?buf" and in2: "\<not> length p > length ?buf - (length pre + 1)"
    by (simp_all add: label_bytes_def)
  have r: "rd ?buf (length pre) = Some (of_nat (length p))" by (simp add: rd_def label_bytes_def)
  have s: "rds ?buf (length pre + 1) (length p) = Some (take (length p) (drop (length pre + 1) ?buf))"
    by (rule rds_Some) (simp add: label_bytes_def)
  have "length out + length p \<le> length out2" by (simp add: out2_def)
  then have in3: "\<not> length out + length p > kMaxDnsName"
    using Cons.prems(2) length_dotted [of out2 ps] unfolding dot by linarith
  have "(0 :: byte) \<noteq> 0xC0" by simp
  then have "decode_from ?buf (length pre) jumps out offset offsetSet =
      decode_from ?buf (length pre + 1 + length p) jumps out2 offset offsetSet"
    by (subst decode_from.simps)
      (simp only: in1 in2 in3 r s option.case if_False nz ty u lbl Let_def simp_thms out2_def)
  also have "\<dots> = decode_from ((pre @ label_bytes p) @ concat (map label_bytes ps) @ 0 # tail)
      (length (pre @ label_bytes p)) jumps out2 offset offsetSet"
    by (simp add: label_bytes_def)
  also have "\<dots> = Some (dotted out (p # ps),
      if offsetSet then offset else length pre + length (concat (map label_bytes (p # ps))) + 1)"
    using Cons.IH [of out2 "pre @ label_bytes p"] Cons.prems unfolding dot by (cases offsetSet) simp_all
  finally show ?case .
qed

lemma dotted_append: "p \<noteq> [] \<Longrightarrow> dotted p ps = p @ concat (map (\<lambda>q. CHR ''.'' # q) ps)"
  by (induction ps arbitrary: p) simp_all

lemma encode_label_ok: "label_ok l \<Longrightarrow> encode_label l = label_bytes l"
  by (simp add: encode_label_def label_bytes_def label_ok_def)

lemma encode_dotted:
  assumes "\<forall>p \<in> set (p # ps). label_ok p"
  shows "encode_labels (p @ concat (map (\<lambda>q. CHR ''.'' # q) ps)) = concat (map label_bytes (p # ps))"
  using assms
proof (induction ps arbitrary: p)
  case Nil
  then have "p \<noteq> []" "split_at (CHR ''.'') p = None" by (auto simp: label_ok_def split_at_None_iff)
  then show ?case using Nil by (subst encode_labels.simps) (simp add: encode_label_ok)
next
  case (Cons q ps)
  then have "split_at (CHR ''.'') (p @ CHR ''.'' # q @ concat (map (\<lambda>q. CHR ''.'' # q) ps)) = Some (p, q @ concat (map (\<lambda>q. CHR ''.'' # q) ps))"
    by (intro split_at_append) (simp add: label_ok_def)
  then show ?case using Cons by (subst encode_labels.simps) (simp add: encode_label_ok)
qed

text \<open>A name as it is written: labels of 1 to 63 bytes, at most 255 bytes in all.\<close>

definition dns_name :: "string list \<Rightarrow> string \<Rightarrow> bool" where
  "dns_name ls d \<longleftrightarrow> ls \<noteq> [] \<and> (\<forall>l \<in> set ls. label_ok l) \<and> d = dotted [] ls \<and> length d \<le> kMaxDnsName"

lemma encode_name: "dns_name ls d \<Longrightarrow> encodeDomainName d = concat (map label_bytes ls) @ [0]"
proof -
  assume d: "dns_name ls d"
  then obtain p ps where ls: "ls = p # ps" by (cases ls) (auto simp: dns_name_def)
  have "d = p @ concat (map (\<lambda>q. CHR ''.'' # q) ps)"
    using d dotted_append [of p ps] by (auto simp: dns_name_def ls label_ok_def)
  then show ?thesis using encode_dotted [of p ps] d by (simp add: encodeDomainName_def dns_name_def ls)
qed

lemma length_encode: "dns_name ls d \<Longrightarrow> length (encodeDomainName d) = length d + 2"
proof -
  assume d: "dns_name ls d"
  then obtain p ps where ls: "ls = p # ps" by (cases ls) (auto simp: dns_name_def)
  have "length (concat (map label_bytes ps)) = length (concat (map (\<lambda>q. CHR ''.'' # q) ps))"
    by (induction ps) (simp_all add: label_bytes_def)
  moreover have "d = p @ concat (map (\<lambda>q. CHR ''.'' # q) ps)"
    using d dotted_append [of p ps] by (auto simp: dns_name_def ls label_ok_def)
  ultimately show ?thesis unfolding encode_name [OF d] ls by (simp add: label_bytes_def)
qed

lemma decode_name:
  assumes "dns_name ls d"
  shows "decode_from (pre @ encodeDomainName d @ tail) (length pre) jumps [] offset offsetSet
    = Some (d, if offsetSet then offset else length pre + length (encodeDomainName d))"
proof -
  have "decode_from (pre @ concat (map label_bytes ls) @ 0 # tail) (length pre) jumps [] offset offsetSet
    = Some (dotted [] ls, if offsetSet then offset else length pre + length (concat (map label_bytes ls)) + 1)"
    by (rule decode_labels) (use assms in \<open>auto simp: dns_name_def\<close>)
  moreover have "dotted [] ls = d" using assms by (simp add: dns_name_def)
  ultimately show ?thesis unfolding encode_name [OF assms] by simp
qed

section \<open>Answers written and read back\<close>

text \<open>An address text that the conversions keep; an IPv4 text is the dotted form of its bytes.\<close>

definition addr_ok :: "iptext \<Rightarrow> string \<Rightarrow> bool" where
  "addr_ok t ip \<longleftrightarrow>
     (if has_colon ip then \<exists>a. t_pton6 t ip = Some a \<and> t_ntop6 t a = Some ip
      else \<exists>a. t_pton4 t ip = Some a \<and> dotted4 (mem32 a ! 0) (mem32 a ! 1) (mem32 a ! 2) (mem32 a ! 3) = ip)"

lemma mem16be_length [simp]: "length (mem16be w) = 2"
  by (simp add: mem16be_def)

lemma length_mem_in6 [simp]: "length (mem_in6 a) = 16"
  by (cases a) simp

lemma length_rr: "length (rr_bytes e pos cls ttl ip) = (if has_colon ip then 28 else 16)"
  by (simp add: rr_bytes_def split: option.splits)

lemma nth_middle: "k < length xs \<Longrightarrow> (pre @ xs @ rest) ! (length pre + k) = xs ! k"
  by (simp add: nth_append)

lemma mem32_htonl: "mem32 (htonl w) = [ucast (drop_bit 24 w), ucast (drop_bit 16 w), ucast (drop_bit 8 w), ucast w]"
  by (simp add: ntohl_def)

lemma le32_htonl: "le32 (ucast w) (ucast (drop_bit 8 w)) (ucast (drop_bit 16 w)) (ucast (drop_bit 24 w)) = w"
  by simp

lemma in6_at_mem:
  assumes "buf = pre @ mem_in6 a @ rest"
  shows "in6_at buf (length pre) = Some a"
proof -
  obtain w x y z where a: "a = (w, x, y, z)" by (cases a)
  have l: "length pre + 16 \<le> length buf" using assms by simp
  have at: "buf ! (length pre + k) = mem_in6 a ! k" if "k < 16" for k
    unfolding assms using that by (intro nth_middle) simp
  have w: "le32 (buf ! (length pre + k)) (buf ! (length pre + k + 1)) (buf ! (length pre + k + 2)) (buf ! (length pre + k + 3))
      = le32 (mem_in6 a ! k) (mem_in6 a ! (k + 1)) (mem_in6 a ! (k + 2)) (mem_in6 a ! (k + 3))" if "k \<le> 12" for k
    using at [of k] at [of "k + 1"] at [of "k + 2"] at [of "k + 3"] that by (simp add: add.assoc)
  show ?thesis
    using l w [of 0] w [of 4] w [of 8] w [of 12] unfolding in6_at_def by (simp add: a mem32_def)
qed

lemma pointer_name:
  assumes "dns_name ls d" and "length h = 12" and "buf = h @ encodeDomainName d @ rest"
    and "off + 1 < length buf" and "buf ! off = 0xC0" and "buf ! (off + 1) = 12"
  shows "decodeDomainName buf off = Some (d, off + 2)"
proof -
  have pt: "pointer_target 0xC0 12 = 12" by code_simp
  have nz: "(0xC0 :: byte) \<noteq> 0" "(0xC0 :: byte) AND 0xC0 = 0xC0" by simp_all
  have r: "rd buf off = Some 0xC0" "rd buf (off + 1) = Some 12" using assms(4-6) by (simp_all add: rd_def)
  have in1: "\<not> off \<ge> length buf" "\<not> off + 1 \<ge> length buf" using assms(4) by simp_all
  have mx: "\<not> kMaxPointers < 1" by (simp add: kMaxPointers_def)
  have "decodeDomainName buf off = decode_from buf 12 1 [] (off + 2) True"
    unfolding decodeDomainName_def
    by (subst decode_from.simps)
      (simp only: in1 r option.case nz mx pt if_False if_True Let_def simp_thms add_0)
  also have "\<dots> = Some (d, off + 2)"
    using decode_name [OF assms(1), of h rest 1 "off + 2" True] assms(2,3) by simp
  finally show ?thesis .
qed

lemma walk_one:
  assumes "dns_name ls d" and "length h = 12" and "buf = h @ encodeDomainName d @ rest0"
    and "buf = pre @ rr_bytes e (length pre) cls ttl ip @ rest" and "addr_ok (re_text e) ip"
  shows "walk_answers (re_text e) buf (Suc n) (length pre) ips acc =
    walk_answers (re_text e) buf n (length pre + length (rr_bytes e (length pre) cls ttl ip)) (ips @ [ip])
      (if acc = 0 \<or> ttl < acc then ttl else acc)"
proof -
  let ?rr = "rr_bytes e (length pre) cls ttl ip"
  define off where "off = length pre + 2"
  have len: "length ?rr = (if has_colon ip then 28 else 16)" by (rule length_rr)
  then have l16: "16 \<le> length ?rr" by simp
  have at: "buf ! (length pre + k) = ?rr ! k" if "k < length ?rr" for k
    unfolding assms(4) using that by (rule nth_middle)
  have lb: "length pre + length ?rr \<le> length buf" using assms(4) by simp
  have rdk: "rd buf (off + k) = Some (?rr ! (k + 2))" if "k < 14" for k
    using at [of "k + 2"] that lb l16 by (simp add: rd_def off_def)
  have rrs: "?rr ! 2 = ucast (drop_bit 8 (if has_colon ip then kTypeAaaa else kTypeA))"
      "?rr ! 3 = ucast (if has_colon ip then kTypeAaaa else kTypeA)"
      "?rr ! 6 = ucast (drop_bit 24 ttl)" "?rr ! 7 = ucast (drop_bit 16 ttl)" "?rr ! 8 = ucast (drop_bit 8 ttl)" "?rr ! 9 = ucast ttl"
      "?rr ! 10 = 0" "?rr ! 11 = (if has_colon ip then 16 else 4)"
    by (simp_all add: rr_bytes_def mem16be_def mem32_htonl)
  have nm: "decodeDomainName buf (length pre) = Some (d, off)"
    unfolding off_def
    by (rule pointer_name [OF assms(1,2,3)]) (use at [of 0] at [of 1] l16 lb in \<open>simp_all add: rr_bytes_def\<close>)
  let ?q = "if has_colon ip then kTypeAaaa else kTypeA"
  let ?n = "if has_colon ip then 16 else 4 :: nat"
  have t: "rd16 buf off = Some ?q"
    using rdk [of 0] rdk [of 1] rrs(1,2) by (simp add: rd16_def numeral_3_eq_3 numeral_2_eq_2)
  have ttl: "rd buf (off + 4) = Some (ucast (drop_bit 24 ttl))" "rd buf (off + 5) = Some (ucast (drop_bit 16 ttl))"
      "rd buf (off + 6) = Some (ucast (drop_bit 8 ttl))" "rd buf (off + 7) = Some (ucast ttl)"
    using rdk [of 4] rdk [of 5] rdk [of 6] rdk [of 7] rrs(3-6) by simp_all
  have rl: "rd16 buf (off + 8) = Some (of_nat ?n)"
  proof -
    have n9: "off + 8 + 1 = off + 9" by simp
    show ?thesis using rdk [of 8] rdk [of 9] rrs(7,8) unfolding rd16_def n9 by (simp add: be16_def)
  qed
  have un: "unat (of_nat ?n :: u16) = ?n" by simp
  have ans: "answer_text (re_text e) buf (off + 10) ?q ?n = Some (Some ip)"
  proof (cases "has_colon ip")
    case True
    then obtain a where a: "t_pton6 (re_text e) ip = Some a" "t_ntop6 (re_text e) a = Some ip"
      using assms(5) by (auto simp: addr_ok_def)
    let ?p = "pre @ [0xC0, 12] @ mem16be kTypeAaaa @ mem16be cls @ mem32 (htonl ttl) @ [0, 16]"
    have "buf = ?p @ mem_in6 a @ rest" using assms(4) True a(1) by (simp add: rr_bytes_def)
    then have "in6_at buf (length ?p) = Some a" by (rule in6_at_mem)
    then show ?thesis using True a(2) by (simp add: answer_text_def kTypeA_def kTypeAaaa_def off_def add.commute)
  next
    case False
    then obtain a where a: "t_pton4 (re_text e) ip = Some a"
        "dotted4 (mem32 a ! 0) (mem32 a ! 1) (mem32 a ! 2) (mem32 a ! 3) = ip"
      using assms(5) by (auto simp: addr_ok_def)
    have m: "?rr ! (12 + k) = mem32 a ! k" for k using False a(1) by (simp add: rr_bytes_def mem16be_def mem32_htonl)
    have p: "off + 10 = length pre + (12 + 0)" "off + 10 + 1 = length pre + (12 + 1)"
        "off + 10 + 2 = length pre + (12 + 2)" "off + 10 + 3 = length pre + (12 + 3)"
      by (simp_all add: off_def)
    have b: "buf ! (length pre + (12 + k)) = mem32 a ! k" if "k < 4" for k
      using at [of "12 + k"] m [of k] that l16 by simp
    have "rd buf (off + 10) = Some (mem32 a ! 0)" "rd buf (off + 10 + 1) = Some (mem32 a ! 1)"
        "rd buf (off + 10 + 2) = Some (mem32 a ! 2)" "rd buf (off + 10 + 3) = Some (mem32 a ! 3)"
      using b [of 0] b [of 1] b [of 2] b [of 3] lb l16 unfolding p [symmetric] by (simp_all add: rd_def off_def)
    then show ?thesis using False a(2) by (simp only: answer_text_def if_False if_True simp_thms bind.bind_lunit)
  qed
  have b: "\<not> length pre + kRecordFixedBytes > length buf" "\<not> off + kRecordFixedBytes > length buf"
      "\<not> off + kRecordFixedBytes + ?n > length buf"
    using lb len by (auto simp: kRecordFixedBytes_def off_def split: if_splits)
  have e: "off + kRecordFixedBytes + ?n = length pre + length ?rr" using len by (simp add: kRecordFixedBytes_def off_def)
  have nl: "\<not> length buf < length pre + length ?rr" using lb by simp_all
  have ans': "answer_text (re_text e) buf (off + kRecordFixedBytes) ?q ?n = Some (Some ip)"
    using ans by (simp only: kRecordFixedBytes_def)
  show ?thesis
    by (simp only: walk_answers.simps b if_False nm bind.bind_lunit prod.case t ttl rl Let_def un ans' option.case e nl le32_htonl)
qed


lemma walk_written:
  assumes "dns_name ls d" and "length h = 12" and "\<forall>ip \<in> set ips. addr_ok (re_text e) ip"
    and "h @ encodeDomainName d @ rest0 = pre @ body" and "put_answers e cls ttl ips pre = Some (pre @ body)"
    and "length pre + 28 * length ips \<le> re_size e"
  shows "walk_answers (re_text e) (pre @ body) (length ips) (length pre) acc k = Some (acc @ ips,
    if ips = [] then k else if k = 0 \<or> ttl < k then ttl else k)"
  using assms(3-6)
proof (induction ips arbitrary: pre body acc k)
  case (Cons ip ips)
  let ?rr = "rr_bytes e (length pre) cls ttl ip"
  have "length pre + length ?rr \<le> re_size e" using Cons.prems(4) by (simp add: length_rr)
  then have go: "put_answers e cls ttl ips (pre @ ?rr) = Some (pre @ body)"
    using Cons.prems(3,4) by (simp add: put_def dns_consts)
  have "\<exists>b. out' = out @ b" if "put_answers e cls ttl as out = Some out'" for as out out'
    using that by (induction as arbitrary: out) (fastforce simp: put_def bind_eq_Some_conv split: if_splits)+
  from this [OF go] obtain b where b: "body = ?rr @ b" by auto
  have "walk_answers (re_text e) (pre @ body) (length (ip # ips)) (length pre) acc k =
      walk_answers (re_text e) (pre @ body) (length ips) (length pre + length ?rr) (acc @ [ip]) (if k = 0 \<or> ttl < k then ttl else k)"
    using walk_one [OF assms(1,2), of "pre @ body" rest0 pre e cls ttl ip b "length ips" acc k] Cons.prems(1,2) b by simp
  also have "\<dots> = Some ((acc @ [ip]) @ ips, if ips = [] then (if k = 0 \<or> ttl < k then ttl else k)
      else if (if k = 0 \<or> ttl < k then ttl else k) = 0 \<or> ttl < (if k = 0 \<or> ttl < k then ttl else k) then ttl
      else (if k = 0 \<or> ttl < k then ttl else k))"
    using Cons.IH [of "pre @ ?rr" b "acc @ [ip]" "if k = 0 \<or> ttl < k then ttl else k"] Cons.prems go b
    by (simp add: length_rr del: walk_answers.simps)
  finally show ?case by auto
qed simp

text \<open>Where there is room for 28 bytes an address, the reply is written without leaving the buffer.\<close>

lemma put_answers_fits:
  "length out + 28 * length ips \<le> re_size e \<Longrightarrow> \<exists>body. put_answers e cls ttl ips out = Some (out @ body)"
proof (induction ips arbitrary: out)
  case (Cons ip ips)
  let ?rr = "rr_bytes e (length out) cls ttl ip"
  obtain body where "put_answers e cls ttl ips (out @ ?rr) = Some ((out @ ?rr) @ body)"
    using Cons.IH [of "out @ ?rr"] Cons.prems by (cases "has_colon ip") (auto simp: length_rr)
  then show ?case using Cons.prems by (simp add: put_def length_rr dns_consts)
qed simp

lemma length_reply_head [simp]: "length (reply_head qid f2 an) = 12"
  by (simp add: reply_head_def)

lemma be16_one [simp]: "be16 0 1 = 1"
  by (simp add: be16_def)

lemma reply_head_fields:
  "take 2 (reply_head qid f2 an) = mem16be qid" "rd16 (reply_head qid f2 an @ x) 0 = Some qid"
  "rd16 (reply_head qid f2 an @ x) 4 = Some 1" "rd16 (reply_head qid f2 an @ x) 6 = Some an"
  by (simp_all add: reply_head_def rd16_def rd_def mem16be_def nth_append)

lemma put_question_fits:
  assumes "dns_name ls d" and "length hb = 12" and "18 + length d \<le> re_size e"
  shows "put_question e hb d typ cls = Some (hb @ encodeDomainName d @ mem16be typ @ mem16be cls)"
  using assms by (simp add: put_question_def put_def length_encode dns_consts)

definition reply_room :: "reply_env \<Rightarrow> string \<Rightarrow> string list \<Rightarrow> bool" where
  "reply_room e d ips \<longleftrightarrow> 18 + length d + 28 * length ips \<le> re_size e \<and> length ips < 65536"

text \<open>
  C16. A reply the server builds is a reply its own parser reads back: the query's id, the name, every
  address in order with the lifetime, for every legal name and any addresses the text conversions keep,
  as long as the buffer has 28 bytes for each.
\<close>

theorem dns_answer_roundtrip:
  assumes "dns_name ls d" and "\<forall>ip \<in> set ips. addr_ok (re_text e) ip" and "reply_room e d ips"
  shows "\<exists>r. buildAnswer e qid d typ cls ips ttl = Some r \<and> rd16 r 0 = Some qid
    \<and> decodeDomainName r DnsMsg.kHeaderBytes = Some (d, 14 + length d)
    \<and> parseForwardAnswer (re_text e) r = Some (ips, if ips = [] then 0 else ttl)"
proof -
  let ?h = "reply_head qid 0x80 (of_nat (length ips))"
  let ?q = "?h @ encodeDomainName d @ mem16be typ @ mem16be cls"
  have q: "put_question e ?h d typ cls = Some ?q"
    by (rule put_question_fits) (use assms in \<open>auto simp: reply_room_def\<close>)
  have lq: "length ?q = 18 + length d" using assms(1) by (simp add: length_encode)
  obtain body where body: "put_answers e cls ttl ips ?q = Some (?q @ body)"
    using put_answers_fits [of ?q ips e cls ttl] assms(3) lq by (auto simp: reply_room_def)
  let ?r = "?q @ body"
  have r: "?r = ?h @ encodeDomainName d @ (mem16be typ @ mem16be cls @ body)" by simp
  have b: "buildAnswer e qid d typ cls ips ttl = Some ?r"
    using q body by (auto simp: buildAnswer_def reply_head_def)
  have nm: "decodeDomainName ?r 12 = Some (d, 14 + length d)"
    using decode_name [OF assms(1), of ?h "mem16be typ @ mem16be cls @ body" 0 12 False]
    by (simp add: decodeDomainName_def length_encode [OF assms(1)])
  have sk: "skip_questions ?r 1 12 = Some (length ?q)"
    using nm lq by (simp add: dns_consts)
  have w: "walk_answers (re_text e) ?r (length ips) (length ?q) [] 0 = Some (ips, if ips = [] then 0 else ttl)"
    using walk_written [OF assms(1) _ assms(2) r [symmetric] body, of "[]" 0] assms(3) lq by (simp add: reply_room_def)
  have u: "unat (of_nat (length ips) :: u16) = length ips"
    using assms(3) by (simp add: reply_room_def unat_of_nat)
  have hd: "rd16 ?r 0 = Some qid" "rd16 ?r 4 = Some 1" "rd16 ?r 6 = Some (of_nat (length ips))"
    unfolding r by (simp_all only: reply_head_fields)
  have l: "\<not> length ?r < 12" using lq by simp
  have "parseForwardAnswer (re_text e) ?r = Some (ips, if ips = [] then 0 else ttl)"
    by (simp only: parseForwardAnswer_def DnsMsg.kHeaderBytes_def l if_False hd bind.bind_lunit u unat_1 sk w)
  with b nm hd(1) show ?thesis by (auto simp: dns_consts)
qed

text \<open>
  C17. Neither the client's query nor the upstream's answer, whatever bytes it has, makes the parsers
  read outside the message or loop: the name decoder always returns, follows at most 32 compression
  pointers, and both parsers come back with a result. Every byte they look at is a checked read, the
  bytes of a label and of an address included. A decoded name has at most 256 characters.
\<close>

theorem dns_parsers_memory_safe:
  "parseQuery buf \<noteq> None \<and> parseForwardAnswer t buf \<noteq> None
   \<and> (\<exists>d off. decodeDomainName buf pos = Some (d, off) \<and> length d \<le> 256)"
proof -
  obtain d off where "decodeDomainName buf pos = Some (d, off)" by (rule decodeDomainName_safe)
  moreover from this have "length d \<le> 256" using decode_from_length [of buf pos 0 "[]"] by (simp add: decodeDomainName_def)
  ultimately show ?thesis using parseQuery_safe parseForwardAnswer_safe by blast
qed

text \<open>The record check asks for 16 bytes, an IPv6 record takes 28: the write leaves the buffer.\<close>

lemma answer_overflow:
  assumes "has_colon ip" and "re_size e = length out + 16"
  shows "put_answers e cls ttl [ip] out = None"
  using assms by (simp add: put_def length_rr dns_consts)

definition wire_env :: reply_env where
  "wire_env = \<lparr>re_size = 512, re_old = (\<lambda>_. 0), re_junk = 0, re_text = demo_text\<rparr>"

theorem dns_answer_roundtrip_witness:
  "\<exists>r. buildAnswer wire_env 7 ''a.example'' kTypeA 1 [''1.2.3.4'', ''::1''] 60 = Some r
    \<and> parseForwardAnswer demo_text r = Some ([''1.2.3.4'', ''::1''], 60)"
proof -
  have d: "dns_name [''a'', ''example''] ''a.example''"
    by (simp add: dns_name_def label_ok_def kMaxDnsName_def)
  have o4: "dotted4 (mem32 0x04030201 ! 0) (mem32 0x04030201 ! 1) (mem32 0x04030201 ! 2) (mem32 0x04030201 ! 3) = ''1.2.3.4''"
    by code_simp
  have a: "\<forall>ip \<in> set [''1.2.3.4'', ''::1'']. addr_ok (re_text wire_env) ip"
    using o4 by (simp add: addr_ok_def has_colon_def wire_env_def demo_text_def)
  have "reply_room wire_env ''a.example'' [''1.2.3.4'', ''::1'']" by (simp add: reply_room_def wire_env_def)
  from dns_answer_roundtrip [OF d a this, of 7 kTypeA 1 60] show ?thesis by (auto simp: wire_env_def)
qed

end
