(* ===== verification/RestCache.thy ===== *)
theory RestCache
  imports InternalCache "HOL-Library.Monad_Syntax"
begin

text \<open>
  \<open>src/src/dns/DnsCache.cpp\<close>: the client of the external REST cache. The DNS task submits lookups to
  a queue of 16 and skips a name it has marked as pending; a worker task takes a request, does the HTTP
  GET, releases the mark and sends the result back as a datagram that names only the slot. Stores go to
  a queue of 32 read by a sender task. A circuit breaker bypasses a slow server. The HTTP client and the
  clocks are parameters; each of the two tasks' operations is one step.
\<close>

section \<open>State\<close>

record lookup_request =
  lr_token :: byte
  lr_type :: u16
  lr_domain :: string

record lookup_result =
  res_token :: byte
  res_hit :: bool
  res_ips :: string

record store_record =
  st_type :: u16
  st_domain :: string
  st_ips :: string

text \<open>
  The queues and the pending table are the filled parts of their arrays. \<open>rc_worker\<close> is the request
  the worker has taken and not yet answered, \<open>rc_results\<close> the datagrams the DNS task has not read.
\<close>

record rest_cache =
  rc_enabled :: bool
  rc_read :: bool
  rc_write :: bool
  rc_url :: string
  rc_lookupReady :: bool
  rc_queue :: "lookup_request list"
  rc_worker :: "lookup_request option"
  rc_results :: "lookup_result list"
  rc_pending :: "string list"
  rc_badCount :: u32
  rc_degradedUntil :: int
  rc_storeReady :: bool
  rc_storeQueue :: "store_record list"
  rc_storeDropped :: u32

definition kRespCaptureBytes :: nat where "kRespCaptureBytes = 512"
definition kIpListBytes :: nat where "kIpListBytes = 256"
definition kDomainBytes :: nat where "kDomainBytes = 128"
definition kLookupQueueDepth :: nat where "kLookupQueueDepth = 16"
definition kStoreQueueDepth :: nat where "kStoreQueueDepth = 32"
definition kMaxPendingDomains :: nat where "kMaxPendingDomains = 16"
definition kSlowLookupMs :: int where "kSlowLookupMs = 800"
definition kFailThreshold :: u32 where "kFailThreshold = 3"
definition kDegradeCooldownMs :: int where "kDegradeCooldownMs = 30000"

lemmas rest_consts = kRespCaptureBytes_def kIpListBytes_def kDomainBytes_def kLookupQueueDepth_def
  kStoreQueueDepth_def kMaxPendingDomains_def kSlowLookupMs_def kFailThreshold_def kDegradeCooldownMs_def

text \<open>\<open>strncpy\<close> of a C string into a zeroed buffer of \<open>n\<close> bytes, the last one left alone.\<close>

definition fit :: "nat \<Rightarrow> string \<Rightarrow> string" where
  "fit n s = take (n - 1) (cstr s)"

section \<open>Text\<close>

definition normalizeDomain :: "string \<Rightarrow> string" where
  "normalizeDomain domain = (let d = lower domain in if d \<noteq> [] \<and> last d = CHR ''.'' then butlast d else d)"

definition isalnum_c :: "char \<Rightarrow> bool" where
  "isalnum_c c \<longleftrightarrow> (let n = char_code c in (48 \<le> n \<and> n \<le> 57) \<or> (65 \<le> n \<and> n \<le> 90) \<or> (97 \<le> n \<and> n \<le> 122))"

definition hex_digit :: "nat \<Rightarrow> char" where
  "hex_digit d = ''0123456789ABCDEF'' ! d"

definition url_char :: "char \<Rightarrow> string" where
  "url_char c =
     (if isalnum_c c \<or> c \<in> set ''.-_~'' then [c]
      else [CHR ''%'', hex_digit (char_code c div 16), hex_digit (char_code c mod 16)])"

definition urlEncode :: "string \<Rightarrow> string" where
  "urlEncode s = concat (map url_char s)"

text \<open>\<open>body.find(needle)\<close>: the text behind the first occurrence.\<close>

fun after_sub :: "string \<Rightarrow> string \<Rightarrow> string option" where
  "after_sub needle s =
     (if take (length needle) s = needle then Some (drop (length needle) s)
      else case s of [] \<Rightarrow> None | _ # s' \<Rightarrow> after_sub needle s')"

declare after_sub.simps [simp del]

text \<open>The quoted texts of an array, empty ones skipped.\<close>

function quoted :: "string \<Rightarrow> string list" where
  "quoted arr =
     (case split_at (CHR 0x22) arr of
        None \<Rightarrow> []
      | Some (_, r) \<Rightarrow>
          (case split_at (CHR 0x22) r of
             None \<Rightarrow> []
           | Some (ip, r') \<Rightarrow> (if ip \<noteq> [] then [ip] else []) @ quoted r'))"
  by pat_completeness auto
termination
  by (relation "measure length") (auto dest!: split_at_length)

declare quoted.simps [simp del]

text \<open>The addresses of a lookup reply, \<open>None\<close> when there are none.\<close>

definition parseLookupIps :: "string \<Rightarrow> string list option" where
  "parseLookupIps body = do {
     r1 \<leftarrow> after_sub [CHR 0x22, CHR ''i'', CHR ''p'', CHR ''s'', CHR 0x22] body;
     (_, r2) \<leftarrow> split_at (CHR '':'') r1;
     (_, r3) \<leftarrow> split_at (CHR ''['') r2;
     (arr, _) \<leftarrow> split_at (CHR '']'') r3;
     let ips = quoted arr;
     if ips = [] then None else Some ips }"

fun join :: "string list \<Rightarrow> string" where
  "join [] = []"
| "join [ip] = ip"
| "join (ip # ips) = ip @ CHR '','' # join ips"

text \<open>The comma-separated list split back, empty items skipped.\<close>

function split_ips :: "string \<Rightarrow> string list" where
  "split_ips s =
     (case split_at (CHR '','') s of
        None \<Rightarrow> if s \<noteq> [] then [s] else []
      | Some (ip, r) \<Rightarrow> (if ip \<noteq> [] then [ip] else []) @ split_ips r)"
  by pat_completeness auto
termination
  by (relation "measure length") (auto dest!: split_at_length)

declare split_ips.simps [simp del]

definition quote :: "string \<Rightarrow> string" where
  "quote s = CHR 0x22 # s @ [CHR 0x22]"

definition buildStoreJson :: "store_record \<Rightarrow> string" where
  "buildStoreJson r =
     CHR ''{'' # quote ''ips'' @ '':['' @ join (map quote (split_ips (st_ips r))) @ ''],'' @ quote ''type'' @ '':''
     @ dec_str (unat (st_type r)) @ ''}''"

section \<open>The circuit breaker\<close>

definition isDegraded :: "rest_cache \<Rightarrow> int \<Rightarrow> bool" where
  "isDegraded rc now \<longleftrightarrow> rc_degradedUntil rc \<noteq> 0 \<and> now < rc_degradedUntil rc"

definition usable :: "rest_cache \<Rightarrow> int \<Rightarrow> bool" where
  "usable rc now \<longleftrightarrow> rc_enabled rc \<and> rc_read rc \<and> rc_url rc \<noteq> [] \<and> \<not> isDegraded rc now"

definition notifyLookupOutcome :: "int \<Rightarrow> int \<Rightarrow> rest_cache \<Rightarrow> rest_cache" where
  "notifyLookupOutcome elapsed now rc =
     (if elapsed \<ge> kSlowLookupMs then
        (let rc1 = rc\<lparr>rc_badCount := rc_badCount rc + 1\<rparr> in
         if rc_badCount rc1 \<ge> kFailThreshold then rc1\<lparr>rc_degradedUntil := now + kDegradeCooldownMs\<rparr> else rc1)
      else rc\<lparr>rc_badCount := 0, rc_degradedUntil := 0\<rparr>)"

section \<open>Lookups\<close>

text \<open>
  What \<open>esp_http_client_perform\<close> did: \<open>None\<close> when the client could not be created or the transfer
  failed, else the status and the chunks of the body as the event handler got them.
\<close>

type_synonym http_reply = "(int \<times> string list) option"

definition capture :: "string list \<Rightarrow> string" where
  "capture chunks = foldl (\<lambda>b c. b @ take (kRespCaptureBytes - 1 - length b) c) [] chunks"

text \<open>\<open>doLookup\<close>: status 0 is a transport failure.\<close>

definition doLookup :: "http_reply \<Rightarrow> int \<times> string" where
  "doLookup h = (case h of None \<Rightarrow> (0, []) | Some (status, chunks) \<Rightarrow> (status, capture chunks))"

definition of_type :: "u16 \<Rightarrow> string list \<Rightarrow> string list" where
  "of_type q ips = filter (\<lambda>ip. if q = kTypeAaaa then has_colon ip else \<not> has_colon ip) ips"

text \<open>The addresses left in \<open>result\<close> and the return value; \<open>http\<close> is asked for the URL.\<close>

definition doLookupAndParse :: "(string \<Rightarrow> http_reply) \<Rightarrow> rest_cache \<Rightarrow> string \<Rightarrow> u16 \<Rightarrow> bool \<times> string list" where
  "doLookupAndParse http rc domain q =
     (if \<not> rc_enabled rc \<or> rc_url rc = [] then (False, [])
      else let d = normalizeDomain domain in
        if d = [] then (False, [])
        else case doLookup (http (rc_url rc @ ''/'' @ urlEncode d)) of
          (status, body) \<Rightarrow>
            if status = 0 \<or> status = 404 \<or> status \<noteq> 200 then (False, [])
            else case parseLookupIps body of
              None \<Rightarrow> (False, [])
            | Some ips \<Rightarrow> (of_type q ips \<noteq> [], of_type q ips))"

definition markPending :: "string \<Rightarrow> rest_cache \<Rightarrow> bool \<times> rest_cache" where
  "markPending d rc =
     (if cstr d \<in> set (rc_pending rc) then (False, rc)
      else if length (rc_pending rc) < kMaxPendingDomains
        then (True, rc\<lparr>rc_pending := rc_pending rc @ [fit kDomainBytes d]\<rparr>)
      else (True, rc))"

definition clearPending :: "string \<Rightarrow> rest_cache \<Rightarrow> rest_cache" where
  "clearPending d rc = rc\<lparr>rc_pending := remove1 (cstr d) (rc_pending rc)\<rparr>"

text \<open>\<open>xQueueSendToBack\<close> with no waiting; on a full queue the oldest is dropped and the send repeated.\<close>

definition push_drop_oldest :: "nat \<Rightarrow> 'a \<Rightarrow> 'a list \<Rightarrow> 'a list" where
  "push_drop_oldest depth x q = (if length q < depth then q @ [x] else case q of [] \<Rightarrow> q | _ # q' \<Rightarrow> q' @ [x])"

definition submitLookup :: "string \<Rightarrow> u16 \<Rightarrow> byte \<Rightarrow> rest_cache \<Rightarrow> rest_cache" where
  "submitLookup domain q token rc =
     (if \<not> rc_enabled rc \<or> \<not> rc_read rc \<or> rc_url rc = [] then rc
      else if \<not> rc_lookupReady rc then rc
      else let d = normalizeDomain domain in
        if d = [] then rc
        else case markPending d rc of
          (False, rc1) \<Rightarrow> rc1
        | (True, rc1) \<Rightarrow>
            rc1\<lparr>rc_queue := push_drop_oldest kLookupQueueDepth
                  \<lparr>lr_token = token, lr_type = q, lr_domain = fit kDomainBytes d\<rparr> (rc_queue rc1)\<rparr>)"

text \<open>One turn of \<open>lookupWorkerLoop\<close>, in two steps: taking a request, and what follows the GET.\<close>

definition worker_take :: "rest_cache \<Rightarrow> rest_cache" where
  "worker_take rc =
     (case (rc_worker rc, rc_queue rc) of
        (None, req # q) \<Rightarrow> rc\<lparr>rc_worker := Some req, rc_queue := q\<rparr>
      | _ \<Rightarrow> rc)"

definition worker_finish :: "(string \<Rightarrow> http_reply) \<Rightarrow> int \<Rightarrow> int \<Rightarrow> rest_cache \<Rightarrow> rest_cache" where
  "worker_finish http elapsed now rc =
     (case rc_worker rc of
        None \<Rightarrow> rc
      | Some req \<Rightarrow>
          (case doLookupAndParse http rc (lr_domain req) (lr_type req) of
             (hit, ips) \<Rightarrow>
               let rc1 = clearPending (lr_domain req) (notifyLookupOutcome elapsed now rc) in
               rc1\<lparr>rc_worker := None,
                    rc_results := rc_results rc1 @ [\<lparr>res_token = lr_token req, res_hit = hit, res_ips = fit kIpListBytes (join ips)\<rparr>]\<rparr>))"

section \<open>Stores\<close>

definition rest_store :: "string \<Rightarrow> u16 \<Rightarrow> string list \<Rightarrow> rest_cache \<Rightarrow> rest_cache" where
  "rest_store domain q ips rc =
     (if \<not> rc_enabled rc \<or> \<not> rc_write rc \<or> rc_url rc = [] then rc
      else if ips = [] then rc
      else if \<not> rc_storeReady rc then rc
      else let d = normalizeDomain domain in
        if d = [] then rc
        else let r = \<lparr>st_type = q, st_domain = fit kDomainBytes d, st_ips = fit kIpListBytes (join ips)\<rparr> in
          rc\<lparr>rc_storeQueue := push_drop_oldest kStoreQueueDepth r (rc_storeQueue rc),
             rc_storeDropped := rc_storeDropped rc + (if length (rc_storeQueue rc) < kStoreQueueDepth then 0 else 1)\<rparr>)"

definition store_request :: "rest_cache \<Rightarrow> store_record \<Rightarrow> (string \<times> string) option" where
  "store_request rc r = (if rc_url rc = [] then None else Some (rc_url rc @ ''/'' @ urlEncode (st_domain r), buildStoreJson r))"

definition setUrl :: "string \<Rightarrow> string" where
  "setUrl url = (let s = drop_while_end (\<lambda>c. c = CHR ''/'') url in if s = [] then take 1 url else s)"

section \<open>The stored list read back\<close>

definition clean_ip :: "string \<Rightarrow> bool" where
  "clean_ip ip \<longleftrightarrow> ip \<noteq> [] \<and> (\<forall>c \<in> set ip. char_code c \<noteq> 0 \<and> c \<noteq> CHR '','' \<and> c \<noteq> CHR 0x22 \<and> c \<noteq> CHR '']'')"

lemma join_Cons: "ips \<noteq> [] \<Longrightarrow> join (ip # ips) = ip @ CHR '','' # join ips"
  by (cases ips) simp_all

lemma split_join: "\<forall>ip \<in> set ips. clean_ip ip \<Longrightarrow> split_ips (join ips) = ips"
proof (induction ips)
  case Nil
  show ?case by (subst split_ips.simps) simp
next
  case (Cons ip ips)
  then have ip: "CHR '','' \<notin> set ip" "ip \<noteq> []" by (auto simp: clean_ip_def)
  show ?case
  proof (cases "ips = []")
    case True
    have "split_at (CHR '','') ip = None" using ip by (simp add: split_at_None_iff)
    then show ?thesis using True ip by (subst split_ips.simps) simp
  next
    case False
    then show ?thesis using Cons ip by (subst split_ips.simps) (simp add: join_Cons)
  qed
qed

lemma quoted_item:
  assumes "clean_ip ip"
  shows "quoted (quote ip @ r) = ip # quoted r"
proof -
  have "CHR 0x22 \<notin> set ip" "ip \<noteq> []" using assms by (auto simp: clean_ip_def)
  then show ?thesis by (subst quoted.simps) (simp add: quote_def)
qed

lemma quoted_join: "\<forall>ip \<in> set ips. clean_ip ip \<Longrightarrow> quoted (join (map quote ips)) = ips"
proof (induction ips)
  case Nil
  show ?case by (subst quoted.simps) simp
next
  case (Cons ip ips)
  have comma: "quoted (CHR '','' # quote y @ r) = quoted (quote y @ r)" for y r
  proof -
    have "split_at (CHR 0x22) (CHR '','' # quote y @ r) = Some ('','', y @ CHR 0x22 # r)"
      "split_at (CHR 0x22) (quote y @ r) = Some ([], y @ CHR 0x22 # r)" by (simp_all add: quote_def)
    then show ?thesis by (subst (1 2) quoted.simps) simp
  qed
  have nil: "quoted [] = []" by (subst quoted.simps) simp
  show ?case
  proof (cases ips)
    case Nil
    then show ?thesis using quoted_item [of ip "[]"] Cons.prems nil by simp
  next
    case (Cons y ys)
    obtain r where r: "join (map quote (y # ys)) = quote y @ r" by (cases ys) (auto simp: join_Cons)
    then have "quoted (join (map quote (ip # ips))) = quoted (quote ip @ CHR '','' # quote y @ r)"
      by (simp add: Cons)
    also have "\<dots> = ip # quoted (join (map quote ips))"
      using quoted_item [of ip "CHR '','' # quote y @ r"] Cons.prems r by (simp add: comma Cons)
    finally show ?thesis using Cons.IH Cons.prems by simp
  qed
qed

lemma set_join: "set (join xs) \<subseteq> insert (CHR '','') (\<Union> (set ` set xs))"
  by (induction xs rule: join.induct) auto

lemma cstr_id: "\<forall>c \<in> set s. char_code c \<noteq> 0 \<Longrightarrow> cstr s = s"
  unfolding cstr_def by (simp add: takeWhile_eq_all_conv)

lemma fit_id: "\<forall>c \<in> set s. char_code c \<noteq> 0 \<Longrightarrow> length s < n \<Longrightarrow> fit n s = s"
  by (simp add: fit_def cstr_id)

lemma after_sub_here: "after_sub needle (needle @ s) = Some s"
  by (subst after_sub.simps) simp

text \<open>
  C40. The body of a store carries every address the server was given: the reader of lookup replies
  gets the same list back from it, in order. The bound is the record's 256-byte address field.
\<close>

theorem rest_store_roundtrip:
  assumes "\<forall>ip \<in> set ips. clean_ip ip" and "ips \<noteq> []" and "length (join ips) < kIpListBytes"
  shows "parseLookupIps (buildStoreJson \<lparr>st_type = q, st_domain = d, st_ips = fit kIpListBytes (join ips)\<rparr>) = Some ips"
proof -
  have nz: "\<forall>c \<in> set (join ips). char_code c \<noteq> 0"
  proof
    fix c
    assume "c \<in> set (join ips)"
    then consider "c = CHR '',''" | ip where "ip \<in> set ips" "c \<in> set ip" using set_join [of ips] by auto
    then show "char_code c \<noteq> 0" using assms(1) by cases (auto simp: clean_ip_def)
  qed
  have f: "fit kIpListBytes (join ips) = join ips" using nz assms(3) by (rule fit_id)
  let ?arr = "join (map quote ips)"
  let ?n = "[CHR 0x22, CHR ''i'', CHR ''p'', CHR ''s'', CHR 0x22]"
  define tail where "tail = '','' @ quote ''type'' @ '':'' @ dec_str (unat q) @ ''}''"
  have j: "buildStoreJson \<lparr>st_type = q, st_domain = d, st_ips = fit kIpListBytes (join ips)\<rparr>
      = CHR ''{'' # ?n @ '':['' @ ?arr @ CHR '']'' # tail"
    unfolding buildStoreJson_def f tail_def store_record.simps split_join [OF assms(1)] by (simp add: quote_def)
  have "CHR '']'' \<notin> set (quote ip)" if "ip \<in> set ips" for ip
    using assms(1) that unfolding quote_def clean_ip_def by auto
  then have "CHR '']'' \<notin> set ?arr" using set_join [of "map quote ips"] by auto
  then have s: "split_at (CHR '']'') (?arr @ CHR '']'' # tail) = Some (?arr, tail)" by simp
  have "after_sub ?n (CHR ''{'' # ?n @ '':['' @ ?arr @ CHR '']'' # tail) = after_sub ?n (?n @ '':['' @ ?arr @ CHR '']'' # tail)"
    by (subst after_sub.simps) simp
  then show ?thesis
    using s after_sub_here [of ?n "'':['' @ ?arr @ CHR '']'' # tail"] assms(2)
    by (simp add: parseLookupIps_def j quoted_join [OF assms(1)])
qed

theorem rest_store_roundtrip_witness:
  "parseLookupIps (buildStoreJson \<lparr>st_type = 1, st_domain = ''a'', st_ips = fit kIpListBytes (join [''1.2.3.4'', ''::1''])\<rparr>)
    = Some [''1.2.3.4'', ''::1'']"
  by (rule rest_store_roundtrip) (simp_all add: clean_ip_def kIpListBytes_def)

section \<open>URLs\<close>

definition hex_value :: "char \<Rightarrow> nat" where
  "hex_value c = (let n = char_code c in if n \<le> 57 then n - 48 else n - 55)"

fun url_decode :: "string \<Rightarrow> string" where
  "url_decode [] = []"
| "url_decode (c # s) =
     (if c = CHR ''%'' then (case s of h # l # s' \<Rightarrow> char_of (16 * hex_value h + hex_value l) # url_decode s' | _ \<Rightarrow> [])
      else c # url_decode s)"

definition url_safe :: "char \<Rightarrow> bool" where
  "url_safe c \<longleftrightarrow> isalnum_c c \<or> c \<in> set ''.-_~%''"

lemma code_div_16: "char_code c div 16 < 16"
  using nat_of_char_less_256 [of c] by (simp add: less_mult_imp_div_less)

lemma hex_digits: "d < 16 \<Longrightarrow> hex_value (hex_digit d) = d \<and> isalnum_c (hex_digit d)"
proof -
  assume "d < 16"
  moreover have "\<forall>d \<in> set [0..<16]. hex_value (hex_digit d) = d \<and> isalnum_c (hex_digit d)" by code_simp
  ultimately show ?thesis by simp
qed

lemma url_char_decode: "url_decode (url_char c @ s) = c # url_decode s"
proof (cases "isalnum_c c \<or> c \<in> set ''.-_~''")
  case True
  moreover have "\<not> (isalnum_c (CHR ''%'') \<or> CHR ''%'' \<in> set ''.-_~'')" by code_simp
  ultimately have "c \<noteq> CHR ''%''" by auto
  then show ?thesis using True by (simp add: url_char_def)
next
  case False
  have "16 * (char_code c div 16) + char_code c mod 16 = char_code c" by simp
  then show ?thesis using False hex_digits [OF code_div_16 [of c]] hex_digits [of "char_code c mod 16"]
    by (auto simp: url_char_def)
qed

text \<open>
  The name in the request path is spelled with unreserved characters and percent escapes only,
  whatever bytes the client's query had, and no two names share a path.
\<close>

lemma urlEncode_faithful:
  "(\<forall>c \<in> set (urlEncode s). url_safe c) \<and> url_decode (urlEncode s) = s"
proof (induction s)
  case (Cons c s)
  have "\<forall>x \<in> set (url_char c). url_safe x"
    using hex_digits [OF code_div_16 [of c]] hex_digits [of "char_code c mod 16"]
    by (auto simp: url_char_def url_safe_def)
  then show ?case using Cons by (auto simp: urlEncode_def url_char_decode)
qed (simp add: urlEncode_def)

section \<open>The two tasks\<close>

text \<open>
  What the DNS task does to this component (submitting, storing, reading a result), and what the worker
  and the sender do: any interleaving of them is a run.
\<close>

inductive rest_step :: "rest_cache \<Rightarrow> rest_cache \<Rightarrow> bool" where
  submit: "rest_step rc (submitLookup domain q token rc)"
| take_one: "rest_step rc (worker_take rc)"
| finish: "rest_step rc (worker_finish http elapsed now rc)"
| read_result: "rc_results rc = r # rs \<Longrightarrow> rest_step rc (rc\<lparr>rc_results := rs\<rparr>)"
| store: "rest_step rc (rest_store domain q ips rc)"
| sent: "rc_storeQueue rc = r # rs \<Longrightarrow> rest_step rc (rc\<lparr>rc_storeQueue := rs\<rparr>)"

definition rest_init :: "string \<Rightarrow> rest_cache" where
  "rest_init url = \<lparr>rc_enabled = True, rc_read = True, rc_write = True, rc_url = url, rc_lookupReady = True,
     rc_queue = [], rc_worker = None, rc_results = [], rc_pending = [], rc_badCount = 0, rc_degradedUntil = 0,
     rc_storeReady = True, rc_storeQueue = [], rc_storeDropped = 0\<rparr>"

definition in_flight :: "rest_cache \<Rightarrow> lookup_request list" where
  "in_flight rc = (case rc_worker rc of None \<Rightarrow> [] | Some r \<Rightarrow> [r]) @ rc_queue rc"

text \<open>Every text is a C string of its buffer, and every table is within its array.\<close>

definition c_text :: "nat \<Rightarrow> string \<Rightarrow> bool" where
  "c_text n s \<longleftrightarrow> length s < n \<and> (\<forall>c \<in> set s. char_code c \<noteq> 0)"

definition rest_inv :: "rest_cache \<Rightarrow> bool" where
  "rest_inv rc \<longleftrightarrow> length (rc_queue rc) \<le> kLookupQueueDepth \<and> length (rc_pending rc) \<le> kMaxPendingDomains
     \<and> length (rc_storeQueue rc) \<le> kStoreQueueDepth
     \<and> (\<forall>r \<in> set (in_flight rc). c_text kDomainBytes (lr_domain r))
     \<and> (\<forall>d \<in> set (rc_pending rc). c_text kDomainBytes d)
     \<and> (\<forall>r \<in> set (rc_results rc). c_text kIpListBytes (res_ips r))
     \<and> (\<forall>r \<in> set (rc_storeQueue rc). c_text kDomainBytes (st_domain r) \<and> c_text kIpListBytes (st_ips r))"

lemma c_text_fit: "0 < n \<Longrightarrow> c_text n (fit n s)"
  by (auto simp: c_text_def fit_def cstr_def dest: in_set_takeD set_takeWhileD)

lemma push_drop_oldest_props:
  "0 < n \<Longrightarrow> length q \<le> n \<Longrightarrow> length (push_drop_oldest n x q) \<le> n"
  "set (push_drop_oldest n x q) \<subseteq> insert x (set q)"
  by (auto simp: push_drop_oldest_def split: list.splits)

lemma notify_frame [simp]:
  "rc_queue (notifyLookupOutcome e n rc) = rc_queue rc" "rc_pending (notifyLookupOutcome e n rc) = rc_pending rc"
  "rc_storeQueue (notifyLookupOutcome e n rc) = rc_storeQueue rc" "rc_results (notifyLookupOutcome e n rc) = rc_results rc"
  "rc_worker (notifyLookupOutcome e n rc) = rc_worker rc" "rc_lookupReady (notifyLookupOutcome e n rc) = rc_lookupReady rc"
  "rc_enabled (notifyLookupOutcome e n rc) = rc_enabled rc" "rc_url (notifyLookupOutcome e n rc) = rc_url rc"
  "rc_read (notifyLookupOutcome e n rc) = rc_read rc"
  by (simp_all add: notifyLookupOutcome_def Let_def)

lemma submit_inv: "rest_inv rc \<Longrightarrow> rest_inv (submitLookup domain q token rc)"
  using push_drop_oldest_props(2) [of kLookupQueueDepth "\<lparr>lr_token = token, lr_type = q, lr_domain = fit kDomainBytes (normalizeDomain domain)\<rparr>" "rc_queue rc"]
    c_text_fit [of kDomainBytes "normalizeDomain domain"]
  by (auto simp: submitLookup_def markPending_def rest_inv_def in_flight_def Let_def push_drop_oldest_props(1) rest_consts
      split: if_splits option.splits)

lemma take_inv: "rest_inv rc \<Longrightarrow> rest_inv (worker_take rc)"
  by (auto simp: worker_take_def rest_inv_def in_flight_def split: option.splits list.splits)

lemma finish_inv: "rest_inv rc \<Longrightarrow> rest_inv (worker_finish http elapsed now rc)"
proof (cases "rc_worker rc")
  case (Some req)
  assume i: "rest_inv rc"
  obtain hit ips where h: "doLookupAndParse http rc (lr_domain req) (lr_type req) = (hit, ips)" by fastforce
  have "length (remove1 x (rc_pending rc)) \<le> length (rc_pending rc)" for x by (simp add: length_remove1)
  then show ?thesis
    using i Some h c_text_fit [of kIpListBytes] set_remove1_subset [of "cstr (lr_domain req)" "rc_pending rc"]
      le_trans [of "length (remove1 (cstr (lr_domain req)) (rc_pending rc))" "length (rc_pending rc)" kMaxPendingDomains]
    by (auto simp: worker_finish_def rest_inv_def in_flight_def clearPending_def Let_def kIpListBytes_def)
qed (simp add: worker_finish_def)

lemma rest_store_inv: "rest_inv rc \<Longrightarrow> rest_inv (rest_store domain q ips rc)"
  using push_drop_oldest_props(2) [of kStoreQueueDepth "\<lparr>st_type = q, st_domain = fit kDomainBytes (normalizeDomain domain),
      st_ips = fit kIpListBytes (join ips)\<rparr>" "rc_storeQueue rc"]
    c_text_fit [of kDomainBytes "normalizeDomain domain"] c_text_fit [of kIpListBytes "join ips"]
  by (auto simp: rest_store_def rest_inv_def in_flight_def Let_def push_drop_oldest_props(1) rest_consts)

interpretation rest: safe_machine "\<lambda>rc. \<exists>url. rc = rest_init url" rest_step rest_inv
proof
  show "rest_inv s" if "\<exists>url. s = rest_init url" for s
    using that by (auto simp: rest_inv_def rest_init_def in_flight_def)
  show "rest_inv s'" if "rest_inv s" "rest_step s s'" for s s'
    using that(2,1) by cases (auto simp: submit_inv take_inv finish_inv rest_store_inv intro: rest_store_inv, auto simp: rest_inv_def in_flight_def)
qed

section \<open>A lost request\<close>

text \<open>The name is marked as pending and no request for it exists any more.\<close>

definition orphan :: "string \<Rightarrow> rest_cache \<Rightarrow> bool" where
  "orphan x rc \<longleftrightarrow> x \<in> set (rc_pending rc) \<and> length x + 1 < kDomainBytes \<and> (\<forall>r \<in> set (in_flight rc). cstr (lr_domain r) \<noteq> x)"

lemma fit_short: "length (fit n d) + 1 < n \<Longrightarrow> fit n d = cstr d"
  by (auto simp: fit_def)

lemma cstr_fit: "cstr (fit n d) = fit n d"
  by (rule cstr_id) (auto simp: fit_def cstr_def dest: in_set_takeD set_takeWhileD)

lemma orphan_submit: "orphan x rc \<Longrightarrow> orphan x (submitLookup domain q token rc)"
proof -
  assume o: "orphan x rc"
  let ?d = "normalizeDomain domain"
  let ?r = "\<lparr>lr_token = token, lr_type = q, lr_domain = fit kDomainBytes ?d\<rparr>"
  show ?thesis
  proof (cases "cstr ?d = x")
    case True
    then have "markPending ?d rc = (False, rc)" using o by (simp add: markPending_def orphan_def)
    then show ?thesis using o by (simp add: submitLookup_def Let_def)
  next
    case False
    have "cstr (fit kDomainBytes ?d) \<noteq> x"
      using False o fit_short [of kDomainBytes ?d] by (auto simp: cstr_fit orphan_def)
    then show ?thesis
      using o push_drop_oldest_props(2) [of kLookupQueueDepth ?r "rc_queue rc"]
      by (auto simp: submitLookup_def markPending_def orphan_def in_flight_def Let_def split: if_splits)
  qed
qed

lemma orphan_step: "rest_step rc rc' \<Longrightarrow> orphan x rc \<Longrightarrow> orphan x rc'"
proof (induction rule: rest_step.induct)
  case (finish rc http elapsed now)
  show ?case
  proof (cases "rc_worker rc")
    case (Some req)
    then have "cstr (lr_domain req) \<noteq> x" using finish by (auto simp: orphan_def in_flight_def)
    then show ?thesis using finish Some
      by (auto simp: worker_finish_def orphan_def in_flight_def clearPending_def Let_def split: prod.splits)
  qed (use finish in \<open>simp add: worker_finish_def\<close>)
qed (auto simp: orphan_submit, auto simp: orphan_def in_flight_def worker_take_def rest_store_def Let_def split: option.splits list.splits)

text \<open>Which names the client's spelling of a query stands for.\<close>

lemma orphan_blocks:
  assumes "orphan x rc" and "cstr (normalizeDomain domain) = x"
  shows "submitLookup domain q token rc = rc"
  using assms by (simp add: submitLookup_def markPending_def orphan_def Let_def)

definition busy_names :: "string list" where
  "busy_names = map (\<lambda>c. [c]) ''abcdefghijklmnopqr''"

text \<open>The worker is held up by the first lookup while seventeen more names are asked for.\<close>

definition crowded :: rest_cache where
  "crowded = (case busy_names of
     n # ns \<Rightarrow> foldl (\<lambda>rc d. submitLookup d kTypeA 0 rc) (worker_take (submitLookup n kTypeA 0 (rest_init ''http://c''))) ns)"

lemma crowded_orphan: "orphan ''b'' crowded"
  by code_simp

lemma crowded_run: "rest_step\<^sup>*\<^sup>* (rest_init ''http://c'') crowded"
proof -
  have "rest_step\<^sup>*\<^sup>* rc (foldl (\<lambda>rc d. submitLookup d kTypeA 0 rc) rc ns)" for rc ns
    by (induction ns arbitrary: rc) (auto intro: converse_rtranclp_into_rtranclp [of rest_step, OF rest_step.submit])
  then have "rest_step\<^sup>*\<^sup>* (worker_take (submitLookup n kTypeA 0 (rest_init ''http://c'')))
      (foldl (\<lambda>rc d. submitLookup d kTypeA 0 rc) (worker_take (submitLookup n kTypeA 0 (rest_init ''http://c''))) ns)" for n ns .
  moreover have "rest_step\<^sup>*\<^sup>* (rest_init ''http://c'') (worker_take (submitLookup n kTypeA 0 (rest_init ''http://c'')))" for n
    by (rule converse_rtranclp_into_rtranclp [of rest_step, OF rest_step.submit r_into_rtranclp [of rest_step, OF rest_step.take_one]])
  ultimately have "rest_step\<^sup>*\<^sup>* (rest_init ''http://c'') (foldl (\<lambda>rc d. submitLookup d kTypeA 0 rc)
      (worker_take (submitLookup n kTypeA 0 (rest_init ''http://c''))) ns)" for n ns
    by (rule rtranclp_trans [rotated])
  note run = this
  obtain n ns where bn: "busy_names = n # ns" by (simp add: busy_names_def)
  show ?thesis unfolding crowded_def bn list.case by (rule run)
qed

text \<open>
  A full queue drops its oldest request but leaves the name marked as pending. From then on no
  sequence of steps of any task brings a lookup of that name back: every later query for it is taken
  for a duplicate, and no request for it is ever in flight again.
\<close>

lemma dropped_lookup_orphaned:
  assumes "orphan x rc" and "rest_step\<^sup>*\<^sup>* rc rc'"
  shows "(\<forall>r \<in> set (in_flight rc'). cstr (lr_domain r) \<noteq> x)
    \<and> (cstr (normalizeDomain domain) = x \<longrightarrow> submitLookup domain q token rc' = rc')"
proof -
  have "orphan x rc'" using assms(2,1) by (induction rule: rtranclp_induct) (auto intro: orphan_step)
  then show ?thesis using orphan_blocks by (auto simp: orphan_def)
qed

lemma dropped_lookup_orphaned_witness:
  "rest_step\<^sup>*\<^sup>* (rest_init ''http://c'') crowded
   \<and> submitLookup ''B.'' kTypeAaaa 3 (worker_finish (\<lambda>_. None) 3000 9 crowded) = worker_finish (\<lambda>_. None) 3000 9 crowded"
proof -
  have n: "cstr (normalizeDomain ''B.'') = ''b''" by code_simp
  show ?thesis
    using dropped_lookup_orphaned [OF crowded_orphan r_into_rtranclp [of rest_step, OF rest_step.finish]] crowded_run n by blast
qed

section \<open>The breaker as a function of the last lookups\<close>

text \<open>The lookups the worker finished, newest first: how long each took and when it ended.\<close>

definition outcomes :: "(int \<times> int) list \<Rightarrow> rest_cache \<Rightarrow> rest_cache" where
  "outcomes hist rc = foldr (\<lambda>(elapsed, now). notifyLookupOutcome elapsed now) hist rc"

definition slow_run :: "(int \<times> int) list \<Rightarrow> nat" where
  "slow_run hist = length (takeWhile (\<lambda>(elapsed, _). elapsed \<ge> kSlowLookupMs) hist)"

lemma outcomes_state:
  assumes "length hist < 2 ^ 32" and "rc_badCount rc = 0" and "rc_degradedUntil rc = 0"
  shows "rc_badCount (outcomes hist rc) = of_nat (slow_run hist)
    \<and> rc_degradedUntil (outcomes hist rc) = (if slow_run hist \<ge> 3 then snd (hd hist) + kDegradeCooldownMs else 0)"
  using assms(1)
proof (induction hist)
  case Nil
  show ?case using assms(2,3) by (simp add: outcomes_def slow_run_def)
next
  case (Cons x hist)
  obtain e n where x: "x = (e, n)" by fastforce
  let ?rc = "outcomes hist rc"
  have IH: "rc_badCount ?rc = of_nat (slow_run hist)"
      "rc_degradedUntil ?rc = (if slow_run hist \<ge> 3 then snd (hd hist) + kDegradeCooldownMs else 0)"
    using Cons by auto
  have step: "outcomes (x # hist) rc = notifyLookupOutcome e n ?rc" by (simp add: outcomes_def x)
  show ?case
  proof (cases "e \<ge> kSlowLookupMs")
    case True
    have le: "slow_run hist \<le> length hist" by (simp add: slow_run_def length_takeWhile_le)
    have r: "slow_run (x # hist) = Suc (slow_run hist)" using True by (simp add: slow_run_def x)
    have c: "(of_nat (slow_run hist) + 1 :: u32) = of_nat (Suc (slow_run hist))" by simp
    have t: "kFailThreshold \<le> of_nat (Suc (slow_run hist)) \<longleftrightarrow> 3 \<le> Suc (slow_run hist)"
      using le Cons.prems by (simp add: kFailThreshold_def word_le_nat_alt unat_of_nat del: of_nat_Suc)
    show ?thesis unfolding step r using True IH t c by (auto simp: notifyLookupOutcome_def Let_def x simp del: of_nat_Suc)
  next
    case False
    then show ?thesis unfolding step by (simp add: notifyLookupOutcome_def slow_run_def x)
  qed
qed

text \<open>
  C15. The circuit breaker is decided by the times of the newest lookups alone: the external cache is
  bypassed exactly when the last three or more in a row took 800 ms or longer and less than 30 seconds
  have passed since the newest of them; one quicker lookup closes the breaker at once. Whether a lookup
  found anything plays no part: one that fails in less than 800 ms counts as a quick one. (Two comments
  of the source say otherwise: they count failing lookups too, and slow as more than 800 ms.)
\<close>

theorem breaker_decision:
  assumes "length hist < 2 ^ 32" and "rc_badCount rc = 0" and "rc_degradedUntil rc = 0"
    and "\<forall>x \<in> set hist. 0 \<le> snd x"
  shows "isDegraded (outcomes hist rc) now \<longleftrightarrow> slow_run hist \<ge> 3 \<and> now < snd (hd hist) + kDegradeCooldownMs"
proof -
  have "snd (hd hist) + kDegradeCooldownMs \<noteq> 0" if "slow_run hist \<ge> 3"
    using that assms(4) by (cases hist) (auto simp: slow_run_def kDegradeCooldownMs_def)
  then show ?thesis using outcomes_state [OF assms(1-3)] by (auto simp: isDegraded_def)
qed

theorem breaker_decision_witness:
  "isDegraded (outcomes [(900, 5000), (3000, 4000), (800, 1000)] (rest_init ''http://c'')) 34999"
proof -
  have "slow_run [(900, 5000), (3000, 4000), (800, 1000)] = 3" by (simp add: slow_run_def kSlowLookupMs_def)
  then show ?thesis
    using breaker_decision [of "[(900, 5000), (3000, 4000), (800, 1000)]" "rest_init ''http://c''" 34999]
    by (simp add: rest_init_def kDegradeCooldownMs_def)
qed

end
