(* ===== verification/Subnet.thy ===== *)
theory Subnet
  imports Prelude
begin

text \<open>
  \<open>src/src/core/Subnet.cpp\<close> and \<open>SubnetFilter.cpp\<close>: IPv4 addresses and netmasks in host byte order,
  their text, and the own-subnet filter the DNS, NTP and file servers share. A filter whose settings
  cannot be used is not active, and then every client is allowed.
\<close>

section \<open>Addresses as text\<close>

definition isSpace :: "char \<Rightarrow> bool" where
  "isSpace c \<longleftrightarrow> c = CHR '' '' \<or> char_code c = 9"

definition is_digit :: "char \<Rightarrow> bool" where
  "is_digit c \<longleftrightarrow> 48 \<le> char_code c \<and> char_code c \<le> 57"

text \<open>One part of the address: its value, the number of digits, the text behind it.\<close>

fun octet :: "string \<Rightarrow> nat \<Rightarrow> nat \<Rightarrow> (nat \<times> nat \<times> string) option" where
  "octet [] v d = Some (v, d, [])"
| "octet (c # cs) v d =
     (if is_digit c then
        (let v' = v * 10 + (char_code c - 48) in
         if d + 1 > 3 \<or> v' > 255 then None else octet cs v' (d + 1))
      else Some (v, d, c # cs))"

lemma octet_rest: "octet s v d = Some (v', d', r) \<Longrightarrow> length r \<le> length s"
  by (induction s v d rule: octet.induct) (auto simp: Let_def split: if_splits)

function parts :: "string \<Rightarrow> u32 \<Rightarrow> nat \<Rightarrow> u32 option" where
  "parts s addr part =
     (if s = [] then (if part \<noteq> 4 then None else Some addr)
      else case octet s 0 0 of
        None \<Rightarrow> None
      | Some (v, d, rest) \<Rightarrow>
          if d = 0 then None
          else if part \<ge> 4 then None
          else
            (let addr' = addr OR push_bit (8 * (3 - part)) (of_nat v) in
             case rest of
               [] \<Rightarrow> if part + 1 \<noteq> 4 then None else Some addr'
             | c # cs \<Rightarrow> if c \<noteq> CHR ''.'' then None else if cs = [] then None else parts cs addr' (part + 1)))"
  by pat_completeness auto
termination
  by (relation "measure (\<lambda>(s, _, _). length s)") (auto dest: octet_rest)

declare parts.simps [simp del]

definition parseIp4 :: "string \<Rightarrow> u32 option" where
  "parseIp4 text0 = (let s = drop_while_end isSpace (dropWhile isSpace text0) in if s = [] then None else parts s 0 0)"

definition toString :: "u32 \<Rightarrow> string" where
  "toString addr =
     dec_str (unat (drop_bit 24 addr AND 0xFF)) @ ''.'' @ dec_str (unat (drop_bit 16 addr AND 0xFF)) @ ''.''
     @ dec_str (unat (drop_bit 8 addr AND 0xFF)) @ ''.'' @ dec_str (unat (addr AND 0xFF))"

section \<open>Masks\<close>

definition isValidMask :: "u32 \<Rightarrow> bool" where
  "isValidMask m \<longleftrightarrow> (let inv = NOT m in inv AND (inv + 1) = 0)"

definition network :: "u32 \<Rightarrow> u32 \<Rightarrow> u32" where
  "network addr m = addr AND m"

definition contains :: "u32 \<Rightarrow> u32 \<Rightarrow> u32 \<Rightarrow> bool" where
  "contains net m addr \<longleftrightarrow> \<not> (m = 0 \<or> \<not> isValidMask m) \<and> addr AND m = net AND m"

text \<open>\<open>while (m != 0 && (m & 1u) == 0) { ++bits; m >>= 1; }\<close>\<close>

function host_bits :: "u32 \<Rightarrow> nat \<Rightarrow> nat" where
  "host_bits m bits = (if m \<noteq> 0 \<and> m AND 1 = 0 then host_bits (drop_bit 1 m) (bits + 1) else bits)"
  by pat_completeness auto
termination
proof (relation "measure (\<lambda>(m, _). unat m)")
  show "((drop_bit 1 m, bits + 1), m, bits) \<in> measure (\<lambda>(m, _). unat m)" if "m \<noteq> 0 \<and> m AND 1 = 0" for m :: u32 and bits
  proof -
    have "unat m < 2 ^ LENGTH(32)" by (rule unsigned_less)
    moreover have "0 < unat m" using that by (simp add: unat_gt_0)
    ultimately show ?thesis by (simp add: unsigned_drop_bit_eq take_bit_nat_eq_self drop_bit_nat_def)
  qed
qed simp

declare host_bits.simps [simp del]

definition hostBits :: "u32 \<Rightarrow> nat" where
  "hostBits m = host_bits m 0"

definition maskFromPrefix :: "int \<Rightarrow> u32" where
  "maskFromPrefix p = (if p < 0 \<or> p > 32 then 0 else if p = 0 then 0 else push_bit (nat (32 - p)) 0xFFFFFFFF)"

definition prefixLength :: "u32 \<Rightarrow> int" where
  "prefixLength m = (if \<not> isValidMask m then - 1 else 32 - int (hostBits m))"

section \<open>The filter\<close>

record filter_settings =
  fs_enabled :: bool
  fs_deviceIp :: string
  fs_netmask :: string

record subnet_filter =
  f_enabled :: bool
  f_valid :: bool
  f_network :: u32
  f_mask :: u32
  f_deviceIp :: string
  f_netmask :: string

definition filter_apply :: "filter_settings \<Rightarrow> subnet_filter" where
  "filter_apply cfg =
     (let off = \<lparr>f_enabled = fs_enabled cfg, f_valid = False, f_network = 0, f_mask = 0,
                 f_deviceIp = fs_deviceIp cfg, f_netmask = fs_netmask cfg\<rparr> in
      if \<not> fs_enabled cfg then off
      else case (parseIp4 (fs_deviceIp cfg), parseIp4 (fs_netmask cfg)) of
        (Some addr, Some m) \<Rightarrow>
          if addr \<noteq> 0 \<and> m \<noteq> 0 \<and> isValidMask m
          then off\<lparr>f_network := network addr m, f_mask := m, f_valid := True\<rparr>
          else off
      | _ \<Rightarrow> off)"

definition filter_active :: "subnet_filter \<Rightarrow> bool" where
  "filter_active f \<longleftrightarrow> f_enabled f \<and> f_valid f"

definition filter_contains :: "subnet_filter \<Rightarrow> u32 \<Rightarrow> bool" where
  "filter_contains f client = (if \<not> filter_active f then True else contains (f_network f) (f_mask f) client)"

definition enabledText :: "subnet_filter \<Rightarrow> string" where
  "enabledText f = ''Own-subnet filter enabled: '' @ toString (f_network f) @ ''/'' @
     (let p = prefixLength (f_mask f) in if p < 0 then CHR ''-'' # dec_str (nat (- p)) else dec_str (nat p))"

section \<open>Reading back what is printed\<close>

lemma digit_char_code: "d < 10 \<Longrightarrow> char_code (digit_char d) = 48 + d"
  by (simp add: char_code_digit_char)

lemma octet_dec_str:
  assumes "n < 256" and "rest = [] \<or> \<not> is_digit (hd rest)"
  shows "octet (dec_str n @ rest) 0 0 = Some (n, length (dec_str n), rest)"
proof -
  have stop: "octet rest v d = Some (v, d, rest)" for v d using assms(2) by (cases rest) auto
  have dg: "is_digit (digit_char d)" "char_code (digit_char d) - 48 = d" if "d < 10" for d
    using that by (simp_all add: is_digit_def digit_char_code)
  consider "n < 10" | "10 \<le> n" "n < 100" | "100 \<le> n" by linarith
  then show ?thesis
  proof cases
    case 1
    then show ?thesis by (subst dec_str.simps) (simp add: dg stop Let_def dec_str.simps)
  next
    case 2
    then have "n div 10 < 10" by linarith
    then have s: "dec_str n = [digit_char (n div 10), digit_char (n mod 10)]"
      using 2 by (subst dec_str.simps) (simp add: dec_str.simps)
    show ?thesis using 2 assms(1) \<open>n div 10 < 10\<close> unfolding s by (simp add: dg stop Let_def)
  next
    case 3
    then have l: "n div 10 div 10 < 10" "\<not> n div 10 < 10" using assms(1) by linarith+
    then have s: "dec_str n = [digit_char (n div 10 div 10), digit_char (n div 10 mod 10), digit_char (n mod 10)]"
      using 3 by (subst dec_str.simps) (simp add: dec_str.simps)
    have v2: "n div 10 div 10 * 10 + n div 10 mod 10 = n div 10" by (rule div_mult_mod_eq)
    have v: "(n div 10 div 10 * 10 + n div 10 mod 10) * 10 + n mod 10 = n" unfolding v2 by (rule div_mult_mod_eq)
    show ?thesis using l assms(1) v v2 unfolding s by (simp add: dg stop Let_def)
  qed
qed

lemma parts_step:
  assumes "n < 256" and "part < 3" and "rest \<noteq> []"
  shows "parts (dec_str n @ CHR ''.'' # rest) addr part = parts rest (addr OR push_bit (8 * (3 - part)) (of_nat n)) (part + 1)"
  using octet_dec_str [of n "CHR ''.'' # rest"] assms
  by (subst parts.simps) (simp add: is_digit_def)

lemma parts_last:
  assumes "n < 256"
  shows "parts (dec_str n) addr 3 = Some (addr OR of_nat n)"
  using octet_dec_str [of n "[]"] assms by (subst parts.simps) simp

lemma toString_le32:
  "toString (le32 d c b a) = dec_str (unat a) @ ''.'' @ dec_str (unat b) @ ''.'' @ dec_str (unat c) @ ''.'' @ dec_str (unat d)"
proof -
  have m: "unat (drop_bit k w AND 0xFF) = unat (ucast (drop_bit k w) :: byte)" "unat (w AND 0xFF) = unat (ucast w :: byte)" for k and w :: u32
    by (simp_all add: unsigned_ucast_eq unsigned_and_eq take_bit_eq_mask mask_eq_exp_minus_1)
  show ?thesis unfolding toString_def m by simp
qed

lemma parts_toString: "parts (toString w) 0 0 = Some w"
proof -
  obtain d c b a where w: "w = le32 d c b a" by (rule le32_exhaust)
  have u: "(of_nat (unat x) :: u32) = ucast x" for x :: byte by (simp add: unsigned_ucast_eq)
  have "parts (toString w) 0 0 = Some (((push_bit 24 (ucast a) OR push_bit 16 (ucast b)) OR push_bit 8 (ucast c)) OR ucast d)"
    unfolding w toString_le32 by (simp add: parts_step parts_last [unfolded numeral_3_eq_3] u)
  also have "\<dots> = Some w" unfolding w le32_def by (simp add: ac_simps or.left_commute or.commute)
  finally show ?thesis .
qed

text \<open>
  An address printed is the address read back, whatever blanks the settings text has around it.
\<close>

lemma ip4_text_roundtrip:
  assumes "\<forall>c \<in> set before. isSpace c" and "\<forall>c \<in> set behind. isSpace c"
  shows "parseIp4 (before @ toString w @ behind) = Some w"
proof -
  have dig: "\<exists>c x. dec_str n = c # x \<and> \<not> isSpace c" "\<exists>c x. dec_str n = x @ [c] \<and> \<not> isSpace c" for n
  proof -
    have ds: "\<forall>c \<in> set (dec_str n). is_digit c"
    proof (induction n rule: dec_str.induct)
      case (1 n)
      then show ?case by (subst dec_str.simps) (auto simp: is_digit_def digit_char_code)
    qed
    have "is_digit c \<Longrightarrow> \<not> isSpace c" for c by (auto simp: is_digit_def isSpace_def)
    then show "\<exists>c x. dec_str n = c # x \<and> \<not> isSpace c" using ds by (cases "dec_str n") auto
    from \<open>\<And>c. is_digit c \<Longrightarrow> \<not> isSpace c\<close> show "\<exists>c x. dec_str n = x @ [c] \<and> \<not> isSpace c"
      using ds by (cases "dec_str n" rule: rev_cases) auto
  qed
  obtain c x where h: "toString w = c # x" "\<not> isSpace c"
    using dig(1) [of "unat (drop_bit 24 w AND 0xFF)"] by (auto simp: toString_def)
  obtain d y where l: "toString w = y @ [d]" "\<not> isSpace d"
    using dig(2) [of "unat (w AND 0xFF)"] unfolding toString_def by (metis append.assoc)
  have "dropWhile isSpace (before @ toString w @ behind) = toString w @ behind"
    using assms(1) h by (simp add: dropWhile_append2)
  moreover have "drop_while_end isSpace (toString w @ behind) = toString w"
  proof -
    have "dropWhile isSpace (rev behind @ d # rev y) = d # rev y"
      using assms(2) l(2) by (subst dropWhile_append2) simp_all
    then show ?thesis by (simp add: drop_while_end_def l(1))
  qed
  ultimately show ?thesis using parts_toString [of w] h by (simp add: parseIp4_def)
qed

lemma ip4_text_roundtrip_witness: "parseIp4 ('' '' @ toString 0xC0A80101 @ '' '') = Some 0xC0A80101"
  by (rule ip4_text_roundtrip) (simp_all add: isSpace_def)

section \<open>Masks are prefixes\<close>

lemma and_succ_zero: "n AND (n + 1) = 0 \<Longrightarrow> \<exists>k. n + 1 = 2 ^ k" for n :: nat
proof (induction n rule: less_induct)
  case (less n)
  show ?case
  proof (cases "even n")
    case True
    then have "n AND (n + 1) = n"
      by (auto simp: and_nat_rec [of n "Suc n"] elim!: evenE)
    then show ?thesis using less.prems by (intro exI [of _ 0]) simp
  next
    case False
    then obtain m where n: "n = 2 * m + 1" by (auto elim: oddE)
    have "n AND (n + 1) = 2 * (m AND (m + 1))"
      by (subst and_nat_rec) (simp add: n)
    then obtain k where "m + 1 = 2 ^ k" using less.IH [of m] less.prems n by auto
    then show ?thesis by (intro exI [of _ "Suc k"]) (simp add: n)
  qed
qed

lemma prefix_bits: "p \<le> 32 \<Longrightarrow> maskFromPrefix (int p) = push_bit (32 - p) (mask 32 :: u32)"
  by (auto simp: maskFromPrefix_def mask_eq_exp_minus_1 nat_diff_distrib)

lemma prefix_mask_bit: "p \<le> 32 \<Longrightarrow> bit (maskFromPrefix (int p)) n \<longleftrightarrow> 32 - p \<le> n \<and> n < 32"
  by (auto simp: prefix_bits bit_simps)

lemma not_prefix: "p \<le> 32 \<Longrightarrow> NOT (maskFromPrefix (int p)) = mask (32 - p)"
  by (rule bit_word_eqI) (auto simp: prefix_mask_bit bit_simps)

lemma valid_prefix: "p \<le> 32 \<Longrightarrow> isValidMask (maskFromPrefix (int p))"
proof -
  have "(mask k :: u32) AND (mask k + 1) = 0" for k
  proof (rule bit_word_eqI)
    fix n
    have "(mask k + 1 :: u32) = 2 ^ k" by (simp add: mask_eq_exp_minus_1)
    then show "bit ((mask k :: u32) AND (mask k + 1)) n = bit (0 :: u32) n" by (auto simp: bit_simps)
  qed
  then show "p \<le> 32 \<Longrightarrow> ?thesis" by (simp add: isValidMask_def not_prefix Let_def)
qed

lemma valid_is_prefix:
  assumes "isValidMask m"
  obtains p where "p \<le> 32" "m = maskFromPrefix (int p)"
proof -
  let ?i = "NOT m"
  have z: "?i AND (?i + 1) = 0" using assms by (simp add: isValidMask_def Let_def)
  have "\<exists>k \<le> 32. ?i = mask k"
  proof (cases "?i = - 1")
    case True
    then show ?thesis by (intro exI [of _ 32]) (simp add: mask_eq_exp_minus_1)
  next
    case False
    then have u: "unat (?i + 1) = unat ?i + 1" by (simp add: unat_word_add1)
    have "unat (?i AND (?i + 1)) = 0" using z by simp
    then have "unat ?i AND (unat ?i + 1) = 0" by (simp only: unsigned_and_eq u)
    then obtain k where k: "unat ?i + 1 = 2 ^ k" using and_succ_zero by blast
    have lt: "unat ?i < 2 ^ LENGTH(32)" by (rule unsigned_less)
    then have "(2::nat) ^ k \<le> 2 ^ 32" using k by simp
    then have "k \<le> 32" using power_increasing_iff [of "2::nat" k 32] by (simp only:)
    moreover have "?i = mask k"
    proof -
      have "unat ?i = 2 ^ k - 1" using k by simp
      then have "?i = of_nat (2 ^ k - 1)" by (metis of_nat_unat ucast_id)
      then show ?thesis by (simp add: mask_eq_exp_minus_1 of_nat_diff)
    qed
    ultimately show ?thesis by blast
  qed
  then obtain k where k: "k \<le> 32" "?i = mask k" by blast
  have "NOT (maskFromPrefix (int (32 - k))) = mask k" using k(1) by (simp add: not_prefix del: of_nat_diff)
  then have "m = maskFromPrefix (int (32 - k))" using k(2) by (metis bit.double_compl)
  then show thesis using that [of "32 - k"] by simp
qed

lemma valid_iff_prefix: "isValidMask m \<longleftrightarrow> (\<exists>p \<in> {0..32}. m = maskFromPrefix p)"
proof
  assume "isValidMask m"
  then obtain p where "p \<le> 32" "m = maskFromPrefix (int p)" by (rule valid_is_prefix)
  then show "\<exists>p \<in> {0..32}. m = maskFromPrefix p" by (intro bexI [of _ "int p"]) auto
next
  assume "\<exists>p \<in> {0..32}. m = maskFromPrefix p"
  then obtain p where "0 \<le> p" "p \<le> 32" "m = maskFromPrefix p" by auto
  then show "isValidMask m" using valid_prefix [of "nat p"] by simp
qed

lemma host_bits_prefix:
  assumes "bit m k" and "\<forall>j < k. \<not> bit m j"
  shows "host_bits m n = n + k"
  using assms
proof (induction k arbitrary: m n)
  case 0
  then have "m AND 1 \<noteq> 0" by (simp add: and_one_eq bit_0 odd_iff_mod_2_eq_one)
  then show ?case by (simp add: host_bits.simps)
next
  case (Suc k)
  then have m: "m \<noteq> 0" "\<not> bit m 0" by auto
  then have "m AND 1 = 0" by (simp add: and_one_eq bit_0 even_iff_mod_2_eq_zero)
  moreover have "host_bits (drop_bit 1 m) (n + 1) = n + 1 + k"
    using Suc.prems by (intro Suc.IH) (auto simp: bit_drop_bit_eq)
  ultimately show ?case using m by (subst host_bits.simps) simp
qed

lemma prefixLength_prefix: "0 < p \<Longrightarrow> p \<le> 32 \<Longrightarrow> prefixLength (maskFromPrefix (int p)) = int p"
  using host_bits_prefix [of "maskFromPrefix (int p)" "32 - p" 0] valid_prefix [of p]
  by (simp add: prefixLength_def hostBits_def prefix_mask_bit)

text \<open>
  A netmask is accepted exactly when it is the mask of a prefix length, which is then the length
  the code reports, and a client is inside the network exactly when its first bits of that number are
  the network's.
\<close>

lemma mask_is_prefix:
  "p \<in> {1..32} \<Longrightarrow> (isValidMask m \<longleftrightarrow> (\<exists>p \<in> {0..32}. m = maskFromPrefix p)) \<and> prefixLength (maskFromPrefix p) = p
     \<and> (contains net (maskFromPrefix p) a \<longleftrightarrow> drop_bit (nat (32 - p)) a = drop_bit (nat (32 - p)) net)"
proof -
  assume "p \<in> {1..32}"
  then obtain k where k: "p = int k" "0 < k" "k \<le> 32" using nonneg_int_cases [of p] by auto
  let ?m = "maskFromPrefix (int k)"
  have "bit ?m 31" using k by (simp add: prefix_mask_bit)
  then have nz: "?m \<noteq> 0" by auto
  have "a AND ?m = net AND ?m \<longleftrightarrow> drop_bit (32 - k) a = drop_bit (32 - k) net"
  proof
    assume e: "a AND ?m = net AND ?m"
    have "bit a n = bit net n" if "32 - k \<le> n" "n < 32" for n
      using arg_cong [OF e, of "\<lambda>w. bit w n"] that k by (simp add: bit_and_iff prefix_mask_bit)
    then show "drop_bit (32 - k) a = drop_bit (32 - k) net"
      using bit_imp_le_length [of a] bit_imp_le_length [of net]
      by (intro bit_word_eqI) (fastforce simp: bit_drop_bit_eq)
  next
    assume e: "drop_bit (32 - k) a = drop_bit (32 - k) net"
    have "bit a n = bit net n" if "32 - k \<le> n" for n
      using arg_cong [OF e, of "\<lambda>w. bit w (n - (32 - k))"] that by (simp add: bit_drop_bit_eq)
    then show "a AND ?m = net AND ?m"
      by (intro bit_word_eqI) (auto simp: bit_and_iff prefix_mask_bit k)
  qed
  then show "(isValidMask m \<longleftrightarrow> (\<exists>p \<in> {0..32}. m = maskFromPrefix p)) \<and> prefixLength (maskFromPrefix p) = p
     \<and> (contains net (maskFromPrefix p) a \<longleftrightarrow> drop_bit (nat (32 - p)) a = drop_bit (nat (32 - p)) net)"
    using nz valid_prefix [OF k(3)] prefixLength_prefix [OF k(2,3)] valid_iff_prefix [of m] k
    by (simp add: contains_def nat_diff_distrib)
qed

lemma mask_is_prefix_witness:
  "prefixLength (maskFromPrefix 24) = 24 \<and> (contains 0xC0A80100 (maskFromPrefix 24) 0xC0A80117 \<longleftrightarrow>
     drop_bit (nat (32 - 24)) (0xC0A80117 :: u32) = drop_bit (nat (32 - 24)) 0xC0A80100)"
  using mask_is_prefix [of 24] by simp

text \<open>A zero mask is reported with the prefix length of a full one.\<close>

lemma prefixLength_zero: "isValidMask 0 \<and> prefixLength 0 = 32 \<and> maskFromPrefix 32 \<noteq> 0"
  by code_simp

text \<open>What the filter lets through, from its settings.\<close>

lemma filter_decision:
  "filter_contains (filter_apply cfg) client \<longleftrightarrow>
     (fs_enabled cfg \<longrightarrow> (\<forall>ip m. parseIp4 (fs_deviceIp cfg) = Some ip \<longrightarrow> parseIp4 (fs_netmask cfg) = Some m \<longrightarrow>
        ip \<noteq> 0 \<longrightarrow> m \<noteq> 0 \<longrightarrow> isValidMask m \<longrightarrow> client AND m = ip AND m))"
  by (auto simp: filter_contains_def filter_apply_def filter_active_def contains_def network_def Let_def split: option.splits)

end
