(* ===== verification/LocalHosts.thy ===== *)
theory LocalHosts
  imports AllowedList
begin

text \<open>
  The local hosts of the DNS server: their text in the settings (\<open>getLocalHosts\<close>, \<open>setLocalHosts\<close>
  of \<open>src/src/core/Config.cpp\<close>), the map the server builds from them (\<open>start\<close> and \<open>addLocalHost\<close> of
  \<open>src/src/dns/DnsServer.cpp\<close>), and the device's own name (\<open>src/src/core/LocalName.h\<close>). Reading and
  writing the settings storage is outside: the codec works on the text.
\<close>

record host_entry =
  h_name :: string
  h_ip4 :: string
  h_ip6 :: string
  h_enabled :: bool

definition kMaxLocalHostsBytes :: nat where "kMaxLocalHostsBytes = 512"

section \<open>The stored text\<close>

definition host_line :: "host_entry \<Rightarrow> string" where
  "host_line h = storageFieldText (h_name h) @ ''|'' @ storageFieldText (h_ip4 h) @ ''|''
     @ storageFieldText (h_ip6 h) @ ''|'' @ (if h_enabled h then ''1'' else ''0'')"

definition hosts_text :: "host_entry list \<Rightarrow> string" where
  "hosts_text hosts = foldl (\<lambda>t h. (if t \<noteq> [] then t @ [newline] else t) @ host_line h) [] hosts"

text \<open>The blob that is written: \<open>Inl ()\<close> refuses, an empty list erases the key.\<close>

definition setLocalHosts :: "host_entry list \<Rightarrow> unit + string option" where
  "setLocalHosts hosts =
     (if hosts = [] then Inr None
      else if length (hosts_text hosts) > kMaxLocalHostsBytes then Inl ()
      else Inr (Some (hosts_text hosts)))"

function lines_of :: "string \<Rightarrow> string list" where
  "lines_of s = (case split_at newline s of None \<Rightarrow> if s = [] then [] else [s] | Some (l, r) \<Rightarrow> l # lines_of r)"
  by pat_completeness auto
termination
  by (relation "measure length") (auto dest: split_at_length)

declare lines_of.simps [simp del]

definition parse_host :: "string \<Rightarrow> host_entry option" where
  "parse_host line =
     (if line = [] then None
      else case split_at (CHR ''|'') line of
        None \<Rightarrow> None
      | Some (nm, r1) \<Rightarrow>
          let e = (case split_at (CHR ''|'') r1 of
             None \<Rightarrow> \<lparr>h_name = nm, h_ip4 = r1, h_ip6 = [], h_enabled = True\<rparr>
           | Some (a, r2) \<Rightarrow>
               (case split_at (CHR ''|'') r2 of
                  None \<Rightarrow> \<lparr>h_name = nm, h_ip4 = a, h_ip6 = r2, h_enabled = True\<rparr>
                | Some (b, fl) \<Rightarrow> \<lparr>h_name = nm, h_ip4 = a, h_ip6 = b, h_enabled = (fl \<noteq> ''0'')\<rparr>))
          in if h_name e \<noteq> [] \<and> (h_ip4 e \<noteq> [] \<or> h_ip6 e \<noteq> []) then Some e else None)"

definition getLocalHosts :: "string option \<Rightarrow> host_entry list" where
  "getLocalHosts blob = (case blob of None \<Rightarrow> [] | Some t \<Rightarrow> List.map_filter parse_host (lines_of t))"

section \<open>The server's map\<close>

type_synonym hosts = "string \<Rightarrow> string list option"

definition addLocalHost :: "string \<Rightarrow> string \<Rightarrow> hosts \<Rightarrow> hosts" where
  "addLocalHost domain ip m = m(domain \<mapsto> (case m domain of None \<Rightarrow> [] | Some ips \<Rightarrow> ips) @ [ip])"

definition add_entry :: "hosts \<Rightarrow> host_entry \<Rightarrow> hosts" where
  "add_entry m h =
     (if \<not> h_enabled h then m
      else let m1 = (if h_ip4 h \<noteq> [] then addLocalHost (h_name h) (h_ip4 h) m else m) in
        if h_ip6 h \<noteq> [] then addLocalHost (h_name h) (h_ip6 h) m1 else m1)"

definition load_hosts :: "host_entry list \<Rightarrow> hosts" where
  "load_hosts hs = foldl add_entry Map.empty hs"

section \<open>The device's own name\<close>

definition ascii_lower :: "char \<Rightarrow> char" where
  "ascii_lower c = (let n = char_code c in if 65 \<le> n \<and> n \<le> 90 then char_of (n - 65 + 97) else c)"

definition normalized :: "string \<Rightarrow> string" where
  "normalized s = drop_while_end (\<lambda>c. c = CHR ''.'') (map ascii_lower s)"

definition localNameMatches :: "string \<Rightarrow> string \<Rightarrow> bool" where
  "localNameMatches query hostName =
     (if hostName = [] then False
      else if normalized query = [] then False
      else normalized query = normalized hostName \<or> normalized query = normalized hostName @ ''.local'')"

section \<open>Reading back what was written\<close>

text \<open>A host as the storage keeps it, and whether the reader takes it.\<close>

definition kept :: "host_entry \<Rightarrow> host_entry" where
  "kept h = h\<lparr>h_name := storageFieldText (h_name h), h_ip4 := storageFieldText (h_ip4 h), h_ip6 := storageFieldText (h_ip6 h)\<rparr>"

definition usable_host :: "host_entry \<Rightarrow> bool" where
  "usable_host h \<longleftrightarrow> h_name h \<noteq> [] \<and> (h_ip4 h \<noteq> [] \<or> h_ip6 h \<noteq> [])"

lemma field_no_sep: "CHR ''|'' \<notin> set (storageFieldText s)" "newline \<notin> set (storageFieldText s)"
  unfolding storageFieldText_def by (auto split: if_splits)

lemma host_line_no_newline: "newline \<notin> set (host_line h)" "host_line h \<noteq> []"
  using field_no_sep by (auto simp: host_line_def)

lemma parse_host_line: "parse_host (host_line h) = (if usable_host (kept h) then Some (kept h) else None)"
proof -
  define fl where "fl = (if h_enabled h then ''1'' else ''0'')"
  have l: "host_line h = storageFieldText (h_name h) @ CHR ''|'' # storageFieldText (h_ip4 h) @ CHR ''|''
      # storageFieldText (h_ip6 h) @ CHR ''|'' # fl" by (simp add: host_line_def fl_def)
  have "(fl \<noteq> ''0'') = h_enabled h" by (simp add: fl_def)
  then show ?thesis unfolding parse_host_def l using field_no_sep
    by (simp add: Let_def usable_host_def kept_def)
qed

lemma hosts_text_join: "hosts_text hs = join_lines (map host_line hs)"
proof -
  have "foldl (\<lambda>t h. (if t \<noteq> [] then t @ [newline] else t) @ host_line h) t hs =
      (if hs = [] then t else (if t \<noteq> [] then t @ [newline] else t) @ join_lines (map host_line hs))" for t
  proof (induction hs arbitrary: t)
    case (Cons h hs)
    let ?t = "(if t \<noteq> [] then t @ [newline] else t) @ host_line h"
    have "?t \<noteq> []" using host_line_no_newline(2) by simp
    then show ?case using Cons.IH [of ?t] by (cases hs) simp_all
  qed simp
  then show ?thesis unfolding hosts_text_def by auto
qed

lemma lines_join: "\<forall>l \<in> set ls. newline \<notin> set l \<and> l \<noteq> [] \<Longrightarrow> lines_of (join_lines ls) = ls"
proof (induction ls rule: join_lines.induct)
  case 1
  show ?case by (subst lines_of.simps) simp
next
  case (2 l)
  then show ?case by (subst lines_of.simps) (simp add: split_at_None_iff [THEN iffD2])
next
  case (3 l m ls)
  then show ?case by (subst lines_of.simps) simp
qed

lemma hosts_read_back: "getLocalHosts (Some (hosts_text hs)) = filter usable_host (map kept hs)"
proof -
  have "lines_of (hosts_text hs) = map host_line hs"
    unfolding hosts_text_join using host_line_no_newline by (intro lines_join) auto
  then show ?thesis
    by (simp add: getLocalHosts_def List.map_filter_def comp_def parse_host_line filter_map)
qed

lemma local_hosts_read: "setLocalHosts hs = Inr blob \<Longrightarrow> getLocalHosts blob = filter usable_host (map kept hs)"
  using hosts_read_back [of hs] by (auto simp: setLocalHosts_def getLocalHosts_def split: if_splits)

text \<open>
  The hosts the operator saves are the hosts the server reads at its next start: every entry with
  a name and an address, its fields trimmed and without separators, in order; an entry written with
  clean fields comes back unchanged.
\<close>

lemma local_hosts_roundtrip:
  assumes "setLocalHosts hs = Inr blob"
  shows "getLocalHosts blob = filter usable_host (map kept hs)
    \<and> ((\<forall>h \<in> set hs. kept h = h \<and> usable_host h) \<longrightarrow> getLocalHosts blob = hs)"
proof -
  have g: "getLocalHosts blob = filter usable_host (map kept hs)" using assms by (rule local_hosts_read)
  moreover have "filter usable_host (map kept hs) = hs" if "\<forall>h \<in> set hs. kept h = h \<and> usable_host h"
    using that by (simp add: map_idI)
  ultimately show ?thesis by simp
qed

lemma local_hosts_roundtrip_witness:
  "getLocalHosts (Some ''nas|10.0.0.2||1'') = [\<lparr>h_name = ''nas'', h_ip4 = ''10.0.0.2'', h_ip6 = [], h_enabled = True\<rparr>]"
proof -
  let ?h = "\<lparr>h_name = ''nas'', h_ip4 = ''10.0.0.2'', h_ip6 = [], h_enabled = True\<rparr>"
  have f: "storageFieldText ''nas'' = ''nas''" "storageFieldText ''10.0.0.2'' = ''10.0.0.2''" "storageFieldText [] = []"
    by code_simp+
  have "setLocalHosts [?h] = Inr (Some ''nas|10.0.0.2||1'')"
    by (simp add: setLocalHosts_def hosts_text_def host_line_def f kMaxLocalHostsBytes_def)
  from local_hosts_roundtrip [OF this] show ?thesis by (simp add: kept_def usable_host_def f)
qed

section \<open>How many addresses a name can have\<close>

definition addresses :: "host_entry \<Rightarrow> nat" where
  "addresses h = (if h_ip4 h \<noteq> [] then 1 else 0) + (if h_ip6 h \<noteq> [] then 1 else 0)"

definition host_ips :: "hosts \<Rightarrow> string \<Rightarrow> string list" where
  "host_ips m name = (case m name of None \<Rightarrow> [] | Some ips \<Rightarrow> ips)"

lemma host_ips_add: "length (host_ips (add_entry m h) name) \<le> length (host_ips m name) + addresses h"
  by (auto simp: add_entry_def addLocalHost_def host_ips_def addresses_def Let_def split: option.splits)

lemma load_hosts_count: "length (host_ips (load_hosts hs) name) \<le> (\<Sum>h \<leftarrow> hs. addresses h)"
proof -
  have "length (host_ips (foldl add_entry m hs) name) \<le> length (host_ips m name) + (\<Sum>h \<leftarrow> hs. addresses h)" for m
  proof (induction hs arbitrary: m)
    case (Cons h hs)
    show ?case using Cons [of "add_entry m h"] host_ips_add [of m h name] by simp
  qed simp
  from this [of Map.empty] show ?thesis by (simp add: load_hosts_def host_ips_def)
qed

lemma host_line_length: "4 * addresses (kept h) \<le> length (host_line h) + 1" if "usable_host (kept h)"
proof -
  have "0 < length (storageFieldText (h_name h))" using that by (simp add: usable_host_def kept_def)
  then show ?thesis by (auto simp: host_line_def addresses_def kept_def dest!: gr0_implies_Suc length_greater_0_conv [THEN iffD2])
qed

lemma length_join_lines: "ls \<noteq> [] \<Longrightarrow> length (join_lines ls) + 1 = (\<Sum>l \<leftarrow> ls. length l + 1)"
  by (induction ls rule: join_lines.induct) auto

lemma stored_hosts_bound:
  assumes "setLocalHosts hs = Inr blob"
  shows "length (host_ips (load_hosts (getLocalHosts blob)) name) \<le> 128"
proof (cases "hs = []")
  case True
  then have "load_hosts (getLocalHosts blob) = Map.empty" using assms by (simp add: setLocalHosts_def getLocalHosts_def load_hosts_def)
  then show ?thesis by (simp add: host_ips_def)
next
  case False
  have l: "length (hosts_text hs) \<le> 512" using assms False by (auto simp: setLocalHosts_def kMaxLocalHostsBytes_def split: if_splits)
  have "4 * (\<Sum>h \<leftarrow> filter usable_host (map kept hs). addresses h) \<le> (\<Sum>l \<leftarrow> map host_line hs. length l + 1)"
  proof (induction hs)
    case (Cons h hs)
    then show ?case using host_line_length [of h] by auto
  qed simp
  also have "\<dots> \<le> 513" using length_join_lines [of "map host_line hs"] l False by (simp add: hosts_text_join)
  finally have "(\<Sum>h \<leftarrow> filter usable_host (map kept hs). addresses h) \<le> 128" by simp
  then show ?thesis
    using load_hosts_count [of "filter usable_host (map kept hs)" name] local_hosts_read [OF assms] by simp
qed

end
