(* ===== verification/DnsLoop.thy ===== *)
theory DnsLoop
  imports DnsWire RestCache Subnet LocalHosts CachePool
begin

text \<open>
  The DNS server task, \<open>serverLoop\<close> of \<open>src/src/dns/DnsServer.cpp\<close>: a table of 32 slots, one for
  each client query that waits for the external cache or for the upstream server. One pass of the loop
  looks at every slot, reads the results of the cache worker and takes one new query. What a call of the
  operating system gave (a socket, a datagram, the clock) is an \<open>io\<close> record; what the server sent or
  logged is a list of events. \<open>None\<close> is a write outside the reply buffer or a chain of the cache that
  does not end.
\<close>

section \<open>State\<close>

type_synonym client = "u32 \<times> u16"

record forward_slot =
  sl_active :: bool
  sl_waiting :: bool
  sl_fd :: int
  sl_client :: client
  sl_qid :: u16
  sl_qtype :: u16
  sl_qclass :: u16
  sl_domain :: string
  sl_query :: "byte list"
  sl_created :: u64
  sl_sent :: u64

datatype DnsLogSource = Local | Cache | Forwarded

datatype event =
    Reply client "byte list"
  | Upstream "byte list"
  | LogQuery string u16 u32 string DnsLogSource DnsQueryOutcome string

record dns =
  d_slots :: "forward_slot list"
  d_fds :: "int list"
  d_icache :: cache
  d_rcache :: rest_cache
  d_filter :: subnet_filter
  d_nameOn :: bool
  d_hostName :: string
  d_ownIp4 :: string
  d_ownIp6 :: string
  d_hosts :: hosts
  d_blockNonAA :: bool
  d_queryCount :: u32
  d_cacheHits :: u32
  d_cacheHitUs :: u64
  d_forwarded :: u32
  d_foreign :: u32
  d_lastForeignMs :: u64
  d_events :: "event list"

text \<open>
  The readings and results of one handler: the loop's \<open>now\<close> and a later reading of the same clock,
  the cache's clock, the time of a hit, the socket a forward gets (negative when there is none) and
  whether its send worked, what \<open>inet_pton\<close> leaves behind, ARP and the DHCP leases.
\<close>

record io =
  io_now :: u64
  io_later :: u64
  io_clock :: clock
  io_hitUs :: u32
  io_sock :: int
  io_sent :: bool
  io_text :: iptext
  io_old :: "nat \<Rightarrow> byte"
  io_junk :: u32
  io_arp :: "u32 \<Rightarrow> mac option"
  io_lease :: "u32 \<Rightarrow> mac option"

definition kMaxPendingForwards :: nat where "kMaxPendingForwards = 32"
definition kCacheWaitTimeoutMs :: u64 where "kCacheWaitTimeoutMs = 2000"
definition DNS_FORWARD_TIMEOUT_MS :: u64 where "DNS_FORWARD_TIMEOUT_MS = 1000"
definition DNS_MAX_MSG_SIZE :: nat where "DNS_MAX_MSG_SIZE = 4096"
definition DNS_DEFAULT_TTL_SEC :: u32 where "DNS_DEFAULT_TTL_SEC = 300"
definition DNS_FOREIGN_LOG_THROTTLE_MS :: u64 where "DNS_FOREIGN_LOG_THROTTLE_MS = 5000"
definition kQueryBytes :: nat where "kQueryBytes = 1024"

lemmas loop_consts = kMaxPendingForwards_def kCacheWaitTimeoutMs_def DNS_FORWARD_TIMEOUT_MS_def
  DNS_MAX_MSG_SIZE_def DNS_DEFAULT_TTL_SEC_def DNS_FOREIGN_LOG_THROTTLE_MS_def kQueryBytes_def

definition reply_buf :: "io \<Rightarrow> reply_env" where
  "reply_buf e = \<lparr>re_size = DNS_MAX_MSG_SIZE, re_old = io_old e, re_junk = io_junk e, re_text = io_text e\<rparr>"

definition emit :: "event list \<Rightarrow> dns \<Rightarrow> dns" where
  "emit evs s = s\<lparr>d_events := d_events s @ evs\<rparr>"

definition set_slot :: "nat \<Rightarrow> forward_slot \<Rightarrow> dns \<Rightarrow> dns" where
  "set_slot i pf s = s\<lparr>d_slots := (d_slots s)[i := pf]\<rparr>"

text \<open>A reply of length zero is not sent.\<close>

definition reply_event :: "client \<Rightarrow> byte list \<Rightarrow> event list" where
  "reply_event c bs = (if bs \<noteq> [] then [Reply c bs] else [])"

definition mac_text :: "mac \<Rightarrow> string" where
  "mac_text m = hex2 (m ! 0) @ '':'' @ hex2 (m ! 1) @ '':'' @ hex2 (m ! 2) @ '':'' @ hex2 (m ! 3) @ '':'' @ hex2 (m ! 4) @ '':'' @ hex2 (m ! 5)"

definition resolveClientMac :: "io \<Rightarrow> u32 \<Rightarrow> string" where
  "resolveClientMac e ip =
     (case io_arp e ip of
        Some m \<Rightarrow> mac_text m
      | None \<Rightarrow> (case io_lease e ip of Some m \<Rightarrow> mac_text m | None \<Rightarrow> []))"

section \<open>Slots\<close>

definition allocPendingSlot :: "dns \<Rightarrow> nat option" where
  "allocPendingSlot s = first_idx (\<lambda>pf. \<not> sl_active pf) (d_slots s)"

definition freePendingSlot :: "nat \<Rightarrow> dns \<Rightarrow> dns" where
  "freePendingSlot idx s =
     (if idx \<ge> kMaxPendingForwards then s
      else let pf = d_slots s ! idx;
               s1 = (if sl_fd pf \<ge> 0 then s\<lparr>d_fds := remove1 (sl_fd pf) (d_fds s)\<rparr> else s);
               pf1 = (if sl_fd pf \<ge> 0 then pf\<lparr>sl_fd := - 1\<rparr> else pf)
           in set_slot idx (pf1\<lparr>sl_active := False, sl_domain := []\<rparr>) s1)"

definition expirePendingSlot :: "io \<Rightarrow> nat \<Rightarrow> dns \<Rightarrow> dns option" where
  "expirePendingSlot e idx s =
     (if idx \<ge> kMaxPendingForwards then Some s
      else let pf = d_slots s ! idx in do {
        nx \<leftarrow> buildNxdomain (reply_buf e) (sl_qid pf) (sl_domain pf) (sl_qtype pf) (sl_qclass pf);
        Some (freePendingSlot idx (emit
          (LogQuery (sl_domain pf) (sl_qtype pf) (fst (sl_client pf)) (resolveClientMac e (fst (sl_client pf))) Forwarded Timeout []
           # reply_event (sl_client pf) nx) s)) })"

definition startForward :: "io \<Rightarrow> nat \<Rightarrow> u64 \<Rightarrow> dns \<Rightarrow> bool \<times> dns" where
  "startForward e idx now s =
     (if idx \<ge> kMaxPendingForwards then (False, s)
      else let pf = d_slots s ! idx in
        if \<not> sl_active pf \<or> sl_query pf = [] then (False, s)
        else if io_sock e < 0 then (False, set_slot idx (pf\<lparr>sl_fd := io_sock e\<rparr>) s)
        else if \<not> io_sent e then (False, set_slot idx (pf\<lparr>sl_fd := - 1\<rparr>) s)
        else (True, emit [Upstream (sl_query pf)]
          (set_slot idx (pf\<lparr>sl_fd := io_sock e, sl_waiting := False, sl_sent := now\<rparr>)
            (s\<lparr>d_fds := io_sock e # d_fds s, d_forwarded := d_forwarded s + 1\<rparr>))))"

text \<open>\<open>if (pf.queryLen > 0 && startForward(i, now)) \<dots> else expirePendingSlot(i);\<close>\<close>

definition forward_or_expire :: "io \<Rightarrow> nat \<Rightarrow> dns \<Rightarrow> dns option" where
  "forward_or_expire e idx s =
     (if sl_query (d_slots s ! idx) = [] then expirePendingSlot e idx s
      else case startForward e idx (io_now e) s of
        (True, s1) \<Rightarrow> Some s1
      | (False, s1) \<Rightarrow> expirePendingSlot e idx s1)"

definition store_internal :: "io \<Rightarrow> string \<Rightarrow> u16 \<Rightarrow> string list \<Rightarrow> u32 \<Rightarrow> dns \<Rightarrow> dns option" where
  "store_internal e domain q ips ttl s =
     (if arena (d_icache s)
      then map_option (\<lambda>c. s\<lparr>d_icache := c\<rparr>) (InternalCache.store (io_text e) (io_clock e) domain q ips ttl (d_icache s))
      else Some s)"

text \<open>The upstream's reply for a slot: cached, logged and relayed as it came.\<close>

definition relay_answer :: "io \<Rightarrow> forward_slot \<Rightarrow> byte list \<Rightarrow> dns \<Rightarrow> dns option" where
  "relay_answer e pf bs s = do {
     (ips, ttl) \<leftarrow> parseForwardAnswer (io_text e) bs;
     s1 \<leftarrow> (if ips \<noteq> [] then
               map_option (\<lambda>s'. s'\<lparr>d_rcache := rest_store (sl_domain pf) (sl_qtype pf) ips (d_rcache s')\<rparr>)
                 (store_internal e (sl_domain pf) (sl_qtype pf) ips (if ttl \<noteq> 0 then ttl else DNS_DEFAULT_TTL_SEC) s)
             else Some s);
     Some (emit [LogQuery (sl_domain pf) (sl_qtype pf) (fst (sl_client pf)) (resolveClientMac e (fst (sl_client pf))) Forwarded
                   (forwardingOutcome bs) ''(forwarded)'',
                 Reply (sl_client pf) bs] s1) }"

text \<open>
  One slot of a pass. \<open>recv\<close> is what \<open>select\<close> and \<open>recvfrom\<close> gave for its socket: nothing,
  an error (or an empty datagram), or the bytes.
\<close>

definition handle_slot :: "io \<Rightarrow> byte list option option \<Rightarrow> nat \<Rightarrow> dns \<Rightarrow> dns option" where
  "handle_slot e recv i s =
     (let pf = d_slots s ! i; now = io_now e in
      if \<not> sl_active pf then Some s
      else if sl_waiting pf then
        (if now - sl_created pf \<ge> kCacheWaitTimeoutMs then forward_or_expire e i s else Some s)
      else if sl_fd pf \<ge> 0 \<and> recv \<noteq> None then
        (case recv of
           Some (Some bs) \<Rightarrow> (if bs = [] then Some (freePendingSlot i s)
                              else map_option (freePendingSlot i) (relay_answer e pf bs s))
         | _ \<Rightarrow> Some (freePendingSlot i s))
      else if sl_fd pf \<ge> 0 \<and> now - sl_sent pf \<ge> DNS_FORWARD_TIMEOUT_MS then expirePendingSlot e i s
      else Some s)"

fun slots_pass :: "(nat \<Rightarrow> io) \<Rightarrow> (nat \<Rightarrow> byte list option option) \<Rightarrow> nat list \<Rightarrow> dns \<Rightarrow> dns option" where
  "slots_pass es recvs [] s = Some s"
| "slots_pass es recvs (i # idxs) s = do { s1 \<leftarrow> handle_slot (es i) (recvs i) i s; slots_pass es recvs idxs s1 }"

section \<open>Results of the external cache\<close>

definition handle_result :: "io \<Rightarrow> lookup_result \<Rightarrow> dns \<Rightarrow> dns option" where
  "handle_result e res s =
     (let i = unat (res_token res) in
      if i \<ge> kMaxPendingForwards then Some s
      else let pf = d_slots s ! i in
        if \<not> sl_active pf \<or> \<not> sl_waiting pf then Some s
        else if \<not> res_hit res then forward_or_expire e i s
        else let ips = split_ips (res_ips res) in
          if ips = [] then forward_or_expire e i s
          else do {
            s1 \<leftarrow> store_internal e (sl_domain pf) (sl_qtype pf) ips DNS_DEFAULT_TTL_SEC s;
            bs \<leftarrow> buildAnswer (reply_buf e) (sl_qid pf) (sl_domain pf) (sl_qtype pf) (sl_qclass pf) ips DNS_DEFAULT_TTL_SEC;
            Some (freePendingSlot i (emit (reply_event (sl_client pf) bs
              @ [LogQuery (sl_domain pf) (sl_qtype pf) (fst (sl_client pf)) (resolveClientMac e (fst (sl_client pf))) Cache Answered (hd ips)]) s1)) })"

section \<open>A new query\<close>

definition lookup_domain :: "string \<Rightarrow> string" where
  "lookup_domain domain = (let d = lower domain in if d \<noteq> [] \<and> last d = CHR ''.'' then butlast d else d)"

text \<open>The device's own name and the operator's hosts: whether the name is known, and its addresses.\<close>

definition own_answer :: "dns \<Rightarrow> string \<Rightarrow> u16 \<Rightarrow> bool \<times> string list" where
  "own_answer s d q =
     (if d_nameOn s \<and> localNameMatches d (d_hostName s)
      then (True, if q = kTypeA \<and> d_ownIp4 s \<noteq> [] then [d_ownIp4 s]
                  else if q = kTypeAaaa \<and> d_ownIp6 s \<noteq> [] then [d_ownIp6 s] else [])
      else (False, []))"

definition hosts_answer :: "dns \<Rightarrow> string \<Rightarrow> u16 \<Rightarrow> bool \<times> string list" where
  "hosts_answer s d q =
     (case d_hosts s d of
        None \<Rightarrow> (False, [])
      | Some ips \<Rightarrow> if ips = [] then (False, []) else (True, if q = kTypeA \<or> q = kTypeAaaa then of_type q ips else []))"

definition local_answer :: "dns \<Rightarrow> string \<Rightarrow> u16 \<Rightarrow> bool \<times> string list" where
  "local_answer s d q = (fst (own_answer s d q) \<or> fst (hosts_answer s d q), snd (own_answer s d q) @ snd (hosts_answer s d q))"

definition internal_answer :: "io \<Rightarrow> string \<Rightarrow> u16 \<Rightarrow> dns \<Rightarrow> ((string list \<times> u32) option \<times> dns) option" where
  "internal_answer e d q s =
     (if arena (d_icache s) \<and> (q = kTypeA \<or> q = kTypeAaaa) then do {
        (res, c) \<leftarrow> InternalCache.lookup (io_text e) (io_clock e) d q (d_icache s);
        Some (res, case res of
            None \<Rightarrow> s\<lparr>d_icache := c\<rparr>
          | Some _ \<Rightarrow> s\<lparr>d_icache := c, d_cacheHits := d_cacheHits s + 1, d_cacheHitUs := d_cacheHitUs s + ucast (io_hitUs e)\<rparr>) }
      else Some (None, s))"

definition send_built :: "io \<Rightarrow> client \<Rightarrow> query \<Rightarrow> DnsLogSource \<Rightarrow> DnsQueryOutcome \<Rightarrow> string list \<Rightarrow> u32 \<Rightarrow> dns \<Rightarrow> dns option" where
  "send_built e from qr src outcome ips ttl s = do {
     bs \<leftarrow> buildAnswer (reply_buf e) (q_id qr) (q_domain qr) (q_type qr) (q_cls qr) ips ttl;
     Some (emit (LogQuery (q_domain qr) (q_type qr) (fst from) (resolveClientMac e (fst from)) src outcome (if ips = [] then [] else hd ips)
       # reply_event from bs) s) }"

definition send_nxdomain :: "io \<Rightarrow> client \<Rightarrow> query \<Rightarrow> DnsQueryOutcome \<Rightarrow> dns \<Rightarrow> dns option" where
  "send_nxdomain e from qr outcome s = do {
     bs \<leftarrow> buildNxdomain (reply_buf e) (q_id qr) (q_domain qr) (q_type qr) (q_cls qr);
     Some (emit (LogQuery (q_domain qr) (q_type qr) (fst from) (resolveClientMac e (fst from)) Forwarded outcome [] # reply_event from bs) s) }"

definition new_slot :: "io \<Rightarrow> client \<Rightarrow> query \<Rightarrow> byte list \<Rightarrow> forward_slot" where
  "new_slot e from qr buf = \<lparr>sl_active = True, sl_waiting = True, sl_fd = - 1, sl_client = from, sl_qid = q_id qr,
     sl_qtype = q_type qr, sl_qclass = q_cls qr, sl_domain = q_domain qr,
     sl_query = (if length buf \<le> kQueryBytes then buf else []), sl_created = io_now e, sl_sent = 0\<rparr>"

text \<open>Step 3: a slot, and then the external cache or at once the upstream server.\<close>

definition place_query :: "io \<Rightarrow> client \<Rightarrow> query \<Rightarrow> byte list \<Rightarrow> dns \<Rightarrow> dns option" where
  "place_query e from qr buf s =
     (case allocPendingSlot s of
        None \<Rightarrow> send_nxdomain e from qr NoSlot s
      | Some i \<Rightarrow>
          let pf = new_slot e from qr buf; s1 = set_slot i pf s in
          if sl_query pf \<noteq> [] \<and> usable (d_rcache s1) (uint (io_later e))
          then Some (s1\<lparr>d_rcache := submitLookup (q_domain qr) (q_type qr) (of_nat i) (d_rcache s1)\<rparr>)
          else case startForward e i (io_now e) s1 of
            (True, s2) \<Rightarrow> Some s2
          | (False, s2) \<Rightarrow> send_nxdomain e from qr NoSocket (freePendingSlot i s2))"

definition answer_query :: "io \<Rightarrow> client \<Rightarrow> query \<Rightarrow> byte list \<Rightarrow> dns \<Rightarrow> dns option" where
  "answer_query e from qr buf s =
     (let d = lookup_domain (q_domain qr); q = q_type qr in
      case local_answer s d q of
        (True, ips) \<Rightarrow>
          (if ips \<noteq> [] then send_built e from qr Local Answered ips DNS_DEFAULT_TTL_SEC s
           else send_built e from qr Local NoData [] DNS_DEFAULT_TTL_SEC s)
      | (False, _) \<Rightarrow> do {
          (res, s1) \<leftarrow> internal_answer e d q s;
          case res of
            Some (ips, ttl) \<Rightarrow>
              (if ips \<noteq> [] then send_built e from qr Cache Answered ips ttl s1
               else send_built e from qr Cache NoData [] DNS_DEFAULT_TTL_SEC s1)
          | None \<Rightarrow>
              if d_blockNonAA s1 \<and> q \<noteq> kTypeA \<and> q \<noteq> kTypeAaaa
              then send_built e from qr Forwarded Blocked [] DNS_DEFAULT_TTL_SEC s1
              else place_query e from qr buf s1 })"

definition drop_foreign :: "io \<Rightarrow> dns \<Rightarrow> dns" where
  "drop_foreign e s =
     s\<lparr>d_foreign := d_foreign s + 1,
       d_lastForeignMs := (if io_later e - d_lastForeignMs s \<ge> DNS_FOREIGN_LOG_THROTTLE_MS then io_later e else d_lastForeignMs s)\<rparr>"

definition handle_query :: "io \<Rightarrow> client \<Rightarrow> byte list \<Rightarrow> dns \<Rightarrow> dns option" where
  "handle_query e from buf s =
     (let s1 = s\<lparr>d_queryCount := d_queryCount s + 1\<rparr> in do {
        parsed \<leftarrow> parseQuery buf;
        case parsed of
          None \<Rightarrow> Some s1
        | Some qr \<Rightarrow>
            if filter_active (d_filter s1) \<and> \<not> filter_contains (d_filter s1) (ntohl (fst from)) then Some (drop_foreign e s1)
            else answer_query e from qr buf s1 })"

section \<open>The loop\<close>

text \<open>Stopping closes what is still open.\<close>

definition stop_slots :: "dns \<Rightarrow> dns" where
  "stop_slots s = foldl (\<lambda>s i. if sl_active (d_slots s ! i) then freePendingSlot i s else s) s [0..<kMaxPendingForwards]"

text \<open>
  What one pass found: its reading of the clock, the sockets with data, and the datagram on port 53.
\<close>

type_synonym arrival = "(io \<times> client \<times> byte list) option"

record poll =
  po_now :: u64
  po_io :: "nat \<Rightarrow> io"
  po_recv :: "nat \<Rightarrow> byte list option option"
  po_query :: arrival

definition at_time :: "u64 \<Rightarrow> io \<Rightarrow> io" where
  "at_time now e = e\<lparr>io_now := now\<rparr>"

definition pass_slots :: "poll \<Rightarrow> dns \<Rightarrow> dns option" where
  "pass_slots p s = slots_pass (\<lambda>i. at_time (po_now p) (po_io p i)) (po_recv p) [0..<kMaxPendingForwards] s"

definition take_query :: "u64 \<Rightarrow> arrival \<Rightarrow> dns \<Rightarrow> dns option" where
  "take_query now qo s = (case qo of None \<Rightarrow> Some s | Some (e, from, buf) \<Rightarrow> handle_query (at_time now e) from buf s)"

text \<open>
  Where the task stands: in \<open>select\<close>, or in the loop that drains the results, with the datagram that
  \<open>select\<close> reported still to be read. The drain loop asks \<open>recvfrom\<close> for the next result on a blocking
  socket: it handles a result when there is one, waits when there is none, and ends only when the call
  fails or returns a datagram of another size, which can happen at any time. The other tasks are the worker and the sender of the
  external cache, and whoever operates the internal cache under its lock.
\<close>

datatype task = AtSelect | Draining u64 arrival

inductive dns_step :: "task \<times> dns \<Rightarrow> task \<times> dns \<Rightarrow> bool" where
  pass: "rc_results (d_rcache s) = [] \<Longrightarrow> pass_slots p s = Some s1 \<Longrightarrow> take_query (po_now p) (po_query p) s1 = Some s2 \<Longrightarrow>
    dns_step (AtSelect, s) (AtSelect, s2)"
| pass_results: "rc_results (d_rcache s) \<noteq> [] \<Longrightarrow> pass_slots p s = Some s1 \<Longrightarrow>
    dns_step (AtSelect, s) (Draining (po_now p) (po_query p), s1)"
| drain: "rc_results (d_rcache s) = res # rs \<Longrightarrow>
    handle_result (at_time now e) res (s\<lparr>d_rcache := (d_rcache s)\<lparr>rc_results := rs\<rparr>\<rparr>) = Some s1 \<Longrightarrow>
    dns_step (Draining now qo, s) (Draining now qo, s1)"
| drained: "take_query now qo s = Some s1 \<Longrightarrow> dns_step (Draining now qo, s) (AtSelect, s1)"
| worker_takes: "dns_step (t, s) (t, s\<lparr>d_rcache := worker_take (d_rcache s)\<rparr>)"
| worker_finishes: "dns_step (t, s) (t, s\<lparr>d_rcache := worker_finish http elapsed now (d_rcache s)\<rparr>)"
| sender_sends: "rc_storeQueue (d_rcache s) = r # rs \<Longrightarrow> dns_step (t, s) (t, s\<lparr>d_rcache := (d_rcache s)\<lparr>rc_storeQueue := rs\<rparr>\<rparr>)"
| cache_operated: "cache_step (d_icache s) c \<Longrightarrow> dns_step (t, s) (t, s\<lparr>d_icache := c\<rparr>)"

end
