(* ===== verification/DnsTask.thy ===== *)
theory DnsTask
  imports DnsLoop "HOL-Library.Multiset"
begin

text \<open>
  The DNS server task in every run: replies fit their buffer, each handler ends and keeps the
  invariant of the slots and their sockets, and a run of all tasks stays inside it.
\<close>


section \<open>Replies fit their buffer\<close>

lemma parseQuery_domain: "parseQuery buf = Some (Some qr) \<Longrightarrow> q_domain qr \<noteq> [] \<and> length (q_domain qr) \<le> 256"
  by (auto simp: parseQuery_def bind_eq_Some_conv decodeDomainName_def split: if_splits dest!: decode_from_length)

lemma length_encode_labels: "length (encode_labels d) \<le> length d + 1"
proof (induction d rule: encode_labels.induct)
  case (1 d)
  show ?case
  proof (cases "split_at (CHR ''.'') d")
    case None
    then show ?thesis by (subst encode_labels.simps) (simp add: encode_label_def Let_def)
  next
    case (Some x)
    then obtain l r where x: "split_at (CHR ''.'') d = Some (l, r)" by (cases x) auto
    from split_at_SomeD [OF this] have "d = l @ CHR ''.'' # r" ..
    then show ?thesis using "1.IH" [OF _ x] x by (subst encode_labels.simps) (simp add: encode_label_def Let_def)
  qed
qed

definition fits_reply :: "string \<Rightarrow> string list \<Rightarrow> bool" where
  "fits_reply d ips \<longleftrightarrow> length d \<le> 256 \<and> length ips \<le> 136"

lemma put_question_total:
  assumes "length d \<le> 256" and "length hb = 12"
  obtains out where "put_question (reply_buf e) hb d q cls = Some (hb @ out)" "length (hb @ out) \<le> 274"
proof -
  have "length (encodeDomainName d) \<le> 258" using length_encode_labels [of d] assms(1) by (simp add: encodeDomainName_def)
  then show thesis
    using that [of "encodeDomainName d @ mem16be q @ mem16be cls"] assms(2)
    by (simp add: put_question_def put_def reply_buf_def loop_consts dns_consts)
qed

lemma buildNxdomain_total:
  assumes "length d \<le> 256"
  obtains out where "buildNxdomain (reply_buf e) qid d q cls = Some (reply_head qid 0x83 0 @ out)"
proof -
  obtain out where "put_question (reply_buf e) (reply_head qid 0x83 0) d q cls = Some (reply_head qid 0x83 0 @ out)"
    by (rule put_question_total [OF assms, of "reply_head qid 0x83 0" e q cls]) simp_all
  then show thesis using that by (simp add: buildNxdomain_def)
qed

lemma buildAnswer_total:
  assumes "fits_reply d ips"
  obtains out where "buildAnswer (reply_buf e) qid d q cls ips ttl = Some (reply_head qid 0x80 (of_nat (length ips)) @ out)"
proof -
  let ?h = "reply_head qid 0x80 (of_nat (length ips))"
  obtain out where o: "put_question (reply_buf e) ?h d q cls = Some (?h @ out)" "length (?h @ out) \<le> 274"
    by (rule put_question_total [of d ?h e q cls]) (use assms in \<open>auto simp: fits_reply_def\<close>)
  obtain body where "put_answers (reply_buf e) cls ttl ips (?h @ out) = Some ((?h @ out) @ body)"
    using put_answers_fits [of "?h @ out" ips "reply_buf e" cls ttl] o(2) assms
    by (auto simp: fits_reply_def reply_buf_def loop_consts)
  moreover have "?h \<noteq> []" by (simp add: reply_head_def)
  ultimately show thesis using that o(1) by (simp add: buildAnswer_def)
qed

lemma reply_head_id: "rd16 (reply_head qid f2 an @ x) 0 = Some qid" "reply_head qid f2 an @ x \<noteq> []"
  using reply_head_fields(2) by (simp_all add: reply_head_def)

section \<open>How many addresses a source gives\<close>

lemma split_ips_count: "2 * length (split_ips s) \<le> length s + 1"
proof (induction s rule: split_ips.induct)
  case (1 s)
  show ?case
  proof (cases "split_at (CHR '','') s")
    case None
    then show ?thesis by (subst split_ips.simps) (cases s, auto)
  next
    case (Some x)
    then obtain l r where x: "split_at (CHR '','') s = Some (l, r)" by (cases x) auto
    from split_at_SomeD [OF this] have "s = l @ CHR '','' # r" ..
    then show ?thesis using "1.IH" [OF x refl] x by (subst split_ips.simps) (cases l, auto)
  qed
qed

lemma length_map_filter_take: "length (List.map_filter f (take n xs)) \<le> n"
  unfolding List.map_filter_def by (simp add: le_trans [OF length_filter_le])

lemma lookup_count:
  assumes "cache_run c" and "InternalCache.lookup t k d q c = Some (Some (ips, ttl), c')"
  shows "length ips \<le> 16"
proof -
  have p: "pool_inv c" using cache_run_pool [OF assms(1)] .
  have on: "arena c \<and> d \<noteq> [] \<and> length d < kMaxNameLen_c"
    using assms(2) by (auto simp: lookup_def Let_def lower_def split: if_splits)
  let ?x = "(cstr (lower d), q)"
  obtain res c2 where l: "InternalCache.lookup t k d q c = Some (res, c2)" "(res, content c2) = lookup_result t k c ?x"
    using lookup_spec [of c d t k q] p on unfolding pool_inv_def by metis
  then have "lookup_result t k c ?x = (Some (ips, ttl), content c2)" using assms(2) by auto
  then obtain r where r: "content c ?x = Some r" "ips = node_ips t q r"
    by (auto simp: lookup_result_def split: option.splits if_splits)
  have "\<exists>n \<in> set (nodes c). r = strip n"
  proof -
    obtain chs fl where wf: "wf c chs fl []" using p on by (auto simp: pool_inv_def cache_inv_def)
    obtain i where "i \<in> set (concat chs)" "r = strip (nodes c ! i)" using content_iff [OF wf, of ?x r] r(1) by auto
    moreover have "i < length (nodes c)" using rep_set [OF wfD(1) [OF wf]] calculation(1) by auto
    ultimately show ?thesis by auto
  qed
  then have "slots_ok r" using p by (auto simp: pool_inv_def node_shape_def slots_ok_def)
  then have "nd_nA r \<le> 16" "nd_nAAAA r \<le> 16" by (auto simp: slots_ok_def kMaxA_def kMaxAAAA_def)
  then show ?thesis unfolding r(2) node_ips_def
    using le_trans [OF length_map_filter_take [of "t_ntop4 t" "nd_nA r" "nd_a4 r"]]
      le_trans [OF length_map_filter_take [of "t_ntop6 t" "nd_nAAAA r" "nd_a6 r"]] by simp
qed


section \<open>The invariant\<close>

definition slot_ok :: "forward_slot \<Rightarrow> bool" where
  "slot_ok pf \<longleftrightarrow> (0 \<le> sl_fd pf \<longleftrightarrow> sl_active pf \<and> \<not> sl_waiting pf) \<and> length (sl_domain pf) \<le> 256
     \<and> length (sl_query pf) \<le> kQueryBytes"

definition fds_of :: "forward_slot list \<Rightarrow> int list" where
  "fds_of sls = filter (\<lambda>f. 0 \<le> f) (map sl_fd sls)"

text \<open>A slot owns a socket exactly while it forwards, and there is no other open socket.\<close>

definition slots_inv :: "dns \<Rightarrow> bool" where
  "slots_inv s \<longleftrightarrow> length (d_slots s) = kMaxPendingForwards \<and> (\<forall>pf \<in> set (d_slots s). slot_ok pf)
     \<and> mset (d_fds s) = mset (fds_of (d_slots s))"

definition parts_inv :: "dns \<Rightarrow> bool" where
  "parts_inv s \<longleftrightarrow> cache_run (d_icache s) \<and> rest_inv (d_rcache s) \<and> (\<forall>n. length (host_ips (d_hosts s) n) \<le> 128)"

definition dns_inv :: "dns \<Rightarrow> bool" where
  "dns_inv s \<longleftrightarrow> slots_inv s \<and> parts_inv s"

lemma fds_update:
  "i < length sls \<Longrightarrow> mset (fds_of (sls[i := pf])) + (if 0 \<le> sl_fd (sls ! i) then {#sl_fd (sls ! i)#} else {#})
     = mset (fds_of sls) + (if 0 \<le> sl_fd pf then {#sl_fd pf#} else {#})"
proof (induction sls arbitrary: i)
  case (Cons x sls)
  show ?case
  proof (cases i)
    case (Suc k)
    then show ?thesis using Cons.IH [of k] Cons.prems by (auto simp: fds_of_def)
  qed (auto simp: fds_of_def)
qed simp

text \<open>Writing a slot: the open sockets change by the old and the new one.\<close>

lemma slots_inv_write:
  assumes "slots_inv s" and "i < kMaxPendingForwards" and "slot_ok pf"
    and "mset fds + (if 0 \<le> sl_fd (d_slots s ! i) then {#sl_fd (d_slots s ! i)#} else {#})
       = mset (d_fds s) + (if 0 \<le> sl_fd pf then {#sl_fd pf#} else {#})"
  shows "slots_inv (set_slot i pf (s\<lparr>d_fds := fds\<rparr>))"
proof -
  have l: "i < length (d_slots s)" using assms(1,2) by (simp add: slots_inv_def)
  have "\<forall>x \<in> set ((d_slots s)[i := pf]). slot_ok x"
    using assms(1,3) set_update_subset_insert [of "d_slots s" i pf] by (auto simp: slots_inv_def)
  moreover have "mset fds = mset (fds_of ((d_slots s)[i := pf]))"
    using fds_update [OF l, of pf] assms(1,4) by (metis add_right_imp_eq slots_inv_def)
  ultimately show ?thesis using assms(1) by (simp add: slots_inv_def set_slot_def)
qed

lemma slots_inv_frame:
  "slots_inv s \<Longrightarrow> d_slots s' = d_slots s \<Longrightarrow> d_fds s' = d_fds s \<Longrightarrow> slots_inv s'"
  by (simp add: slots_inv_def)

lemma parts_inv_frame:
  "parts_inv s \<Longrightarrow> d_icache s' = d_icache s \<Longrightarrow> d_rcache s' = d_rcache s \<Longrightarrow> d_hosts s' = d_hosts s \<Longrightarrow> parts_inv s'"
  by (simp add: parts_inv_def)

lemma slot_at: "slots_inv s \<Longrightarrow> i < kMaxPendingForwards \<Longrightarrow> slot_ok (d_slots s ! i) \<and> d_slots s ! i \<in> set (d_slots s)"
  by (simp add: slots_inv_def)

lemma fd_open:
  assumes "slots_inv s" and "i < kMaxPendingForwards" and "0 \<le> sl_fd (d_slots s ! i)"
  shows "sl_fd (d_slots s ! i) \<in> set (d_fds s)"
proof -
  have "sl_fd (d_slots s ! i) \<in> set (fds_of (d_slots s))" using slot_at [OF assms(1,2)] assms(3) by (simp add: fds_of_def)
  then show ?thesis using assms(1) by (metis slots_inv_def mset_eq_setD)
qed

lemma emit_frame [simp]:
  "d_slots (emit ev s) = d_slots s" "d_fds (emit ev s) = d_fds s" "d_icache (emit ev s) = d_icache s"
  "d_rcache (emit ev s) = d_rcache s" "d_hosts (emit ev s) = d_hosts s" "d_events (emit ev s) = d_events s @ ev"
  "d_blockNonAA (emit ev s) = d_blockNonAA s" "d_queryCount (emit ev s) = d_queryCount s"
  "slots_inv (emit ev s) = slots_inv s" "parts_inv (emit ev s) = parts_inv s"
  by (simp_all add: emit_def slots_inv_def parts_inv_def)

lemma set_slot_frame [simp]:
  "d_fds (set_slot i pf s) = d_fds s" "d_icache (set_slot i pf s) = d_icache s"
  "d_rcache (set_slot i pf s) = d_rcache s" "d_hosts (set_slot i pf s) = d_hosts s" "d_events (set_slot i pf s) = d_events s"
  "d_slots (set_slot i pf s) = (d_slots s)[i := pf]" "d_queryCount (set_slot i pf s) = d_queryCount s"
  "parts_inv (set_slot i pf s) = parts_inv s"
  by (simp_all add: set_slot_def parts_inv_def)

lemma free_frame [simp]:
  "d_icache (freePendingSlot i s) = d_icache s" "d_rcache (freePendingSlot i s) = d_rcache s"
  "d_hosts (freePendingSlot i s) = d_hosts s" "d_events (freePendingSlot i s) = d_events s"
  "d_queryCount (freePendingSlot i s) = d_queryCount s" "parts_inv (freePendingSlot i s) = parts_inv s"
  by (simp_all add: freePendingSlot_def Let_def parts_inv_def)

lemma free_slots:
  "i < kMaxPendingForwards \<Longrightarrow> \<exists>pf. d_slots (freePendingSlot i s) = (d_slots s)[i := pf] \<and> \<not> sl_active pf"
  by (auto simp: freePendingSlot_def Let_def)

lemma free_inv [inv_intros]: "slots_inv s \<Longrightarrow> slots_inv (freePendingSlot i s)"
proof (cases "i < kMaxPendingForwards")
  case True
  assume inv: "slots_inv s"
  let ?pf = "d_slots s ! i"
  have ok: "slot_ok ?pf" using slot_at [OF inv True] ..
  show ?thesis
  proof (cases "0 \<le> sl_fd ?pf")
    case fd: True
    have "sl_fd ?pf \<in> set (d_fds s)" using fd_open [OF inv True fd] .
    then have "slots_inv (set_slot i (?pf\<lparr>sl_fd := - 1, sl_active := False, sl_domain := []\<rparr>) (s\<lparr>d_fds := remove1 (sl_fd ?pf) (d_fds s)\<rparr>))"
      using ok fd by (intro slots_inv_write [OF inv True]) (simp_all add: slot_ok_def)
    then show ?thesis using True fd by (simp add: freePendingSlot_def Let_def)
  next
    case False
    have "slots_inv (set_slot i (?pf\<lparr>sl_active := False, sl_domain := []\<rparr>) (s\<lparr>d_fds := d_fds s\<rparr>))"
      using ok False by (intro slots_inv_write [OF inv True]) (simp_all add: slot_ok_def)
    then show ?thesis using True False by (simp add: freePendingSlot_def Let_def)
  qed
qed (simp add: freePendingSlot_def)

lemma start_frame [simp]:
  "d_icache (snd (startForward e i now s)) = d_icache s" "d_rcache (snd (startForward e i now s)) = d_rcache s"
  "d_hosts (snd (startForward e i now s)) = d_hosts s" "d_queryCount (snd (startForward e i now s)) = d_queryCount s"
  "parts_inv (snd (startForward e i now s)) = parts_inv s"
  by (simp_all add: startForward_def Let_def parts_inv_def)

text \<open>A forward is started only for a slot that waits, and so has no socket yet.\<close>

lemma start_inv:
  assumes "slots_inv s" and "i < kMaxPendingForwards" and "sl_fd (d_slots s ! i) < 0"
  shows "slots_inv (snd (startForward e i now s))"
proof -
  let ?pf = "d_slots s ! i"
  have ok: "slot_ok ?pf" using slot_at [OF assms(1,2)] ..
  have neg: "slots_inv (set_slot i (?pf\<lparr>sl_fd := f\<rparr>) s)" if "f < 0" for f
  proof -
    have "slots_inv (set_slot i (?pf\<lparr>sl_fd := f\<rparr>) (s\<lparr>d_fds := d_fds s\<rparr>))"
      using ok assms(3) that by (intro slots_inv_write [OF assms(1,2)]) (auto simp: slot_ok_def)
    then show ?thesis by simp
  qed
  have pos: "slots_inv (set_slot i (?pf\<lparr>sl_fd := io_sock e, sl_waiting := False, sl_sent := now\<rparr>) (s\<lparr>d_fds := io_sock e # d_fds s\<rparr>))"
    if "0 \<le> io_sock e" "sl_active ?pf"
    using ok assms(3) that by (intro slots_inv_write [OF assms(1,2)]) (auto simp: slot_ok_def)
  have cnt: "slots_inv (set_slot j pf (s\<lparr>d_fds := fds, d_forwarded := n\<rparr>)) = slots_inv (set_slot j pf (s\<lparr>d_fds := fds\<rparr>))" for j pf fds n
    by (simp add: slots_inv_def)
  show ?thesis
    using assms(1) neg pos unfolding startForward_def Let_def by (simp add: cnt)
qed

lemma expire_total:
  assumes "slots_inv s" and "i < kMaxPendingForwards"
  obtains bs where "expirePendingSlot e i s = Some (freePendingSlot i (emit
      [LogQuery (sl_domain (d_slots s ! i)) (sl_qtype (d_slots s ! i)) (fst (sl_client (d_slots s ! i)))
         (resolveClientMac e (fst (sl_client (d_slots s ! i)))) Forwarded Timeout [],
       Reply (sl_client (d_slots s ! i)) bs] s))"
    "rd16 bs 0 = Some (sl_qid (d_slots s ! i))"
proof -
  let ?pf = "d_slots s ! i"
  have "length (sl_domain ?pf) \<le> 256" using slot_at [OF assms] by (simp add: slot_ok_def)
  then obtain out where "buildNxdomain (reply_buf e) (sl_qid ?pf) (sl_domain ?pf) (sl_qtype ?pf) (sl_qclass ?pf)
      = Some (reply_head (sl_qid ?pf) 0x83 0 @ out)" by (rule buildNxdomain_total)
  then show thesis
    using that [of "reply_head (sl_qid ?pf) 0x83 0 @ out"] assms(2) reply_head_id [of "sl_qid ?pf" "0x83" 0 out]
    by (simp add: expirePendingSlot_def reply_event_def Let_def)
qed


section \<open>Every handler ends and keeps the invariant\<close>

lemma store_internal_total:
  assumes "parts_inv s"
  obtains c where "store_internal e d q ips ttl s = Some (s\<lparr>d_icache := c\<rparr>)" "parts_inv (s\<lparr>d_icache := c\<rparr>)"
proof (cases "arena (d_icache s)")
  case True
  have run: "cache_run (d_icache s)" using assms by (simp add: parts_inv_def)
  then obtain c where c: "storeInternal (io_text e) (io_clock e) d q ips ttl True 0 (d_icache s) = Some c"
    using store_total [OF cache_run_inv] by blast
  have "cache_run c" using rtranclp.rtrancl_into_rtrancl [OF run cache_step.stored [OF c]] .
  then show thesis using that [of c] True c assms by (simp add: store_internal_def InternalCache.store_def parts_inv_def)
next
  case False
  then show thesis using that [of "d_icache s"] assms by (simp add: store_internal_def)
qed

definition in_time :: "u64 \<Rightarrow> forward_slot \<Rightarrow> bool" where
  "in_time now pf \<longleftrightarrow> (if sl_waiting pf then now - sl_created pf < kCacheWaitTimeoutMs else now - sl_sent pf < DNS_FORWARD_TIMEOUT_MS)"

text \<open>
  What a handler of slot \<open>i\<close> does: the other slots stay, and the slot keeps its client or is given up
  with a reply to it.
\<close>

definition slot_moves :: "nat \<Rightarrow> dns \<Rightarrow> dns \<Rightarrow> bool" where
  "slot_moves i s s' \<longleftrightarrow> dns_inv s' \<and> (\<forall>j. j \<noteq> i \<longrightarrow> d_slots s' ! j = d_slots s ! j)
     \<and> d_queryCount s' = d_queryCount s \<and> rc_results (d_rcache s') = rc_results (d_rcache s)
     \<and> (sl_active (d_slots s' ! i) \<longrightarrow> sl_active (d_slots s ! i) \<and> sl_client (d_slots s' ! i) = sl_client (d_slots s ! i)
          \<and> sl_qid (d_slots s' ! i) = sl_qid (d_slots s ! i) \<and> sl_domain (d_slots s' ! i) = sl_domain (d_slots s ! i))"

definition replied :: "client \<Rightarrow> dns \<Rightarrow> dns \<Rightarrow> bool" where
  "replied c s s' \<longleftrightarrow> (\<exists>ev bs. d_events s' = d_events s @ ev \<and> Reply c bs \<in> set ev)"

definition grows :: "dns \<Rightarrow> dns \<Rightarrow> bool" where
  "grows s s' \<longleftrightarrow> (\<exists>ev. d_events s' = d_events s @ ev)"

lemma grows_refl [simp]: "grows s s"
  by (simp add: grows_def)

lemma grows_trans: "grows s s1 \<Longrightarrow> grows s1 s2 \<Longrightarrow> grows s s2"
  by (auto simp: grows_def)

lemma replied_grows: "replied c s s' \<Longrightarrow> grows s s'"
  by (auto simp: replied_def grows_def)

lemma replied_later: "grows s s1 \<Longrightarrow> replied c s1 s2 \<Longrightarrow> replied c s s2"
  unfolding grows_def replied_def by auto

lemma replied_earlier: "replied c s s1 \<Longrightarrow> grows s1 s2 \<Longrightarrow> replied c s s2"
  unfolding grows_def replied_def by auto

lemma free_updates:
  assumes "i < kMaxPendingForwards" and "length (d_slots s) = kMaxPendingForwards"
  shows "\<not> sl_active (d_slots (freePendingSlot i s) ! i)" "j \<noteq> i \<Longrightarrow> d_slots (freePendingSlot i s) ! j = d_slots s ! j"
  using free_slots [OF assms(1), of s] assms by auto

lemma slots_length [simp]: "slots_inv s \<Longrightarrow> length (d_slots s) = kMaxPendingForwards"
  by (simp add: slots_inv_def)

lemma slot_moves_free:
  assumes "dns_inv s1" and "d_slots s1 = d_slots s" and "i < kMaxPendingForwards"
    and "d_queryCount s1 = d_queryCount s" and "rc_results (d_rcache s1) = rc_results (d_rcache s)"
  shows "slot_moves i s (freePendingSlot i s1) \<and> \<not> sl_active (d_slots (freePendingSlot i s1) ! i)"
proof -
  have "length (d_slots s1) = kMaxPendingForwards" using assms(1) by (simp add: dns_inv_def)
  from free_updates [OF assms(3) this] show ?thesis using assms by (auto simp: slot_moves_def dns_inv_def free_inv)
qed

lemma expire_spec:
  assumes "dns_inv s" and "i < kMaxPendingForwards"
  obtains s' where "expirePendingSlot e i s = Some s'" "slot_moves i s s'" "\<not> sl_active (d_slots s' ! i)"
    "replied (sl_client (d_slots s ! i)) s s'"
proof -
  have inv: "slots_inv s" using assms(1) by (simp add: dns_inv_def)
  obtain bs where b: "expirePendingSlot e i s = Some (freePendingSlot i (emit
      [LogQuery (sl_domain (d_slots s ! i)) (sl_qtype (d_slots s ! i)) (fst (sl_client (d_slots s ! i)))
         (resolveClientMac e (fst (sl_client (d_slots s ! i)))) Forwarded Timeout [],
       Reply (sl_client (d_slots s ! i)) bs] s))"
    by (rule expire_total [OF inv assms(2), of e])
  show thesis
    by (rule that [OF b]) (use slot_moves_free [of "emit ev s" s i for ev] assms in
      \<open>auto simp: dns_inv_def replied_def\<close>)
qed

lemma start_slots:
  assumes "startForward e i now s = (True, s')" and "length (d_slots s) = kMaxPendingForwards"
  shows "i < kMaxPendingForwards" "sl_active (d_slots s ! i)" "0 \<le> io_sock e"
    "d_slots s' = (d_slots s)[i := (d_slots s ! i)\<lparr>sl_fd := io_sock e, sl_waiting := False, sl_sent := now\<rparr>]"
    "d_events s' = d_events s @ [Upstream (sl_query (d_slots s ! i))]"
  using assms by (auto simp: startForward_def Let_def split: if_splits)

lemma start_fails:
  assumes "startForward e i now s = (False, s')"
  shows "d_events s' = d_events s" "\<exists>f. d_slots s' = (d_slots s)[i := (d_slots s ! i)\<lparr>sl_fd := f\<rparr>]"
proof -
  show "d_events s' = d_events s" using assms by (auto simp: startForward_def Let_def split: if_splits)
  have "d_slots s = (d_slots s)[i := (d_slots s ! i)\<lparr>sl_fd := sl_fd (d_slots s ! i)\<rparr>]" by simp
  then have same: "\<exists>f. d_slots s = (d_slots s)[i := (d_slots s ! i)\<lparr>sl_fd := f\<rparr>]" by blast
  have "s' = s \<or> (\<exists>f. d_slots s' = (d_slots s)[i := (d_slots s ! i)\<lparr>sl_fd := f\<rparr>])"
    using assms unfolding startForward_def Let_def by (auto split: if_splits)
  with same show "\<exists>f. d_slots s' = (d_slots s)[i := (d_slots s ! i)\<lparr>sl_fd := f\<rparr>]" by blast
qed

lemma forward_or_expire_spec:
  assumes "dns_inv s" and "i < kMaxPendingForwards" and "sl_active (d_slots s ! i)" and "sl_waiting (d_slots s ! i)"
  obtains s' where "forward_or_expire e i s = Some s'" "slot_moves i s s'" "grows s s'"
    "sl_active (d_slots s' ! i) \<longrightarrow> \<not> sl_waiting (d_slots s' ! i) \<and> sl_sent (d_slots s' ! i) = io_now e"
    "\<not> sl_active (d_slots s' ! i) \<longrightarrow> replied (sl_client (d_slots s ! i)) s s'"
proof (cases "sl_query (d_slots s ! i) = []")
  case True
  obtain s' where "expirePendingSlot e i s = Some s'" "slot_moves i s s'" "\<not> sl_active (d_slots s' ! i)"
      "replied (sl_client (d_slots s ! i)) s s'" by (rule expire_spec [OF assms(1,2), of e])
  then show thesis using that [of s'] True replied_grows by (simp add: forward_or_expire_def)
next
  case False
  have inv: "slots_inv s" "parts_inv s" using assms(1) by (simp_all add: dns_inv_def)
  have fd: "sl_fd (d_slots s ! i) < 0" using slot_at [OF inv(1) assms(2)] assms(4) by (auto simp: slot_ok_def)
  obtain ok s1 where st: "startForward e i (io_now e) s = (ok, s1)" by fastforce
  have s1: "slots_inv s1" "parts_inv s1" "d_queryCount s1 = d_queryCount s" "d_rcache s1 = d_rcache s"
    using start_inv [OF inv(1) assms(2) fd, of e "io_now e"] start_frame [of e i "io_now e" s] inv(2) unfolding st by simp_all
  show thesis
  proof (cases ok)
    case True
    have "startForward e i (io_now e) s = (True, s1)" using st True by simp
    note sl = start_slots [OF this]
    have "slot_moves i s s1" using s1 sl(4) inv(1) assms(2,3) by (simp add: slot_moves_def dns_inv_def)
    moreover have "grows s s1" using sl(5) inv(1) by (simp add: grows_def)
    ultimately show thesis using that [of s1] st True False sl inv(1) assms(2,3) by (simp add: forward_or_expire_def)
  next
    case no: False
    obtain f where f: "d_events s1 = d_events s" "d_slots s1 = (d_slots s)[i := (d_slots s ! i)\<lparr>sl_fd := f\<rparr>]"
      using start_fails [of e i "io_now e" s s1] st no by auto
    obtain s' where s': "expirePendingSlot e i s1 = Some s'" "slot_moves i s1 s'" "\<not> sl_active (d_slots s' ! i)"
        "replied (sl_client (d_slots s1 ! i)) s1 s'"
      by (rule expire_spec [of s1 i e]) (use s1 assms(2) in \<open>auto simp: dns_inv_def\<close>)
    have "slot_moves i s s'" using s'(2,3) f(2) s1(3,4) by (simp add: slot_moves_def)
    moreover have "replied (sl_client (d_slots s ! i)) s s'"
      using s'(4) f inv(1) assms(2) by (simp add: replied_def)
    ultimately show thesis using that [of s'] st no False s'(1,3) replied_grows by (simp add: forward_or_expire_def)
  qed
qed

lemma relay_spec:
  assumes "dns_inv s"
  obtains s' where "relay_answer e pf bs s = Some s'" "dns_inv s'" "d_slots s' = d_slots s" "d_queryCount s' = d_queryCount s"
    "rc_results (d_rcache s') = rc_results (d_rcache s)" "replied (sl_client pf) s s'"
proof -
  obtain ips ttl where p: "parseForwardAnswer (io_text e) bs = Some (ips, ttl)" using parseForwardAnswer_safe by fastforce
  have inv: "slots_inv s" "parts_inv s" using assms by (simp_all add: dns_inv_def)
  let ?ttl = "if ttl \<noteq> 0 then ttl else DNS_DEFAULT_TTL_SEC"
  obtain c where c: "store_internal e (sl_domain pf) (sl_qtype pf) ips ?ttl s = Some (s\<lparr>d_icache := c\<rparr>)" "parts_inv (s\<lparr>d_icache := c\<rparr>)"
    by (rule store_internal_total [OF inv(2)])
  let ?rc = "rest_store (sl_domain pf) (sl_qtype pf) ips (d_rcache s)"
  let ?s1 = "if ips \<noteq> [] then s\<lparr>d_icache := c, d_rcache := ?rc\<rparr> else s"
  have rc: "rc_results ?rc = rc_results (d_rcache s)" by (simp add: rest_store_def Let_def)
  have s1: "slots_inv ?s1" "parts_inv ?s1"
    using inv c(2) rest_store_inv [of "d_rcache s"] by (auto simp: slots_inv_def parts_inv_def)
  let ?ev = "[LogQuery (sl_domain pf) (sl_qtype pf) (fst (sl_client pf)) (resolveClientMac e (fst (sl_client pf))) Forwarded
                   (forwardingOutcome bs) ''(forwarded)'', Reply (sl_client pf) bs]"
  have "relay_answer e pf bs s = Some (emit ?ev ?s1)"
    using p c(1) by (simp add: relay_answer_def)
  moreover have "replied (sl_client pf) s (emit ?ev ?s1)"
    unfolding replied_def by (rule exI [of _ ?ev], rule exI [of _ bs]) simp
  ultimately show thesis
    using that [of "emit ?ev ?s1"] s1 rc by (simp add: dns_inv_def)
qed

lemma handle_slot_spec:
  assumes "dns_inv s" and "i < kMaxPendingForwards"
  obtains s' where "handle_slot e recv i s = Some s'" "slot_moves i s s'" "grows s s'"
    "sl_active (d_slots s' ! i) \<longrightarrow> in_time (io_now e) (d_slots s' ! i)"
    "sl_active (d_slots s ! i) \<and> \<not> sl_active (d_slots s' ! i) \<and> recv \<notin> {Some None, Some (Some [])} \<longrightarrow>
       replied (sl_client (d_slots s ! i)) s s'"
proof -
  let ?pf = "d_slots s ! i"
  have inv: "slots_inv s" using assms(1) by (simp add: dns_inv_def)
  have ok: "slot_ok ?pf" using slot_at [OF inv assms(2)] ..
  have stay: "slot_moves i s s" using assms(1) by (simp add: slot_moves_def)
  consider (idle) "\<not> sl_active ?pf"
    | (wait) "sl_active ?pf" "sl_waiting ?pf" "\<not> io_now e - sl_created ?pf \<ge> kCacheWaitTimeoutMs"
    | (miss) "sl_active ?pf" "sl_waiting ?pf" "io_now e - sl_created ?pf \<ge> kCacheWaitTimeoutMs"
    | (error) "sl_active ?pf" "\<not> sl_waiting ?pf" "recv \<in> {Some None, Some (Some [])}"
    | (answer) bs where "sl_active ?pf" "\<not> sl_waiting ?pf" "recv = Some (Some bs)" "bs \<noteq> []"
    | (late) "sl_active ?pf" "\<not> sl_waiting ?pf" "recv = None" "io_now e - sl_sent ?pf \<ge> DNS_FORWARD_TIMEOUT_MS"
    | (quiet) "sl_active ?pf" "\<not> sl_waiting ?pf" "recv = None" "\<not> io_now e - sl_sent ?pf \<ge> DNS_FORWARD_TIMEOUT_MS"
    by (cases recv) (auto, metis option.exhaust)
  then show thesis
  proof cases
    case idle
    then show thesis using that [of s] stay by (simp add: handle_slot_def)
  next
    case wait
    then have "handle_slot e recv i s = Some s" by (simp add: handle_slot_def)
    then show thesis using that [of s] stay wait by (simp add: in_time_def not_le)
  next
    case miss
    obtain s' where s': "forward_or_expire e i s = Some s'" "slot_moves i s s'" "grows s s'"
        "sl_active (d_slots s' ! i) \<longrightarrow> \<not> sl_waiting (d_slots s' ! i) \<and> sl_sent (d_slots s' ! i) = io_now e"
        "\<not> sl_active (d_slots s' ! i) \<longrightarrow> replied (sl_client ?pf) s s'"
      by (rule forward_or_expire_spec [OF assms miss(1,2), of e])
    then show thesis using that [of s'] miss by (simp add: handle_slot_def in_time_def DNS_FORWARD_TIMEOUT_MS_def Let_def)
  next
    case error
    have "0 \<le> sl_fd ?pf" using ok error by (simp add: slot_ok_def)
    then have "handle_slot e recv i s = Some (freePendingSlot i s)" using error by (auto simp: handle_slot_def)
    then show thesis using that [of "freePendingSlot i s"] slot_moves_free [OF assms(1) refl assms(2)] error
      by (auto simp: grows_def)
  next
    case answer
    have "0 \<le> sl_fd ?pf" using ok answer by (simp add: slot_ok_def)
    moreover obtain s1 where s1: "relay_answer e ?pf bs s = Some s1" "dns_inv s1" "d_slots s1 = d_slots s" "d_queryCount s1 = d_queryCount s"
        "rc_results (d_rcache s1) = rc_results (d_rcache s)" "replied (sl_client ?pf) s s1"
      by (rule relay_spec [OF assms(1), of e ?pf bs])
    ultimately have "handle_slot e recv i s = Some (freePendingSlot i s1)" using answer by (simp add: handle_slot_def)
    moreover have "replied (sl_client ?pf) s (freePendingSlot i s1)" using s1(6) by (simp add: replied_def)
    ultimately show thesis using that [of "freePendingSlot i s1"] slot_moves_free [OF s1(2,3) assms(2) s1(4,5)] replied_grows by blast
  next
    case late
    have "0 \<le> sl_fd ?pf" using ok late by (simp add: slot_ok_def)
    moreover obtain s' where "expirePendingSlot e i s = Some s'" "slot_moves i s s'" "\<not> sl_active (d_slots s' ! i)"
        "replied (sl_client ?pf) s s'" by (rule expire_spec [OF assms, of e])
    ultimately show thesis using that [of s'] late replied_grows by (simp add: handle_slot_def)
  next
    case quiet
    then have "handle_slot e recv i s = Some s" by (simp add: handle_slot_def)
    then show thesis using that [of s] stay quiet by (simp add: in_time_def not_le)
  qed
qed


lemma slots_pass_spec:
  assumes "dns_inv s" and "distinct idxs" and "set idxs \<subseteq> {..<kMaxPendingForwards}" and "\<forall>i. io_now (es i) = now"
  obtains s' where "slots_pass es recvs idxs s = Some s'" "dns_inv s'" "grows s s'" "d_queryCount s' = d_queryCount s"
    "rc_results (d_rcache s') = rc_results (d_rcache s)" "\<forall>j. j \<notin> set idxs \<longrightarrow> d_slots s' ! j = d_slots s ! j"
    "\<forall>j \<in> set idxs. sl_active (d_slots s' ! j) \<longrightarrow> in_time now (d_slots s' ! j) \<and> sl_client (d_slots s' ! j) = sl_client (d_slots s ! j)"
    "\<forall>j \<in> set idxs. sl_active (d_slots s ! j) \<and> \<not> sl_active (d_slots s' ! j) \<and> recvs j \<notin> {Some None, Some (Some [])} \<longrightarrow>
       replied (sl_client (d_slots s ! j)) s s'"
  using assms(1-3)
proof (induction idxs arbitrary: s thesis)
  case Nil
  then show ?case by simp
next
  case (Cons i idxs)
  obtain s1 where s1: "handle_slot (es i) (recvs i) i s = Some s1" "slot_moves i s s1" "grows s s1"
      "sl_active (d_slots s1 ! i) \<longrightarrow> in_time (io_now (es i)) (d_slots s1 ! i)"
      "sl_active (d_slots s ! i) \<and> \<not> sl_active (d_slots s1 ! i) \<and> recvs i \<notin> {Some None, Some (Some [])} \<longrightarrow>
         replied (sl_client (d_slots s ! i)) s s1"
    by (rule handle_slot_spec [of s i "es i" "recvs i"]) (use Cons.prems in auto)
  obtain s' where s': "slots_pass es recvs idxs s1 = Some s'" "dns_inv s'" "grows s1 s'" "d_queryCount s' = d_queryCount s1"
      "rc_results (d_rcache s') = rc_results (d_rcache s1)" "\<forall>j. j \<notin> set idxs \<longrightarrow> d_slots s' ! j = d_slots s1 ! j"
      "\<forall>j \<in> set idxs. sl_active (d_slots s' ! j) \<longrightarrow> in_time now (d_slots s' ! j) \<and> sl_client (d_slots s' ! j) = sl_client (d_slots s1 ! j)"
      "\<forall>j \<in> set idxs. sl_active (d_slots s1 ! j) \<and> \<not> sl_active (d_slots s' ! j) \<and> recvs j \<notin> {Some None, Some (Some [])} \<longrightarrow>
         replied (sl_client (d_slots s1 ! j)) s1 s'"
    by (rule Cons.IH [of s1]) (use s1(2) Cons.prems in \<open>auto simp: slot_moves_def\<close>)
  have i: "d_slots s' ! i = d_slots s1 ! i" using s'(6) Cons.prems(3) by simp
  have o: "d_slots s1 ! j = d_slots s ! j" if "j \<in> set idxs" for j
    using s1(2) that Cons.prems(3) by (auto simp: slot_moves_def)
  show ?case
  proof (rule Cons.prems(1) [of s'])
    show "\<forall>j \<in> set (i # idxs). sl_active (d_slots s' ! j) \<longrightarrow>
        in_time now (d_slots s' ! j) \<and> sl_client (d_slots s' ! j) = sl_client (d_slots s ! j)"
      using s'(7) i s1(2,4) o assms(4) by (auto simp: slot_moves_def)
    show "\<forall>j \<in> set (i # idxs). sl_active (d_slots s ! j) \<and> \<not> sl_active (d_slots s' ! j) \<and> recvs j \<notin> {Some None, Some (Some [])} \<longrightarrow>
       replied (sl_client (d_slots s ! j)) s s'"
    proof (intro ballI impI)
      fix j
      assume j: "j \<in> set (i # idxs)"
        and a: "sl_active (d_slots s ! j) \<and> \<not> sl_active (d_slots s' ! j) \<and> recvs j \<notin> {Some None, Some (Some [])}"
      show "replied (sl_client (d_slots s ! j)) s s'"
      proof (cases "j = i")
        case True
        then show ?thesis using s1(5) a i replied_earlier [OF _ s'(3)] by metis
      next
        case False
        then have m: "j \<in> set idxs" using j by simp
        then show ?thesis using s'(8) a o [OF m] replied_later [OF s1(3)] by metis
      qed
    qed
  qed (use s1 s' grows_trans in \<open>auto simp: slot_moves_def\<close>)
qed

lemma submit_results [simp]: "rc_results (submitLookup d q t rc) = rc_results rc"
  by (simp add: submitLookup_def markPending_def Let_def)

lemma handle_result_spec:
  assumes "dns_inv s" and "c_text kIpListBytes (res_ips res)"
  obtains s' where "handle_result e res s = Some s'" "slot_moves (unat (res_token res)) s s'" "grows s s'"
    "sl_active (d_slots s ! unat (res_token res)) \<and> \<not> sl_active (d_slots s' ! unat (res_token res)) \<and>
       unat (res_token res) < kMaxPendingForwards \<longrightarrow> replied (sl_client (d_slots s ! unat (res_token res))) s s'"
proof -
  let ?i = "unat (res_token res)"
  let ?pf = "d_slots s ! ?i"
  let ?ips = "split_ips (res_ips res)"
  have stay: "slot_moves ?i s s" using assms(1) by (simp add: slot_moves_def)
  consider (stale) "\<not> ?i < kMaxPendingForwards \<or> \<not> sl_active ?pf \<or> \<not> sl_waiting ?pf"
    | (miss) "?i < kMaxPendingForwards" "sl_active ?pf" "sl_waiting ?pf" "\<not> res_hit res \<or> ?ips = []"
    | (hit) "?i < kMaxPendingForwards" "sl_active ?pf" "sl_waiting ?pf" "res_hit res" "?ips \<noteq> []" by blast
  then show thesis
  proof cases
    case stale
    then have "handle_result e res s = Some s" by (auto simp: handle_result_def Let_def)
    then show thesis using that [of s] stay grows_refl by blast
  next
    case miss
    obtain s' where s': "forward_or_expire e ?i s = Some s'" "slot_moves ?i s s'" "grows s s'"
        "sl_active (d_slots s' ! ?i) \<longrightarrow> \<not> sl_waiting (d_slots s' ! ?i) \<and> sl_sent (d_slots s' ! ?i) = io_now e"
        "\<not> sl_active (d_slots s' ! ?i) \<longrightarrow> replied (sl_client ?pf) s s'"
      by (rule forward_or_expire_spec [OF assms(1) miss(1,2,3), of e])
    have "handle_result e res s = Some s'" using miss s'(1) by (auto simp: handle_result_def Let_def)
    then show thesis using that [of s'] s' by blast
  next
    case hit
    have inv: "slots_inv s" "parts_inv s" using assms(1) by (simp_all add: dns_inv_def)
    obtain c where c: "store_internal e (sl_domain ?pf) (sl_qtype ?pf) ?ips DNS_DEFAULT_TTL_SEC s = Some (s\<lparr>d_icache := c\<rparr>)" "parts_inv (s\<lparr>d_icache := c\<rparr>)"
      by (rule store_internal_total [OF inv(2)])
    have "length ?ips \<le> 128" using split_ips_count [of "res_ips res"] assms(2) by (simp add: c_text_def kIpListBytes_def)
    then have "fits_reply (sl_domain ?pf) ?ips" using slot_at [OF inv(1) hit(1)] by (simp add: fits_reply_def slot_ok_def)
    then obtain out where b: "buildAnswer (reply_buf e) (sl_qid ?pf) (sl_domain ?pf) (sl_qtype ?pf) (sl_qclass ?pf) ?ips DNS_DEFAULT_TTL_SEC
        = Some (reply_head (sl_qid ?pf) 0x80 (of_nat (length ?ips)) @ out)" by (rule buildAnswer_total)
    let ?ev = "[Reply (sl_client ?pf) (reply_head (sl_qid ?pf) 0x80 (of_nat (length ?ips)) @ out),
      LogQuery (sl_domain ?pf) (sl_qtype ?pf) (fst (sl_client ?pf)) (resolveClientMac e (fst (sl_client ?pf))) Cache Answered (hd ?ips)]"
    let ?s1 = "emit ?ev (s\<lparr>d_icache := c\<rparr>)"
    have h: "handle_result e res s = Some (freePendingSlot ?i ?s1)"
      using hit c(1) b reply_head_id(2) by (simp add: handle_result_def reply_event_def Let_def)
    have "dns_inv ?s1" using inv(1) c(2) by (simp add: dns_inv_def slots_inv_def)
    from slot_moves_free [OF this, of s ?i] have "slot_moves ?i s (freePendingSlot ?i ?s1)" using hit(1) by simp
    moreover have "replied (sl_client ?pf) s (freePendingSlot ?i ?s1)"
      unfolding replied_def by (rule exI [of _ ?ev]) auto
    ultimately show thesis using that [OF h] replied_grows by blast
  qed
qed

section \<open>A new query\<close>

text \<open>No query that is already waiting is touched.\<close>

definition same_slots :: "dns \<Rightarrow> dns \<Rightarrow> bool" where
  "same_slots s s' \<longleftrightarrow> (\<forall>j < kMaxPendingForwards. sl_active (d_slots s ! j) \<or> sl_active (d_slots s' ! j) \<longrightarrow> d_slots s' ! j = d_slots s ! j)"

definition answered_now :: "client \<Rightarrow> u16 \<Rightarrow> dns \<Rightarrow> dns \<Rightarrow> bool" where
  "answered_now from qid s s' \<longleftrightarrow> same_slots s s' \<and>
     (\<exists>bs lg. d_events s' = d_events s @ [lg, Reply from bs] \<and> rd16 bs 0 = Some qid \<and> (\<forall>c b. lg \<noteq> Reply c b))"

definition placed :: "client \<Rightarrow> query \<Rightarrow> dns \<Rightarrow> dns \<Rightarrow> bool" where
  "placed from qr s s' \<longleftrightarrow> (\<exists>i < kMaxPendingForwards. \<exists>pf. \<not> sl_active (d_slots s ! i) \<and> d_slots s' = (d_slots s)[i := pf] \<and> sl_active pf
     \<and> sl_client pf = from \<and> sl_qid pf = q_id qr \<and> sl_domain pf = q_domain qr \<and> sl_qtype pf = q_type qr)
     \<and> (\<exists>ev. d_events s' = d_events s @ ev \<and> (\<forall>c b. Reply c b \<notin> set ev))"

lemma same_slots_trans: "same_slots s s1 \<Longrightarrow> same_slots s1 s2 \<Longrightarrow> same_slots s s2"
  unfolding same_slots_def by metis

lemma send_built_spec:
  assumes "dns_inv s" and "fits_reply (q_domain qr) ips"
  obtains s' where "send_built e from qr src oc ips ttl s = Some s'" "dns_inv s'" "answered_now from (q_id qr) s s'"
proof -
  obtain out where b: "buildAnswer (reply_buf e) (q_id qr) (q_domain qr) (q_type qr) (q_cls qr) ips ttl
      = Some (reply_head (q_id qr) 0x80 (of_nat (length ips)) @ out)" by (rule buildAnswer_total [OF assms(2)])
  let ?ev = "[LogQuery (q_domain qr) (q_type qr) (fst from) (resolveClientMac e (fst from)) src oc (if ips = [] then [] else hd ips),
     Reply from (reply_head (q_id qr) 0x80 (of_nat (length ips)) @ out)]"
  show thesis
    by (rule that [of "emit ?ev s"])
      (use b assms(1) reply_head_id in \<open>auto simp: send_built_def reply_event_def dns_inv_def answered_now_def same_slots_def\<close>)
qed

lemma send_nxdomain_spec:
  assumes "dns_inv s" and "length (q_domain qr) \<le> 256"
  obtains s' where "send_nxdomain e from qr oc s = Some s'" "dns_inv s'" "answered_now from (q_id qr) s s'"
proof -
  obtain out where b: "buildNxdomain (reply_buf e) (q_id qr) (q_domain qr) (q_type qr) (q_cls qr)
      = Some (reply_head (q_id qr) 0x83 0 @ out)" by (rule buildNxdomain_total [OF assms(2)])
  let ?ev = "[LogQuery (q_domain qr) (q_type qr) (fst from) (resolveClientMac e (fst from)) Forwarded oc [],
     Reply from (reply_head (q_id qr) 0x83 0 @ out)]"
  show thesis
    by (rule that [of "emit ?ev s"])
      (use b assms(1) reply_head_id in \<open>auto simp: send_nxdomain_def reply_event_def dns_inv_def answered_now_def same_slots_def\<close>)
qed

lemma place_query_spec:
  assumes "dns_inv s" and "length (q_domain qr) \<le> 256"
  obtains s' where "place_query e from qr buf s = Some s'" "dns_inv s'"
    "placed from qr s s' \<or> answered_now from (q_id qr) s s'"
proof (cases "allocPendingSlot s")
  case None
  obtain s' where "send_nxdomain e from qr NoSlot s = Some s'" "dns_inv s'" "answered_now from (q_id qr) s s'"
    by (rule send_nxdomain_spec [OF assms])
  then show thesis using that [of s'] None by (simp add: place_query_def)
next
  case (Some i)
  have inv: "slots_inv s" "parts_inv s" using assms(1) by (simp_all add: dns_inv_def)
  have i: "i < kMaxPendingForwards" "\<not> sl_active (d_slots s ! i)"
    using first_idx_SomeD [OF Some [unfolded allocPendingSlot_def]] inv(1) by simp_all
  have fd: "sl_fd (d_slots s ! i) < 0" using slot_at [OF inv(1) i(1)] i(2) by (auto simp: slot_ok_def)
  let ?pf = "new_slot e from qr buf"
  let ?s1 = "set_slot i ?pf s"
  have pf: "slot_ok ?pf" using assms(2) by (simp add: slot_ok_def new_slot_def kQueryBytes_def)
  have "slots_inv (set_slot i ?pf (s\<lparr>d_fds := d_fds s\<rparr>))"
    using fd by (intro slots_inv_write [OF inv(1) i(1) pf]) (simp add: new_slot_def)
  then have s1: "slots_inv ?s1" "parts_inv ?s1" using inv(2) by simp_all
  have at: "d_slots ?s1 ! i = ?pf" using i(1) inv(1) by simp
  show thesis
  proof (cases "sl_query ?pf \<noteq> [] \<and> usable (d_rcache ?s1) (uint (io_later e))")
    case True
    let ?s2 = "?s1\<lparr>d_rcache := submitLookup (q_domain qr) (q_type qr) (of_nat i) (d_rcache ?s1)\<rparr>"
    have "dns_inv ?s2" using s1 submit_inv [of "d_rcache s"] by (simp add: dns_inv_def slots_inv_def parts_inv_def)
    moreover have "placed from qr s ?s2" using i by (auto simp: placed_def new_slot_def intro!: exI [of _ i])
    ultimately show thesis using that [of ?s2] True Some by (simp add: place_query_def)
  next
    case False
    obtain ok s2 where st: "startForward e i (io_now e) ?s1 = (ok, s2)" by fastforce
    have s2: "slots_inv s2" "parts_inv s2"
      using start_inv [OF s1(1) i(1), of e "io_now e"] start_frame [of e i "io_now e" ?s1] s1(2) at unfolding st
      by (simp_all add: new_slot_def)
    show thesis
    proof (cases ok)
      case True
      have go: "startForward e i (io_now e) ?s1 = (True, s2)" using st True by simp
      note sl = start_slots [OF go]
      have "placed from qr s s2"
        using i sl(4,5) s1(1) at inv(1) by (auto simp: placed_def new_slot_def intro!: exI [of _ i])
      then show thesis using that [of s2] s2 go False Some by (auto simp: place_query_def dns_inv_def Let_def)
    next
      case no: False
      obtain f where f: "d_events s2 = d_events ?s1" "d_slots s2 = (d_slots ?s1)[i := (d_slots ?s1 ! i)\<lparr>sl_fd := f\<rparr>]"
        using start_fails [of e i "io_now e" ?s1 s2] st no by auto
      let ?s3 = "freePendingSlot i s2"
      have s3: "dns_inv ?s3" using s2 by (simp add: dns_inv_def free_inv)
      obtain s' where s': "send_nxdomain e from qr NoSocket ?s3 = Some s'" "dns_inv s'" "answered_now from (q_id qr) ?s3 s'"
        by (rule send_nxdomain_spec [OF s3 assms(2)])
      have "d_slots ?s3 ! j = d_slots s ! j" if "j \<noteq> i" for j
        using free_updates(2) [OF i(1) slots_length [OF s2(1)] that] f(2) that by simp
      then have "same_slots s ?s3"
        using free_updates(1) [OF i(1) slots_length [OF s2(1)]] i(2) unfolding same_slots_def by (intro allI impI) (case_tac "j = i", simp_all)
      then have "answered_now from (q_id qr) s s'"
        using s'(3) f(1) same_slots_trans by (auto simp: answered_now_def)
      then show thesis using that [of s'] s' st no False Some by (auto simp: place_query_def Let_def)
    qed
  qed
qed


lemma of_type_count: "length (of_type q ips) \<le> length ips"
  by (simp add: of_type_def)

lemma local_answer_count: "parts_inv s \<Longrightarrow> length (snd (local_answer s d q)) \<le> 129"
proof -
  assume "parts_inv s"
  then have "length (host_ips (d_hosts s) d) \<le> 128" by (simp add: parts_inv_def)
  then have "length (snd (hosts_answer s d q)) \<le> 128"
    using of_type_count [of q "host_ips (d_hosts s) d"] by (auto simp: hosts_answer_def host_ips_def split: option.splits)
  moreover have "length (snd (own_answer s d q)) \<le> 1" by (simp add: own_answer_def)
  ultimately show ?thesis by (simp add: local_answer_def)
qed

lemma internal_answer_spec:
  assumes "dns_inv s"
  obtains res s1 where "internal_answer e d q s = Some (res, s1)" "dns_inv s1" "d_slots s1 = d_slots s" "d_events s1 = d_events s"
    "\<forall>ips ttl. res = Some (ips, ttl) \<longrightarrow> length ips \<le> 16" "d_blockNonAA s1 = d_blockNonAA s"
proof (cases "arena (d_icache s) \<and> (q = kTypeA \<or> q = kTypeAaaa)")
  case True
  have run: "cache_run (d_icache s)" using assms by (simp add: dns_inv_def parts_inv_def)
  obtain res c where l: "InternalCache.lookup (io_text e) (io_clock e) d q (d_icache s) = Some (res, c)"
    using lookup_total [OF cache_run_inv [OF run]] by (metis not_None_eq surj_pair)
  have "cache_run c" using rtranclp.rtrancl_into_rtrancl [OF run cache_step.looked_up [OF l]] .
  moreover have "\<forall>ips ttl. res = Some (ips, ttl) \<longrightarrow> length ips \<le> 16" using lookup_count [OF run] l by blast
  ultimately show thesis
    using that [of res "case res of None \<Rightarrow> s\<lparr>d_icache := c\<rparr>
      | Some _ \<Rightarrow> s\<lparr>d_icache := c, d_cacheHits := d_cacheHits s + 1, d_cacheHitUs := d_cacheHitUs s + ucast (io_hitUs e)\<rparr>"] l True assms
    by (auto simp: internal_answer_def dns_inv_def slots_inv_def parts_inv_def split: option.splits)
next
  case False
  then have "internal_answer e d q s = Some (None, s)" by (auto simp: internal_answer_def)
  then show thesis using that [of None s] assms by simp
qed

lemma outcome_frame:
  assumes "d_slots s1 = d_slots s" and "d_events s1 = d_events s"
  shows "placed from qr s1 s' = placed from qr s s'" "answered_now from qid s1 s' = answered_now from qid s s'"
  using assms by (simp_all add: placed_def answered_now_def same_slots_def)

lemma answer_query_spec:
  assumes "dns_inv s" and "length (q_domain qr) \<le> 256"
  obtains s' where "answer_query e from qr buf s = Some s'" "dns_inv s'"
    "placed from qr s s' \<or> answered_now from (q_id qr) s s'"
proof -
  let ?d = "lookup_domain (q_domain qr)"
  have fits: "fits_reply (q_domain qr) ips" if "length ips \<le> 136" for ips using assms(2) that by (simp add: fits_reply_def)
  obtain known ips where k: "local_answer s ?d (q_type qr) = (known, ips)" by fastforce
  have n: "length ips \<le> 129" using local_answer_count [of s ?d "q_type qr"] k assms(1) by (simp add: dns_inv_def)
  have f1: "fits_reply (q_domain qr) ips" using n by (intro fits) simp
  have f0: "fits_reply (q_domain qr) []" by (intro fits) simp
  show thesis
  proof (cases known)
    case True
    obtain s1 where s1: "send_built e from qr Local Answered ips DNS_DEFAULT_TTL_SEC s = Some s1" "dns_inv s1" "answered_now from (q_id qr) s s1"
      by (rule send_built_spec [OF assms(1) f1])
    obtain s2 where s2: "send_built e from qr Local NoData [] DNS_DEFAULT_TTL_SEC s = Some s2" "dns_inv s2" "answered_now from (q_id qr) s s2"
      by (rule send_built_spec [OF assms(1) f0])
    show thesis
      by (cases "ips = []") (use that [of s1] that [of s2] s1 s2 k True in \<open>simp_all add: answer_query_def Let_def\<close>)
  next
    case False
    obtain res s1 where i: "internal_answer e ?d (q_type qr) s = Some (res, s1)" "dns_inv s1" "d_slots s1 = d_slots s" "d_events s1 = d_events s"
        "\<forall>ips ttl. res = Some (ips, ttl) \<longrightarrow> length ips \<le> 16" "d_blockNonAA s1 = d_blockNonAA s"
      by (rule internal_answer_spec [OF assms(1)])
    note fr = outcome_frame [OF i(3,4)]
    show thesis
    proof (cases res)
      case None
      obtain s2 where s2: "place_query e from qr buf s1 = Some s2" "dns_inv s2" "placed from qr s1 s2 \<or> answered_now from (q_id qr) s1 s2"
        by (rule place_query_spec [OF i(2) assms(2)])
      obtain s3 where s3: "send_built e from qr Forwarded Blocked [] DNS_DEFAULT_TTL_SEC s1 = Some s3" "dns_inv s3" "answered_now from (q_id qr) s1 s3"
        by (rule send_built_spec [OF i(2) f0])
      show thesis
        by (cases "d_blockNonAA s1 \<and> q_type qr \<noteq> kTypeA \<and> q_type qr \<noteq> kTypeAaaa")
          (use that [of s2] that [of s3] s2 s3 k False i(1) None fr in \<open>auto simp: answer_query_def Let_def\<close>)
    next
      case (Some p)
      then obtain ips' ttl where p: "res = Some (ips', ttl)" by (cases p) auto
      then have n': "length ips' \<le> 136" using i(5) by fastforce
      obtain s2 where s2: "send_built e from qr Cache Answered ips' ttl s1 = Some s2" "dns_inv s2" "answered_now from (q_id qr) s1 s2"
        by (rule send_built_spec [OF i(2) fits [OF n']])
      obtain s3 where s3: "send_built e from qr Cache NoData [] DNS_DEFAULT_TTL_SEC s1 = Some s3" "dns_inv s3" "answered_now from (q_id qr) s1 s3"
        by (rule send_built_spec [OF i(2) f0])
      show thesis
        by (cases "ips' = []") (use that [of s2] that [of s3] s2 s3 k False i(1) p fr in \<open>simp_all add: answer_query_def Let_def\<close>)
    qed
  qed
qed

definition foreign :: "dns \<Rightarrow> client \<Rightarrow> bool" where
  "foreign s from \<longleftrightarrow> filter_active (d_filter s) \<and> \<not> filter_contains (d_filter s) (ntohl (fst from))"

lemma dns_inv_counters:
  "dns_inv (s\<lparr>d_queryCount := n\<rparr>) = dns_inv s" "dns_inv (drop_foreign e s) = dns_inv s"
  by (simp_all add: dns_inv_def slots_inv_def parts_inv_def drop_foreign_def)

lemma handle_query_spec:
  assumes "dns_inv s"
  obtains s' where "handle_query e from buf s = Some s'" "dns_inv s'"
    "case parseQuery buf of
       Some (Some qr) \<Rightarrow> if foreign s from then d_slots s' = d_slots s \<and> d_events s' = d_events s
         else placed from qr s s' \<or> answered_now from (q_id qr) s s'
     | _ \<Rightarrow> d_slots s' = d_slots s \<and> d_events s' = d_events s"
proof -
  obtain parsed where p: "parseQuery buf = Some parsed" using parseQuery_safe by blast
  let ?s = "s\<lparr>d_queryCount := d_queryCount s + 1\<rparr>"
  show thesis
  proof (cases parsed)
    case None
    then have "handle_query e from buf s = Some ?s" using p by (simp add: handle_query_def)
    then show thesis using that [of ?s] assms p None by (simp add: dns_inv_counters)
  next
    case (Some qr)
    have d: "length (q_domain qr) \<le> 256" using parseQuery_domain p Some by blast
    have s: "dns_inv ?s" using assms by (simp add: dns_inv_counters)
    obtain s' where s': "answer_query e from qr buf ?s = Some s'" "dns_inv s'" "placed from qr ?s s' \<or> answered_now from (q_id qr) ?s s'"
      by (rule answer_query_spec [OF s d])
    have fr: "placed from qr ?s s' = placed from qr s s'" "answered_now from (q_id qr) ?s s' = answered_now from (q_id qr) s s'"
      by (rule outcome_frame; simp)+
    show thesis
    proof (cases "foreign s from")
      case True
      then have "handle_query e from buf s = Some (drop_foreign e ?s)" using p Some by (simp add: handle_query_def foreign_def)
      then show thesis
        using that [of "drop_foreign e ?s"] s p Some True by (simp add: dns_inv_counters) (simp add: drop_foreign_def)
    next
      case False
      then have "handle_query e from buf s = Some s'" using p Some s'(1) by (auto simp: handle_query_def foreign_def Let_def)
      then show thesis using that [of s'] s' fr p Some False by simp
    qed
  qed
qed

section \<open>Runs\<close>

lemma pass_slots_spec:
  assumes "dns_inv s"
  obtains s' where "pass_slots p s = Some s'" "dns_inv s'" "grows s s'" "d_queryCount s' = d_queryCount s"
    "rc_results (d_rcache s') = rc_results (d_rcache s)"
    "\<forall>j < kMaxPendingForwards. sl_active (d_slots s' ! j) \<longrightarrow> in_time (po_now p) (d_slots s' ! j) \<and> sl_client (d_slots s' ! j) = sl_client (d_slots s ! j)"
    "\<forall>j < kMaxPendingForwards. sl_active (d_slots s ! j) \<and> \<not> sl_active (d_slots s' ! j) \<and> po_recv p j \<notin> {Some None, Some (Some [])} \<longrightarrow>
       replied (sl_client (d_slots s ! j)) s s'"
proof -
  let ?es = "\<lambda>i. at_time (po_now p) (po_io p i)"
  have now: "\<forall>i. io_now (?es i) = po_now p" by (simp add: at_time_def)
  show thesis
    by (rule slots_pass_spec [OF assms _ _ now, of "[0..<kMaxPendingForwards]" "po_recv p"]) (use that in \<open>auto simp: pass_slots_def\<close>)
qed

definition dns_init :: "dns \<Rightarrow> bool" where
  "dns_init s \<longleftrightarrow> length (d_slots s) = kMaxPendingForwards \<and> (\<forall>pf \<in> set (d_slots s). \<not> sl_active pf \<and> sl_fd pf = - 1 \<and> sl_domain pf = [] \<and> sl_query pf = [])
     \<and> d_fds s = [] \<and> d_events s = [] \<and> cache_run (d_icache s) \<and> (\<exists>url. d_rcache s = rest_init url)
     \<and> (\<exists>hs blob. setLocalHosts hs = Inr blob \<and> d_hosts s = load_hosts (getLocalHosts blob))"

abbreviation dns_run :: "task \<times> dns \<Rightarrow> task \<times> dns \<Rightarrow> bool" where
  "dns_run \<equiv> dns_step\<^sup>*\<^sup>*"

lemma dns_init_inv: "dns_init s \<Longrightarrow> dns_inv s"
proof -
  assume i: "dns_init s"
  have "fds_of (d_slots s) = []" using i by (auto simp: fds_of_def dns_init_def filter_empty_conv)
  moreover have "rest_inv (d_rcache s)" using i rest.inv_init by (auto simp: dns_init_def)
  moreover have "\<forall>n. length (host_ips (d_hosts s) n) \<le> 128" using i stored_hosts_bound by (auto simp: dns_init_def)
  ultimately show ?thesis using i by (auto simp: dns_inv_def slots_inv_def parts_inv_def dns_init_def slot_ok_def)
qed

lemma dns_inv_rest: "dns_inv s \<Longrightarrow> rest_inv rc \<Longrightarrow> dns_inv (s\<lparr>d_rcache := rc\<rparr>)"
  by (simp add: dns_inv_def slots_inv_def parts_inv_def)

lemma rest_inv_of: "dns_inv s \<Longrightarrow> rest_inv (d_rcache s)"
  by (simp add: dns_inv_def parts_inv_def)

lemma take_query_inv:
  assumes "dns_inv s" and "take_query now qo s = Some s'"
  shows "dns_inv s'"
proof (cases qo)
  case (Some x)
  then obtain e c b where "handle_query (at_time now e) c b s = Some s'" using assms(2) by (cases x) (auto simp: take_query_def)
  then show ?thesis using handle_query_spec [OF assms(1), of "at_time now e" c b] by (metis option.inject)
qed (use assms in \<open>simp add: take_query_def\<close>)

lemma dns_step_inv: "dns_step ts ts' \<Longrightarrow> dns_inv (snd ts) \<Longrightarrow> dns_inv (snd ts')"
proof (induction rule: dns_step.induct)
  case (pass s p s1 s2)
  have "dns_inv s1" using pass_slots_spec [of s p] pass.prems pass.hyps(2) by (metis option.inject snd_conv)
  then show ?case using take_query_inv [OF _ pass.hyps(3)] by simp
next
  case (drained now qo s s1)
  then show ?case using take_query_inv by simp
next
  case (pass_results s p s1)
  then show ?case using pass_slots_spec [of s p] by (metis option.inject snd_conv)
next
  case (drain s res rs now e s1 qo)
  let ?s = "s\<lparr>d_rcache := (d_rcache s)\<lparr>rc_results := rs\<rparr>\<rparr>"
  have r: "rest_inv (d_rcache s)" using drain.prems rest_inv_of by simp
  have "rest_inv ((d_rcache s)\<lparr>rc_results := rs\<rparr>)"
    using rest.inv_step [OF r rest_step.read_result [OF drain.hyps(1)]] .
  then have "dns_inv ?s" using dns_inv_rest drain.prems by simp
  moreover have "c_text kIpListBytes (res_ips res)" using r drain.hyps(1) by (simp add: rest_inv_def)
  ultimately show ?case using handle_result_spec [of ?s res "at_time now e"] drain.hyps(2) by (metis option.inject slot_moves_def snd_conv)
next
  case (worker_takes t s)
  then show ?case using dns_inv_rest take_inv rest_inv_of by simp
next
  case (worker_finishes t s http elapsed now)
  then show ?case using dns_inv_rest finish_inv rest_inv_of by simp
next
  case (sender_sends s r rs t)
  then show ?case using dns_inv_rest rest.inv_step [OF rest_inv_of rest_step.sent] by simp
next
  case (cache_operated s c t)
  then show ?case by (auto simp: dns_inv_def slots_inv_def parts_inv_def)
qed

interpretation dns_machine: safe_machine "\<lambda>ts. dns_init (snd ts)" dns_step "\<lambda>ts. dns_inv (snd ts)"
  by unfold_locales (auto intro: dns_init_inv dns_step_inv)

end
