(* ===== verification/DnsProps.thy ===== *)
theory DnsProps
  imports DnsTask
begin

text \<open>
  What clients of the DNS server get: memory safety and deadlines of the task, one outcome for every
  query, the precedence of local names, the use of the internal cache; and how the hand-over of results
  from the external cache goes wrong.
\<close>


section \<open>Properties of the server task\<close>

lemma stop_closes:
  assumes "slots_inv s"
  shows "d_fds (stop_slots s) = []"
proof -
  let ?f = "\<lambda>s i. if sl_active (d_slots s ! i) then freePendingSlot i s else s"
  have "slots_inv (foldl ?f s idxs) \<and> (\<forall>j. j \<in> set idxs \<or> \<not> sl_active (d_slots s ! j) \<longrightarrow> j < kMaxPendingForwards \<longrightarrow>
      \<not> sl_active (d_slots (foldl ?f s idxs) ! j))" if "set idxs \<subseteq> {..<kMaxPendingForwards}" "slots_inv s" for idxs s
    using that
  proof (induction idxs arbitrary: s)
    case (Cons i idxs)
    let ?s = "?f s i"
    have i: "i < kMaxPendingForwards" using Cons.prems(1) by simp
    have inv: "slots_inv ?s" using Cons.prems(2) by (simp add: free_inv)
    have off: "\<not> sl_active (d_slots ?s ! j)" if "j = i \<or> \<not> sl_active (d_slots s ! j)" for j
      using that free_updates [OF i slots_length [OF Cons.prems(2)]] by (cases "j = i") auto
    from Cons.IH [of ?s] Cons.prems(1) inv off show ?case by auto
  qed simp
  note all = this [of "[0..<kMaxPendingForwards]" s]
  have i: "slots_inv (stop_slots s)" "\<forall>j < kMaxPendingForwards. \<not> sl_active (d_slots (stop_slots s) ! j)"
    unfolding stop_slots_def using all assms by (simp_all add: atLeast0LessThan)
  then have "\<forall>pf \<in> set (d_slots (stop_slots s)). sl_fd pf < 0"
    by (metis in_set_conv_nth not_less slot_ok_def slots_inv_def)
  then have "fds_of (d_slots (stop_slots s)) = []" by (auto simp: fds_of_def filter_empty_conv)
  then show ?thesis using i(1) by (simp add: slots_inv_def)
qed

text \<open>
  C8. After any run of the DNS task, the cache worker and the other users of the cache, whatever
  datagrams arrive, no handler writes outside its reply buffer or fails to end: a pass over the slots, a
  result of the external cache and a new query each come back with a state. A slot owns a socket exactly
  while it forwards and no other socket is open, so stopping closes them all.
\<close>

theorem dns_task_safe:
  assumes "dns_init s0" and "dns_run (AtSelect, s0) (t, s)"
  shows "pass_slots p s \<noteq> None \<and> handle_query e from buf s \<noteq> None
    \<and> (\<forall>res \<in> set (rc_results (d_rcache s)). handle_result e res s \<noteq> None)
    \<and> (\<forall>pf \<in> set (d_slots s). 0 \<le> sl_fd pf \<longleftrightarrow> sl_active pf \<and> \<not> sl_waiting pf)
    \<and> mset (d_fds s) = mset (filter (\<lambda>f. 0 \<le> f) (map sl_fd (d_slots s))) \<and> d_fds (stop_slots s) = []"
proof -
  have inv: "dns_inv s" using dns_machine.inv_reachable [of "(AtSelect, s0)" "(t, s)"] assms by simp
  have "pass_slots p s \<noteq> None" using pass_slots_spec [OF inv, of p] by blast
  moreover have "handle_query e from buf s \<noteq> None" using handle_query_spec [OF inv, of e "from" buf] by blast
  moreover have "handle_result e res s \<noteq> None" if "res \<in> set (rc_results (d_rcache s))" for res
  proof -
    have "c_text kIpListBytes (res_ips res)" using rest_inv_of [OF inv] that by (simp add: rest_inv_def)
    then show ?thesis using handle_result_spec [OF inv, of res e] by (metis option.distinct(1))
  qed
  moreover have "slots_inv s" using inv by (simp add: dns_inv_def)
  ultimately show ?thesis using stop_closes by (auto simp: slots_inv_def slot_ok_def fds_of_def)
qed

lemma run_inv: "dns_init s0 \<Longrightarrow> dns_run (AtSelect, s0) (t, s) \<Longrightarrow> dns_inv s"
  using dns_machine.inv_reachable [of "(AtSelect, s0)" "(t, s)"] by simp

text \<open>
  C9. No client is forgotten: after a pass of the loop no slot is past its deadline (two seconds for
  the external cache, one second for the upstream server), and every client whose slot was given up in
  the pass was sent a reply in it, except when reading its upstream socket failed.
\<close>

theorem no_slot_overdue:
  assumes "dns_init s0" and "dns_run (AtSelect, s0) (t, s)"
  shows "\<exists>s'. pass_slots p s = Some s'
    \<and> (\<forall>i < kMaxPendingForwards. sl_active (d_slots s' ! i) \<longrightarrow> in_time (po_now p) (d_slots s' ! i))
    \<and> (\<forall>i < kMaxPendingForwards. sl_active (d_slots s ! i) \<and> \<not> sl_active (d_slots s' ! i)
         \<and> po_recv p i \<notin> {Some None, Some (Some [])} \<longrightarrow> replied (sl_client (d_slots s ! i)) s s')"
  by (rule pass_slots_spec [OF run_inv [OF assms], of p]) blast

text \<open>
  C10. Every query that parses and is not from a foreign network gets exactly one thing at once: a reply
  with its own id to its own address, leaving all waiting queries alone, or a free slot that remembers
  its sender, id, name and type, and then no reply yet. Anything else is dropped without a trace.
\<close>

theorem query_answered_or_placed:
  assumes "dns_init s0" and "dns_run (AtSelect, s0) (t, s)"
  shows "\<exists>s'. handle_query e from buf s = Some s' \<and>
    (case parseQuery buf of
       Some (Some qr) \<Rightarrow> if foreign s from then d_slots s' = d_slots s \<and> d_events s' = d_events s
         else placed from qr s s' \<or> answered_now from (q_id qr) s s'
     | _ \<Rightarrow> d_slots s' = d_slots s \<and> d_events s' = d_events s)"
  by (rule handle_query_spec [OF run_inv [OF assms], of e "from" buf]) blast

text \<open>
  C13. A client outside the device's subnet gets nothing: with the filter on, its query changes two
  counters and the time of the last log line, sends nothing and reaches neither cache nor upstream.
\<close>

theorem foreign_query_silent:
  assumes "f = filter_apply \<lparr>fs_enabled = True, fs_deviceIp = ip_text, fs_netmask = mask_text\<rparr>"
    and "parseIp4 ip_text = Some ip" and "parseIp4 mask_text = Some m" and "ip \<noteq> 0" and "m \<noteq> 0" and "isValidMask m"
    and "d_filter s = f" and "ntohl (fst from) AND m \<noteq> ip AND m" and "parseQuery buf = Some (Some qr)"
  shows "handle_query e from buf s = Some (drop_foreign e (s\<lparr>d_queryCount := d_queryCount s + 1\<rparr>))"
proof -
  have "filter_active f" using assms(1-6) by (simp add: filter_apply_def filter_active_def)
  moreover have "\<not> filter_contains f (ntohl (fst from))"
    unfolding assms(1) filter_decision using assms(2-6,8) by auto
  ultimately show ?thesis using assms(7,9) by (simp add: handle_query_def)
qed

section \<open>Names the device owns\<close>

text \<open>
  The addresses the operator gave a name: those of the enabled, usable entries of the saved list, in
  order, as the storage keeps their fields.
\<close>

definition operator_ips :: "host_entry list \<Rightarrow> string \<Rightarrow> string list" where
  "operator_ips hs d = concat (map (\<lambda>h. filter (\<lambda>ip. ip \<noteq> []) [h_ip4 h, h_ip6 h])
     (filter (\<lambda>h. h_enabled h \<and> h_name h = d) (filter usable_host (map kept hs))))"

lemma load_hosts_operator:
  assumes "setLocalHosts hs = Inr blob"
  shows "host_ips (load_hosts (getLocalHosts blob)) d = operator_ips hs d"
    and "load_hosts (getLocalHosts blob) d \<noteq> Some []"
proof -
  have fold: "host_ips (foldl add_entry m es) d = host_ips m d @ concat (map (\<lambda>h. filter (\<lambda>ip. ip \<noteq> []) [h_ip4 h, h_ip6 h])
      (filter (\<lambda>h. h_enabled h \<and> h_name h = d) es))" for m es
    by (induction es arbitrary: m) (auto simp: add_entry_def addLocalHost_def host_ips_def Let_def split: option.splits)
  show "host_ips (load_hosts (getLocalHosts blob)) d = operator_ips hs d"
    using fold [of Map.empty] by (simp add: local_hosts_read [OF assms] operator_ips_def load_hosts_def host_ips_def)
  have "foldl add_entry m es d \<noteq> Some []" if "m d \<noteq> Some []" for m es
    using that
  proof (induction es arbitrary: m)
    case (Cons h es)
    have "add_entry m h d \<noteq> Some []" using Cons.prems by (auto simp: add_entry_def addLocalHost_def Let_def)
    then show ?case using Cons.IH by simp
  qed simp
  then show "load_hosts (getLocalHosts blob) d \<noteq> Some []" by (simp add: load_hosts_def)
qed

text \<open>The device's own address of a family.\<close>

definition own_ips :: "dns \<Rightarrow> string \<Rightarrow> u16 \<Rightarrow> string list" where
  "own_ips s d q =
     (if d_nameOn s \<and> localNameMatches d (d_hostName s)
      then filter (\<lambda>ip. ip \<noteq> []) (if q = kTypeA then [d_ownIp4 s] else if q = kTypeAaaa then [d_ownIp6 s] else [])
      else [])"

lemma local_answer_operator:
  assumes "setLocalHosts hs = Inr blob" and "d_hosts s = load_hosts (getLocalHosts blob)"
  shows "local_answer s d q = (d_nameOn s \<and> localNameMatches d (d_hostName s) \<or> operator_ips hs d \<noteq> [],
    own_ips s d q @ (if q \<in> {kTypeA, kTypeAaaa} then of_type q (operator_ips hs d) else []))"
  using load_hosts_operator [OF assms(1), of d]
  by (auto simp: local_answer_def own_answer_def hosts_answer_def own_ips_def host_ips_def assms(2) of_type_def
      kTypeA_def kTypeAaaa_def split: option.splits)

text \<open>
  C12. A name the device or the operator owns is answered from there only: when the query is for the
  device's own name, or for a name under which the saved list has an enabled entry with an address, the
  reply carries the device's own address and the entry's addresses of the asked family, or none, and the
  server does nothing but log it and send it: no cache is read or written, no slot is taken and nothing
  goes upstream. The query is lower-cased first, so an entry typed with a capital letter does not count.
\<close>

theorem local_name_authoritative:
  assumes "dns_init s0" and "dns_run (AtSelect, s0) (t, s)" and "parseQuery buf = Some (Some qr)" and "\<not> foreign s from"
    and "setLocalHosts hs = Inr blob" and "d_hosts s = load_hosts (getLocalHosts blob)"
    and "d = lookup_domain (q_domain qr)"
    and "d_nameOn s \<and> localNameMatches d (d_hostName s) \<or> operator_ips hs d \<noteq> []"
    and "ips = own_ips s d (q_type qr)
           @ (if q_type qr \<in> {kTypeA, kTypeAaaa} then of_type (q_type qr) (operator_ips hs d) else [])"
  shows "\<exists>s' bs. handle_query e from buf s = Some s'
    \<and> d_events s' = d_events s @ [LogQuery (q_domain qr) (q_type qr) (fst from) (resolveClientMac e (fst from)) Local
         (if ips = [] then NoData else Answered) (if ips = [] then [] else hd ips), Reply from bs]
    \<and> buildAnswer (reply_buf e) (q_id qr) (q_domain qr) (q_type qr) (q_cls qr) ips DNS_DEFAULT_TTL_SEC = Some bs
    \<and> d_slots s' = d_slots s \<and> d_icache s' = d_icache s \<and> d_rcache s' = d_rcache s"
proof -
  have inv: "dns_inv s" by (rule run_inv [OF assms(1,2)])
  have la: "local_answer s (lookup_domain (q_domain qr)) (q_type qr) = (True, ips)"
    using local_answer_operator [OF assms(5,6)] assms(7-9) by simp
  have d: "length (q_domain qr) \<le> 256" using parseQuery_domain assms(3) by blast
  have "length ips \<le> 129"
    using local_answer_count [of s "lookup_domain (q_domain qr)" "q_type qr"] la inv by (simp add: dns_inv_def)
  then have "fits_reply (q_domain qr) ips" using d by (simp add: fits_reply_def)
  then obtain out where b: "buildAnswer (reply_buf e) (q_id qr) (q_domain qr) (q_type qr) (q_cls qr) ips DNS_DEFAULT_TTL_SEC
      = Some (reply_head (q_id qr) 0x80 (of_nat (length ips)) @ out)" by (rule buildAnswer_total)
  let ?s = "s\<lparr>d_queryCount := d_queryCount s + 1\<rparr>"
  have l: "local_answer ?s d q = local_answer s d q" for d q
    by (simp add: local_answer_def own_answer_def hosts_answer_def)
  have "handle_query e from buf s = answer_query e from qr buf ?s"
    using assms(3,4) by (auto simp: handle_query_def foreign_def Let_def)
  also have "\<dots> = send_built e from qr Local (if ips = [] then NoData else Answered) ips DNS_DEFAULT_TTL_SEC ?s"
    using la l by (simp add: answer_query_def Let_def)
  finally show ?thesis
    using b reply_head_id(2) [of "q_id qr" "0x80" "of_nat (length ips)" out]
    by (simp add: send_built_def reply_event_def)
qed

text \<open>A host entered with a capital letter is never found: queries are lower-cased, the map is not.\<close>

lemma upper_host_unreachable: "lower name \<noteq> name \<Longrightarrow> lookup_domain d \<noteq> name"
proof -
  have "tolower_c (tolower_c c) = tolower_c c" for c by (simp add: tolower_c_def Let_def)
  then have "lower (butlast (lower d)) = butlast (lower d)" by (simp add: lower_def map_butlast [symmetric])
  then show "lower name \<noteq> name \<Longrightarrow> ?thesis" by (auto simp: lookup_domain_def Let_def)
qed

section \<open>A small server\<close>

definition idle_slot :: forward_slot where
  "idle_slot = \<lparr>sl_active = False, sl_waiting = True, sl_fd = - 1, sl_client = (0, 0), sl_qid = 0, sl_qtype = 0,
     sl_qclass = 0, sl_domain = [], sl_query = [], sl_created = 0, sl_sent = 0\<rparr>"

definition small_dns :: "cache \<Rightarrow> dns" where
  "small_dns c = \<lparr>d_slots = replicate 32 idle_slot, d_fds = [], d_icache = c, d_rcache = rest_init ''http://c'',
     d_filter = filter_apply \<lparr>fs_enabled = False, fs_deviceIp = [], fs_netmask = []\<rparr>, d_nameOn = False, d_hostName = [],
     d_ownIp4 = [], d_ownIp6 = [], d_hosts = load_hosts (getLocalHosts None), d_blockNonAA = False, d_queryCount = 0,
     d_cacheHits = 0, d_cacheHitUs = 0, d_forwarded = 0, d_foreign = 0, d_lastForeignMs = 0, d_events = []\<rparr>"

definition small_io :: io where
  "small_io = \<lparr>io_now = 0, io_later = 0, io_clock = \<lparr>k_nowMs = 0, k_waitUs = 0, k_scanUs = 0\<rparr>, io_hitUs = 0, io_sock = 5,
     io_sent = True, io_text = demo_text, io_old = (\<lambda>_. 0), io_junk = 0, io_arp = (\<lambda>_. None), io_lease = (\<lambda>_. None)\<rparr>"

definition quiet :: "u64 \<Rightarrow> poll" where
  "quiet now = \<lparr>po_now = now, po_io = (\<lambda>_. small_io), po_recv = (\<lambda>_. None), po_query = None\<rparr>"

text \<open>The query for the address of a one-letter name.\<close>

definition ask :: "byte \<Rightarrow> byte \<Rightarrow> byte list" where
  "ask idn letter = [0, idn, 1, 0, 0, 1, 0, 0, 0, 0, 0, 0, 1, letter, 0, 0, 1, 0, 1]"

lemma small_init: "cache_run c \<Longrightarrow> dns_init (small_dns c)"
proof -
  assume "cache_run c"
  moreover have "setLocalHosts [] = Inr None" by (simp add: setLocalHosts_def)
  ultimately show ?thesis
    unfolding dns_init_def small_dns_def idle_slot_def kMaxPendingForwards_def by (simp add: set_replicate_conv_if) blast
qed

theorem dns_task_safe_witness:
  "handle_query small_io (2, 1000) (ask 7 97) (small_dns one_mb) \<noteq> None \<and> d_fds (stop_slots (small_dns one_mb)) = []"
  using dns_task_safe [OF small_init [OF one_mb_run] rtranclp.rtrancl_refl] by blast

theorem no_slot_overdue_witness: "\<exists>s'. pass_slots (quiet 2000) (small_dns one_mb) = Some s'"
  using no_slot_overdue [OF small_init [OF one_mb_run] rtranclp.rtrancl_refl] by blast

lemma ask_parsed: "parseQuery (ask 7 97) = Some (Some \<lparr>q_domain = ''a'', q_type = 1, q_cls = 1, q_id = 7\<rparr>)"
  by code_simp

theorem query_answered_or_placed_witness:
  "\<exists>s'. handle_query small_io (2, 1000) (ask 7 97) (small_dns cache_new) = Some s'
    \<and> (placed (2, 1000) \<lparr>q_domain = ''a'', q_type = 1, q_cls = 1, q_id = 7\<rparr> (small_dns cache_new) s'
       \<or> answered_now (2, 1000) 7 (small_dns cache_new) s')"
proof -
  have "\<not> foreign (small_dns cache_new) (2, 1000)" by (simp add: foreign_def small_dns_def filter_apply_def filter_active_def Let_def)
  then show ?thesis
    using query_answered_or_placed [OF small_init [OF rtranclp.rtrancl_refl] rtranclp.rtrancl_refl, of small_io "(2, 1000)" "ask 7 97"]
    unfolding ask_parsed by simp
qed

theorem foreign_query_silent_witness:
  "handle_query small_io (0x0100000A, 1000) (ask 7 97)
     ((small_dns cache_new)\<lparr>d_filter := filter_apply \<lparr>fs_enabled = True, fs_deviceIp = ''192.168.1.1'', fs_netmask = ''255.255.255.0''\<rparr>\<rparr>)
   = Some (drop_foreign small_io ((small_dns cache_new)\<lparr>d_filter := filter_apply \<lparr>fs_enabled = True, fs_deviceIp = ''192.168.1.1'',
       fs_netmask = ''255.255.255.0''\<rparr>, d_queryCount := 1\<rparr>))"
proof -
  have ip: "parseIp4 ''192.168.1.1'' = Some 0xC0A80101" and m: "parseIp4 ''255.255.255.0'' = Some 0xFFFFFF00" by code_simp+
  have v: "isValidMask 0xFFFFFF00" and out: "ntohl (fst (0x0100000A, 1000 :: u16)) AND 0xFFFFFF00 \<noteq> 0xC0A80101 AND (0xFFFFFF00 :: u32)" by code_simp+
  let ?s = "(small_dns cache_new)\<lparr>d_filter := filter_apply \<lparr>fs_enabled = True, fs_deviceIp = ''192.168.1.1'', fs_netmask = ''255.255.255.0''\<rparr>\<rparr>"
  have "d_queryCount ?s + 1 = 1" by (simp add: small_dns_def)
  with foreign_query_silent [OF refl ip m _ _ v _ out ask_parsed, of ?s small_io] show ?thesis by (simp add: small_dns_def)
qed

theorem local_name_authoritative_witness:
  "\<exists>s' bs. handle_query small_io (2, 1000) (ask 7 97)
      ((small_dns cache_new)\<lparr>d_hosts := load_hosts (getLocalHosts (Some ''a|1.2.3.4||1''))\<rparr>) = Some s'
    \<and> buildAnswer (reply_buf small_io) 7 ''a'' 1 1 [''1.2.3.4''] DNS_DEFAULT_TTL_SEC = Some bs
    \<and> d_events s' = [LogQuery ''a'' 1 2 [] Local Answered ''1.2.3.4'', Reply (2, 1000) bs]"
proof -
  let ?h = "\<lparr>h_name = ''a'', h_ip4 = ''1.2.3.4'', h_ip6 = [], h_enabled = True\<rparr>"
  let ?s = "(small_dns cache_new)\<lparr>d_hosts := load_hosts (getLocalHosts (Some ''a|1.2.3.4||1''))\<rparr>"
  let ?qr = "\<lparr>q_domain = ''a'', q_type = 1, q_cls = 1, q_id = 7\<rparr>"
  have set: "setLocalHosts [?h] = Inr (Some ''a|1.2.3.4||1'')" by code_simp
  then have i: "dns_init ?s"
    using small_init [of cache_new] unfolding dns_init_def by (simp add: small_dns_def) blast
  have nf: "\<not> foreign ?s (2, 1000)" by (simp add: foreign_def small_dns_def filter_apply_def filter_active_def Let_def)
  have h: "d_hosts ?s = load_hosts (getLocalHosts (Some ''a|1.2.3.4||1''))" by simp
  have op: "operator_ips [?h] ''a'' = [''1.2.3.4'']" and ty: "of_type 1 [''1.2.3.4''] = [''1.2.3.4'']" by code_simp+
  have d: "''a'' = lookup_domain (q_domain ?qr)" by code_simp
  have known: "d_nameOn ?s \<and> localNameMatches ''a'' (d_hostName ?s) \<or> operator_ips [?h] ''a'' \<noteq> []" using op by simp
  have ips: "[''1.2.3.4''] = own_ips ?s ''a'' (q_type ?qr)
      @ (if q_type ?qr \<in> {kTypeA, kTypeAaaa} then of_type (q_type ?qr) (operator_ips [?h] ''a'') else [])"
    using op ty by (simp add: own_ips_def small_dns_def kTypeA_def)
  have "resolveClientMac small_io 2 = []" by (simp add: resolveClientMac_def small_io_def)
  then show ?thesis
    using local_name_authoritative [OF i rtranclp.rtrancl_refl ask_parsed nf set h d known ips, of small_io] by (auto simp: small_dns_def)
qed

section \<open>The answer is remembered\<close>

lemma relay_stores:
  assumes "parseForwardAnswer (io_text e) bs = Some (ips, ttl)" and "ips \<noteq> []" and "arena (d_icache s)" and "ttl \<noteq> 0"
    and "InternalCache.store (io_text e) (io_clock e) (sl_domain pf) (sl_qtype pf) ips ttl (d_icache s) = Some c"
  shows "\<exists>rc ev. relay_answer e pf bs s = Some (emit ev (s\<lparr>d_icache := c, d_rcache := rc\<rparr>))"
  using assms by (auto simp: relay_answer_def store_internal_def)

lemma local_answer_frame:
  assumes "d_nameOn s' = d_nameOn s" "d_hostName s' = d_hostName s" "d_ownIp4 s' = d_ownIp4 s" "d_ownIp6 s' = d_ownIp6 s" "d_hosts s' = d_hosts s"
  shows "local_answer s' d q = local_answer s d q"
  using assms by (simp add: local_answer_def own_answer_def hosts_answer_def)

lemma query_from_cache:
  assumes "parseQuery buf = Some (Some qr)" and "\<not> foreign s from" and "\<not> fst (local_answer s (lookup_domain (q_domain qr)) (q_type qr))"
    and "arena (d_icache s) \<and> q_type qr \<in> {kTypeA, kTypeAaaa}"
    and "InternalCache.lookup (io_text e) (io_clock e) (lookup_domain (q_domain qr)) (q_type qr) (d_icache s) = Some (Some (ips, left), c)"
    and "ips \<noteq> []" and "length ips \<le> 16"
  obtains s2 out where "handle_query e from buf s = Some s2"
    "d_events s2 = d_events s @ [LogQuery (q_domain qr) (q_type qr) (fst from) (resolveClientMac e (fst from)) Cache Answered (hd ips), Reply from out]"
    "d_slots s2 = d_slots s" "d_rcache s2 = d_rcache s"
    "buildAnswer (reply_buf e) (q_id qr) (q_domain qr) (q_type qr) (q_cls qr) ips left = Some out"
proof -
  let ?q = "s\<lparr>d_queryCount := d_queryCount s + 1\<rparr>"
  let ?c = "?q\<lparr>d_icache := c, d_cacheHits := d_cacheHits ?q + 1, d_cacheHitUs := d_cacheHitUs ?q + ucast (io_hitUs e)\<rparr>"
  have la: "\<not> fst (local_answer ?q (lookup_domain (q_domain qr)) (q_type qr))" using assms(3) local_answer_frame [of ?q s] by simp
  have ia: "internal_answer e (lookup_domain (q_domain qr)) (q_type qr) ?q = Some (Some (ips, left), ?c)"
    using assms(4,5) by (auto simp: internal_answer_def)
  have "fits_reply (q_domain qr) ips" using parseQuery_domain [OF assms(1)] assms(7) by (simp add: fits_reply_def)
  then obtain out where b: "buildAnswer (reply_buf e) (q_id qr) (q_domain qr) (q_type qr) (q_cls qr) ips left
      = Some (reply_head (q_id qr) 0x80 (of_nat (length ips)) @ out)" by (rule buildAnswer_total)
  have "handle_query e from buf s = answer_query e from qr buf ?q"
    using assms(1,2) by (auto simp: handle_query_def foreign_def Let_def)
  also have "\<dots> = send_built e from qr Cache Answered ips left ?c"
    using la ia assms(6) by (cases "local_answer ?q (lookup_domain (q_domain qr)) (q_type qr)") (auto simp: answer_query_def Let_def)
  finally show thesis
    using that b assms(6) reply_head_id(2) by (simp add: send_built_def reply_event_def)
qed


text \<open>A server without external cache forwards at once.\<close>

definition plain_dns :: "cache \<Rightarrow> dns" where
  "plain_dns c = (small_dns c)\<lparr>d_rcache := rest_init []\<rparr>"

lemma plain_init: "cache_run c \<Longrightarrow> dns_init (plain_dns c)"
  using small_init [of c] unfolding dns_init_def plain_dns_def by auto

lemma plain_forwards:
  obtains c s where "handle_query small_io (2, 1000) (ask 7 97) (plain_dns one_mb) = Some s" "d_icache s = c" "arena c" "\<not> ignoreTtl c"
    "d_slots s ! 0 = (new_slot small_io (2, 1000) \<lparr>q_domain = ''a'', q_type = 1, q_cls = 1, q_id = 7\<rparr> (ask 7 97))\<lparr>sl_fd := 5, sl_waiting := False, sl_sent := 0\<rparr>"
    "\<not> foreign s (3, 1000)" "\<not> fst (local_answer s ''a'' 1)"
proof -
  have d: "lookup_domain ''a'' = ''a''" by code_simp
  let ?k = "\<lparr>k_nowMs = 0, k_waitUs = 0, k_scanUs = 0\<rparr> :: clock"
  obtain c where c: "InternalCache.lookup demo_text ?k ''a'' 1 one_mb = Some (None, c)" "arena c" "ignoreTtl c = ignoreTtl one_mb"
  proof -
    have "length ''a'' < kMaxNameLen_c" "''a'' \<noteq> []" by (simp_all add: kMaxNameLen_c_def)
    from lookup_spec [OF one_mb_facts(4,1) this(2,1), of demo_text ?k 1]
    show thesis using that by (auto simp: lookup_result_def)
  qed
  let ?qr = "\<lparr>q_domain = ''a'', q_type = 1, q_cls = 1, q_id = 7\<rparr>"
  let ?s = "(plain_dns one_mb)\<lparr>d_queryCount := 1, d_icache := c\<rparr>"
  have f: "\<not> filter_active (d_filter (plain_dns one_mb))" by (simp add: plain_dns_def small_dns_def filter_apply_def filter_active_def Let_def)
  have h: "d_hosts (plain_dns one_mb) = Map.empty" by (simp add: plain_dns_def small_dns_def getLocalHosts_def load_hosts_def)
  have la: "local_answer s q x = (False, [])" if "d_nameOn s = False" "d_hosts s = Map.empty" for s q x
    using that by (simp add: local_answer_def own_answer_def hosts_answer_def)
  have ia: "internal_answer small_io ''a'' 1 ((plain_dns one_mb)\<lparr>d_queryCount := 1\<rparr>) = Some (None, ?s)"
    using c by (simp add: internal_answer_def small_io_def plain_dns_def small_dns_def kTypeA_def)
  have al: "allocPendingSlot ?s = Some 0"
    by (simp add: allocPendingSlot_def plain_dns_def small_dns_def idle_slot_def numeral_eq_Suc)
  have us: "\<not> usable (rest_init []) x" for x by (simp add: usable_def rest_init_def)
  let ?pf = "new_slot small_io (2, 1000) ?qr (ask 7 97)"
  have q: "sl_query ?pf = ask 7 97" "ask 7 97 \<noteq> []" by (simp_all add: new_slot_def ask_def kQueryBytes_def)
  let ?r = "emit [Upstream (ask 7 97)] (set_slot 0 (?pf\<lparr>sl_fd := 5, sl_waiting := False, sl_sent := 0\<rparr>)
     ((set_slot 0 ?pf ?s)\<lparr>d_fds := [5], d_forwarded := 1\<rparr>))"
  have "startForward small_io 0 0 (set_slot 0 ?pf ?s) = (True, ?r)"
    using q by (simp add: startForward_def small_io_def kMaxPendingForwards_def plain_dns_def small_dns_def set_slot_def Let_def) (simp add: new_slot_def)
  then have "place_query small_io (2, 1000) ?qr (ask 7 97) ?s = Some ?r"
    using al us by (simp add: place_query_def plain_dns_def Let_def) (simp add: small_io_def)
  then have "handle_query small_io (2, 1000) (ask 7 97) (plain_dns one_mb) = Some ?r"
    using f ia la h d by (simp add: handle_query_def ask_parsed answer_query_def Let_def plain_dns_def) (simp add: small_dns_def)
  moreover have "d_nameOn ?r = False" "d_hosts ?r = Map.empty" "d_filter ?r = d_filter (plain_dns one_mb)" "d_icache ?r = c"
      "d_slots ?r ! 0 = ?pf\<lparr>sl_fd := 5, sl_waiting := False, sl_sent := 0\<rparr>"
    using h by (simp_all add: emit_def set_slot_def plain_dns_def small_dns_def)
  ultimately show thesis
    using that [of ?r c] c la [of ?r "''a''" 1] f by (simp add: foreign_def)
qed

lemma idle_pass: "\<forall>i \<in> set idxs. \<not> sl_active (d_slots s ! i) \<Longrightarrow> slots_pass es recvs idxs s = Some s"
  by (induction idxs) (simp_all add: handle_slot_def)

lemma plain_first_step:
  assumes "handle_query small_io c buf (plain_dns one_mb) = Some s"
  shows "dns_run (AtSelect, plain_dns one_mb) (AtSelect, s)"
proof -
  let ?p = "(quiet 0)\<lparr>po_query := Some (small_io, c, buf)\<rparr>"
  have "pass_slots ?p (plain_dns one_mb) = Some (plain_dns one_mb)"
    unfolding pass_slots_def by (rule idle_pass) (simp add: plain_dns_def small_dns_def idle_slot_def kMaxPendingForwards_def)
  moreover have "at_time 0 small_io = small_io" by (simp add: at_time_def small_io_def)
  moreover have "rc_results (d_rcache (plain_dns one_mb)) = []" by (simp add: plain_dns_def rest_init_def)
  ultimately have "dns_step (AtSelect, plain_dns one_mb) (AtSelect, s)"
    using assms by (intro dns_step.pass [where p = ?p]) (auto simp: quiet_def take_query_def)
  then show ?thesis by blast
qed

definition reply_a :: "byte list" where
  "reply_a = [0, 7, 0x81, 0x80, 0, 1, 0, 1, 0, 0, 0, 0, 1, 97, 0, 0, 1, 0, 1, 0xC0, 12, 0, 1, 0, 1, 0, 0, 0, 60, 0, 4, 1, 2, 3, 4]"


section \<open>A late result\<close>

text \<open>
  One pass with a query, and one pass that finds a result. The states of a run are named by the
  functions of the model; that they are states of a run follows from their totality.
\<close>

definition after_pass :: "poll \<Rightarrow> dns \<Rightarrow> dns" where
  "after_pass p s = the (take_query (po_now p) (po_query p) (the (pass_slots p s)))"

lemma after_pass_step:
  assumes "dns_inv s" and "rc_results (d_rcache s) = []"
  shows "dns_step (AtSelect, s) (AtSelect, after_pass p s)"
proof -
  obtain s1 where s1: "pass_slots p s = Some s1" "dns_inv s1" using pass_slots_spec [OF assms(1), of p] by metis
  obtain s2 where "take_query (po_now p) (po_query p) s1 = Some s2"
  proof (cases "po_query p")
    case (Some x)
    then obtain e c b where "po_query p = Some (e, c, b)" by (cases x) auto
    then show thesis using that handle_query_spec [OF s1(2), of "at_time (po_now p) e" c b] by (auto simp: take_query_def)
  qed (auto simp: take_query_def)
  then show ?thesis using dns_step.pass [OF assms(2) s1(1)] s1(1) by (simp add: after_pass_def)
qed

text \<open>The external cache knows one name.\<close>

definition only_a :: "string \<Rightarrow> http_reply" where
  "only_a url = (if url = ''http://c/a'' then Some (200, [CHR ''{'' # quote ''ips'' @ '':['' @ quote ''1.2.3.4'' @ '']}'']) else Some (404, []))"

definition arrives :: "u64 \<Rightarrow> client \<Rightarrow> byte list \<Rightarrow> poll" where
  "arrives now c buf = (quiet now)\<lparr>po_query := Some (small_io, c, buf)\<rparr>"

text \<open>
  The name \<open>a\<close> is asked for and the worker starts its lookup; after two seconds the query is forwarded
  and answered; the same slot is then taken by a query for \<open>b\<close>, and only now the lookup of \<open>a\<close> ends.
\<close>

definition late1 :: dns where
  "late1 = after_pass (arrives 0 (1, 1000) (ask 7 97)) (small_dns cache_new)"

definition late2 :: dns where
  "late2 = late1\<lparr>d_rcache := worker_take (d_rcache late1)\<rparr>"

definition late3 :: dns where
  "late3 = after_pass (quiet 2000) late2"

definition late4 :: dns where
  "late4 = after_pass ((arrives 2100 (2, 2000) (ask 9 98))\<lparr>po_recv := (\<lambda>i. if i = 0 then Some (Some (ask 7 97)) else None)\<rparr>) late3"

definition late5 :: dns where
  "late5 = late4\<lparr>d_rcache := worker_finish only_a 2500 2500 (d_rcache late4)\<rparr>"

definition late6 :: dns where
  "late6 = the (pass_slots (quiet 2600) late5)"

definition late7 :: dns where
  "late7 = the (handle_result (at_time 2600 small_io) (hd (rc_results (d_rcache late6)))
     (late6\<lparr>d_rcache := (d_rcache late6)\<lparr>rc_results := tl (rc_results (d_rcache late6))\<rparr>\<rparr>))"

lemmas late_defs = late1_def late2_def late3_def late4_def late5_def late6_def late7_def

lemma late_results:
  "rc_results (d_rcache (small_dns cache_new)) = []" "rc_results (d_rcache late2) = []" "rc_results (d_rcache late3) = []"
  "length (rc_results (d_rcache late5)) = 1" "length (rc_results (d_rcache late6)) = 1"
  by code_simp+

fun wrong_reply :: "event \<Rightarrow> bool" where
  "wrong_reply (Reply c bs) \<longleftrightarrow> c = (2, 2000) \<and> rd16 bs 0 = Some 9 \<and> decodeDomainName bs 12 = Some (''b'', 15)
     \<and> parseForwardAnswer demo_text bs = Some ([''1.2.3.4''], 300)"
| "wrong_reply _ \<longleftrightarrow> False"

lemma late_reply: "\<exists>ev \<in> set (d_events late7). wrong_reply ev"
proof -
  have "list_ex wrong_reply (d_events late7)" by code_simp
  then show ?thesis by (simp add: list_ex_iff)
qed

lemma late_run6: "dns_run (AtSelect, small_dns cache_new) (Draining 2600 None, late6) \<and> dns_inv late6"
proof -
  let ?s0 = "small_dns cache_new"
  have i0: "dns_inv ?s0" using dns_init_inv [OF small_init] by simp
  have r1: "dns_step (AtSelect, ?s0) (AtSelect, late1)"
    unfolding late1_def by (rule after_pass_step [OF i0 late_results(1)])
  have r2: "dns_step (AtSelect, late1) (AtSelect, late2)" unfolding late2_def by (rule dns_step.worker_takes)
  have i2: "dns_inv late2" using dns_step_inv [OF r2] dns_step_inv [OF r1] i0 by simp
  have r3: "dns_step (AtSelect, late2) (AtSelect, late3)"
    unfolding late3_def by (rule after_pass_step [OF i2 late_results(2)])
  have i3: "dns_inv late3" using dns_step_inv [OF r3] i2 by simp
  have r4: "dns_step (AtSelect, late3) (AtSelect, late4)"
    unfolding late4_def by (rule after_pass_step [OF i3 late_results(3)])
  have r5: "dns_step (AtSelect, late4) (AtSelect, late5)" unfolding late5_def by (rule dns_step.worker_finishes)
  have i5: "dns_inv late5" using dns_step_inv [OF r5] dns_step_inv [OF r4] i3 by simp
  have r6: "dns_step (AtSelect, late5) (Draining 2600 None, late6)"
  proof -
    obtain s where "pass_slots (quiet 2600) late5 = Some s" using pass_slots_spec [OF i5, of "quiet 2600"] by metis
    moreover have "rc_results (d_rcache late5) \<noteq> []" using late_results(4) by auto
    ultimately show ?thesis using dns_step.pass_results [of late5 "quiet 2600" s] by (simp add: late6_def quiet_def)
  qed
  have "dns_run (AtSelect, ?s0) (Draining 2600 None, late6)"
    using r1 r2 r3 r4 r5 r6 by (meson converse_rtranclp_into_rtranclp rtranclp.rtrancl_refl)
  then show ?thesis using dns_step_inv [OF r6] i5 by simp
qed

lemma late_step7: "dns_step (Draining 2600 None, late6) (Draining 2600 None, late7)"
proof -
  obtain res rs where r: "rc_results (d_rcache late6) = res # rs"
    using late_results(5) by (cases "rc_results (d_rcache late6)") auto
  let ?s = "late6\<lparr>d_rcache := (d_rcache late6)\<lparr>rc_results := rs\<rparr>\<rparr>"
  have ri: "rest_inv (d_rcache late6)" using late_run6 rest_inv_of by blast
  have i: "dns_inv ?s"
    using rest.inv_step [OF ri rest_step.read_result [OF r]] late_run6 dns_inv_rest by blast
  have "c_text kIpListBytes (res_ips res)" using ri r by (simp add: rest_inv_def)
  then obtain s1 where h: "handle_result (at_time 2600 small_io) res ?s = Some s1" using handle_result_spec [OF i, of res "at_time 2600 small_io"] by metis
  then have "late7 = s1" by (simp add: late7_def r)
  then show ?thesis using dns_step.drain [OF r h] by simp
qed

text \<open>
  C14. A result of the external cache names only the slot, not the question. In the run below a lookup
  of \<open>a\<close> outlasts its slot, the slot is given to another client's query for \<open>b\<close>, and that client is
  told that \<open>b\<close> has the address of \<open>a\<close>, although the external cache has no record of \<open>b\<close>.
\<close>

theorem late_result_misdelivered:
  "dns_run (AtSelect, small_dns cache_new) (Draining 2600 None, late7) \<and> (\<exists>ev \<in> set (d_events late7). wrong_reply ev)
   \<and> only_a ''http://c/b'' = Some (404, [])"
  using late_run6 late_step7 late_reply by (auto simp: only_a_def)

end
