(* ===== verification/Paths.thy ===== *)
theory Paths
  imports Prelude
begin

text \<open>
  Paths on the two volumes. The first part is \<open>storage/PathUtil\<close>: the single place where a path
  from a client of the file interface is validated. The second is \<open>net/FileShellPath\<close>: the sandbox
  of the shell that is reached over SSH. Both are compared with \<open>walk\<close>, the reference reading of a
  path by the file system underneath (empty and \<open>.\<close> components stay, \<open>..\<close> climbs, anything else
  descends): \<open>normalize\<close> keeps the meaning of a path and never lets it climb, \<open>resolve\<close> says
  no exactly when the reading would climb above the volume.
\<close>

section \<open>Reading a path\<close>

abbreviation slash :: char where
  "slash \<equiv> CHR ''/''"

text \<open>
  The components of a text between its slashes, as the loops over \<open>find('/', i)\<close> visit them; a text
  without a slash is one component.
\<close>

function components :: "string \<Rightarrow> string list" where
  "components p = (case split_at slash p of None \<Rightarrow> [p] | Some (a, b) \<Rightarrow> a # components b)"
  by auto
termination
  by (relation "measure length") (auto dest: split_at_length)

declare components.simps [simp del]

text \<open>What a file system does with the components below a directory; \<open>None\<close>: it climbs above the root.\<close>

fun walk :: "string list \<Rightarrow> string list \<Rightarrow> string list option" where
  "walk dir [] = Some dir"
| "walk dir (c # cs) =
     (if c = [] \<or> c = ''.'' then walk dir cs
      else if c = ''..'' then (if dir = [] then None else walk (butlast dir) cs)
      else walk (dir @ [c]) cs)"

definition real_name :: "string \<Rightarrow> bool" where
  "real_name c \<longleftrightarrow> c \<noteq> [] \<and> c \<noteq> ''.'' \<and> c \<noteq> ''..'' \<and> slash \<notin> set c"

lemma components_no_slash: "slash \<notin> set p \<Longrightarrow> components p = [p]"
  by (subst components.simps) (simp add: split_at_None_iff [THEN iffD2])

lemma components_Cons_slash: "slash \<notin> set a \<Longrightarrow> components (a @ slash # b) = a # components b"
  by (subst components.simps) simp

lemma components_slash [simp]: "components (slash # b) = [] # components b"
  using components_Cons_slash [of "[]" b] by simp

lemma components_Nil [simp]: "components [] = [[]]"
  by (simp add: components_no_slash)

lemma components_not_Nil [simp]: "components p \<noteq> []"
  by (subst components.simps) (auto split: option.splits)

lemma components_append_slash: "components (p @ slash # q) = components p @ components q"
proof (induction p rule: components.induct)
  case (1 p)
  show ?case
  proof (cases "split_at slash p")
    case None
    then show ?thesis
      by (simp add: split_at_None_iff components_no_slash components_Cons_slash)
  next
    case (Some ab)
    then obtain a b where ab: "split_at slash p = Some (a, b)" by (cases ab) auto
    then have p: "p = a @ slash # b" and a: "slash \<notin> set a"
      using split_at_SomeD by auto
    have IH: "components (b @ slash # q) = components b @ components q"
      using 1 [OF ab refl] by simp
    show ?thesis
      by (simp add: p a components_Cons_slash IH)
  qed
qed

lemma components_slash_free: "c \<in> set (components p) \<Longrightarrow> slash \<notin> set c"
proof (induction p rule: components.induct)
  case (1 p)
  show ?case
  proof (cases "split_at slash p")
    case None
    then show ?thesis
      using "1.prems" by (simp add: split_at_None_iff components_no_slash)
  next
    case (Some ab)
    then obtain a b where ab: "split_at slash p = Some (a, b)" by (cases ab) auto
    then have p: "p = a @ slash # b" and a: "slash \<notin> set a"
      using split_at_SomeD by auto
    then show ?thesis
      using "1.prems" 1(1) [OF ab refl] by (auto simp: components_Cons_slash)
  qed
qed

lemma walk_append: "walk d (xs @ ys) = Option.bind (walk d xs) (\<lambda>d'. walk d' ys)"
  by (induction d xs rule: walk.induct) auto

lemma walk_names: "\<forall>c \<in> set cs. real_name c \<Longrightarrow> walk d cs = Some (d @ cs)"
  by (induction d cs rule: walk.induct) (auto simp: real_name_def)

lemma walk_real_names:
  "walk d cs = Some d' \<Longrightarrow> \<forall>c \<in> set d. real_name c \<Longrightarrow> \<forall>c \<in> set cs. slash \<notin> set c
    \<Longrightarrow> \<forall>c \<in> set d'. real_name c"
proof (induction d cs rule: walk.induct)
  case (2 d c cs)
  show ?case
  proof (cases "c = [] \<or> c = ''.''")
    case True
    then show ?thesis using 2(1) [OF True] 2(4,5,6) by auto
  next
    case False
    note skip = False
    show ?thesis
    proof (cases "c = ''..''")
      case True
      then have d: "d \<noteq> []" using 2(4) by auto
      have "\<forall>c \<in> set (butlast d). real_name c" using 2(5) by (meson in_set_butlastD)
      then show ?thesis using 2(2) [OF skip True d] 2(4,6) skip True d by simp
    next
      case False
      then have "real_name c" using skip 2(6) by (simp add: real_name_def)
      then show ?thesis using 2(3) [OF skip False] 2(4,5,6) skip False by simp
    qed
  qed
qed simp

section \<open>PathUtil\<close>

definition kMaxPathLen :: nat where "kMaxPathLen = 255"
definition kMaxSegmentLen :: nat where "kMaxSegmentLen = 128"
definition kMaxDepth :: nat where "kMaxDepth = 16"
definition kUploadPartSuffix :: string where "kUploadPartSuffix = ''.part''"

definition isValidChar :: "char \<Rightarrow> bool" where
  "isValidChar c =
     (let u = char_code c in
      if u < 0x20 \<or> u = 0x7F then False
      else if c = slash \<or> c = char_of (92::nat) then False
      else c \<notin> {CHR 0x22, CHR ''*'', CHR ''<'', CHR ''>'', CHR ''?'', CHR ''|'', CHR '':''})"

definition isPartName :: "string \<Rightarrow> bool" where
  "isPartName nm =
     (if length nm \<le> length kUploadPartSuffix then False
      else drop (length nm - length kUploadPartSuffix) nm = kUploadPartSuffix)"

definition isValidName :: "string \<Rightarrow> bool" where
  "isValidName nm =
     (if nm = [] \<or> length nm > kMaxSegmentLen then False
      else if nm = ''.'' \<or> nm = ''..'' then False
      else if isPartName nm then False
      else if last nm = CHR ''.'' \<or> last nm = CHR '' '' then False
      else list_all isValidChar nm)"

definition add_segment :: "string \<Rightarrow> string list \<Rightarrow> string list option" where
  "add_segment seg segments =
     (if seg = [] \<or> seg = ''.'' then Some segments
      else if seg = ''..'' then None
      else if \<not> isValidName seg then None
      else Some (segments @ [seg]))"

function splitSegments_from :: "string \<Rightarrow> string list \<Rightarrow> string list option" where
  "splitSegments_from path segments =
     (case split_at slash path of
        None \<Rightarrow> (case add_segment path segments of
                   None \<Rightarrow> None
                 | Some segs \<Rightarrow> if length segs \<le> kMaxDepth then Some segs else None)
      | Some (seg, rest) \<Rightarrow> (case add_segment seg segments of
                   None \<Rightarrow> None
                 | Some segs \<Rightarrow> if length segs > kMaxDepth then None else splitSegments_from rest segs))"
  by auto
termination
  by (relation "measure (\<lambda>(p, _). length p)") (auto dest: split_at_length)

declare splitSegments_from.simps [simp del]

definition splitSegments :: "string \<Rightarrow> string list option" where
  "splitSegments path = splitSegments_from path []"

definition buildPath :: "string list \<Rightarrow> string" where
  "buildPath segments =
     (let out = concat (map (\<lambda>seg. slash # seg) segments) in if out = [] then [slash] else out)"

definition normalize :: "string \<Rightarrow> string option" where
  "normalize raw =
     (case splitSegments raw of
        None \<Rightarrow> None
      | Some segments \<Rightarrow>
          (let normalized = buildPath segments in
           if length normalized > kMaxPathLen then None else Some normalized))"

definition normalizeChild :: "string \<Rightarrow> string \<Rightarrow> string option" where
  "normalizeChild dir nm =
     (if \<not> isValidName nm then None
      else case splitSegments dir of
        None \<Rightarrow> None
      | Some segs \<Rightarrow>
          (let segments = segs @ [nm] in
           if length segments > kMaxDepth then None
           else let normalized = buildPath segments in
             if length normalized > kMaxPathLen then None else Some normalized))"

definition join :: "string \<Rightarrow> string \<Rightarrow> string" where
  "join mountPoint relPath =
     (if relPath = [] \<or> relPath = [slash] then mountPoint
      else (if mountPoint \<noteq> [] \<and> last mountPoint = slash then butlast mountPoint else mountPoint)
        @ (if hd relPath = slash then relPath else slash # relPath))"

text \<open>\<open>find_last_of('/')\<close>: what stands before and after the last slash.\<close>

definition last_slash :: "string \<Rightarrow> (string \<times> string) option" where
  "last_slash s = map_option (\<lambda>(a, b). (rev b, rev a)) (split_at slash (rev s))"

definition parent :: "string \<Rightarrow> string" where
  "parent relPath =
     (if relPath = [] \<or> relPath = [slash] then [slash]
      else case last_slash relPath of
        None \<Rightarrow> [slash]
      | Some (dir, _) \<Rightarrow> if dir = [] then [slash] else dir)"

definition basename :: "string \<Rightarrow> string" where
  "basename relPath =
     (if relPath = [] \<or> relPath = [slash] then []
      else case last_slash relPath of
        None \<Rightarrow> relPath
      | Some (_, after) \<Rightarrow> after)"

section \<open>Normalized paths\<close>

lemma isValidName_real: "isValidName nm \<Longrightarrow> real_name nm"
  by (auto simp: isValidName_def real_name_def isValidChar_def list_all_iff split: if_splits)

lemma add_segment_eq:
  "add_segment seg segs = (if seg = [] \<or> seg = ''.'' then Some segs
     else if isValidName seg then Some (segs @ [seg]) else None)"
  using isValidName_real [of "''..''"] by (auto simp: add_segment_def real_name_def)

text \<open>The components that count, and the loop as one test over them.\<close>

abbreviation named :: "string \<Rightarrow> string list" where
  "named p \<equiv> filter (\<lambda>c. c \<noteq> [] \<and> c \<noteq> ''.'') (components p)"

lemma splitSegments_from_eq:
  "length segs \<le> kMaxDepth \<Longrightarrow> splitSegments_from p segs =
     (if list_all isValidName (named p) \<and> length segs + length (named p) \<le> kMaxDepth
      then Some (segs @ named p) else None)"
proof (induction p segs rule: splitSegments_from.induct)
  case (1 p segs)
  show ?case
  proof (cases "split_at slash p")
    case None
    then have "components p = [p]" by (simp add: split_at_None_iff components_no_slash)
    then show ?thesis
      using 1(2) None by (subst splitSegments_from.simps) (auto simp: add_segment_eq)
  next
    case (Some ab)
    then obtain a b where ab: "split_at slash p = Some (a, b)" by (cases ab) auto
    then have cp: "components p = a # components b"
      using split_at_SomeD [OF ab] by (auto simp: components_Cons_slash)
    have un: "splitSegments_from p segs = (case add_segment a segs of
                   None \<Rightarrow> None
                 | Some segs \<Rightarrow> if length segs > kMaxDepth then None else splitSegments_from b segs)"
      by (subst splitSegments_from.simps) (simp add: ab)
    show ?thesis
    proof (cases "a = [] \<or> a = ''.''")
      case True
      then have add: "add_segment a segs = Some segs" by (simp add: add_segment_def)
      show ?thesis
        using 1(1) [OF ab refl add] 1(2) True unfolding un cp by (auto simp: add)
    next
      case False
      show ?thesis
      proof (cases "isValidName a")
        case True
        then have add: "add_segment a segs = Some (segs @ [a])"
          using False by (simp add: add_segment_eq)
        show ?thesis
          using 1(1) [OF ab refl add] True False unfolding un cp by (auto simp: add)
      next
        case inv: False
        then show ?thesis
          using False unfolding un cp by (simp add: add_segment_eq)
      qed
    qed
  qed
qed

lemma splitSegments_eq:
  "splitSegments p = (if list_all isValidName (named p) \<and> length (named p) \<le> kMaxDepth
     then Some (named p) else None)"
  using splitSegments_from_eq [of "[]" p] by (simp add: splitSegments_def kMaxDepth_def)

lemma components_buildPath:
  "\<forall>c \<in> set segs. slash \<notin> set c \<Longrightarrow> components (buildPath segs) = (if segs = [] then [[], []] else [] # segs)"
proof -
  have *: "segs \<noteq> [] \<Longrightarrow> \<forall>c \<in> set segs. slash \<notin> set c \<Longrightarrow>
     components (concat (map (\<lambda>seg. slash # seg) segs)) = [] # segs" for segs
  proof (induction segs)
    case (Cons a as)
    then show ?case
      by (cases as) (auto simp: components_no_slash components_Cons_slash)
  qed simp
  assume "\<forall>c \<in> set segs. slash \<notin> set c"
  then show ?thesis
    using * [of segs] by (cases segs) (auto simp: buildPath_def Let_def)
qed

lemma named_buildPath: "\<forall>c \<in> set segs. real_name c \<Longrightarrow> named (buildPath segs) = segs"
proof -
  assume r: "\<forall>c \<in> set segs. real_name c"
  then have "filter (\<lambda>c. c \<noteq> [] \<and> c \<noteq> ''.'') segs = segs"
    by (auto simp: real_name_def filter_id_conv)
  then show ?thesis
    using r by (auto simp: components_buildPath real_name_def)
qed

lemma normalize_eq:
  "normalize raw = Some p \<longleftrightarrow> list_all isValidName (named raw) \<and> length (named raw) \<le> kMaxDepth
     \<and> p = buildPath (named raw) \<and> length p \<le> kMaxPathLen"
  by (auto simp: normalize_def splitSegments_eq Let_def)

lemma valid_names_real: "list_all isValidName cs \<Longrightarrow> \<forall>c \<in> set cs. real_name c"
  by (auto simp: list_all_iff isValidName_real)

lemma named_normalized: "normalize raw = Some p \<Longrightarrow> named p = named raw"
  using named_buildPath valid_names_real by (auto simp: normalize_eq)

lemma normalize_fixed: "normalize raw = Some p \<Longrightarrow> normalize p = Some p"
  using named_normalized normalize_eq by (metis (no_types, lifting))

text \<open>Every reading of a path depends on its named components only.\<close>

lemma walk_filter: "walk d (filter (\<lambda>c. c \<noteq> [] \<and> c \<noteq> ''.'') cs) = walk d cs"
  by (induction cs arbitrary: d) simp_all

lemma walk_valid: "list_all isValidName (named p) \<Longrightarrow> walk d (components p) = Some (d @ named p)"
  using walk_names [OF valid_names_real] walk_filter by metis

text \<open>Below a mount point, with or without a slash at its end.\<close>

lemma walk_blank [simp]: "walk d ([] # cs) = walk d cs" "walk d (xs @ [[]]) = walk d xs"
  by (auto simp: walk_append split: Option.bind_split)

lemma walk_join:
  assumes m: "walk [] (components m) = Some ms"
  shows "walk [] (components (join m p)) = walk ms (components p)"
proof -
  let ?m = "if m \<noteq> [] \<and> last m = slash then butlast m else m"
  have m': "walk [] (components ?m) = Some ms"
  proof (cases "m \<noteq> [] \<and> last m = slash")
    case True
    then have "m = butlast m @ slash # []" by (metis append_butlast_last_id)
    then have "components m = components (butlast m) @ [[]]"
      using components_append_slash [of "butlast m" "[]"] by simp
    then show ?thesis using m True by simp
  next
    case False
    then have "?m = m" by auto
    then show ?thesis using m by simp
  qed
  show ?thesis
  proof (cases "p = [] \<or> p = [slash]")
    case True
    then show ?thesis using m by (auto simp: join_def)
  next
    case False
    let ?q = "if hd p = slash then tl p else p"
    have j: "join m p = ?m @ slash # ?q"
      using False by (cases p) (auto simp: join_def)
    have q: "walk ms (components ?q) = walk ms (components p)"
      using False by (cases p) auto
    show ?thesis
      unfolding j components_append_slash walk_append using m' q by simp
  qed
qed

lemma buildPath_snoc: "segs \<noteq> [] \<Longrightarrow> buildPath (segs @ [x]) = buildPath segs @ slash # x"
  by (auto simp: buildPath_def Let_def)

lemma last_slash_append: "slash \<notin> set b \<Longrightarrow> last_slash (a @ slash # b) = Some (a, b)"
  by (simp add: last_slash_def)

lemma buildPath_not_root: "buildPath (segs @ [x]) \<noteq> []" "x \<noteq> [] \<Longrightarrow> buildPath (segs @ [x]) \<noteq> [slash]"
  by (auto simp: buildPath_def Let_def append_eq_Cons_conv)

lemma parent_basename_buildPath:
  assumes x: "real_name x"
  shows "parent (buildPath (segs @ [x])) = buildPath segs" and "basename (buildPath (segs @ [x])) = x"
proof -
  have nx: "slash \<notin> set x" "x \<noteq> []" using x by (auto simp: real_name_def)
  have l: "last_slash (buildPath (segs @ [x])) = Some (if segs = [] then [] else buildPath segs, x)"
  proof (cases "segs = []")
    case True
    then have "buildPath (segs @ [x]) = [] @ slash # x" by (simp add: buildPath_def)
    then show ?thesis using last_slash_append [OF nx(1), of "[]"] True by simp
  next
    case False
    then show ?thesis using last_slash_append [OF nx(1), of "buildPath segs"] by (simp add: buildPath_snoc)
  qed
  have e: "buildPath [] = [slash]" "segs \<noteq> [] \<Longrightarrow> buildPath segs \<noteq> []"
    by (auto simp: buildPath_def Let_def)
  show "parent (buildPath (segs @ [x])) = buildPath segs"
    using buildPath_not_root(1) [of segs x] buildPath_not_root(2) [of x segs] nx(2) l e by (cases "segs = []") (simp_all add: parent_def)
  show "basename (buildPath (segs @ [x])) = x"
    using buildPath_not_root(1) [of segs x] buildPath_not_root(2) [of x segs] nx(2) l by (simp add: basename_def)
qed

lemma length_buildPath_prefix: "length (buildPath segs) \<le> length (buildPath (segs @ [x]))"
  by (auto simp: buildPath_def Let_def)

text \<open>
  C31. A path a client names is accepted exactly when each of its components is empty, a dot or a
  legal name, and depth and length are within the limits. The path that comes back names, below
  every mount point, the same file as what the client wrote, that file lies below the mount point,
  and checking it again changes nothing.
\<close>

theorem client_path_confined:
  "(normalize raw = None \<longleftrightarrow> \<not> (list_all isValidName (named raw) \<and> length (named raw) \<le> kMaxDepth
      \<and> length (buildPath (named raw)) \<le> kMaxPathLen))
   \<and> (\<forall>p m ms. normalize raw = Some p \<and> walk [] (components m) = Some ms \<longrightarrow>
        walk [] (components (join m p)) = Some (ms @ named p)
        \<and> walk ms (components raw) = Some (ms @ named p)
        \<and> list_all isValidName (named p) \<and> normalize p = Some p)"
proof (intro conjI allI impI; (elim conjE)?)
  show "normalize raw = None \<longleftrightarrow> \<not> (list_all isValidName (named raw) \<and> length (named raw) \<le> kMaxDepth
      \<and> length (buildPath (named raw)) \<le> kMaxPathLen)"
    by (auto simp: normalize_def splitSegments_eq Let_def)
  fix p m ms
  assume n: "normalize raw = Some p" and m: "walk [] (components m) = Some ms"
  have v: "list_all isValidName (named p)" "named p = named raw"
    using n named_normalized [OF n] by (simp_all add: normalize_eq)
  then show "list_all isValidName (named p)" "normalize p = Some p"
    using normalize_fixed [OF n] by simp_all
  show "walk [] (components (join m p)) = Some (ms @ named p)"
    using walk_join [OF m, of p] walk_valid [OF v(1), of ms] by argo
  show "walk ms (components raw) = Some (ms @ named p)"
    using walk_valid [of raw ms] v by argo
qed

theorem client_path_confined_witness:
  "walk [] (components (join ''/sdcard'' ''/logs/a.txt'')) = Some [''sdcard'', ''logs'', ''a.txt'']
   \<and> normalize ''logs//./a.txt/'' = Some ''/logs/a.txt'' \<and> normalize ''/logs/../x'' = None"
proof -
  have n: "normalize ''logs//./a.txt/'' = Some ''/logs/a.txt''" "normalize ''/logs/../x'' = None"
    "walk [] (components ''/sdcard'') = Some [''sdcard'']" "named ''/logs/a.txt'' = [''logs'', ''a.txt'']"
    by code_simp+
  show ?thesis
    using client_path_confined [of "''logs//./a.txt/''"] n by auto
qed

text \<open>Taking a path apart and putting it together again.\<close>

lemma parent_basename_roundtrip:
  assumes n: "normalize raw = Some p" and p: "p \<noteq> [slash]"
  shows "normalizeChild (parent p) (basename p) = Some p \<and> normalize (parent p) = Some (parent p)"
proof -
  let ?segs = "named raw"
  have v: "list_all isValidName ?segs" "length ?segs \<le> kMaxDepth" "p = buildPath ?segs" "length p \<le> kMaxPathLen"
    using n by (auto simp: normalize_eq)
  have "?segs \<noteq> []"
  proof
    assume "?segs = []"
    then have "p = buildPath []" using v(3) by argo
    then show False using p by (simp add: buildPath_def)
  qed
  then obtain ini x where segs: "?segs = ini @ [x]" by (metis rev_exhaust)
  have ini: "list_all isValidName ini" "isValidName x" "length ini < kMaxDepth"
    using v(1,2) by (auto simp: segs)
  then have pb: "parent p = buildPath ini" "basename p = x"
    using v(3) isValidName_real [OF ini(2)] by (simp_all add: segs parent_basename_buildPath)
  have nm: "named (buildPath ini) = ini"
    using named_buildPath [OF valid_names_real [OF ini(1)]] .
  have len: "length (buildPath ini) \<le> kMaxPathLen"
    using length_buildPath_prefix [of ini x] v(3,4) by (simp add: segs)
  have "normalizeChild (buildPath ini) x = Some p"
    using ini v(3,4) by (simp add: normalizeChild_def splitSegments_eq nm Let_def segs)
  moreover have "normalize (buildPath ini) = Some (buildPath ini)"
    using ini len by (simp add: normalize_eq nm)
  ultimately show ?thesis by (simp add: pb)
qed

section \<open>FileShellPath\<close>

definition kVolumes :: "string list" where
  "kVolumes = [''/fat'', ''/sdcard'']"

definition isVolume :: "string \<Rightarrow> bool" where
  "isVolume nm = list_ex (\<lambda>v. nm = v) kVolumes"

text \<open>\<open>compare(0, len, volume) == 0 && (size == len || name[len] == '/')\<close>\<close>

definition at_volume :: "string \<Rightarrow> string \<Rightarrow> bool" where
  "at_volume nm v \<longleftrightarrow> take (length v) nm = v \<and> (length nm = length v \<or> nm ! length v = slash)"

definition startsWithVolume :: "string \<Rightarrow> bool" where
  "startsWithVolume nm = list_ex (at_volume nm) kVolumes"

definition volumeOf :: "string \<Rightarrow> string" where
  "volumeOf absolute = (case List.find (at_volume absolute) kVolumes of Some v \<Rightarrow> v | None \<Rightarrow> [])"

definition hasControlByte :: "string \<Rightarrow> bool" where
  "hasControlByte s = list_ex (\<lambda>c. char_code c < 0x20) s"

definition trimmedSlashes :: "string \<Rightarrow> string" where
  "trimmedSlashes s =
     (if s = [] then [] else hd s # drop_while_end (\<lambda>c. c = slash) (tl s))"

datatype path_error = ControlSymbols | NotAVolume | LeavesVolume

text \<open>The walk over the rest of the typed path; \<open>parts\<close> starts as what the current directory holds.\<close>

fun fold_parts :: "string list \<Rightarrow> string list \<Rightarrow> string list option" where
  "fold_parts parts [] = Some parts"
| "fold_parts parts (part # cs) =
     (if part \<noteq> [] \<and> part \<noteq> ''.'' then
        (if part = ''..'' then (if parts = [] then None else fold_parts (butlast parts) cs)
         else fold_parts (parts @ [part]) cs)
      else fold_parts parts cs)"

text \<open>The components of the current directory below its volume: the loop skips runs of slashes.\<close>

definition current_parts :: "string \<Rightarrow> string list" where
  "current_parts s = filter (\<lambda>c. c \<noteq> []) (components s)"

definition out_path :: "string \<Rightarrow> string list \<Rightarrow> string" where
  "out_path base parts = foldl (\<lambda>out part. (if last out \<noteq> slash then out @ [slash] else out) @ part) base parts"

definition resolve :: "string \<Rightarrow> string \<Rightarrow> path_error + string" where
  "resolve current typed =
     (if typed = [] then Inr current
      else if hasControlByte typed then Inl ControlSymbols
      else if hd typed = slash then
        (if \<not> startsWithVolume typed then Inl NotAVolume
         else let base = volumeOf typed; rest = drop (length base) typed in
           (case fold_parts [] (components rest) of
              None \<Rightarrow> Inl LeavesVolume
            | Some parts \<Rightarrow> Inr (trimmedSlashes (out_path base parts))))
      else let base = (if volumeOf current = [] then hd kVolumes else volumeOf current) in
           (case fold_parts (current_parts (drop (length base) current)) (components typed) of
              None \<Rightarrow> Inl LeavesVolume
            | Some parts \<Rightarrow> Inr (trimmedSlashes (out_path base parts))))"

text \<open>\<open>changeTo\<close>: an empty result of \<open>resolve\<close> means refusal; the current directory is then kept.\<close>

definition changeTo :: "string \<Rightarrow> string \<Rightarrow> path_error option \<times> string" where
  "changeTo current typed =
     (if typed = [] then (None, let v = volumeOf current in if v = [] then hd kVolumes else v)
      else case resolve current typed of
        Inl why \<Rightarrow> (Some why, current)
      | Inr target \<Rightarrow> (None, target))"

section \<open>The sandbox\<close>

text \<open>A directory the shell may stand in: a volume and real names below it.\<close>

definition below :: "string \<Rightarrow> string list \<Rightarrow> string" where
  "below v ps = v @ concat (map (\<lambda>seg. slash # seg) ps)"

definition sandboxed :: "string \<Rightarrow> bool" where
  "sandboxed s \<longleftrightarrow> (\<exists>v \<in> set kVolumes. \<exists>ps. (\<forall>c \<in> set ps. real_name c) \<and> s = below v ps)"

definition cds :: "string list \<Rightarrow> string" where
  "cds cmds = foldl (\<lambda>cur typed. snd (changeTo cur typed)) (hd kVolumes) cmds"

lemma volume_cases: "v \<in> set kVolumes \<Longrightarrow> (v = ''/fat'' \<Longrightarrow> P) \<Longrightarrow> (v = ''/sdcard'' \<Longrightarrow> P) \<Longrightarrow> P"
  by (auto simp: kVolumes_def)

lemma fold_parts_walk: "fold_parts d cs = walk d cs"
  by (induction cs arbitrary: d) simp_all

lemma below_Nil [simp]: "below v [] = v"
  by (simp add: below_def)

lemma below_snoc: "below v (ps @ [x]) = below v ps @ slash # x"
  by (simp add: below_def)

lemma last_below: "v \<in> set kVolumes \<Longrightarrow> \<forall>c \<in> set ps. real_name c \<Longrightarrow> last (below v ps) \<noteq> slash \<and> below v ps \<noteq> []"
proof (induction ps rule: rev_induct)
  case Nil
  from Nil.prems(1) show ?case by (rule volume_cases) simp_all
next
  case (snoc x ps)
  then have "x \<noteq> []" "slash \<notin> set x" by (simp_all add: real_name_def)
  then have "last x \<noteq> slash" using last_in_set by metis
  with \<open>x \<noteq> []\<close> show ?case
    by (simp add: below_snoc)
qed

lemma out_path_below:
  "v \<in> set kVolumes \<Longrightarrow> \<forall>c \<in> set ps. real_name c \<Longrightarrow> out_path v ps = below v ps"
proof (induction ps rule: rev_induct)
  case (snoc x ps)
  then show ?case
    using last_below [of v ps] by (simp add: out_path_def below_snoc)
qed (simp add: out_path_def)

lemma trimmed_below: "v \<in> set kVolumes \<Longrightarrow> \<forall>c \<in> set ps. real_name c \<Longrightarrow> trimmedSlashes (below v ps) = below v ps"
proof -
  assume a: "v \<in> set kVolumes" "\<forall>c \<in> set ps. real_name c"
  have "tl (below v ps) \<noteq> []"
    using a(1) by (rule volume_cases) (simp_all add: below_def)
  then have "last (tl (below v ps)) \<noteq> slash" using last_below [OF a] by (simp add: last_tl)
  then show ?thesis
    using last_below [OF a] by (simp add: trimmedSlashes_def drop_while_end_id)
qed

lemma at_volume_iff: "at_volume s v \<longleftrightarrow> (s = v \<or> (\<exists>r. s = v @ slash # r))"
proof
  assume a: "at_volume s v"
  then have t: "s = v @ drop (length v) s"
    by (metis append_take_drop_id at_volume_def)
  show "s = v \<or> (\<exists>r. s = v @ slash # r)"
  proof (cases "drop (length v) s")
    case Nil
    then show ?thesis using t by simp
  next
    case (Cons c r)
    then have "s ! length v = c" "length s \<noteq> length v"
      using t by (metis nth_append_length, auto)
    then show ?thesis using a t Cons by (auto simp: at_volume_def)
  qed
qed (auto simp: at_volume_def)

lemma volumeOf_below: "v \<in> set kVolumes \<Longrightarrow> volumeOf (below v ps) = v"
  by (erule volume_cases; cases ps)
    (simp_all add: volumeOf_def kVolumes_def at_volume_def below_def)

lemma volumeOf_typed:
  assumes "startsWithVolume s"
  shows "volumeOf s \<in> set kVolumes \<and> at_volume s (volumeOf s)"
  using assms by (auto simp: startsWithVolume_def volumeOf_def kVolumes_def)

lemma components_below_rest:
  assumes "\<forall>c \<in> set ps. real_name c"
  shows "current_parts (concat (map (\<lambda>seg. slash # seg) ps)) = ps"
proof (cases "ps = []")
  case False
  have b: "concat (map (\<lambda>seg. slash # seg) ps) = buildPath ps"
    using False by (cases ps) (auto simp: buildPath_def)
  have "filter (\<lambda>c. c \<noteq> []) ps = ps"
    using assms by (auto simp: real_name_def filter_id_conv)
  then show ?thesis
    unfolding b using assms False by (auto simp: current_parts_def components_buildPath real_name_def)
qed (simp add: current_parts_def)

text \<open>What the shell reads a typed path as, from where it stands.\<close>

definition reading :: "string \<Rightarrow> string list \<Rightarrow> string \<Rightarrow> (string \<times> string list option)" where
  "reading v ps typed =
     (if hd typed = slash then (volumeOf typed, walk [] (components (drop (length (volumeOf typed)) typed)))
      else (v, walk ps (components typed)))"

lemma resolve_below:
  assumes v: "v \<in> set kVolumes" and ps: "\<forall>c \<in> set ps. real_name c"
    and t: "typed \<noteq> []" "\<not> hasControlByte typed" "hd typed = slash \<longrightarrow> startsWithVolume typed"
  shows "resolve (below v ps) typed =
    (case reading v ps typed of (_, None) \<Rightarrow> Inl LeavesVolume | (w, Some qs) \<Rightarrow> Inr (below w qs))"
    and "reading v ps typed = (w, Some qs) \<Longrightarrow> w \<in> set kVolumes \<and> (\<forall>c \<in> set qs. real_name c)"
proof -
  have r: "w \<in> set kVolumes \<and> (\<forall>c \<in> set qs. real_name c)" if "reading v ps typed = (w, Some qs)" for w qs
  proof (cases "hd typed = slash")
    case True
    then show ?thesis
      using that volumeOf_typed t(3) walk_real_names [of "[]" _ qs] components_slash_free
      by (fastforce simp: reading_def)
  next
    case False
    then show ?thesis
      using that v ps walk_real_names [of ps _ qs] components_slash_free by (fastforce simp: reading_def)
  qed
  then show "reading v ps typed = (w, Some qs) \<Longrightarrow> w \<in> set kVolumes \<and> (\<forall>c \<in> set qs. real_name c)" .
  have vne: "volumeOf (below v ps) = v" "v \<noteq> []"
    using volumeOf_below [OF v] volume_cases [OF v, of "v \<noteq> []"] by auto
  have cp: "current_parts (drop (length v) (below v ps)) = ps"
    using components_below_rest [OF ps] by (simp add: below_def)
  show "resolve (below v ps) typed =
    (case reading v ps typed of (_, None) \<Rightarrow> Inl LeavesVolume | (w, Some qs) \<Rightarrow> Inr (below w qs))"
  proof (cases "reading v ps typed")
    case (Pair w o')
    have "resolve (below v ps) typed = (case o' of None \<Rightarrow> Inl LeavesVolume
        | Some qs \<Rightarrow> Inr (trimmedSlashes (out_path w qs)))"
      using t Pair vne cp by (auto simp: resolve_def reading_def fold_parts_walk Let_def split: if_splits)
    then show ?thesis
      using r Pair by (cases o') (auto simp: out_path_below trimmed_below)
  qed
qed

lemma resolve_sandboxed:
  assumes "sandboxed cur" and "resolve cur typed = Inr t"
  shows "sandboxed t"
proof -
  obtain v ps where v: "v \<in> set kVolumes" "\<forall>c \<in> set ps. real_name c" "cur = below v ps"
    using assms(1) unfolding sandboxed_def by blast
  show ?thesis
  proof (cases "typed = [] \<or> hasControlByte typed \<or> (hd typed = slash \<and> \<not> startsWithVolume typed)")
    case True
    then show ?thesis
      using assms by (auto simp: resolve_def split: if_splits)
  next
    case False
    note rb = resolve_below [OF v(1,2), of typed]
    obtain w o' where r: "reading v ps typed = (w, o')" by fastforce
    then obtain qs where "o' = Some qs" "t = below w qs"
      using rb(1) assms(2) False unfolding v(3) by (cases o') auto
    then show ?thesis
      using rb(2) [of w qs] r False unfolding sandboxed_def by auto
  qed
qed

lemma changeTo_sandboxed [inv_intros]: "sandboxed cur \<Longrightarrow> sandboxed (snd (changeTo cur typed))"
proof (cases "typed = []")
  case True
  moreover assume "sandboxed cur"
  then obtain v ps where v: "v \<in> set kVolumes" "cur = below v ps"
    unfolding sandboxed_def by blast
  then have "volumeOf cur = v" "v \<noteq> []"
    using volumeOf_below [OF v(1)] volume_cases [OF v(1), of "v \<noteq> []"] by auto
  moreover have "sandboxed v"
    unfolding sandboxed_def using v(1) by (intro bexI [of _ v] exI [of _ "[]"]) simp_all
  ultimately show ?thesis by (simp add: changeTo_def)
next
  case False
  moreover assume "sandboxed cur"
  ultimately show ?thesis
    using resolve_sandboxed [of cur typed] by (simp add: changeTo_def split: sum.splits)
qed

lemma sandboxed_start: "sandboxed (hd kVolumes)"
  unfolding sandboxed_def
  by (rule bexI [of _ "hd kVolumes"], rule exI [of _ "[]"]) (simp_all add: kVolumes_def)

text \<open>The session of the shell is a machine that moves by \<open>cd\<close>.\<close>

inductive cd_step :: "string \<Rightarrow> string \<Rightarrow> bool" where
  "cd_step cur (snd (changeTo cur typed))"

interpretation shell_session: safe_machine "\<lambda>s. s = hd kVolumes" cd_step sandboxed
  by unfold_locales (auto simp: sandboxed_start elim!: cd_step.cases intro: changeTo_sandboxed)

lemma cds_reached: "cd_step\<^sup>*\<^sup>* (hd kVolumes) (cds cmds)"
proof (induction cmds rule: rev_induct)
  case (snoc t ts)
  moreover have "cd_step (cds ts) (cds (ts @ [t]))"
    by (simp add: cds_def cd_step.intros)
  ultimately show ?case by (rule rtranclp.rtrancl_into_rtrancl)
qed (simp add: cds_def)

text \<open>
  C32. Whatever was typed before, the shell stands in a directory of one of the two volumes. A name it
  resolves is again in a volume, and is where the file system itself would get from there with that
  name; it refuses a name for leaving the volume exactly when reading it climbs above the volume's
  root on the way. (\<open>cds\<close> runs a list of \<open>cd\<close> commands; control characters and absolute paths
  outside the volumes are refused beforehand.)
\<close>

theorem shell_confined:
  "sandboxed (cds cmds)
   \<and> (\<forall>t. resolve (cds cmds) typed = Inr t \<longrightarrow> sandboxed t)
   \<and> (\<exists>v ps. v \<in> set kVolumes \<and> cds cmds = below v ps \<and> list_all real_name ps
        \<and> (typed \<noteq> [] \<and> \<not> hasControlByte typed \<and> (hd typed = slash \<longrightarrow> startsWithVolume typed) \<longrightarrow>
             resolve (cds cmds) typed = (case reading v ps typed of
               (_, None) \<Rightarrow> Inl LeavesVolume
             | (w, Some qs) \<Rightarrow> Inr (below w qs))))"
proof -
  have s: "sandboxed (cds cmds)"
    using shell_session.inv_reachable [OF refl cds_reached] .
  then obtain v ps where v: "v \<in> set kVolumes" "\<forall>c \<in> set ps. real_name c" "cds cmds = below v ps"
    unfolding sandboxed_def by blast
  have "list_all real_name ps" using v(2) by (simp add: list_all_iff)
  then show ?thesis
    using s v(1,3) resolve_sandboxed [OF s, of typed] resolve_below(1) [OF v(1,2), of typed] by auto
qed

theorem shell_confined_witness:
  "cds [''logs'', ''/nvs'', ''../..'', ''old/2026''] = ''/fat/logs/old/2026''
   \<and> resolve ''/fat/logs/old/2026'' ''../../../../nvs'' = Inl LeavesVolume
   \<and> resolve ''/fat/logs/old/2026'' ''/fat/../nvs'' = Inl LeavesVolume
   \<and> sandboxed (cds [''logs'', ''/nvs'', ''../..'', ''old/2026''])"
proof -
  have e: "cds [''logs'', ''/nvs'', ''../..'', ''old/2026''] = ''/fat/logs/old/2026''"
    "resolve ''/fat/logs/old/2026'' ''../../../../nvs'' = Inl LeavesVolume"
    "resolve ''/fat/logs/old/2026'' ''/fat/../nvs'' = Inl LeavesVolume"
    by code_simp+
  show ?thesis
    using shell_confined [of "[''logs'', ''/nvs'', ''../..'', ''old/2026'']"] e by blast
qed

end
