(* ===== verification/Vfs.thy ===== *)
theory Vfs
  imports Paths "HOL-Library.AList" "HOL-Library.Sublist"
begin

text \<open>
  The file-system calls the shell and the file manager make, on the volumes underneath. A path text
  names the node its reading (\<open>walk\<close>) leads to; names are compared as they are written. Every call
  can fail: \<open>faults\<close> is what the coming calls will meet (\<open>None\<close>: nothing unusual; at the end of the list
  all further calls go through), so a theorem about every world covers every pattern of
  input/output errors. \<open>dir_faults\<close> is the same for \<open>readdir\<close>, whose failure the callers cannot tell
  from the end of the directory. In the same way \<open>absent\<close> says whether the volume is missing (a card that
  was pulled), \<open>formatting\<close> whether a format owns it, and \<open>cancels\<close> what the operator's stop switch reads
  at the coming polls. \<open>rename\<close> refuses an existing target, as FatFs documents.
\<close>

datatype node = Dir | File "byte list"

datatype errno = ENOENT | EEXIST | ENOTDIR | EISDIR | ENOTEMPTY | EACCES | EPERM | EROFS | ENOSPC | EDQUOT
  | EXDEV | EINVAL | EIO

type_synonym key = "string list"

record world =
  nodes :: "(key \<times> node) list"
  faults :: "errno option list"
  dir_faults :: "bool list"
  absent :: "bool list"
  formatting :: "bool list"
  cancels :: "bool list"

abbreviation node_at :: "world \<Rightarrow> key \<Rightarrow> node option" where
  "node_at w k \<equiv> map_of (nodes w) k"

definition key_of :: "string \<Rightarrow> key option" where
  "key_of p = walk [] (components p)"

definition tick :: "world \<Rightarrow> errno option \<times> world" where
  "tick w = (case faults w of [] \<Rightarrow> (None, w) | f # fs \<Rightarrow> (f, w\<lparr>faults := fs\<rparr>))"

definition dir_tick :: "world \<Rightarrow> bool \<times> world" where
  "dir_tick w = (case dir_faults w of [] \<Rightarrow> (False, w) | f # fs \<Rightarrow> (f, w\<lparr>dir_faults := fs\<rparr>))"

definition absent_tick :: "world \<Rightarrow> bool \<times> world" where
  "absent_tick w = (case absent w of [] \<Rightarrow> (False, w) | f # fs \<Rightarrow> (f, w\<lparr>absent := fs\<rparr>))"

definition formatting_tick :: "world \<Rightarrow> bool \<times> world" where
  "formatting_tick w = (case formatting w of [] \<Rightarrow> (False, w) | f # fs \<Rightarrow> (f, w\<lparr>formatting := fs\<rparr>))"

definition cancel_tick :: "world \<Rightarrow> bool \<times> world" where
  "cancel_tick w = (case cancels w of [] \<Rightarrow> (False, w) | f # fs \<Rightarrow> (f, w\<lparr>cancels := fs\<rparr>))"

text \<open>A call on a path: it meets its fault, or acts on the node the path names.\<close>

definition on_path :: "string \<Rightarrow> (key \<Rightarrow> world \<Rightarrow> (errno + 'a) \<times> world) \<Rightarrow> world \<Rightarrow> (errno + 'a) \<times> world" where
  "on_path p act w =
     (case tick w of
        (Some e, w1) \<Rightarrow> (Inl e, w1)
      | (None, w1) \<Rightarrow> (case key_of p of None \<Rightarrow> (Inl ENOENT, w1) | Some k \<Rightarrow> act k w1))"

definition set_node :: "key \<Rightarrow> node \<Rightarrow> world \<Rightarrow> world" where
  "set_node k n w = w\<lparr>nodes := AList.update k n (nodes w)\<rparr>"

definition del_node :: "key \<Rightarrow> world \<Rightarrow> world" where
  "del_node k w = w\<lparr>nodes := AList.delete k (nodes w)\<rparr>"

definition is_dir :: "world \<Rightarrow> key \<Rightarrow> bool" where
  "is_dir w k \<longleftrightarrow> node_at w k = Some Dir"

definition child_names :: "world \<Rightarrow> key \<Rightarrow> string list" where
  "child_names w k = remdups (map (last \<circ> fst) (filter (\<lambda>(k', _). k' \<noteq> [] \<and> butlast k' = k) (nodes w)))"

section \<open>The calls\<close>

definition sys_stat :: "string \<Rightarrow> world \<Rightarrow> (errno + node) \<times> world" where
  "sys_stat p = on_path p (\<lambda>k w. (case node_at w k of None \<Rightarrow> Inl ENOENT | Some n \<Rightarrow> Inr n, w))"

definition sys_unlink :: "string \<Rightarrow> world \<Rightarrow> (errno + unit) \<times> world" where
  "sys_unlink p = on_path p (\<lambda>k w.
     case node_at w k of
       None \<Rightarrow> (Inl ENOENT, w)
     | Some Dir \<Rightarrow> (Inl EISDIR, w)
     | Some (File _) \<Rightarrow> (Inr (), del_node k w))"

definition sys_rmdir :: "string \<Rightarrow> world \<Rightarrow> (errno + unit) \<times> world" where
  "sys_rmdir p = on_path p (\<lambda>k w.
     case node_at w k of
       None \<Rightarrow> (Inl ENOENT, w)
     | Some (File _) \<Rightarrow> (Inl ENOTDIR, w)
     | Some Dir \<Rightarrow> if child_names w k = [] then (Inr (), del_node k w) else (Inl ENOTEMPTY, w))"

definition sys_mkdir :: "string \<Rightarrow> world \<Rightarrow> (errno + unit) \<times> world" where
  "sys_mkdir p = on_path p (\<lambda>k w.
     if node_at w k \<noteq> None then (Inl EEXIST, w)
     else if k = [] \<or> \<not> is_dir w (butlast k) then (Inl ENOENT, w)
     else (Inr (), set_node k Dir w))"

definition move_keys :: "key \<Rightarrow> key \<Rightarrow> (key \<times> node) list \<Rightarrow> (key \<times> node) list" where
  "move_keys a b = map (\<lambda>(k, n). (if prefix a k then b @ drop (length a) k else k, n))"

definition sys_rename :: "string \<Rightarrow> string \<Rightarrow> world \<Rightarrow> (errno + unit) \<times> world" where
  "sys_rename p q = on_path p (\<lambda>a w.
     case key_of q of
       None \<Rightarrow> (Inl ENOENT, w)
     | Some b \<Rightarrow>
         (case node_at w a of
            None \<Rightarrow> (Inl ENOENT, w)
          | Some n \<Rightarrow>
              if node_at w b \<noteq> None then (Inl EEXIST, w)
              else if length a < 2 \<or> length b < 2 \<or> prefix a b then (Inl EINVAL, w)
              else if hd a \<noteq> hd b then (Inl EXDEV, w)
              else if \<not> is_dir w (butlast b) then (Inl ENOENT, w)
              else (Inr (), (case n of
                               File c \<Rightarrow> set_node b n (del_node a w)
                             | Dir \<Rightarrow> w\<lparr>nodes := move_keys a b (nodes w)\<rparr>))))"

text \<open>\<open>opendir\<close> gives the names of the directory at that moment; \<open>readdir\<close> walks them.\<close>

definition sys_opendir :: "string \<Rightarrow> world \<Rightarrow> (errno + string list) \<times> world" where
  "sys_opendir p = on_path p (\<lambda>k w.
     case node_at w k of
       None \<Rightarrow> (Inl ENOENT, w)
     | Some (File _) \<Rightarrow> (Inl ENOTDIR, w)
     | Some Dir \<Rightarrow> (Inr (child_names w k), w))"

definition fopen_rb :: "string \<Rightarrow> world \<Rightarrow> (errno + key) \<times> world" where
  "fopen_rb p = on_path p (\<lambda>k w.
     case node_at w k of
       None \<Rightarrow> (Inl ENOENT, w)
     | Some Dir \<Rightarrow> (Inl EISDIR, w)
     | Some (File _) \<Rightarrow> (Inr k, w))"

definition fopen_wb :: "string \<Rightarrow> world \<Rightarrow> (errno + key) \<times> world" where
  "fopen_wb p = on_path p (\<lambda>k w.
     case node_at w k of
       Some Dir \<Rightarrow> (Inl EISDIR, w)
     | Some (File _) \<Rightarrow> (Inr k, set_node k (File []) w)
     | None \<Rightarrow> if k = [] \<or> \<not> is_dir w (butlast k) then (Inl ENOENT, w) else (Inr k, set_node k (File []) w))"

definition fopen_ab :: "string \<Rightarrow> world \<Rightarrow> (errno + key) \<times> world" where
  "fopen_ab p = on_path p (\<lambda>k w.
     case node_at w k of
       Some Dir \<Rightarrow> (Inl EISDIR, w)
     | Some (File _) \<Rightarrow> (Inr k, w)
     | None \<Rightarrow> if k = [] \<or> \<not> is_dir w (butlast k) then (Inl ENOENT, w) else (Inr k, set_node k (File []) w))"

text \<open>Reading at a position, appending, and the calls that only report (\<open>fflush\<close>, \<open>fclose\<close>).\<close>

definition content :: "world \<Rightarrow> key \<Rightarrow> byte list" where
  "content w k = (case node_at w k of Some (File c) \<Rightarrow> c | _ \<Rightarrow> [])"

definition fread :: "key \<Rightarrow> nat \<Rightarrow> nat \<Rightarrow> world \<Rightarrow> (errno + byte list) \<times> world" where
  "fread k pos n w =
     (case tick w of (Some e, w1) \<Rightarrow> (Inl e, w1) | (None, w1) \<Rightarrow> (Inr (take n (drop pos (content w1 k))), w1))"

definition fwrite :: "key \<Rightarrow> byte list \<Rightarrow> world \<Rightarrow> (errno + unit) \<times> world" where
  "fwrite k bs w =
     (case tick w of (Some e, w1) \<Rightarrow> (Inl e, w1) | (None, w1) \<Rightarrow> (Inr (), set_node k (File (content w1 k @ bs)) w1))"

definition fsync_call :: "world \<Rightarrow> (errno + unit) \<times> world" where
  "fsync_call w = (case tick w of (Some e, w1) \<Rightarrow> (Inl e, w1) | (None, w1) \<Rightarrow> (Inr (), w1))"

section \<open>What the calls change\<close>

lemma tick_nodes [simp]: "nodes (snd (tick w)) = nodes w" "dir_faults (snd (tick w)) = dir_faults w"
  by (simp_all add: tick_def split: list.splits)

lemma tickD: "tick w = (f, w') \<Longrightarrow> nodes w' = nodes w \<and> dir_faults w' = dir_faults w"
  using tick_nodes by (metis snd_conv)

lemma volume_ticks [simp]:
  "nodes (snd (absent_tick w)) = nodes w" "dir_faults (snd (absent_tick w)) = dir_faults w"
  "nodes (snd (formatting_tick w)) = nodes w" "dir_faults (snd (formatting_tick w)) = dir_faults w"
  "nodes (snd (cancel_tick w)) = nodes w" "dir_faults (snd (cancel_tick w)) = dir_faults w"
  by (simp_all add: absent_tick_def formatting_tick_def cancel_tick_def split: list.splits)

lemma dir_tickD: "dir_tick w = (f, w') \<Longrightarrow> nodes w' = nodes w"
  by (auto simp: dir_tick_def split: list.splits)

lemma dir_tick_quiet: "dir_faults w = [] \<Longrightarrow> dir_tick w = (False, w)"
  by (simp add: dir_tick_def)

lemma node_set_node [simp]: "node_at (set_node k n w) k' = (if k' = k then Some n else node_at w k')"
  by (simp add: set_node_def AList.update_conv')

lemma node_del_node [simp]: "node_at (del_node k w) k' = (if k' = k then None else node_at w k')"
  by (simp add: del_node_def AList.delete_conv')

lemma streams_set_node [simp]:
  "faults (set_node k n w) = faults w" "dir_faults (set_node k n w) = dir_faults w"
  "faults (del_node k w) = faults w" "dir_faults (del_node k w) = dir_faults w"
  by (simp_all add: set_node_def del_node_def)

text \<open>Calls that read only.\<close>

lemma on_path_readonly:
  assumes "\<And>k w. snd (act k w) = w"
  shows "nodes (snd (on_path p act w)) = nodes w" "dir_faults (snd (on_path p act w)) = dir_faults w"
  using assms by (auto simp: on_path_def split: prod.splits option.splits dest!: tickD)

lemma readonly_calls [simp]:
  "nodes (snd (sys_stat p w)) = nodes w" "dir_faults (snd (sys_stat p w)) = dir_faults w"
  "nodes (snd (sys_opendir p w)) = nodes w" "dir_faults (snd (sys_opendir p w)) = dir_faults w"
  "nodes (snd (fopen_rb p w)) = nodes w" "dir_faults (snd (fopen_rb p w)) = dir_faults w"
  unfolding sys_stat_def sys_opendir_def fopen_rb_def
  by (rule on_path_readonly; auto split: option.splits node.splits)+

lemma readonly_transfers [simp]:
  "nodes (snd (fread k pos n w)) = nodes w" "dir_faults (snd (fread k pos n w)) = dir_faults w"
  "nodes (snd (fsync_call w)) = nodes w" "dir_faults (snd (fsync_call w)) = dir_faults w"
  by (auto simp: fread_def fsync_call_def split: prod.splits option.splits dest!: tickD)

lemma on_path_streams:
  "(\<And>k w. dir_faults (snd (act k w)) = dir_faults w) \<Longrightarrow> dir_faults (snd (on_path p act w)) = dir_faults w"
  by (auto simp: on_path_def split: prod.splits option.splits dest!: tickD)

text \<open>Calls that act on one node: everything else stays, and an answer says what was done.\<close>

lemma on_path_frame:
  assumes "\<And>k w. \<forall>k'. k' \<noteq> k \<longrightarrow> node_at (snd (act k w)) k' = node_at w k'"
    and "\<And>k w. dir_faults (snd (act k w)) = dir_faults w"
  shows "key_of p \<noteq> Some k' \<Longrightarrow> node_at (snd (on_path p act w)) k' = node_at w k'"
    and "dir_faults (snd (on_path p act w)) = dir_faults w"
  using assms by (auto simp: on_path_def split: prod.splits option.splits dest!: tickD)

lemma one_node_calls:
  shows unlink_frame: "key_of p \<noteq> Some k' \<Longrightarrow> node_at (snd (sys_unlink p w)) k' = node_at w k'"
    and rmdir_frame: "key_of p \<noteq> Some k' \<Longrightarrow> node_at (snd (sys_rmdir p w)) k' = node_at w k'"
    and mkdir_frame: "key_of p \<noteq> Some k' \<Longrightarrow> node_at (snd (sys_mkdir p w)) k' = node_at w k'"
    and wb_frame: "key_of p \<noteq> Some k' \<Longrightarrow> node_at (snd (fopen_wb p w)) k' = node_at w k'"
    and ab_frame: "key_of p \<noteq> Some k' \<Longrightarrow> node_at (snd (fopen_ab p w)) k' = node_at w k'"
  unfolding sys_unlink_def sys_rmdir_def sys_mkdir_def fopen_wb_def fopen_ab_def
  by (rule on_path_frame(1); auto split: option.splits node.splits)+

lemma one_node_dir_faults [simp]:
  "dir_faults (snd (sys_unlink p w)) = dir_faults w" "dir_faults (snd (sys_rmdir p w)) = dir_faults w"
  "dir_faults (snd (sys_mkdir p w)) = dir_faults w" "dir_faults (snd (fopen_wb p w)) = dir_faults w"
  "dir_faults (snd (fopen_ab p w)) = dir_faults w"
  unfolding sys_unlink_def sys_rmdir_def sys_mkdir_def fopen_wb_def fopen_ab_def
  by (rule on_path_frame(2); auto split: option.splits node.splits)+

lemma fwrite_frame: "k' \<noteq> k \<Longrightarrow> node_at (snd (fwrite k bs w)) k' = node_at w k'"
  and fwrite_dir_faults [simp]: "dir_faults (snd (fwrite k bs w)) = dir_faults w"
  and fwrite_done: "fwrite k bs w = (Inr (), w') \<Longrightarrow> node_at w' k = Some (File (content w k @ bs))"
  by (auto simp: fwrite_def content_def split: prod.splits option.splits if_splits dest!: tickD)

lemma rename_dir_faults [simp]: "dir_faults (snd (sys_rename p q w)) = dir_faults w"
  unfolding sys_rename_def
  by (rule on_path_streams) (auto split: option.splits node.splits)

text \<open>What a successful call found.\<close>

lemma on_path_InrD:
  assumes "on_path p act w = (Inr x, w')"
  shows "\<exists>k w1. key_of p = Some k \<and> nodes w1 = nodes w \<and> dir_faults w1 = dir_faults w \<and> act k w1 = (Inr x, w')"
  using assms by (auto simp: on_path_def split: prod.splits option.splits dest!: tickD)

lemma stat_found: "sys_stat p w = (Inr n, w') \<Longrightarrow> \<exists>k. key_of p = Some k \<and> node_at w k = Some n"
  unfolding sys_stat_def by (auto dest!: on_path_InrD split: option.splits)

lemma opendir_found: "sys_opendir p w = (Inr ns, w') \<Longrightarrow>
    \<exists>k w1. key_of p = Some k \<and> node_at w k = Some Dir \<and> nodes w1 = nodes w \<and> ns = child_names w1 k"
  unfolding sys_opendir_def by (auto dest!: on_path_InrD split: option.splits node.splits)

lemma rb_found: "fopen_rb p w = (Inr k, w') \<Longrightarrow> key_of p = Some k \<and> (\<exists>c. node_at w k = Some (File c))"
  unfolding fopen_rb_def by (auto dest!: on_path_InrD split: option.splits node.splits)

lemma wb_found: "fopen_wb p w = (Inr k, w') \<Longrightarrow> key_of p = Some k \<and> node_at w' k = Some (File [])"
  unfolding fopen_wb_def by (auto dest!: on_path_InrD split: option.splits node.splits if_splits)

lemma child_names_iff: "nm \<in> set (child_names w k) \<longleftrightarrow> node_at w (k @ [nm]) \<noteq> None"
proof -
  have "nm \<in> set (child_names w k) \<longleftrightarrow> (\<exists>k'. k' \<in> fst ` set (nodes w) \<and> k' \<noteq> [] \<and> butlast k' = k \<and> last k' = nm)"
    by (force simp: child_names_def)
  also have "\<dots> \<longleftrightarrow> k @ [nm] \<in> fst ` set (nodes w)"
    by (metis append_butlast_last_id butlast_snoc last_snoc snoc_eq_iff_butlast)
  finally show ?thesis by (simp add: map_of_eq_None_iff)
qed

lemma distinct_child_names [simp]: "distinct (child_names w k)"
  by (simp add: child_names_def)

lemma call_same:
  "sys_stat p w = (r, w') \<Longrightarrow> nodes w' = nodes w \<and> dir_faults w' = dir_faults w"
  "sys_opendir p w = (r', w') \<Longrightarrow> nodes w' = nodes w \<and> dir_faults w' = dir_faults w"
  "fopen_rb p w = (r'', w') \<Longrightarrow> nodes w' = nodes w \<and> dir_faults w' = dir_faults w"
  "fread k pos n w = (r3, w') \<Longrightarrow> nodes w' = nodes w \<and> dir_faults w' = dir_faults w"
  "fsync_call w = (r4, w') \<Longrightarrow> nodes w' = nodes w \<and> dir_faults w' = dir_faults w"
  using readonly_calls readonly_transfers by (metis snd_conv)+

section \<open>Frames\<close>

text \<open>Only the nodes of a set change.\<close>

definition only :: "key set \<Rightarrow> world \<Rightarrow> world \<Rightarrow> bool" where
  "only ks w w' \<longleftrightarrow> (\<forall>k. k \<notin> ks \<longrightarrow> node_at w' k = node_at w k) \<and> dir_faults w' = dir_faults w"

lemma only_refl [simp]: "only ks w w"
  by (simp add: only_def)

lemma only_same: "nodes w' = nodes w \<Longrightarrow> dir_faults w' = dir_faults w \<Longrightarrow> only ks w w'"
  by (simp add: only_def)

lemma only_trans: "only ks w w' \<Longrightarrow> only ks w' w'' \<Longrightarrow> only ks w w''"
  by (simp add: only_def)

lemma only_mono: "only ks w w' \<Longrightarrow> ks \<subseteq> ks' \<Longrightarrow> only ks' w w'"
  by (auto simp: only_def)

lemma only_unlink: "key_of p = Some k \<Longrightarrow> k \<in> ks \<Longrightarrow> only ks w (snd (sys_unlink p w))"
  unfolding only_def by (metis unlink_frame option.inject one_node_dir_faults(1))

text \<open>Nodes at or below a key may go; the others stay.\<close>

definition clean :: "key \<Rightarrow> world \<Rightarrow> bool" where
  "clean base w \<longleftrightarrow> (\<forall>k. prefix base k \<and> node_at w k \<noteq> None \<longrightarrow> (\<forall>c \<in> set k. real_name c))"

lemma clean_child: "clean k w \<Longrightarrow> clean (k @ ks) w"
  unfolding clean_def by (meson append_prefixD)

definition prunes :: "key \<Rightarrow> world \<Rightarrow> world \<Rightarrow> bool" where
  "prunes k w w' \<longleftrightarrow> (\<forall>k'. node_at w' k' = node_at w k' \<or> (prefix k k' \<and> node_at w' k' = None))
     \<and> (dir_faults w = [] \<longrightarrow> dir_faults w' = [])"

lemma prunes_refl [simp]: "prunes k w w"
  by (simp add: prunes_def)

lemma prunes_same: "nodes w' = nodes w \<Longrightarrow> dir_faults w' = dir_faults w \<Longrightarrow> prunes k w w'"
  by (simp add: prunes_def)

lemma prunes_trans: "prunes k w w' \<Longrightarrow> prunes k w' w'' \<Longrightarrow> prunes k w w''"
  unfolding prunes_def by metis

lemma prunes_child: "prunes (k @ [nm]) w w' \<Longrightarrow> prunes k w w'"
  unfolding prunes_def by (meson prefix_order.trans prefixI)

lemma prunes_clean: "prunes k w w' \<Longrightarrow> clean base w \<Longrightarrow> clean base w'"
  unfolding prunes_def clean_def by metis

lemma prunes_del: "nodes w1 = nodes w \<Longrightarrow> dir_faults w1 = dir_faults w \<Longrightarrow> prunes k w (del_node k w1)"
  by (simp add: prunes_def)

lemma unlink_prunes: "key_of p = Some k \<Longrightarrow> prunes k w (snd (sys_unlink p w))"
  unfolding sys_unlink_def on_path_def
  by (auto intro: prunes_same prunes_del split: prod.splits option.splits node.splits dest!: tickD)

lemma rmdir_prunes: "key_of p = Some k \<Longrightarrow> prunes k w (snd (sys_rmdir p w))"
  unfolding sys_rmdir_def on_path_def
  by (auto intro: prunes_same prunes_del split: prod.splits option.splits node.splits dest!: tickD)

lemma key_child: "key_of p = Some k \<Longrightarrow> real_name nm \<Longrightarrow> key_of (p @ slash # nm) = Some (k @ [nm])"
  by (auto simp: key_of_def components_append_slash walk_append components_no_slash real_name_def)

lemma child_real: "clean k w \<Longrightarrow> nm \<in> set (child_names w k) \<Longrightarrow> real_name nm"
  unfolding child_names_iff clean_def by (metis in_set_conv_decomp prefixI)

lemma dir_tick_prunes: "dir_tick w = (f, w') \<Longrightarrow> prunes k w w'"
  by (auto simp: dir_tick_def prunes_def split: list.splits)

end
