(* ===== verification/FileMgr.thy ===== *)
theory FileMgr
  imports Vfs
begin

text \<open>
  The volume side of the file explorer: \<open>src/src/files/FileManager.cpp\<close> with its \<open>FileSink\<close> and \<open>FileSource\<close>. An
  operation finds its volume, passes the path through the one policy (\<open>Paths.normalize\<close>) and then
  makes its file-system calls. Mounting and verifying a medium (\<open>refresh\<close>) is hardware: whether the volume
  answers is read from the world (\<open>absent\<close>, \<open>formatting\<close>); free space is a function the volume provides.
  Texts for the log and the \<open>detail\<close> out-parameters are left out, as are modification times.
\<close>

datatype FileStatus = Ok | InvalidPath | NotFound | NotMounted | AlreadyExists | NotEmpty | Conflict
  | TooLarge | NotText | NoSpace | Busy | IoError | Unsupported

definition httpStatusFor :: "FileStatus \<Rightarrow> nat" where
  "httpStatusFor st =
     (case st of
        Ok \<Rightarrow> 200 | InvalidPath \<Rightarrow> 400 | Unsupported \<Rightarrow> 400 | NotFound \<Rightarrow> 404 | NotMounted \<Rightarrow> 409
      | AlreadyExists \<Rightarrow> 409 | NotEmpty \<Rightarrow> 409 | Conflict \<Rightarrow> 409 | Busy \<Rightarrow> 409 | TooLarge \<Rightarrow> 413
      | NotText \<Rightarrow> 415 | NoSpace \<Rightarrow> 507 | IoError \<Rightarrow> 500)"

record FileEntry =
  fe_name :: string
  fe_isDir :: bool
  fe_size :: u64

text \<open>The registered volumes: mount point of an id, and what \<open>info().freeBytes\<close> reports.\<close>

record vols =
  v_mount :: "string \<Rightarrow> string option"
  v_free :: "string \<Rightarrow> world \<Rightarrow> u64"

definition size_of :: "node \<Rightarrow> u64" where
  "size_of n = (case n of Dir \<Rightarrow> 0 | File c \<Rightarrow> of_nat (length c))"

definition entry_of :: "string \<Rightarrow> node \<Rightarrow> FileEntry" where
  "entry_of nm n = \<lparr>fe_name = nm, fe_isDir = (n = Dir), fe_size = size_of n\<rparr>"

section \<open>Volume and path\<close>

definition resolve_volume :: "vols \<Rightarrow> string \<Rightarrow> world \<Rightarrow> (FileStatus + string) \<times> world" where
  "resolve_volume vs volumeId w =
     (case v_mount vs volumeId of
        None \<Rightarrow> (Inl NotFound, w)
      | Some m \<Rightarrow>
          (case absent_tick w of
             (True, w1) \<Rightarrow> (Inl NotMounted, w1)
           | (False, w1) \<Rightarrow>
               (case formatting_tick w1 of (True, w2) \<Rightarrow> (Inl Busy, w2) | (False, w2) \<Rightarrow> (Inr m, w2))))"

definition absolute :: "string \<Rightarrow> string \<Rightarrow> FileStatus + (string \<times> string)" where
  "absolute mountPoint path =
     (case normalize path of None \<Rightarrow> Inl InvalidPath | Some rel \<Rightarrow> Inr (rel, join mountPoint rel))"

text \<open>The first lines of every operation: \<open>resolve\<close>, then \<open>absolute\<close>.\<close>

definition locate :: "vols \<Rightarrow> string \<Rightarrow> string \<Rightarrow> world \<Rightarrow> (FileStatus + (string \<times> string)) \<times> world" where
  "locate vs volumeId path w =
     (case resolve_volume vs volumeId w of
        (Inl st, w1) \<Rightarrow> (Inl st, w1)
      | (Inr m, w1) \<Rightarrow> (absolute m path, w1))"

definition located :: "vols \<Rightarrow> string \<Rightarrow> string \<Rightarrow> (FileStatus \<Rightarrow> 'r) \<Rightarrow> (string \<Rightarrow> string \<Rightarrow> world \<Rightarrow> 'r \<times> world)
    \<Rightarrow> world \<Rightarrow> 'r \<times> world" where
  "located vs volumeId path err act w =
     (case locate vs volumeId path w of
        (Inl st, w1) \<Rightarrow> (err st, w1)
      | (Inr (rel, full), w1) \<Rightarrow> act rel full w1)"

definition errno_status :: "errno \<Rightarrow> FileStatus" where
  "errno_status e = (if e = ENOENT then NotFound else IoError)"

section \<open>Walking a directory\<close>

text \<open>
  The visitor answers whether to go on and may change the world (a transfer copies from inside the walk);
  \<open>'a\<close> is its own state.
\<close>

fun scan_entries :: "string \<Rightarrow> (FileEntry \<Rightarrow> 'a \<Rightarrow> world \<Rightarrow> bool \<times> 'a \<times> world) \<Rightarrow> string list \<Rightarrow> 'a \<Rightarrow> world \<Rightarrow> 'a \<times> world" where
  "scan_entries full visit [] a w = (a, w)"
| "scan_entries full visit (nm # names) a w =
     (case dir_tick w of
        (True, w1) \<Rightarrow> (a, w1)
      | (False, w1) \<Rightarrow>
          if nm = ''..'' \<or> nm = ''.'' then scan_entries full visit names a w1
          else if isPartName nm then scan_entries full visit names a w1
          else
            (case sys_stat (full @ slash # nm) w1 of
               (r, w2) \<Rightarrow>
                 let e = (case r of Inr n \<Rightarrow> entry_of nm n
                                  | Inl _ \<Rightarrow> \<lparr>fe_name = nm, fe_isDir = False, fe_size = 0\<rparr>) in
                 (case visit e a w2 of
                    (True, a1, w3) \<Rightarrow> scan_entries full visit names a1 w3
                  | (False, a1, w3) \<Rightarrow> (a1, w3))))"

definition scan :: "vols \<Rightarrow> string \<Rightarrow> string \<Rightarrow> (FileEntry \<Rightarrow> 'a \<Rightarrow> world \<Rightarrow> bool \<times> 'a \<times> world) \<Rightarrow> 'a \<Rightarrow> world
    \<Rightarrow> (FileStatus \<times> 'a) \<times> world" where
  "scan vs volumeId path visit a =
     located vs volumeId path (\<lambda>st. (st, a)) (\<lambda>rel full w.
       case sys_stat full w of
         (Inl e, w1) \<Rightarrow> ((errno_status e, a), w1)
       | (Inr n, w1) \<Rightarrow>
           if n \<noteq> Dir then ((InvalidPath, a), w1)
           else (case sys_opendir full w1 of
                   (Inl e, w2) \<Rightarrow> ((errno_status e, a), w2)
                 | (Inr names, w2) \<Rightarrow>
                     (case scan_entries full visit names a w2 of (a1, w3) \<Rightarrow> ((Ok, a1), w3))))"

text \<open>\<open>list\<close>: collect, cap, directories first and then by name without regard to case.\<close>

definition kMaxListEntries :: nat where "kMaxListEntries = 512"

definition tolower :: "char \<Rightarrow> nat" where
  "tolower c = (let n = char_code c in if 65 \<le> n \<and> n \<le> 90 then n + 32 else n)"

fun nameLess :: "string \<Rightarrow> string \<Rightarrow> bool" where
  "nameLess [] b = (b \<noteq> [])"
| "nameLess (x # a) [] = False"
| "nameLess (x # a) (y # b) = (if tolower x \<noteq> tolower y then tolower x < tolower y else nameLess a b)"

definition entryLess :: "FileEntry \<Rightarrow> FileEntry \<Rightarrow> bool" where
  "entryLess a b = (if fe_isDir a \<noteq> fe_isDir b then fe_isDir a else nameLess (fe_name a) (fe_name b))"

primrec insert_entry :: "FileEntry \<Rightarrow> FileEntry list \<Rightarrow> FileEntry list" where
  "insert_entry e [] = [e]"
| "insert_entry e (x # xs) = (if entryLess x e then x # insert_entry e xs else e # x # xs)"

definition collect :: "FileEntry \<Rightarrow> FileEntry list \<Rightarrow> world \<Rightarrow> bool \<times> FileEntry list \<times> world" where
  "collect e entries w = (let es = entries @ [e] in (length es < kMaxListEntries, es, w))"

definition list_dir :: "vols \<Rightarrow> string \<Rightarrow> string \<Rightarrow> world \<Rightarrow> (FileStatus \<times> FileEntry list) \<times> world" where
  "list_dir vs volumeId path w =
     (case scan vs volumeId path collect [] w of
        ((st, es), w1) \<Rightarrow>
          if st \<noteq> Ok then ((st, es), w1)
          else ((Ok, foldr insert_entry es []), w1))"

section \<open>Changing a volume\<close>

definition mkdir :: "vols \<Rightarrow> string \<Rightarrow> string \<Rightarrow> world \<Rightarrow> FileStatus \<times> world" where
  "mkdir vs volumeId path = located vs volumeId path (\<lambda>st. st) (\<lambda>rel full w.
     if rel = [slash] then (AlreadyExists, w)
     else (case sys_mkdir full w of
             (Inl e, w1) \<Rightarrow> (if e = EEXIST then AlreadyExists else IoError, w1)
           | (Inr _, w1) \<Rightarrow> (Ok, w1)))"

definition rename :: "vols \<Rightarrow> string \<Rightarrow> string \<Rightarrow> string \<Rightarrow> world \<Rightarrow> FileStatus \<times> world" where
  "rename vs volumeId src dst w =
     (case resolve_volume vs volumeId w of
        (Inl st, w1) \<Rightarrow> (st, w1)
      | (Inr m, w1) \<Rightarrow>
          (case absolute m src of
             Inl st \<Rightarrow> (st, w1)
           | Inr (relFrom, fullFrom) \<Rightarrow>
               (case absolute m dst of
                  Inl st \<Rightarrow> (st, w1)
                | Inr (relTo, fullTo) \<Rightarrow>
                    if relFrom = [slash] \<or> relTo = [slash] then (InvalidPath, w1)
                    else if prefix (relFrom @ [slash]) relTo then (InvalidPath, w1)
                    else (case sys_stat fullTo w1 of
                            (Inr _, w2) \<Rightarrow> (AlreadyExists, w2)
                          | (Inl _, w2) \<Rightarrow>
                              (case sys_rename fullFrom fullTo w2 of
                                 (Inl e, w3) \<Rightarrow> (errno_status e, w3)
                               | (Inr _, w3) \<Rightarrow> (Ok, w3))))))"

text \<open>
  Depth-first removal. Every level is one component longer than the one above, so no more levels than the
  longest path of the volume can be entered (\<open>depth_bound\<close>).
\<close>

fun removeTree :: "nat \<Rightarrow> string \<Rightarrow> world \<Rightarrow> bool \<times> world"
and removeTrees :: "nat \<Rightarrow> string \<Rightarrow> string list \<Rightarrow> bool \<Rightarrow> world \<Rightarrow> bool \<times> world" where
  "removeTree 0 full w = (False, w)"
| "removeTree (Suc n) full w =
     (case sys_stat full w of
        (Inl _, w1) \<Rightarrow> (False, w1)
      | (Inr nd, w1) \<Rightarrow>
          if nd \<noteq> Dir then (case sys_unlink full w1 of (r, w2) \<Rightarrow> (r = Inr (), w2))
          else (case sys_opendir full w1 of
                  (Inl _, w2) \<Rightarrow> (False, w2)
                | (Inr names, w2) \<Rightarrow>
                    (case removeTrees n full names True w2 of
                       (ok, w3) \<Rightarrow> (case sys_rmdir full w3 of (r, w4) \<Rightarrow> (r = Inr () \<and> ok, w4)))))"
| "removeTrees n full [] ok w = (ok, w)"
| "removeTrees n full (nm # names) ok w =
     (case dir_tick w of
        (True, w1) \<Rightarrow> (ok, w1)
      | (False, w1) \<Rightarrow>
          if nm = ''.'' \<or> nm = ''..'' then removeTrees n full names ok w1
          else (case removeTree n (full @ slash # nm) w1 of
                  (r, w2) \<Rightarrow> removeTrees n full names (ok \<and> r) w2))"

definition depth_bound :: "world \<Rightarrow> nat" where
  "depth_bound w = Suc (fold max (map (length \<circ> fst) (nodes w)) 0)"

definition isDirEmpty :: "string \<Rightarrow> world \<Rightarrow> bool \<times> world" where
  "isDirEmpty full w =
     (case sys_opendir full w of
        (Inl _, w1) \<Rightarrow> (False, w1)
      | (Inr names, w1) \<Rightarrow>
          (case filter (\<lambda>nm. nm \<noteq> ''.'' \<and> nm \<noteq> ''..'') names of
             [] \<Rightarrow> (True, w1)
           | _ \<Rightarrow> (case dir_tick w1 of (fault, w2) \<Rightarrow> (fault, w2))))"

definition remove :: "vols \<Rightarrow> string \<Rightarrow> string \<Rightarrow> bool \<Rightarrow> world \<Rightarrow> FileStatus \<times> world" where
  "remove vs volumeId path recursive = located vs volumeId path (\<lambda>st. st) (\<lambda>rel full w.
     if rel = [slash] then (InvalidPath, w)
     else (case sys_stat full w of
             (Inl e, w1) \<Rightarrow> (errno_status e, w1)
           | (Inr nd, w1) \<Rightarrow>
               if nd = Dir then
                 (if \<not> recursive then
                    (case isDirEmpty full w1 of
                       (False, w2) \<Rightarrow> (NotEmpty, w2)
                     | (True, w2) \<Rightarrow> (case sys_rmdir full w2 of
                                       (Inl _, w3) \<Rightarrow> (IoError, w3) | (Inr _, w3) \<Rightarrow> (Ok, w3)))
                  else (case removeTree (depth_bound w1) full w1 of
                          (False, w2) \<Rightarrow> (IoError, w2) | (True, w2) \<Rightarrow> (Ok, w2)))
               else (case sys_unlink full w1 of
                       (Inl _, w2) \<Rightarrow> (IoError, w2) | (Inr _, w2) \<Rightarrow> (Ok, w2))))"

definition stat_entry :: "vols \<Rightarrow> string \<Rightarrow> string \<Rightarrow> world \<Rightarrow> (FileStatus + FileEntry) \<times> world" where
  "stat_entry vs volumeId path = located vs volumeId path Inl (\<lambda>rel full w.
     if rel = [slash] then (Inl InvalidPath, w)
     else (case sys_stat full w of
             (Inl e, w1) \<Rightarrow> (Inl (errno_status e), w1)
           | (Inr n, w1) \<Rightarrow> (Inr (entry_of (basename rel) n), w1)))"

definition freeBytes :: "vols \<Rightarrow> string \<Rightarrow> world \<Rightarrow> u64 \<times> world" where
  "freeBytes vs volumeId w =
     (case v_mount vs volumeId of
        None \<Rightarrow> (0, w)
      | Some _ \<Rightarrow> (case absent_tick w of (True, w1) \<Rightarrow> (0, w1) | (False, w1) \<Rightarrow> (v_free vs volumeId w1, w1)))"

section \<open>Streams: FileSource and FileSink\<close>

record FileSource =
  src_key :: key
  src_pos :: nat
  src_error :: bool

text \<open>The constructor asks for the size (a failure of that call is ignored) and opens the file.\<close>

definition openRead :: "vols \<Rightarrow> string \<Rightarrow> string \<Rightarrow> world \<Rightarrow> (FileStatus + FileSource) \<times> world" where
  "openRead vs volumeId path = located vs volumeId path Inl (\<lambda>rel full w.
     if rel = [slash] then (Inl InvalidPath, w)
     else (case sys_stat full w of
             (Inl e, w1) \<Rightarrow> (Inl (errno_status e), w1)
           | (Inr n, w1) \<Rightarrow>
               if n = Dir then (Inl InvalidPath, w1)
               else (case fopen_rb full (snd (sys_stat full w1)) of
                       (Inl _, w2) \<Rightarrow> (Inl IoError, w2)
                     | (Inr k, w2) \<Rightarrow> (Inr \<lparr>src_key = k, src_pos = 0, src_error = False\<rparr>, w2))))"

definition source_read :: "nat \<Rightarrow> FileSource \<Rightarrow> world \<Rightarrow> byte list \<times> FileSource \<times> world" where
  "source_read maxLen s w =
     (case fread (src_key s) (src_pos s) maxLen w of
        (Inl _, w1) \<Rightarrow> ([], s\<lparr>src_error := True\<rparr>, w1)
      | (Inr bs, w1) \<Rightarrow> (bs, s\<lparr>src_pos := src_pos s + length bs\<rparr>, w1))"

record FileSink =
  sk_final :: string
  sk_part :: string
  sk_key :: key
  sk_open :: bool
  sk_written :: u64
  sk_committed :: bool
  sk_kept :: bool

definition sink_new :: "string \<Rightarrow> u64 \<Rightarrow> world \<Rightarrow> FileSink \<times> world" where
  "sink_new final initialSize w =
     (let part = final @ kUploadPartSuffix in
      case (if initialSize > 0 then fopen_ab part w else fopen_wb part w) of
        (r, w1) \<Rightarrow> (\<lparr>sk_final = final, sk_part = part, sk_key = (case r of Inr k \<Rightarrow> k | Inl _ \<Rightarrow> []),
                    sk_open = (case r of Inr _ \<Rightarrow> True | Inl _ \<Rightarrow> False),
                    sk_written = initialSize, sk_committed = False, sk_kept = False\<rparr>, w1))"

definition sink_write :: "byte list \<Rightarrow> FileSink \<Rightarrow> world \<Rightarrow> bool \<times> FileSink \<times> world" where
  "sink_write bs s w =
     (if \<not> sk_open s \<or> bs = [] then (sk_open s, s, w)
      else (case fwrite (sk_key s) bs w of
              (Inl _, w1) \<Rightarrow> (False, s, w1)
            | (Inr _, w1) \<Rightarrow> (True, s\<lparr>sk_written := sk_written s + of_nat (length bs)\<rparr>, w1)))"

definition sink_close :: "FileSink \<Rightarrow> world \<Rightarrow> FileSink \<times> world" where
  "sink_close s w = (if \<not> sk_open s then (s, w) else (s\<lparr>sk_open := False\<rparr>, snd (fsync_call w)))"

definition sink_abort :: "FileSink \<Rightarrow> world \<Rightarrow> FileSink \<times> world" where
  "sink_abort s w =
     (case sink_close s w of
        (s1, w1) \<Rightarrow> (s1\<lparr>sk_written := 0\<rparr>, if \<not> sk_committed s1 then snd (sys_unlink (sk_part s1) w1) else w1))"

definition sink_commit :: "FileSink \<Rightarrow> world \<Rightarrow> bool \<times> FileSink \<times> world" where
  "sink_commit s w =
     (if sk_committed s then (True, s, w)
      else if \<not> sk_open s then (False, s, w)
      else (case fsync_call w of
              (Inl _, w1) \<Rightarrow> (case sink_close s w1 of (s1, w2) \<Rightarrow>
                                (case sink_abort s1 w2 of (s2, w3) \<Rightarrow> (False, s2, w3)))
            | (Inr _, w1) \<Rightarrow>
                (case sink_close s w1 of (s1, w2) \<Rightarrow>
                   (let w3 = snd (sys_unlink (sk_final s1) w2) in
                    case sys_rename (sk_part s1) (sk_final s1) w3 of
                      (Inl _, w4) \<Rightarrow> (case sink_abort s1 w4 of (s2, w5) \<Rightarrow> (False, s2, w5))
                    | (Inr _, w4) \<Rightarrow> (True, s1\<lparr>sk_committed := True\<rparr>, w4)))))"

definition sink_keep :: "FileSink \<Rightarrow> world \<Rightarrow> FileSink \<times> world" where
  "sink_keep s w =
     (if sk_committed s \<or> sk_kept s then (s, w)
      else (case sink_close s w of (s1, w1) \<Rightarrow> (s1\<lparr>sk_kept := True\<rparr>, w1)))"

text \<open>The destructor.\<close>

definition sink_delete :: "FileSink \<Rightarrow> world \<Rightarrow> world" where
  "sink_delete s w = (if \<not> sk_committed s \<and> \<not> sk_kept s then snd (sink_abort s w) else w)"

definition createWriter :: "vols \<Rightarrow> string \<Rightarrow> string \<Rightarrow> world \<Rightarrow> (FileStatus + FileSink) \<times> world" where
  "createWriter vs volumeId path = located vs volumeId path Inl (\<lambda>rel full w.
     if rel = [slash] then (Inl InvalidPath, w)
     else (case sys_stat full w of
             (r, w1) \<Rightarrow>
               if r = Inr Dir then (Inl AlreadyExists, w1)
               else (case sink_new full 0 w1 of
                       (s, w2) \<Rightarrow> if \<not> sk_open s then (Inl IoError, sink_delete s w2) else (Inr s, w2))))"

end
