(* ===== verification/FileTransfer.thy ===== *)
theory FileTransfer
  imports FileMgr
begin

text \<open>
  \<open>src/src/files/TransferEngine.cpp\<close>: copying and moving entries between volumes, over the operations of
  \<open>FileMgr\<close>. The report is the one the page shows; the observer's notifications carry no state of their
  own and are left out, its stop switch is \<open>cancel_tick\<close>. A walk is a queue of directories; the loops over
  it carry fuel and answer \<open>None\<close> when it runs out, which the theorems show cannot happen.
\<close>

datatype TransferOp = Copy | Move
datatype TransferConflict = Ask | Overwrite | Skip
datatype TransferPhase = Idle | Measuring | Copying | Done

record TransferRequest =
  rq_op :: TransferOp
  rq_conflict :: TransferConflict
  rq_srcVolume :: string
  rq_paths :: "string list"
  rq_dstVolume :: string
  rq_dstPath :: string

record TransferReport =
  phase :: TransferPhase
  busy :: bool
  finished :: bool
  cancelled :: bool
  instant :: bool
  current :: string
  doneBytes :: u64
  totalBytes :: u64
  neededBytes :: u64
  freeBytesSeen :: u64
  filesDone :: u32
  filesTotal :: u32
  dirsDone :: u32
  dirsTotal :: u32
  skipped :: u32
  failed :: u32
  deleted :: u32
  error :: "(FileStatus \<times> string) option"

definition report0 :: TransferReport where
  "report0 = \<lparr>phase = Idle, busy = False, finished = False, cancelled = False, instant = False, current = [],
     doneBytes = 0, totalBytes = 0, neededBytes = 0, freeBytesSeen = 0, filesDone = 0, filesTotal = 0,
     dirsDone = 0, dirsTotal = 0, skipped = 0, failed = 0, deleted = 0, error = None\<rparr>"

definition kFileChunk :: nat where "kFileChunk = 4096"
definition kFreeSpaceReserve :: u64 where "kFreeSpaceReserve = 4096"

definition joinRel :: "string \<Rightarrow> string \<Rightarrow> string" where
  "joinRel dir nm = (if dir = [slash] then slash # nm else dir @ slash # nm)"

text \<open>The first failure is the one that is reported.\<close>

definition fail :: "string \<Rightarrow> FileStatus \<Rightarrow> TransferReport \<Rightarrow> TransferReport" where
  "fail path st r =
     (let r1 = r\<lparr>failed := failed r + 1\<rparr> in
      if error r1 \<noteq> None then r1 else r1\<lparr>error := Some (st, path)\<rparr>)"

definition cancelRequested :: "TransferReport \<Rightarrow> world \<Rightarrow> bool \<times> TransferReport \<times> world" where
  "cancelRequested r w =
     (case cancel_tick w of (False, w1) \<Rightarrow> (False, r, w1) | (True, w1) \<Rightarrow> (True, r\<lparr>cancelled := True\<rparr>, w1))"

section \<open>Measuring\<close>

record Measure =
  m_bytes :: u64
  m_files :: u32
  m_dirs :: u32

definition measure_visit :: "string \<Rightarrow> FileEntry \<Rightarrow> Measure \<times> string list \<Rightarrow> world \<Rightarrow> bool \<times> (Measure \<times> string list) \<times> world" where
  "measure_visit dir e = (\<lambda>(m, queue) w.
     if fe_isDir e then (True, (m\<lparr>m_dirs := m_dirs m + 1\<rparr>, queue @ [joinRel dir (fe_name e)]), w)
     else (True, (m\<lparr>m_files := m_files m + 1, m_bytes := m_bytes m + fe_size e\<rparr>, queue), w))"

text \<open>\<open>for (i = 0; i < queue.size(); ++i)\<close>: \<open>queue\<close> is what is still ahead.\<close>

fun measure_queue :: "nat \<Rightarrow> vols \<Rightarrow> string \<Rightarrow> Measure \<Rightarrow> string list \<Rightarrow> TransferReport \<Rightarrow> world
    \<Rightarrow> (FileStatus \<times> Measure \<times> TransferReport \<times> world) option" where
  "measure_queue n vs vol m [] r w = Some (Ok, m, r, w)"
| "measure_queue 0 vs vol m (dir # queue) r w = None"
| "measure_queue (Suc n) vs vol m (dir # queue) r w =
     (case scan vs vol dir (measure_visit dir) (m, []) w of
        ((st, (m1, new)), w1) \<Rightarrow>
          if st \<noteq> Ok then Some (st, m1, r\<lparr>current := dir\<rparr>, w1)
          else measure_queue n vs vol m1 (queue @ new) (r\<lparr>current := dir\<rparr>) w1)"

definition queue_fuel :: "world \<Rightarrow> nat" where
  "queue_fuel w = Suc (length (nodes w))"

definition measureEntry :: "vols \<Rightarrow> string \<Rightarrow> string \<Rightarrow> TransferReport \<Rightarrow> world
    \<Rightarrow> (FileStatus \<times> Measure \<times> TransferReport \<times> world) option" where
  "measureEntry vs vol path r w =
     (let m = \<lparr>m_bytes = 0, m_files = 0, m_dirs = 0\<rparr> in
      case stat_entry vs vol path w of
        (Inl st, w1) \<Rightarrow> Some (st, m, r, w1)
      | (Inr e, w1) \<Rightarrow>
          if \<not> fe_isDir e then Some (Ok, m\<lparr>m_files := 1, m_bytes := fe_size e\<rparr>, r, w1)
          else measure_queue (queue_fuel w1) vs vol (m\<lparr>m_dirs := 1\<rparr>) [path] r w1)"

section \<open>Copying one file\<close>

text \<open>
  The loop over the windows of the source; \<open>n\<close> bounds their number. The sink is destroyed when the function
  returns.
\<close>

fun copy_loop :: "nat \<Rightarrow> string \<Rightarrow> FileSource \<Rightarrow> FileSink \<Rightarrow> TransferReport \<Rightarrow> world
    \<Rightarrow> (bool \<times> FileSink \<times> TransferReport \<times> world) option" where
  "copy_loop 0 src i s r w = None"
| "copy_loop (Suc n) src i s r w =
     (case source_read kFileChunk i w of
        (bs, i1, w1) \<Rightarrow>
          if bs = [] then
            (if src_error i1 then (case sink_abort s w1 of (s1, w2) \<Rightarrow> Some (False, s1, fail src IoError r, w2))
             else Some (True, s, r, w1))
          else
            (case sink_write bs s w1 of
               (False, s1, w2) \<Rightarrow> (case sink_abort s1 w2 of (s2, w3) \<Rightarrow> Some (False, s2, fail src IoError r, w3))
             | (True, s1, w2) \<Rightarrow>
                 (case cancelRequested (r\<lparr>doneBytes := doneBytes r + of_nat (length bs)\<rparr>) w2 of
                    (True, r1, w3) \<Rightarrow> (case sink_abort s1 w3 of (s2, w4) \<Rightarrow> Some (False, s2, r1, w4))
                  | (False, r1, w3) \<Rightarrow> copy_loop n src i1 s1 r1 w3)))"

definition enough_space :: "vols \<Rightarrow> TransferRequest \<Rightarrow> string \<Rightarrow> world \<Rightarrow> bool \<times> world" where
  "enough_space vs rq src w =
     (case stat_entry vs (rq_srcVolume rq) src w of
        (Inl _, w1) \<Rightarrow> (True, w1)
      | (Inr e, w1) \<Rightarrow>
          if fe_isDir e then (True, w1)
          else (case freeBytes vs (rq_dstVolume rq) w1 of
                  (free, w2) \<Rightarrow> (\<not> free < fe_size e + kFreeSpaceReserve, w2)))"

definition copyFile :: "vols \<Rightarrow> TransferRequest \<Rightarrow> string \<Rightarrow> string \<Rightarrow> TransferReport \<Rightarrow> world
    \<Rightarrow> (bool \<times> TransferReport \<times> world) option" where
  "copyFile vs rq src dst r w =
     (case enough_space vs rq src w of
        (False, w1) \<Rightarrow> Some (False, fail src NoSpace r, w1)
      | (True, w1) \<Rightarrow>
          (case openRead vs (rq_srcVolume rq) src w1 of
             (Inl st, w2) \<Rightarrow> Some (False, fail src st r, w2)
           | (Inr i, w2) \<Rightarrow>
               (case createWriter vs (rq_dstVolume rq) dst w2 of
                  (Inl st, w3) \<Rightarrow> Some (False, fail src st r, w3)
                | (Inr s, w3) \<Rightarrow>
                    (case copy_loop (Suc (length (content w3 (src_key i)))) src i s r w3 of
                       None \<Rightarrow> None
                     | Some (False, s1, r1, w4) \<Rightarrow> Some (False, r1, sink_delete s1 w4)
                     | Some (True, s1, r1, w4) \<Rightarrow>
                         (case sink_commit s1 w4 of
                            (False, s2, w5) \<Rightarrow>
                              (case sink_abort s2 w5 of
                                 (s3, w6) \<Rightarrow> Some (False, fail src IoError r1, sink_delete s3 w6))
                          | (True, s2, w5) \<Rightarrow>
                              Some (True, r1\<lparr>filesDone := filesDone r1 + 1\<rparr>, sink_delete s2 w5))))))"

section \<open>Copying a tree\<close>

type_synonym tree_state = "(string \<times> string) list \<times> bool \<times> TransferReport"

definition tree_visit :: "vols \<Rightarrow> TransferRequest \<Rightarrow> string \<Rightarrow> string \<Rightarrow> FileEntry \<Rightarrow> tree_state option \<Rightarrow> world
    \<Rightarrow> bool \<times> tree_state option \<times> world" where
  "tree_visit vs rq src dst e st w =
     (case st of
        None \<Rightarrow> (False, None, w)
      | Some (queue, ok, r) \<Rightarrow>
          (let srcChild = joinRel src (fe_name e) in
           case normalizeChild dst (fe_name e) of
             None \<Rightarrow> (True, Some (queue, False, fail srcChild InvalidPath r), w)
           | Some dstChild \<Rightarrow>
               if fe_isDir e then
                 (case mkdir vs (rq_dstVolume rq) dstChild w of
                    (s, w1) \<Rightarrow>
                      if s \<noteq> Ok \<and> s \<noteq> AlreadyExists then (True, Some (queue, False, fail srcChild s r), w1)
                      else (True, Some (queue @ [(srcChild, dstChild)], ok, r\<lparr>dirsDone := dirsDone r + 1\<rparr>), w1))
               else
                 (case copyFile vs rq srcChild dstChild (r\<lparr>current := srcChild\<rparr>) w of
                    None \<Rightarrow> (False, None, w)
                  | Some (done, r1, w1) \<Rightarrow> (True, Some (queue, ok \<and> done, r1), w1))))"

fun copy_queue :: "nat \<Rightarrow> vols \<Rightarrow> TransferRequest \<Rightarrow> (string \<times> string) list \<Rightarrow> bool \<Rightarrow> TransferReport \<Rightarrow> world
    \<Rightarrow> (bool \<times> TransferReport \<times> world) option" where
  "copy_queue n vs rq [] ok r w = Some (ok, r, w)"
| "copy_queue 0 vs rq (p # queue) ok r w = None"
| "copy_queue (Suc n) vs rq ((srcDir, dstDir) # queue) ok r w =
     (if cancelled r then Some (False, r, w)
      else (case scan vs (rq_srcVolume rq) srcDir (tree_visit vs rq srcDir dstDir) (Some ([], True, r)) w of
              ((st, a), w1) \<Rightarrow>
                (case a of
                   None \<Rightarrow> None
                 | Some (new, vok, r1) \<Rightarrow>
                     if st \<noteq> Ok then copy_queue n vs rq queue False (fail srcDir st r1) w1
                     else copy_queue n vs rq (queue @ new) (ok \<and> vok) r1 w1)))"

definition copyEntry :: "vols \<Rightarrow> TransferRequest \<Rightarrow> string \<Rightarrow> string \<Rightarrow> bool \<Rightarrow> TransferReport \<Rightarrow> world
    \<Rightarrow> (bool \<times> TransferReport \<times> world) option" where
  "copyEntry vs rq srcTop dstTop srcIsDir r w =
     (if \<not> srcIsDir then copyFile vs rq srcTop dstTop (r\<lparr>current := srcTop\<rparr>) w
      else copy_queue (queue_fuel w) vs rq [(srcTop, dstTop)] True r w)"

section \<open>Checking a request\<close>

definition dir_probe :: "FileEntry \<Rightarrow> unit \<Rightarrow> world \<Rightarrow> bool \<times> unit \<times> world" where
  "dir_probe e a w = (False, a, w)"

fun validate_paths :: "vols \<Rightarrow> TransferRequest \<Rightarrow> string \<Rightarrow> string list \<Rightarrow> world \<Rightarrow> FileStatus \<times> world" where
  "validate_paths vs rq dstDir [] w =
     (case scan vs (rq_dstVolume rq) dstDir dir_probe () w of ((st, _), w1) \<Rightarrow> (st, w1))"
| "validate_paths vs rq dstDir (raw # raws) w =
     (case normalize raw of
        None \<Rightarrow> (InvalidPath, w)
      | Some path \<Rightarrow>
          if path = [slash] then (InvalidPath, w)
          else (case stat_entry vs (rq_srcVolume rq) path w of
                  (Inl st, w1) \<Rightarrow> (st, w1)
                | (Inr _, w1) \<Rightarrow>
                    if rq_srcVolume rq = rq_dstVolume rq \<and> dstDir = parent path then (InvalidPath, w1)
                    else if rq_srcVolume rq = rq_dstVolume rq \<and> prefix (path @ [slash]) dstDir then (InvalidPath, w1)
                    else validate_paths vs rq dstDir raws w1))"

definition validate :: "vols \<Rightarrow> TransferRequest \<Rightarrow> world \<Rightarrow> FileStatus \<times> world" where
  "validate vs rq w =
     (if rq_paths rq = [] then (InvalidPath, w)
      else if rq_srcVolume rq = [] \<or> rq_dstVolume rq = [] then (InvalidPath, w)
      else case normalize (rq_dstPath rq) of
             None \<Rightarrow> (InvalidPath, w)
           | Some dstDir \<Rightarrow> validate_paths vs rq dstDir (rq_paths rq) w)"

fun conflict_names :: "vols \<Rightarrow> TransferRequest \<Rightarrow> string \<Rightarrow> string list \<Rightarrow> world \<Rightarrow> string list \<times> world" where
  "conflict_names vs rq dstDir [] w = ([], w)"
| "conflict_names vs rq dstDir (raw # raws) w =
     (case normalize raw of
        None \<Rightarrow> conflict_names vs rq dstDir raws w
      | Some path \<Rightarrow>
          (case normalizeChild dstDir (basename path) of
             None \<Rightarrow> conflict_names vs rq dstDir raws w
           | Some target \<Rightarrow>
               (case stat_entry vs (rq_dstVolume rq) target w of
                  (Inl _, w1) \<Rightarrow> conflict_names vs rq dstDir raws w1
                | (Inr _, w1) \<Rightarrow>
                    (case conflict_names vs rq dstDir raws w1 of (ns, w2) \<Rightarrow> (basename path # ns, w2)))))"

definition conflicts :: "vols \<Rightarrow> TransferRequest \<Rightarrow> world \<Rightarrow> (FileStatus \<times> string list) \<times> world" where
  "conflicts vs rq w =
     (case validate vs rq w of
        (st, w1) \<Rightarrow>
          if st \<noteq> Ok then ((st, []), w1)
          else case normalize (rq_dstPath rq) of
                 None \<Rightarrow> ((Ok, []), w1)
               | Some dstDir \<Rightarrow> (case conflict_names vs rq dstDir (rq_paths rq) w1 of (ns, w2) \<Rightarrow> ((Ok, ns), w2)))"

section \<open>Running a transfer\<close>

definition finishReport :: "TransferReport \<Rightarrow> TransferReport" where
  "finishReport r = r\<lparr>busy := False, finished := True, phase := Done, current := []\<rparr>"

text \<open>
  A move inside one volume. \<open>entry\<close> of the code is what was found at the target, so its \<open>isDir\<close> is
  false when the name was free.
\<close>

definition move_one :: "vols \<Rightarrow> TransferRequest \<Rightarrow> string \<Rightarrow> string \<Rightarrow> TransferReport \<Rightarrow> world
    \<Rightarrow> TransferReport \<times> world" where
  "move_one vs rq src target r w =
     (case rename vs (rq_srcVolume rq) src target w of
        (st, w1) \<Rightarrow>
          if st \<noteq> Ok then (fail src st r, w1)
          else (r\<lparr>deleted := deleted r + 1, filesDone := filesDone r + 1\<rparr>, w1))"

fun runInstant :: "vols \<Rightarrow> TransferRequest \<Rightarrow> string \<Rightarrow> string list \<Rightarrow> TransferReport \<Rightarrow> world \<Rightarrow> TransferReport \<times> world" where
  "runInstant vs rq dstDir [] r w = (r, w)"
| "runInstant vs rq dstDir (raw # raws) r w =
     (case cancelRequested r w of
        (True, r1, w1) \<Rightarrow> (r1, w1)
      | (False, r1, w1) \<Rightarrow>
          (case normalize raw of
             None \<Rightarrow> runInstant vs rq dstDir raws r1 w1
           | Some src \<Rightarrow>
               (case normalizeChild dstDir (basename src) of
                  None \<Rightarrow> runInstant vs rq dstDir raws (fail src InvalidPath r1) w1
                | Some target \<Rightarrow>
                    (case stat_entry vs (rq_srcVolume rq) target w1 of
                       (Inl _, w2) \<Rightarrow>
                         (case move_one vs rq src target r1 w2 of
                            (r2, w3) \<Rightarrow> runInstant vs rq dstDir raws r2 w3)
                     | (Inr e, w2) \<Rightarrow>
                         if fe_isDir e then runInstant vs rq dstDir raws (fail src AlreadyExists r1) w2
                         else if rq_conflict rq = Skip then
                           runInstant vs rq dstDir raws (r1\<lparr>skipped := skipped r1 + 1\<rparr>) w2
                         else
                           (case remove vs (rq_srcVolume rq) target False w2 of
                              (st, w3) \<Rightarrow>
                                if st \<noteq> Ok then runInstant vs rq dstDir raws (fail src st r1) w3
                                else (case move_one vs rq src target r1 w3 of
                                        (r2, w4) \<Rightarrow> runInstant vs rq dstDir raws r2 w4))))))"

text \<open>The measuring pass: what has to fit before the first byte is written.\<close>

definition will_skip :: "vols \<Rightarrow> TransferRequest \<Rightarrow> string \<Rightarrow> string \<Rightarrow> world \<Rightarrow> bool \<times> world" where
  "will_skip vs rq dstDir path w =
     (case normalizeChild dstDir (basename path) of
        None \<Rightarrow> (False, w)
      | Some target \<Rightarrow>
          if rq_conflict rq = Skip then
            (case stat_entry vs (rq_dstVolume rq) target w of (Inl _, w1) \<Rightarrow> (False, w1) | (Inr _, w1) \<Rightarrow> (True, w1))
          else (False, w))"

fun measure_pass :: "vols \<Rightarrow> TransferRequest \<Rightarrow> string \<Rightarrow> string list \<Rightarrow> TransferReport \<Rightarrow> world
    \<Rightarrow> (TransferReport \<times> world) option" where
  "measure_pass vs rq dstDir [] r w = Some (r, w)"
| "measure_pass vs rq dstDir (raw # raws) r w =
     (case normalize raw of
        None \<Rightarrow> measure_pass vs rq dstDir raws r w
      | Some path \<Rightarrow>
          (case will_skip vs rq dstDir path w of
             (True, w1) \<Rightarrow> measure_pass vs rq dstDir raws r w1
           | (False, w1) \<Rightarrow>
               (case measureEntry vs (rq_srcVolume rq) path r w1 of
                  None \<Rightarrow> None
                | Some (st, m, r1, w2) \<Rightarrow>
                    if st \<noteq> Ok then measure_pass vs rq dstDir raws (fail path st r1) w2
                    else measure_pass vs rq dstDir raws
                      (r1\<lparr>totalBytes := totalBytes r1 + m_bytes m, filesTotal := filesTotal r1 + m_files m,
                          dirsTotal := dirsTotal r1 + m_dirs m\<rparr>) w2)))"

text \<open>One entry of the copying pass; the flag says whether the loop goes on.\<close>

definition finish_entry :: "vols \<Rightarrow> TransferRequest \<Rightarrow> string \<Rightarrow> bool \<Rightarrow> bool \<Rightarrow> TransferReport \<Rightarrow> world
    \<Rightarrow> bool \<times> TransferReport \<times> world" where
  "finish_entry vs rq path isDir complete r w =
     (if cancelled r then (False, r, w)
      else let r1 = r\<lparr>current := path\<rparr> in
        if \<not> complete then (True, r1, w)
        else if rq_op rq = Move then
          (case remove vs (rq_srcVolume rq) path isDir w of
             (st, w1) \<Rightarrow>
               if st \<noteq> Ok then (True, fail path st r1, w1)
               else (True, r1\<lparr>deleted := deleted r1 + 1\<rparr>, w1))
        else (True, r1, w))"

definition transfer_entry :: "vols \<Rightarrow> TransferRequest \<Rightarrow> string \<Rightarrow> string \<Rightarrow> FileEntry \<Rightarrow> TransferReport \<Rightarrow> world
    \<Rightarrow> (bool \<times> TransferReport \<times> world) option" where
  "transfer_entry vs rq path target srcEntry r w =
     (let go = (\<lambda>r w. case copyEntry vs rq path target (fe_isDir srcEntry) r w of
                        None \<Rightarrow> None
                      | Some (complete, r1, w1) \<Rightarrow>
                          Some (finish_entry vs rq path (fe_isDir srcEntry) complete r1 w1)) in
      if fe_isDir srcEntry then
        (case mkdir vs (rq_dstVolume rq) target w of
           (st, w1) \<Rightarrow>
             if st \<noteq> Ok \<and> st \<noteq> AlreadyExists then Some (True, fail path st r, w1)
             else go (if st = Ok then r\<lparr>dirsDone := dirsDone r + 1\<rparr> else r) w1)
      else go r w)"

fun copy_pass :: "vols \<Rightarrow> TransferRequest \<Rightarrow> string \<Rightarrow> string list \<Rightarrow> TransferReport \<Rightarrow> world
    \<Rightarrow> (TransferReport \<times> world) option" where
  "copy_pass vs rq dstDir [] r w = Some (r, w)"
| "copy_pass vs rq dstDir (raw # raws) r w =
     (if cancelled r then Some (r, w)
      else case normalize raw of
        None \<Rightarrow> copy_pass vs rq dstDir raws r w
      | Some path \<Rightarrow>
          (case normalizeChild dstDir (basename path) of
             None \<Rightarrow> copy_pass vs rq dstDir raws (fail path InvalidPath r) w
           | Some target \<Rightarrow>
               (case stat_entry vs (rq_srcVolume rq) path w of
                  (Inl _, w1) \<Rightarrow> copy_pass vs rq dstDir raws (fail path NotFound r) w1
                | (Inr srcEntry, w1) \<Rightarrow>
                    (case stat_entry vs (rq_dstVolume rq) target w1 of
                       (dst, w2) \<Rightarrow>
                         if \<not> isl dst \<and> rq_conflict rq = Skip then
                           copy_pass vs rq dstDir raws (r\<lparr>skipped := skipped r + 1\<rparr>) w2
                         else if \<not> isl dst \<and> fe_isDir srcEntry \<and> \<not> fe_isDir (projr dst) then
                           copy_pass vs rq dstDir raws (fail path AlreadyExists r) w2
                         else
                           (case transfer_entry vs rq path target srcEntry r w2 of
                              None \<Rightarrow> None
                            | Some (False, r1, w3) \<Rightarrow> Some (r1, w3)
                            | Some (True, r1, w3) \<Rightarrow> copy_pass vs rq dstDir raws r1 w3)))))"

definition run :: "vols \<Rightarrow> TransferRequest \<Rightarrow> world \<Rightarrow> (TransferReport \<times> world) option" where
  "run vs rq w =
     (let r = report0\<lparr>busy := True, phase := Measuring\<rparr> in
      case validate vs rq w of
        (valid, w1) \<Rightarrow>
          if valid \<noteq> Ok then Some (finishReport (fail (rq_dstPath rq) valid r), w1)
          else case normalize (rq_dstPath rq) of
            None \<Rightarrow> None
          | Some dstDir \<Rightarrow>
              if rq_op rq = Move \<and> rq_srcVolume rq = rq_dstVolume rq then
                (case runInstant vs rq dstDir (rq_paths rq) (r\<lparr>instant := True\<rparr>) w1 of
                   (r1, w2) \<Rightarrow> Some (finishReport r1, w2))
              else
                (case measure_pass vs rq dstDir (rq_paths rq) r w1 of
                   None \<Rightarrow> None
                 | Some (r1, w2) \<Rightarrow>
                     (case freeBytes vs (rq_dstVolume rq) w2 of
                        (free, w3) \<Rightarrow>
                          (let r2 = r1\<lparr>neededBytes := totalBytes r1, freeBytesSeen := free\<rparr> in
                           if freeBytesSeen r2 < neededBytes r2 + kFreeSpaceReserve
                           then Some (finishReport (fail dstDir NoSpace r2), w3)
                           else
                             (case copy_pass vs rq dstDir (rq_paths rq) (r2\<lparr>phase := Copying\<rparr>) w3 of
                                None \<Rightarrow> None
                              | Some (r3, w4) \<Rightarrow> Some (finishReport r3, w4))))))"

end
