(* ===== verification/FileSafe.thy ===== *)
theory FileSafe
  imports FileTransfer
begin

text \<open>
  What the operations of the file manager do to the volumes: which nodes each of them can change, what
  a success means, and that the others change nothing. The contract of the sink is that only its file and
  its temporary file are touched and that a commit that succeeds publishes exactly what was written.
\<close>

section \<open>Keys\<close>

definition part_key :: "key \<Rightarrow> key" where
  "part_key k = butlast k @ [last k @ kUploadPartSuffix]"

lemma part_key_neq [simp]: "k \<noteq> [] \<Longrightarrow> part_key k \<noteq> k"
  by (metis append_butlast_last_id kUploadPartSuffix_def last_snoc part_key_def self_append_conv list.distinct(1))

lemma part_key_neq' [simp]: "k \<noteq> [] \<Longrightarrow> k \<noteq> part_key k"
  using part_key_neq by metis

lemma isPartName_append [simp]: "x \<noteq> [] \<Longrightarrow> isPartName (x @ kUploadPartSuffix)"
  by (simp add: isPartName_def)

lemma valid_not_part: "isValidName x \<Longrightarrow> \<not> isPartName x"
  by (auto simp: isValidName_def split: if_splits)

lemma real_part_name: "real_name x \<Longrightarrow> real_name (x @ kUploadPartSuffix)"
  by (auto simp: real_name_def kUploadPartSuffix_def append_eq_Cons_conv)

lemma normalize_named: "normalize raw = Some p \<Longrightarrow> named p = named raw \<and> list_all isValidName (named raw)"
  using named_normalized normalize_eq by blast

lemma normalize_root_iff: "normalize raw = Some p \<Longrightarrow> p = [slash] \<longleftrightarrow> named raw = []"
proof -
  assume n: "normalize raw = Some p"
  then have p: "p = buildPath (named raw)" and v: "list_all isValidName (named raw)"
    by (simp_all add: normalize_eq)
  show ?thesis
  proof
    assume "p = [slash]"
    then have "named p = []" by simp
    then show "named raw = []" using normalize_named [OF n] by metis
  next
    assume "named raw = []"
    then show "p = [slash]" unfolding p by (simp only: buildPath_def) simp
  qed
qed

lemma key_join: "key_of m = Some ms \<Longrightarrow> list_all isValidName (named p) \<Longrightarrow> key_of (join m p) = Some (ms @ named p)"
  unfolding key_of_def using walk_join [of m ms p] walk_valid [of p ms] by simp

lemma join_append: "p = slash # t \<Longrightarrow> t \<noteq> [] \<Longrightarrow> join m (p @ z) = join m p @ z"
  by (simp add: join_def)

lemma join_part:
  assumes "normalize raw = Some p" and ne: "named raw \<noteq> []"
  shows "join m p @ kUploadPartSuffix = join m (buildPath (part_key (named raw)))"
proof -
  obtain ini x where s: "named raw = ini @ [x]" using ne by (metis rev_exhaust)
  have p: "p = buildPath (ini @ [x])" using assms(1) s by (metis normalize_eq)
  have x: "x \<noteq> []"
    using arg_cong [OF s, of "\<lambda>xs. x \<in> set xs"] by simp
  obtain t where t: "buildPath (ini @ [x]) = slash # t" "t \<noteq> []"
    using x by (cases ini) (auto simp: buildPath_def Let_def)
  have "buildPath (part_key (named raw)) = buildPath (ini @ [x]) @ kUploadPartSuffix"
    unfolding s part_key_def by (simp add: buildPath_def Let_def)
  then show ?thesis
    unfolding p using join_append [OF t, of m] by simp
qed

lemma key_join_part:
  assumes n: "normalize raw = Some p" and ne: "named raw \<noteq> []" and m: "key_of m = Some ms"
  shows "key_of (join m p @ kUploadPartSuffix) = Some (part_key (ms @ named raw))"
proof -
  obtain ini x where s: "named raw = ini @ [x]" using ne by (metis rev_exhaust)
  have v: "list_all isValidName (ini @ [x])" using n s by (metis normalize_eq)
  then have r: "\<forall>c \<in> set (ini @ [x @ kUploadPartSuffix]). real_name c"
    using valid_names_real [OF v] real_part_name by auto
  have "walk ms (components (buildPath (ini @ [x @ kUploadPartSuffix]))) = Some (ms @ ini @ [x @ kUploadPartSuffix])"
    using walk_names [OF r, of ms] walk_filter [of ms "components (buildPath (ini @ [x @ kUploadPartSuffix]))"]
      named_buildPath [OF r] by simp
  then show ?thesis
    unfolding join_part [OF n ne] s using walk_join [of m ms] m
    by (simp add: key_of_def part_key_def s butlast_append)
qed

section \<open>Finding the volume and the path\<close>

lemma resolve_volume_streams [simp]:
  "nodes (snd (resolve_volume vs v w)) = nodes w" "dir_faults (snd (resolve_volume vs v w)) = dir_faults w"
proof -
  have "nodes (snd (resolve_volume vs v w)) = nodes w \<and> dir_faults (snd (resolve_volume vs v w)) = dir_faults w"
    by (auto simp: resolve_volume_def absent_tick_def formatting_tick_def split: option.splits list.splits bool.splits)
  then show "nodes (snd (resolve_volume vs v w)) = nodes w" "dir_faults (snd (resolve_volume vs v w)) = dir_faults w"
    by simp_all
qed

lemma located_cases:
  assumes "located vs v path err act w = (res, w')"
  obtains (err) st w1 where "st \<noteq> Ok" "res = err st" "w' = w1" "nodes w1 = nodes w" "dir_faults w1 = dir_faults w"
  | (act) m rel w1 where "v_mount vs v = Some m" "normalize path = Some rel" "nodes w1 = nodes w"
      "dir_faults w1 = dir_faults w" "act rel (join m rel) w1 = (res, w')"
proof -
  obtain r w1 where rv: "resolve_volume vs v w = (r, w1)" by fastforce
  have same: "nodes w1 = nodes w" "dir_faults w1 = dir_faults w"
    using resolve_volume_streams [of vs v w] by (simp_all add: rv)
  show ?thesis
  proof (cases r)
    case (Inl st)
    then have "st \<noteq> Ok"
      using rv by (auto simp: resolve_volume_def split: option.splits prod.splits bool.splits)
    then show ?thesis
      using assms rv same err Inl by (auto simp: located_def locate_def)
  next
    case (Inr m)
    have m: "v_mount vs v = Some m"
      using rv Inr by (auto simp: resolve_volume_def split: option.splits prod.splits bool.splits)
    show ?thesis
    proof (cases "normalize path")
      case None
      then show ?thesis
        using assms rv same Inr err [of InvalidPath w1] by (simp add: located_def locate_def absolute_def)
    next
      case (Some rel)
      then show ?thesis
        using assms rv same Inr m act [OF m Some same] by (simp add: located_def locate_def absolute_def)
    qed
  qed
qed

section \<open>Operations that only read\<close>

lemma stat_entry_same: "stat_entry vs v path w = (r, w') \<Longrightarrow> nodes w' = nodes w \<and> dir_faults w' = dir_faults w"
  unfolding stat_entry_def
  by (erule located_cases) (auto split: if_splits prod.splits sum.splits dest!: call_same)

lemma stat_entry_found:
  assumes "stat_entry vs v path w = (Inr e, w')" and "v_mount vs v = Some m" "key_of m = Some ms"
  shows "\<exists>n. node_at w (ms @ named path) = Some n \<and> fe_isDir e = (n = Dir) \<and> fe_size e = size_of n"
    and "named path \<noteq> []" "normalize path \<noteq> None"
proof -
  obtain rel w1 where n: "normalize path = Some rel" and w1: "nodes w1 = nodes w" and rel: "rel \<noteq> [slash]"
    and st: "\<exists>n. sys_stat (join m rel) w1 = (Inr n, w') \<and> e = entry_of (basename rel) n"
  proof (rule located_cases [OF assms(1) [unfolded stat_entry_def]])
    fix m' rel w1
    assume "v_mount vs v = Some m'" "normalize path = Some rel" "nodes w1 = nodes w"
      and "(if rel = [slash] then (Inl InvalidPath, w1)
            else case sys_stat (join m' rel) w1 of
              (Inl e, w1) \<Rightarrow> (Inl (errno_status e), w1)
            | (Inr n, w1) \<Rightarrow> (Inr (entry_of (basename rel) n), w1)) = (Inr e, w')"
    then show ?thesis
      using that [of rel w1] assms(2) by (auto split: if_splits prod.splits sum.splits)
  qed simp
  have k: "key_of (join m rel) = Some (ms @ named path)"
    using key_join [OF assms(3), of rel] normalize_named [OF n] by simp
  show "\<exists>n. node_at w (ms @ named path) = Some n \<and> fe_isDir e = (n = Dir) \<and> fe_size e = size_of n"
    using st stat_found k w1 by (fastforce simp: entry_of_def)
  show "named path \<noteq> []" "normalize path \<noteq> None"
    using normalize_root_iff [OF n] rel n by auto
qed

lemma openRead_same: "openRead vs v path w = (r, w') \<Longrightarrow> nodes w' = nodes w \<and> dir_faults w' = dir_faults w"
  unfolding openRead_def
  by (erule located_cases) (auto split: if_splits prod.splits sum.splits dest!: call_same)

lemma openRead_found:
  assumes "openRead vs v path w = (Inr i, w')" and "v_mount vs v = Some m" "key_of m = Some ms"
  shows "\<exists>c. node_at w (ms @ named path) = Some (File c)"
    and "src_key i = ms @ named path" "src_pos i = 0" "\<not> src_error i" "normalize path \<noteq> None"
proof -
  obtain rel and w1 w2 :: world where n: "normalize path = Some rel" and w1: "nodes w1 = nodes w" "nodes w2 = nodes w1"
    and i: "\<exists>k w3. fopen_rb (join m rel) w2 = (Inr k, w3) \<and> i = \<lparr>src_key = k, src_pos = 0, src_error = False\<rparr>"
  proof (rule located_cases [OF assms(1) [unfolded openRead_def]])
    fix m' rel w1
    assume "v_mount vs v = Some m'" "normalize path = Some rel" "nodes w1 = nodes w"
      and "(if rel = [slash] then (Inl InvalidPath, w1)
            else case sys_stat (join m' rel) w1 of
              (Inl e, w1) \<Rightarrow> (Inl (errno_status e), w1)
            | (Inr n, w1) \<Rightarrow>
               if n = Dir then (Inl InvalidPath, w1)
               else (case fopen_rb (join m' rel) (snd (sys_stat (join m' rel) w1)) of
                       (Inl _, w2) \<Rightarrow> (Inl IoError, w2)
                     | (Inr k, w2) \<Rightarrow> (Inr \<lparr>src_key = k, src_pos = 0, src_error = False\<rparr>, w2))) = (Inr i, w')"
    then show ?thesis
      using that [of rel w1 "snd (sys_stat (join m rel) (snd (sys_stat (join m rel) w1)))"] assms(2)
      by (auto split: if_splits prod.splits sum.splits dest!: call_same(1))
  qed simp
  have k: "key_of (join m rel) = Some (ms @ named path)"
    using key_join [OF assms(3), of rel] normalize_named [OF n] by simp
  show "\<exists>c. node_at w (ms @ named path) = Some (File c)" "src_key i = ms @ named path"
      "src_pos i = 0" "\<not> src_error i" "normalize path \<noteq> None"
    using i rb_found k w1 n by fastforce+
qed

section \<open>The sink\<close>

definition sink_ok :: "key \<Rightarrow> FileSink \<Rightarrow> bool" where
  "sink_ok fk s \<longleftrightarrow> fk \<noteq> [] \<and> key_of (sk_final s) = Some fk \<and> key_of (sk_part s) = Some (part_key fk)
     \<and> (sk_open s \<longrightarrow> sk_key s = part_key fk)"

lemma sink_close_only: "only ks w (snd (sink_close s w))"
  and sink_close_fields: "sk_final (fst (sink_close s w)) = sk_final s" "sk_part (fst (sink_close s w)) = sk_part s"
    "sk_committed (fst (sink_close s w)) = sk_committed s" "sk_open (fst (sink_close s w)) = False"
    "sk_kept (fst (sink_close s w)) = sk_kept s" "nodes (snd (sink_close s w)) = nodes w"
    "dir_faults (snd (sink_close s w)) = dir_faults w"
  by (auto simp: sink_close_def only_def)

lemma sink_close_ok: "sink_ok fk s \<Longrightarrow> sink_ok fk (fst (sink_close s w))"
  using sink_close_fields [of s w] by (simp add: sink_ok_def)

lemma sink_abort_only:
  assumes "sink_ok fk s"
  shows "only {part_key fk} w (snd (sink_abort s w))" and "sink_ok fk (fst (sink_abort s w))"
    and "sk_committed (fst (sink_abort s w)) = sk_committed s" "sk_kept (fst (sink_abort s w)) = sk_kept s"
proof -
  obtain s1 w1 where c: "sink_close s w = (s1, w1)" by fastforce
  note f = sink_close_fields [of s w, unfolded c fst_conv snd_conv]
  have "sink_ok fk s1" using sink_close_ok [OF assms, of w] by (simp add: c)
  then show "sink_ok fk (fst (sink_abort s w))"
    by (simp add: sink_abort_def c sink_ok_def)
  show "only {part_key fk} w (snd (sink_abort s w))"
    using only_trans [OF only_same [OF f(6,7)] only_unlink [of "sk_part s1" "part_key fk"]] f assms
    by (simp add: sink_abort_def c sink_ok_def only_same)
  show "sk_committed (fst (sink_abort s w)) = sk_committed s" "sk_kept (fst (sink_abort s w)) = sk_kept s"
    using f by (simp_all add: sink_abort_def c)
qed

lemma sink_delete_only: "sink_ok fk s \<Longrightarrow> only {part_key fk} w (sink_delete s w)"
  using sink_abort_only(1) by (simp add: sink_delete_def)

lemma sink_delete_committed: "sk_committed s \<Longrightarrow> sink_delete s w = w"
  by (simp add: sink_delete_def)

lemma sink_write_spec:
  assumes "sink_ok fk s" "sink_write bs s w = (b, s', w')"
  shows "only {part_key fk} w w'" "sink_ok fk s'" "sk_committed s' = sk_committed s" "sk_kept s' = sk_kept s" "sk_open s' = sk_open s"
    and "b \<Longrightarrow> bs \<noteq> [] \<Longrightarrow> node_at w' (part_key fk) = Some (File (content w (part_key fk) @ bs))"
proof -
  have "only {part_key fk} w w' \<and> sink_ok fk s' \<and> sk_committed s' = sk_committed s \<and> sk_kept s' = sk_kept s \<and> sk_open s' = sk_open s
    \<and> (b \<and> bs \<noteq> [] \<longrightarrow> node_at w' (part_key fk) = Some (File (content w (part_key fk) @ bs)))"
  proof (cases "sk_open s \<and> bs \<noteq> []")
    case True
    obtain r w1 where fw: "fwrite (sk_key s) bs w = (r, w1)" by fastforce
    have k: "sk_key s = part_key fk" using assms(1) True by (simp add: sink_ok_def)
    have "dir_faults w1 = dir_faults w" using fw by (metis fwrite_dir_faults snd_conv)
    then have "only {part_key fk} w w1"
      using fwrite_frame [of _ "sk_key s" bs w] fw k by (simp add: only_def)
    moreover have "r = Inr () \<Longrightarrow> node_at w1 (part_key fk) = Some (File (content w (part_key fk) @ bs))"
      using fwrite_done [of "sk_key s" bs w w1] fw k by simp
    ultimately show ?thesis
      using assms True fw by (auto simp: sink_write_def sink_ok_def split: sum.splits)
  next
    case False
    then show ?thesis using assms by (auto simp: sink_write_def)
  qed
  then show "only {part_key fk} w w'" "sink_ok fk s'" "sk_committed s' = sk_committed s" "sk_kept s' = sk_kept s" "sk_open s' = sk_open s"
    "b \<Longrightarrow> bs \<noteq> [] \<Longrightarrow> node_at w' (part_key fk) = Some (File (content w (part_key fk) @ bs))"
    by simp_all
qed

lemma rename_file:
  assumes a: "key_of p = Some a" and b: "key_of q = Some b" and f: "node_at w a = Some (File c)" and ab: "a \<noteq> b"
    and r: "sys_rename p q w = (r, w')"
  shows "only {a, b} w w'" and "r = Inr () \<Longrightarrow> node_at w' b = Some (File c)"
proof -
  have "only {a, b} w w' \<and> (r = Inr () \<longrightarrow> node_at w' b = Some (File c))"
    using r a b f ab unfolding sys_rename_def on_path_def
    by (auto simp: only_def split: prod.splits option.splits if_splits dest!: tickD)
  then show "only {a, b} w w'" "r = Inr () \<Longrightarrow> node_at w' b = Some (File c)" by simp_all
qed

text \<open>A commit that succeeds publishes the content of the temporary file.\<close>

lemma sink_commit_spec:
  assumes ok: "sink_ok fk s" and c: "\<not> sk_committed s" "sk_open s" and f: "node_at w (part_key fk) = Some (File bs)"
    and r: "sink_commit s w = (b, s', w')"
  shows "only {fk, part_key fk} w w'" "sink_ok fk s'" "sk_kept s' = sk_kept s" "sk_committed s' = b"
    and "b \<Longrightarrow> node_at w' fk = Some (File bs)"
proof -
  let ?ks = "{fk, part_key fk}"
  obtain y w1 where y: "fsync_call w = (y, w1)" by fastforce
  obtain s1 w2 where cl: "sink_close s w1 = (s1, w2)" by fastforce
  note f1 = sink_close_fields [of s w1, unfolded cl fst_conv snd_conv]
  have ok1: "sink_ok fk s1" using sink_close_ok [OF ok, of w1] by (simp add: cl)
  have n2: "nodes w2 = nodes w" "dir_faults w2 = dir_faults w" using call_same(5) [OF y] f1 by simp_all
  have ab: "only ?ks v (snd (sink_abort s1 v))" for v
    using only_mono [OF sink_abort_only(1) [OF ok1]] by blast
  have all: "only ?ks w w' \<and> sink_ok fk s' \<and> sk_kept s' = sk_kept s \<and> sk_committed s' = b \<and> (b \<longrightarrow> node_at w' fk = Some (File bs))"
  proof (cases y)
    case (Inl e)
    then have "w' = snd (sink_abort s1 w2)" "s' = fst (sink_abort s1 w2)" "\<not> b"
      using r c y cl by (auto simp: sink_commit_def split: prod.splits)
    then show ?thesis
      using only_trans [OF only_same [OF n2] ab] sink_abort_only(2-4) [OF ok1, of w2] f1 c by simp
  next
    case (Inr u)
    define w3 where "w3 = snd (sys_unlink (sk_final s1) w2)"
    have o3: "only ?ks w w3"
      using only_trans [OF only_same [OF n2] only_unlink [of "sk_final s1" fk]] ok1 by (simp add: w3_def sink_ok_def)
    have pk: "part_key fk \<noteq> fk" using ok by (simp add: sink_ok_def)
    have f3: "node_at w3 (part_key fk) = Some (File bs)"
      using unlink_frame [of "sk_final s1" "part_key fk" w2] ok1 n2 f pk by (auto simp: w3_def sink_ok_def)
    obtain z w4 where z: "sys_rename (sk_part s1) (sk_final s1) w3 = (z, w4)" by fastforce
    have keys: "key_of (sk_part s1) = Some (part_key fk)" "key_of (sk_final s1) = Some fk"
      using ok1 by (simp_all add: sink_ok_def)
    note rn = rename_file [OF keys f3 pk z]
    have o4: "only ?ks w w4" using only_trans [OF o3] rn(1) by (simp add: insert_commute)
    show ?thesis
    proof (cases z)
      case (Inl e)
      then have "w' = snd (sink_abort s1 w4)" "s' = fst (sink_abort s1 w4)" "\<not> b"
        using r c y cl Inr z by (auto simp: sink_commit_def w3_def [symmetric] split: prod.splits)
      then show ?thesis
        using only_trans [OF o4 ab] sink_abort_only(2-4) [OF ok1, of w4] f1 c by simp
    next
      case (Inr v)
      then have "w' = w4" "s' = s1\<lparr>sk_committed := True\<rparr>" "b"
        using r c y cl \<open>y = Inr u\<close> z by (auto simp: sink_commit_def w3_def [symmetric] split: prod.splits)
      then show ?thesis
        using o4 rn(2) Inr ok1 f1 by (simp add: sink_ok_def)
    qed
  qed
  then show "only ?ks w w'" "sink_ok fk s'" "sk_kept s' = sk_kept s" "sk_committed s' = b"
    "b \<Longrightarrow> node_at w' fk = Some (File bs)"
    by simp_all
qed

end
