(* ===== verification/FileCopy.thy ===== *)
theory FileCopy
  imports FileSafe
begin

text \<open>Opening a writer, creating and removing entries, and copying one file.\<close>

section \<open>Creating\<close>

lemma sink_new_spec:
  assumes "key_of final = Some fk" "key_of (final @ kUploadPartSuffix) = Some (part_key fk)" "fk \<noteq> []"
    and "sink_new final 0 w = (s, w')"
  shows "only {part_key fk} w w'" "sink_ok fk s" "\<not> sk_committed s" "\<not> sk_kept s"
    and "sk_open s \<Longrightarrow> node_at w' (part_key fk) = Some (File [])"
proof -
  obtain r w1 where f: "fopen_wb (final @ kUploadPartSuffix) w = (r, w1)" by fastforce
  have "dir_faults w1 = dir_faults w" using one_node_dir_faults(4) f by (metis snd_conv)
  moreover have "k \<noteq> part_key fk \<Longrightarrow> node_at w1 k = node_at w k" for k
    using wb_frame [of "final @ kUploadPartSuffix" k w] assms(2) f by auto
  moreover have "r = Inr k \<Longrightarrow> k = part_key fk \<and> node_at w1 k = Some (File [])" for k
    using wb_found [of "final @ kUploadPartSuffix" w k w1] f assms(2) by auto
  ultimately show "only {part_key fk} w w'" "sink_ok fk s" "\<not> sk_committed s" "\<not> sk_kept s"
    "sk_open s \<Longrightarrow> node_at w' (part_key fk) = Some (File [])"
    using assms f by (cases r; force simp: sink_new_def Let_def only_def sink_ok_def)+
qed

lemma createWriter_spec:
  assumes r: "createWriter vs v path w = (res, w')" and m: "v_mount vs v = Some m" "key_of m = Some ms"
  shows "only {part_key (ms @ named path)} w w'"
    and "res = Inr s \<Longrightarrow> sink_ok (ms @ named path) s \<and> sk_open s \<and> \<not> sk_committed s \<and> \<not> sk_kept s
       \<and> node_at w' (part_key (ms @ named path)) = Some (File []) \<and> named path \<noteq> [] \<and> list_all isValidName (named path)"
proof -
  let ?fk = "ms @ named path"
  have all: "only {part_key ?fk} w w' \<and> (res = Inr s \<longrightarrow> sink_ok ?fk s \<and> sk_open s \<and> \<not> sk_committed s \<and> \<not> sk_kept s
       \<and> node_at w' (part_key ?fk) = Some (File []) \<and> named path \<noteq> [] \<and> list_all isValidName (named path))" for s
  proof (rule located_cases [OF r [unfolded createWriter_def]])
    fix st w1
    assume "res = Inl st" "w' = w1" "nodes w1 = nodes w" "dir_faults w1 = dir_faults w"
    then show ?thesis by (simp add: only_same)
  next
    fix m' rel w1
    assume a: "v_mount vs v = Some m'" "normalize path = Some rel" "nodes w1 = nodes w" "dir_faults w1 = dir_faults w"
      and e: "(if rel = [slash] then (Inl InvalidPath, w1)
         else (case sys_stat (join m' rel) w1 of
             (r, w1) \<Rightarrow>
               if r = Inr Dir then (Inl AlreadyExists, w1)
               else (case sink_new (join m' rel) 0 w1 of
                       (s, w2) \<Rightarrow> if \<not> sk_open s then (Inl IoError, sink_delete s w2) else (Inr s, w2)))) = (res, w')"
    have m': "m' = m" using a m by simp
    show ?thesis
    proof (cases "rel = [slash]")
      case True
      then show ?thesis using e a by (auto simp: only_same)
    next
      case False
      obtain q w2 where q: "sys_stat (join m rel) w1 = (q, w2)" by fastforce
      have n2: "nodes w2 = nodes w" "dir_faults w2 = dir_faults w" using call_same(1) [OF q] a by simp_all
      obtain t w3 where t: "sink_new (join m rel) 0 w2 = (t, w3)" by fastforce
      have v: "list_all isValidName (named path)" and nm: "named rel = named path"
        using normalize_named [OF a(2)] by simp_all
      have ne: "named path \<noteq> []" using normalize_root_iff [OF a(2)] False by blast
      have "key_of (join m rel) = Some ?fk" "key_of (join m rel @ kUploadPartSuffix) = Some (part_key ?fk)" "?fk \<noteq> []"
        using key_join [OF m(2), of rel] key_join_part [OF a(2) ne m(2)] v nm ne by simp_all
      note sn = sink_new_spec [OF this t]
      have "only {part_key ?fk} w w3" using only_trans [OF only_same [OF n2] sn(1)] .
      moreover have "only {part_key ?fk} w (sink_delete t w3)"
        using only_trans [OF calculation sink_delete_only [OF sn(2)]] .
      ultimately show ?thesis
        using e False q t m' sn v ne n2 by (auto simp: only_same split: if_splits)
    qed
  qed
  then show "only {part_key ?fk} w w'" by simp
  show "res = Inr s \<Longrightarrow> sink_ok ?fk s \<and> sk_open s \<and> \<not> sk_committed s \<and> \<not> sk_kept s
       \<and> node_at w' (part_key ?fk) = Some (File []) \<and> named path \<noteq> [] \<and> list_all isValidName (named path)"
    using all by simp
qed

lemma sys_mkdir_keeps: "node_at w k \<noteq> None \<Longrightarrow> node_at (snd (sys_mkdir p w)) k = node_at w k"
  unfolding sys_mkdir_def on_path_def
  by (auto split: prod.splits option.splits dest!: tickD)

lemma mkdir_spec:
  assumes r: "mkdir vs v path w = (st, w')" and m: "v_mount vs v = Some m" "key_of m = Some ms"
  shows "only {ms @ named path} w w'" and "node_at w k \<noteq> None \<Longrightarrow> node_at w' k = node_at w k"
proof -
  have "only {ms @ named path} w w' \<and> (\<forall>k. node_at w k \<noteq> None \<longrightarrow> node_at w' k = node_at w k)"
  proof (rule located_cases [OF r [unfolded mkdir_def]])
    fix st' w1
    assume "w' = w1" "nodes w1 = nodes w" "dir_faults w1 = dir_faults w"
    then show ?thesis by (simp add: only_same)
  next
    fix m' rel w1
    assume a: "v_mount vs v = Some m'" "normalize path = Some rel" "nodes w1 = nodes w" "dir_faults w1 = dir_faults w"
      and e: "(if rel = [slash] then (AlreadyExists, w1)
         else (case sys_mkdir (join m' rel) w1 of
             (Inl e, w1) \<Rightarrow> (if e = EEXIST then AlreadyExists else IoError, w1)
           | (Inr _, w1) \<Rightarrow> (Ok, w1))) = (st, w')"
    have k: "key_of (join m rel) = Some (ms @ named path)"
      using key_join [OF m(2), of rel] normalize_named [OF a(2)] by simp
    have "w' = w1 \<or> w' = snd (sys_mkdir (join m rel) w1)"
      using e a(1) m(1) by (auto split: if_splits prod.splits sum.splits)
    then show ?thesis
      using mkdir_frame [of "join m rel" _ w1] one_node_dir_faults(3) [of "join m rel" w1]
        sys_mkdir_keeps [of w1 _ "join m rel"] k a(3,4)
      by (elim disjE) (auto simp: only_def)
  qed
  then show "only {ms @ named path} w w'" "node_at w k \<noteq> None \<Longrightarrow> node_at w' k = node_at w k"
    by simp_all
qed

section \<open>Copying one file\<close>

text \<open>The loop between the reads: what has been read is what the temporary file holds.\<close>

definition copying :: "key \<Rightarrow> key \<Rightarrow> byte list \<Rightarrow> FileSource \<Rightarrow> FileSink \<Rightarrow> world \<Rightarrow> bool" where
  "copying sk fk c i s w \<longleftrightarrow> sink_ok fk s \<and> sk_open s \<and> \<not> sk_committed s \<and> \<not> sk_kept s
     \<and> sk \<noteq> part_key fk \<and> node_at w sk = Some (File c) \<and> node_at w (part_key fk) = Some (File (take (src_pos i) c))
     \<and> src_key i = sk \<and> src_pos i \<le> length c \<and> \<not> src_error i"

lemma source_read_spec:
  assumes "source_read n i w = (bs, i', w')"
  shows "nodes w' = nodes w" "dir_faults w' = dir_faults w" "src_key i' = src_key i"
    and "src_error i' \<or> (bs = take n (drop (src_pos i) (content w (src_key i))) \<and> src_pos i' = src_pos i + length bs \<and> src_error i' = src_error i)"
    and "src_error i' \<Longrightarrow> \<not> src_error i \<Longrightarrow> bs = []"
proof -
  obtain r w1 where f: "fread (src_key i) (src_pos i) n w = (r, w1)" by fastforce
  have n: "nodes w1 = nodes w" "dir_faults w1 = dir_faults w" using call_same(4) [OF f] by simp_all
  have "r = Inr x \<Longrightarrow> x = take n (drop (src_pos i) (content w (src_key i)))" for x
    using f by (auto simp: fread_def content_def split: prod.splits option.splits dest!: tickD)
  then show "nodes w' = nodes w" "dir_faults w' = dir_faults w" "src_key i' = src_key i"
    "src_error i' \<or> (bs = take n (drop (src_pos i) (content w (src_key i))) \<and> src_pos i' = src_pos i + length bs \<and> src_error i' = src_error i)"
    "src_error i' \<Longrightarrow> \<not> src_error i \<Longrightarrow> bs = []"
    using assms f n by (cases r; auto simp: source_read_def)+
qed

lemma cancelRequested_same: "cancelRequested r w = (b, r', w') \<Longrightarrow> nodes w' = nodes w \<and> dir_faults w' = dir_faults w \<and> cancelled r' = (b \<or> cancelled r)"
  by (auto simp: cancelRequested_def cancel_tick_def split: list.splits bool.splits)

lemma copy_loop_spec:
  assumes "copying sk fk c i s w" and "length c - src_pos i < n"
  shows "\<exists>b s' r' w'. copy_loop n src i s r w = Some (b, s', r', w') \<and> only {part_key fk} w w' \<and> sink_ok fk s'
     \<and> \<not> sk_committed s' \<and> \<not> sk_kept s' \<and> (b \<longrightarrow> sk_open s' \<and> node_at w' (part_key fk) = Some (File c))"
  using assms
proof (induction n arbitrary: i s r w)
  case (Suc n)
  note inv = Suc.prems(1) [unfolded copying_def]
  have ok: "sink_ok fk s" using inv by simp
  obtain bs i1 w1 where rd: "source_read kFileChunk i w = (bs, i1, w1)" by (metis prod_cases3)
  note rs = source_read_spec [OF rd]
  have cont: "content w sk = c" using inv by (simp add: content_def)
  show ?case
  proof (cases "bs = []")
    case True
    show ?thesis
    proof (cases "src_error i1")
      case True
      then show ?thesis
        using \<open>bs = []\<close> rd sink_abort_only [OF ok, of w1] inv only_trans [OF only_same [OF rs(1,2)]]
        by (auto split: prod.splits)
    next
      case False
      then have "take kFileChunk (drop (src_pos i) c) = []" using rs(4) True inv cont by simp
      then have "src_pos i = length c" using inv by (simp add: kFileChunk_def)
      then show ?thesis
        using True False rd inv rs(1,2) by (auto simp: only_same)
    qed
  next
    case False
    then have i1: "\<not> src_error i1" "bs = take kFileChunk (drop (src_pos i) c)" "src_pos i1 = src_pos i + length bs"
      using rs(4,5) inv cont by auto
    obtain b s1 w2 where wr: "sink_write bs s w1 = (b, s1, w2)" by (metis prod_cases3)
    note ws = sink_write_spec [OF ok wr]
    have o2: "only {part_key fk} w w2" using only_trans [OF only_same [OF rs(1,2)] ws(1)] .
    show ?thesis
    proof (cases b)
      case False
      then show ?thesis
        using \<open>bs \<noteq> []\<close> rd wr sink_abort_only [OF ws(2), of w2] inv only_trans [OF o2] ws
        by (auto split: prod.splits)
    next
      case True
      obtain q r1 w3 where cr: "cancelRequested (r\<lparr>doneBytes := doneBytes r + of_nat (length bs)\<rparr>) w2 = (q, r1, w3)"
        by (metis prod_cases3)
      have o3: "only {part_key fk} w w3"
        using only_trans [OF o2 only_same] cancelRequested_same [OF cr] by simp
      show ?thesis
      proof (cases q)
        case True
        then show ?thesis
          using \<open>bs \<noteq> []\<close> \<open>b\<close> rd wr cr sink_abort_only [OF ws(2), of w3] inv only_trans [OF o3] ws
          by (auto split: prod.splits)
      next
        case False
        have step: "copy_loop (Suc n) src i s r w = copy_loop n src i1 s1 r1 w3"
          using \<open>bs \<noteq> []\<close> \<open>b\<close> rd wr cr False by simp
        have "node_at w2 (part_key fk) = Some (File (take (src_pos i) c @ bs))"
          using ws(6) \<open>b\<close> \<open>bs \<noteq> []\<close> inv rs(1) by (simp add: content_def)
        moreover have "take (src_pos i) c @ bs = take (src_pos i1) c"
        proof -
          have "length bs = min kFileChunk (length c - src_pos i)" using i1(2) by simp
          then have "bs = take (length bs) (drop (src_pos i) c)" using i1(2) by (metis length_drop take_all_iff take_take min.commute nle_le min_def)
          then show ?thesis using i1(3) by (metis take_add)
        qed
        ultimately have p3: "node_at w3 (part_key fk) = Some (File (take (src_pos i1) c))"
          using cancelRequested_same [OF cr] by simp
        have len: "length bs \<le> length c - src_pos i" "0 < length bs" using i1(2) \<open>bs \<noteq> []\<close> by auto
        have s3: "node_at w3 sk = Some (File c)" using o3 inv by (simp add: only_def)
        have "src_pos i1 \<le> length c" using i1(3) len inv by linarith
        then have "copying sk fk c i1 s1 w3"
          using ws(2-5) p3 s3 inv i1(1) rs(3) by (simp add: copying_def)
        moreover have "length c - src_pos i1 < n" using Suc.prems(2) i1(3) len by linarith
        ultimately obtain b' s' r' w' where ih: "copy_loop n src i1 s1 r1 w3 = Some (b', s', r', w')"
          "only {part_key fk} w3 w'" "sink_ok fk s'" "\<not> sk_committed s'" "\<not> sk_kept s'"
          "b' \<longrightarrow> sk_open s' \<and> node_at w' (part_key fk) = Some (File c)"
          using Suc.IH [of i1 s1 w3 r1] by blast
        then show ?thesis
          unfolding step using only_trans [OF o3 ih(2)] by blast
      qed
    qed
  qed
qed simp

declare copy_loop.simps(2) [simp del]

lemma enough_space_same: "enough_space vs rq src w = (b, w') \<Longrightarrow> nodes w' = nodes w \<and> dir_faults w' = dir_faults w"
proof -
  assume a: "enough_space vs rq src w = (b, w')"
  obtain q w1 where q: "stat_entry vs (rq_srcVolume rq) src w = (q, w1)" by fastforce
  have "nodes (snd (freeBytes vs v x)) = nodes x \<and> dir_faults (snd (freeBytes vs v x)) = dir_faults x" for v x
    by (auto simp: freeBytes_def absent_tick_def split: option.splits list.splits bool.splits)
  then show ?thesis
    using a stat_entry_same [OF q] q by (auto simp: enough_space_def split: sum.splits if_splits prod.splits) (metis snd_conv)+
qed

text \<open>
  A copy touches the destination and its temporary file only, and when it says it is complete the
  destination holds the source's bytes.
\<close>

lemma copyFile_spec:
  assumes vs: "v_mount vs (rq_srcVolume rq) = Some sm" "key_of sm = Some SM"
      "v_mount vs (rq_dstVolume rq) = Some dm" "key_of dm = Some DM"
    and ne: "SM @ named src \<noteq> DM @ named dst" "SM @ named src \<noteq> part_key (DM @ named dst)"
  shows "\<exists>b r' w'. copyFile vs rq src dst r w = Some (b, r', w') \<and> only {DM @ named dst, part_key (DM @ named dst)} w w'
     \<and> (b \<longrightarrow> (\<exists>c. node_at w (SM @ named src) = Some (File c) \<and> node_at w' (DM @ named dst) = Some (File c)))"
proof -
  let ?fk = "DM @ named dst" and ?sk = "SM @ named src"
  let ?ks = "{?fk, part_key ?fk}"
  obtain e w1 where e: "enough_space vs rq src w = (e, w1)" by fastforce
  have n1: "nodes w1 = nodes w" "dir_faults w1 = dir_faults w" using enough_space_same [OF e] by simp_all
  obtain q w2 where q: "openRead vs (rq_srcVolume rq) src w1 = (q, w2)" by fastforce
  have n2: "nodes w2 = nodes w" "dir_faults w2 = dir_faults w" using openRead_same [OF q] n1 by simp_all
  obtain z w3 where z: "createWriter vs (rq_dstVolume rq) dst w2 = (z, w3)" by fastforce
  have o3: "only ?ks w w3"
    using only_trans [OF only_same [OF n2] only_mono [OF createWriter_spec(1) [OF z vs(3,4)]]] by blast
  show ?thesis
  proof (cases "e \<and> (\<exists>i s. q = Inr i \<and> z = Inr s)")
    case False
    then show ?thesis
      using e q z o3 only_same [OF n1] only_same [OF n2] by (cases e; cases q; cases z) (auto simp: copyFile_def)
  next
    case True
    then obtain i s where i: "q = Inr i" and s: "z = Inr s" and "e" by blast
    note src = openRead_found [OF q [unfolded i] vs(1,2)]
    note snk = createWriter_spec(2) [OF z vs(3,4) s]
    obtain c where c: "node_at w ?sk = Some (File c)" using src(1) n1 by auto
    have c3: "node_at w3 ?sk = Some (File c)" using o3 c ne by (simp add: only_def)
    have "copying ?sk ?fk c i s w3" "length c - src_pos i < Suc (length c)"
      using src snk c3 ne by (simp_all add: copying_def)
    from copy_loop_spec [OF this, of src r]
    obtain b s1 r1 w4 where cl: "copy_loop (Suc (length c)) src i s r w3 = Some (b, s1, r1, w4)"
      "only {part_key ?fk} w3 w4" "sink_ok ?fk s1" "\<not> sk_committed s1" "\<not> sk_kept s1"
      "b \<longrightarrow> sk_open s1 \<and> node_at w4 (part_key ?fk) = Some (File c)"
      by blast
    have len: "Suc (length (content w3 (src_key i))) = Suc (length c)"
      using c3 src(2) by (simp add: content_def)
    have o4: "only ?ks w w4" using only_trans [OF o3 only_mono [OF cl(2)]] by blast
    show ?thesis
    proof (cases b)
      case False
      have "only ?ks w (sink_delete s1 w4)"
        using only_trans [OF o4 only_mono [OF sink_delete_only [OF cl(3)]]] by blast
      then show ?thesis
        using False e \<open>e\<close> q i z s cl(1) len by (auto simp: copyFile_def)
    next
      case True
      obtain d s2 w5 where cm: "sink_commit s1 w4 = (d, s2, w5)" by (metis prod_cases3)
      note cs = sink_commit_spec [OF cl(3,4) _ _ cm, of c]
      have pre: "sk_open s1" "node_at w4 (part_key ?fk) = Some (File c)" using cl(6) True by simp_all
      have o5: "only ?ks w w5" using only_trans [OF o4 cs(1) [OF pre]] .
      show ?thesis
      proof (cases d)
        case False
        obtain s3 w6 where ab: "sink_abort s2 w5 = (s3, w6)" by fastforce
        have ok2: "sink_ok ?fk s2" using cs(2) [OF pre] .
        have ok3: "sink_ok ?fk s3" and o6: "only {part_key ?fk} w5 w6"
          using sink_abort_only(1,2) [OF ok2, of w5] by (simp_all add: ab)
        have "only ?ks w (sink_delete s3 w6)"
          using only_trans [OF o5 only_mono [OF only_trans [OF o6 sink_delete_only [OF ok3]]]] by blast
        then show ?thesis
          using False True e \<open>e\<close> q i z s cl(1) len cm ab by (auto simp: copyFile_def)
      next
        case True
        have "sink_delete s2 w5 = w5" using cs(4) [OF pre] True by (simp add: sink_delete_committed)
        then show ?thesis
          using True \<open>b\<close> e \<open>e\<close> q i z s cl(1) len cm o5 cs(5) [OF pre] c by (auto simp: copyFile_def)
      qed
    qed
  qed
qed

end
