(* ===== verification/FileTree.thy ===== *)
theory FileTree
  imports FileCopy
begin

text \<open>Removing a tree, and copying one while it is being walked.\<close>

section \<open>Removing\<close>

lemma removeTrees_prunes:
  assumes one: "\<And>full k w b w'. key_of full = Some k \<Longrightarrow> clean k w \<Longrightarrow> removeTree n full w = (b, w') \<Longrightarrow> prunes k w w'"
    and k: "key_of full = Some k"
  shows "clean k w \<Longrightarrow> \<forall>nm \<in> set names. real_name nm \<Longrightarrow> removeTrees n full names ok w = (b, w') \<Longrightarrow> prunes k w w'"
proof (induction names arbitrary: ok w)
  case (Cons nm names)
  obtain f w1 where dt: "dir_tick w = (f, w1)" by fastforce
  have p1: "prunes k w w1" using dir_tick_prunes [OF dt] .
  have c1: "clean k w1" using prunes_clean [OF p1 Cons.prems(1)] .
  have rn: "real_name nm" "nm \<noteq> ''.''" "nm \<noteq> ''..''" using Cons.prems(2) by (auto simp: real_name_def)
  obtain r w2 where r: "removeTree n (full @ slash # nm) w1 = (r, w2)" by fastforce
  have p2: "prunes k w w2"
    using prunes_trans [OF p1 prunes_child [OF one [OF key_child [OF k rn(1)] clean_child [OF c1] r]]] .
  show ?case
  proof (cases f)
    case True
    then show ?thesis using Cons.prems(3) dt p1 by simp
  next
    case False
    then have "removeTrees n full names (ok \<and> r) w2 = (b, w')" using Cons.prems(3) dt rn(2,3) r by simp
    then show ?thesis
      using prunes_trans [OF p2] Cons.IH [OF prunes_clean [OF p2 Cons.prems(1)]] Cons.prems(2) by simp
  qed
qed simp

lemma removeTree_prunes:
  "key_of full = Some k \<Longrightarrow> clean k w \<Longrightarrow> removeTree n full w = (b, w') \<Longrightarrow> prunes k w w'"
proof (induction n arbitrary: full k w b w')
  case (Suc n)
  obtain r w1 where st: "sys_stat full w = (r, w1)" by fastforce
  have p1: "prunes k w w1" using prunes_same call_same(1) [OF st] by simp
  show ?case
  proof (cases "r = Inr Dir")
    case True
    obtain q w2 where od: "sys_opendir full w1 = (q, w2)" by fastforce
    have p2: "prunes k w w2" using prunes_trans [OF p1 prunes_same] call_same(2) [OF od] by simp
    show ?thesis
    proof (cases q)
      case (Inl e)
      then show ?thesis using Suc.prems st True od p2 by simp
    next
      case (Inr names)
      obtain ok w3 where rt: "removeTrees n full names True w2 = (ok, w3)" by fastforce
      have c2: "clean k w2" using prunes_clean [OF p2 Suc.prems(2)] .
      have "\<forall>nm \<in> set names. real_name nm"
        using opendir_found [OF od [unfolded Inr]] child_real c2 call_same(2) [OF od] Suc.prems(1) by (metis clean_def option.inject)
      then have p3: "prunes k w w3"
        using prunes_trans [OF p2 removeTrees_prunes [OF Suc.IH Suc.prems(1) c2 _ rt]] by simp
      have "w' = snd (sys_rmdir full w3)"
        using Suc.prems(3) st True od Inr rt by (auto split: prod.splits)
      then show ?thesis using prunes_trans [OF p3 rmdir_prunes [OF Suc.prems(1)]] by simp
    qed
  next
    case False
    show ?thesis
    proof (cases r)
      case (Inl e)
      then show ?thesis using Suc.prems st p1 by simp
    next
      case (Inr nd)
      then have "w' = snd (sys_unlink full w1)" using Suc.prems(3) st False by (auto split: prod.splits)
      then show ?thesis using prunes_trans [OF p1 unlink_prunes [OF Suc.prems(1)]] by simp
    qed
  qed
qed simp

lemma isDirEmpty_prunes: "isDirEmpty full w = (b, w') \<Longrightarrow> prunes k w w'"
  by (auto simp: isDirEmpty_def split: prod.splits sum.splits list.splits dest!: call_same(2) dir_tick_prunes [of _ _ _ k]
      intro: prunes_same prunes_trans)

lemma remove_prunes:
  assumes r: "remove vs v path recursive w = (st, w')" and m: "v_mount vs v = Some m" "key_of m = Some ms" and c: "clean (ms @ named path) w"
  shows "prunes (ms @ named path) w w'"
proof (rule located_cases [OF r [unfolded remove_def]])
  fix st' w1
  assume "w' = w1" "nodes w1 = nodes w" "dir_faults w1 = dir_faults w"
  then show ?thesis by (simp add: prunes_same)
next
  fix m' rel w1
  assume a: "v_mount vs v = Some m'" "normalize path = Some rel" "nodes w1 = nodes w" "dir_faults w1 = dir_faults w"
    and e: "(if rel = [slash] then (InvalidPath, w1)
     else (case sys_stat (join m' rel) w1 of
             (Inl e, w1) \<Rightarrow> (errno_status e, w1)
           | (Inr nd, w1) \<Rightarrow>
               if nd = Dir then
                 (if \<not> recursive then
                    (case isDirEmpty (join m' rel) w1 of
                       (False, w2) \<Rightarrow> (NotEmpty, w2)
                     | (True, w2) \<Rightarrow> (case sys_rmdir (join m' rel) w2 of
                                       (Inl _, w3) \<Rightarrow> (IoError, w3) | (Inr _, w3) \<Rightarrow> (Ok, w3)))
                  else (case removeTree (depth_bound w1) (join m' rel) w1 of
                          (False, w2) \<Rightarrow> (IoError, w2) | (True, w2) \<Rightarrow> (Ok, w2)))
               else (case sys_unlink (join m' rel) w1 of
                       (Inl _, w2) \<Rightarrow> (IoError, w2) | (Inr _, w2) \<Rightarrow> (Ok, w2)))) = (st, w')"
  let ?k = "ms @ named path" and ?f = "join m rel"
  have k: "key_of ?f = Some ?k"
    using key_join [OF m(2), of rel] normalize_named [OF a(2)] by simp
  have m': "m' = m" using a m by simp
  obtain q w2 where q: "sys_stat ?f w1 = (q, w2)" by fastforce
  have p2: "prunes ?k w w2" using prunes_same call_same(1) [OF q] a by simp
  have c2: "clean ?k w2" using prunes_clean [OF p2 c] .
  obtain b w3 where rt: "removeTree (depth_bound w2) ?f w2 = (b, w3)" by fastforce
  have p3: "prunes ?k w w3" using prunes_trans [OF p2 removeTree_prunes [OF k c2 rt]] .
  obtain d w4 where de: "isDirEmpty ?f w2 = (d, w4)" by fastforce
  have p4: "prunes ?k w w4" using prunes_trans [OF p2 isDirEmpty_prunes [OF de]] .
  have p5: "prunes ?k w (snd (sys_rmdir ?f w4))" using prunes_trans [OF p4 rmdir_prunes [OF k]] .
  have p6: "prunes ?k w (snd (sys_unlink ?f w2))" using prunes_trans [OF p2 unlink_prunes [OF k]] .
  have p1: "prunes ?k w w1" using prunes_same a by simp
  have "w' \<in> {w1, w2, w3, w4, snd (sys_rmdir ?f w4), snd (sys_unlink ?f w2)}"
    using e q rt de unfolding m' by (auto split: if_splits sum.splits prod.splits bool.splits)
  then show ?thesis using p1 p2 p3 p4 p5 p6 by auto
qed

end
