(* ===== verification/TreeCopy.thy ===== *)
theory TreeCopy
  imports FileTree
begin

text \<open>
  The walk over a source tree that copies it. The source volume holds still while its copy is written to
  the other one, so the walk visits every directory below the selected entry; when it reports success,
  every file it found is at the corresponding place of the destination with the same bytes.
\<close>

section \<open>Two volumes\<close>

definition crossing :: "vols \<Rightarrow> TransferRequest \<Rightarrow> key \<Rightarrow> key \<Rightarrow> bool" where
  "crossing vs rq SM DM \<longleftrightarrow>
     (\<exists>sm. v_mount vs (rq_srcVolume rq) = Some sm \<and> key_of sm = Some SM)
     \<and> (\<exists>dm. v_mount vs (rq_dstVolume rq) = Some dm \<and> key_of dm = Some DM) \<and> SM \<parallel> DM"

lemma part_key_append: "b \<noteq> [] \<Longrightarrow> part_key (a @ b) = a @ part_key b"
  by (simp add: part_key_def butlast_append)

lemma crossing_apart:
  assumes "crossing vs rq SM DM"
  shows "prefix SM k \<Longrightarrow> \<not> prefix DM k" and "prefix DM k \<Longrightarrow> \<not> prefix SM k"
  using assms unfolding crossing_def by (metis parallelD1 parallelD2 prefix_same_cases)+

lemma prefix_part_key: "b \<noteq> [] \<Longrightarrow> prefix a (part_key (a @ b))"
  by (simp add: part_key_append)

text \<open>Everything a copy to \<open>T\<close> may change: the tree there, and the temporary file of its top.\<close>

definition within :: "key \<Rightarrow> world \<Rightarrow> world \<Rightarrow> bool" where
  "within T w w' \<longleftrightarrow> (\<forall>k. \<not> prefix T k \<and> k \<noteq> part_key T \<longrightarrow> node_at w' k = node_at w k) \<and> dir_faults w' = dir_faults w"

lemma within_refl [simp]: "within T w w"
  by (simp add: within_def)

lemma within_same: "nodes w' = nodes w \<Longrightarrow> dir_faults w' = dir_faults w \<Longrightarrow> within T w w'"
  by (simp add: within_def)

lemma within_trans: "within T w w' \<Longrightarrow> within T w' w'' \<Longrightarrow> within T w w''"
  by (simp add: within_def)

lemma only_within: "only {T @ rel, part_key (T @ rel)} w w' \<Longrightarrow> T \<noteq> [] \<Longrightarrow> within T w w'"
  unfolding only_def within_def using prefix_part_key [of rel T] by (cases "rel = []") (auto, metis prefixI)

lemma within_source:
  assumes "crossing vs rq SM DM" "within (DM @ T) w w'" "T \<noteq> []" "prefix SM k"
  shows "node_at w' k = node_at w k"
proof -
  have "\<not> prefix (DM @ T) k" using crossing_apart(1) [OF assms(1,4)] append_prefixD by blast
  moreover have "k \<noteq> part_key (DM @ T)" using crossing_apart(2) [OF assms(1)] prefix_part_key [OF assms(3)] assms(4) by blast
  ultimately show ?thesis using assms(2) by (simp add: within_def)
qed

section \<open>Paths of children\<close>

lemma named_slash: "named (p @ slash # nm) = named p @ named nm"
  by (simp add: components_append_slash)

lemma named_joinRel: "real_name nm \<Longrightarrow> named (joinRel dir nm) = named dir @ [nm]"
proof -
  assume r: "real_name nm"
  then have "named nm = [nm]" by (auto simp: components_no_slash real_name_def)
  moreover have "named [slash] = []" by simp
  ultimately show ?thesis
    using named_slash [of dir nm] named_slash [of "[]" nm] by (auto simp: joinRel_def)
qed

lemma normalizeChild_named:
  assumes "normalizeChild dir nm = Some d"
  shows "named d = named dir @ [nm] \<and> isValidName nm \<and> list_all isValidName (named dir)"
proof -
  have v: "isValidName nm" "list_all isValidName (named dir)" "d = buildPath (named dir @ [nm])"
    using assms by (auto simp: normalizeChild_def splitSegments_eq Let_def split: if_splits)
  then have "\<forall>c \<in> set (named dir @ [nm]). real_name c"
    using valid_names_real [OF v(2)] isValidName_real [OF v(1)] by auto
  then show ?thesis using v named_buildPath by blast
qed

section \<open>Walking a quiet directory\<close>

text \<open>
  When \<open>readdir\<close> does not fail, the walk visits every name that is not reserved. The invariant sees the
  names already passed.
\<close>

lemma scan_entries_inv:
  assumes quiet: "\<And>V a w. I V a w \<Longrightarrow> dir_faults w = []"
    and same: "\<And>V a w w'. I V a w \<Longrightarrow> nodes w' = nodes w \<Longrightarrow> dir_faults w' = dir_faults w \<Longrightarrow> I V a w'"
    and skip: "\<And>V a w nm. I V a w \<Longrightarrow> nm \<in> set names \<Longrightarrow> nm = ''.'' \<or> nm = ''..'' \<or> isPartName nm \<Longrightarrow> I (V @ [nm]) a w"
    and visit: "\<And>V a w nm e. I V a w \<Longrightarrow> nm \<in> set names \<Longrightarrow> nm \<notin> set V \<Longrightarrow> \<not> isPartName nm \<Longrightarrow> fe_name e = nm
        \<Longrightarrow> fe_isDir e \<longrightarrow> (\<exists>k. key_of (full @ slash # nm) = Some k \<and> node_at w k = Some Dir)
        \<Longrightarrow> \<exists>a' w'. vis e a w = (True, a', w') \<and> I (V @ [nm]) a' w'"
  shows "I V a w \<Longrightarrow> distinct (V @ ns) \<Longrightarrow> set ns \<subseteq> set names \<Longrightarrow>
     \<exists>a' w'. scan_entries full vis ns a w = (a', w') \<and> I (V @ ns) a' w'"
proof (induction ns arbitrary: V a w)
  case (Cons nm ns)
  have q: "dir_tick w = (False, w)" using dir_tick_quiet [OF quiet [OF Cons.prems(1)]] .
  have d: "distinct ((V @ [nm]) @ ns)" "set ns \<subseteq> set names" using Cons.prems(2,3) by auto
  show ?case
  proof (cases "nm = ''.'' \<or> nm = ''..'' \<or> isPartName nm")
    case True
    then show ?thesis
      using Cons.IH [OF skip [OF Cons.prems(1) _ True] d] Cons.prems(3) q by auto
  next
    case False
    obtain r w2 where st: "sys_stat (full @ slash # nm) w = (r, w2)" by fastforce
    define e where "e = (case r of Inr n \<Rightarrow> entry_of nm n
                                  | Inl _ \<Rightarrow> \<lparr>fe_name = nm, fe_isDir = False, fe_size = 0\<rparr>)"
    have n2: "nodes w2 = nodes w" "dir_faults w2 = dir_faults w" using call_same(1) [OF st] by simp_all
    have "fe_name e = nm" by (cases r) (simp_all add: e_def entry_of_def)
    moreover have "fe_isDir e \<longrightarrow> (\<exists>k. key_of (full @ slash # nm) = Some k \<and> node_at w2 k = Some Dir)"
      using stat_found [of "full @ slash # nm" w] st n2 by (cases r) (auto simp: e_def entry_of_def)
    ultimately obtain a' w' where v: "vis e a w2 = (True, a', w')" "I (V @ [nm]) a' w'"
      using visit [OF same [OF Cons.prems(1) n2], of nm e] Cons.prems(2,3) False by auto
    then show ?thesis
      using Cons.IH [OF v(2) d] q False st by (auto simp: e_def [symmetric])
  qed
qed simp

lemma scan_cases:
  assumes "scan vs v path vis a w = ((st, a'), w')" and "v_mount vs v = Some m" "key_of m = Some ms"
  obtains (failed) "st \<noteq> Ok" "a' = a" "nodes w' = nodes w" "dir_faults w' = dir_faults w"
  | (walked) full w1 where "st = Ok" "key_of full = Some (ms @ named path)" "node_at w (ms @ named path) = Some Dir"
      "nodes w1 = nodes w" "dir_faults w1 = dir_faults w"
      "scan_entries full vis (child_names w1 (ms @ named path)) a w1 = (a', w')"
proof (rule located_cases [OF assms(1) [unfolded scan_def]])
  fix st' w1
  assume "st' \<noteq> Ok" "(st, a') = (st', a)" "w' = w1" "nodes w1 = nodes w" "dir_faults w1 = dir_faults w"
  then show ?thesis using failed by simp
next
  fix m' rel w1
  assume a: "v_mount vs v = Some m'" "normalize path = Some rel" "nodes w1 = nodes w" "dir_faults w1 = dir_faults w"
    and e: "(case sys_stat (join m' rel) w1 of
         (Inl e, w1) \<Rightarrow> ((errno_status e, a), w1)
       | (Inr n, w1) \<Rightarrow>
           if n \<noteq> Dir then ((InvalidPath, a), w1)
           else (case sys_opendir (join m' rel) w1 of
                   (Inl e, w2) \<Rightarrow> ((errno_status e, a), w2)
                 | (Inr names, w2) \<Rightarrow>
                     (case scan_entries (join m' rel) vis names a w2 of (a1, w3) \<Rightarrow> ((Ok, a1), w3)))) = ((st, a'), w')"
  let ?f = "join m rel" and ?k = "ms @ named path"
  have m': "m' = m" using a assms(2) by simp
  have k: "key_of ?f = Some ?k"
    using key_join [OF assms(3), of rel] normalize_named [OF a(2)] by simp
  have eo: "errno_status x \<noteq> Ok" for x by (simp add: errno_status_def)
  obtain q w2 where q: "sys_stat ?f w1 = (q, w2)" by fastforce
  have n2: "nodes w2 = nodes w" "dir_faults w2 = dir_faults w" using call_same(1) [OF q] a by simp_all
  obtain z w3 where z: "sys_opendir ?f w2 = (z, w3)" by fastforce
  have n3: "nodes w3 = nodes w" "dir_faults w3 = dir_faults w" using call_same(2) [OF z] n2 by simp_all
  show ?thesis
  proof (cases "q = Inr Dir \<and> \<not> isl z")
    case False
    have "st \<noteq> Ok \<and> a' = a \<and> (w' = w2 \<or> w' = w3)"
      using e q z False eo unfolding m' by (cases q; cases z) (auto split: if_splits)
    then show ?thesis using failed n2 n3 by metis
  next
    case True
    then obtain names where names: "z = Inr names" by (cases z) auto
    have nm: "names = child_names w3 ?k" and "node_at w ?k = Some Dir"
      using opendir_found [OF z [unfolded names]] k n2 n3 by (auto simp: child_names_def)
    moreover have "st = Ok" "scan_entries ?f vis names a w3 = (a', w')"
      using e q z True names unfolding m' by (auto split: prod.splits)
    ultimately show ?thesis using walked [OF _ k _ n3] by simp
  qed
qed

section \<open>One entry of the walk\<close>

definition src_still :: "key \<Rightarrow> world \<Rightarrow> world \<Rightarrow> bool" where
  "src_still SM w0 w \<longleftrightarrow> (\<forall>k. prefix SM k \<longrightarrow> node_at w k = node_at w0 k)"

text \<open>The files among \<open>X\<close> (paths below the top) are at the destination.\<close>

definition copied :: "key \<Rightarrow> key \<Rightarrow> world \<Rightarrow> key set \<Rightarrow> world \<Rightarrow> bool" where
  "copied SP DT w0 X w \<longleftrightarrow> (\<forall>rk \<in> X. \<forall>c. node_at w0 (SP @ rk) = Some (File c) \<longrightarrow> node_at w (DT @ rk) = Some (File c))"

definition plain :: "key \<Rightarrow> bool" where
  "plain rk \<longleftrightarrow> rk \<noteq> [] \<and> \<not> isPartName (last rk)"

lemma part_key_not_plain: "rk' \<noteq> [] \<Longrightarrow> last rk' \<noteq> [] \<Longrightarrow> plain rk \<Longrightarrow> DT @ rk \<noteq> part_key (DT @ rk')"
  by (metis append_is_Nil_conv isPartName_append last_appendR last_snoc not_Cons_self2 part_key_append part_key_def plain_def same_append_eq)

text \<open>A step that writes at \<open>rk'\<close> keeps what was copied elsewhere.\<close>

lemma copied_only:
  assumes "copied SP DT w0 X w" "\<forall>rk \<in> X. plain rk" "only {DT @ rk', part_key (DT @ rk')} w w'" "plain rk'" "last rk' \<noteq> []"
    and new: "\<forall>c. node_at w0 (SP @ rk') = Some (File c) \<longrightarrow> node_at w' (DT @ rk') = Some (File c)"
  shows "copied SP DT w0 (insert rk' X) w'"
  unfolding copied_def
proof (intro ballI allI impI)
  fix rk c
  assume rk: "rk \<in> insert rk' X" and f: "node_at w0 (SP @ rk) = Some (File c)"
  show "node_at w' (DT @ rk) = Some (File c)"
  proof (cases "rk = rk'")
    case True
    then show ?thesis using new f by simp
  next
    case False
    then have "plain rk" using rk assms(2) by auto
    then have "DT @ rk \<noteq> part_key (DT @ rk')"
      using part_key_not_plain assms(4,5) by (metis plain_def)
    then show ?thesis
      using assms(1,3) rk f False by (auto simp: only_def copied_def)
  qed
qed

lemma copied_keep:
  "copied SP DT w0 X w \<Longrightarrow> (\<And>k n. node_at w k = Some n \<Longrightarrow> node_at w' k = node_at w k) \<Longrightarrow>
    \<not> (\<exists>c. node_at w0 (SP @ rk) = Some (File c)) \<Longrightarrow> copied SP DT w0 (insert rk X) w'"
  unfolding copied_def by fastforce

lemma tree_visit_spec:
  assumes cr: "crossing vs rq SM DM" and T: "T \<noteq> []" and nd: "named sd = P @ rel" "named dd = T @ rel"
    and nm: "fe_name e = nm" "real_name nm" "\<not> isPartName nm"
    and still: "src_still SM w0 w" and dir: "fe_isDir e \<longrightarrow> node_at w0 (SM @ P @ rel @ [nm]) = Some Dir"
  shows "\<exists>queue' ok' r' w'. tree_visit vs rq sd dd e (Some (queue, ok, r)) w = (True, Some (queue', ok', r'), w')
    \<and> within (DM @ T) w w'
    \<and> (queue' = queue \<or> (\<exists>d. queue' = queue @ [(joinRel sd nm, d)] \<and> named d = T @ rel @ [nm]
          \<and> node_at w0 (SM @ P @ rel @ [nm]) = Some Dir))
    \<and> (ok' \<longrightarrow> ok \<and> (node_at w0 (SM @ P @ rel @ [nm]) = Some Dir \<longrightarrow> queue' \<noteq> queue)
         \<and> (\<forall>X. (\<forall>rk \<in> X. plain rk) \<and> copied (SM @ P) (DM @ T) w0 X w
              \<longrightarrow> copied (SM @ P) (DM @ T) w0 (insert (rel @ [nm]) X) w'))"
proof (cases "normalizeChild dd nm")
  case None
  then show ?thesis by (auto simp: tree_visit_def nm Let_def)
next
  case (Some d)
  have nmd: "named d = T @ rel @ [nm]" using normalizeChild_named [OF Some] nd by simp
  obtain sm dm where mounts: "v_mount vs (rq_srcVolume rq) = Some sm" "key_of sm = Some SM"
      "v_mount vs (rq_dstVolume rq) = Some dm" "key_of dm = Some DM"
    using cr by (auto simp: crossing_def)
  let ?fk = "(DM @ T) @ rel @ [nm]" and ?sk = "SM @ P @ rel @ [nm]"
  have fk: "DM @ named d = ?fk" by (simp add: nmd)
  have sk: "SM @ named (joinRel sd nm) = ?sk" using named_joinRel [OF nm(2), of sd] nd(1) by simp
  have pl: "plain (rel @ [nm])" "last (rel @ [nm]) \<noteq> []" using nm by (auto simp: plain_def real_name_def)
  show ?thesis
  proof (cases "fe_isDir e")
    case True
    obtain st w1 where mk: "mkdir vs (rq_dstVolume rq) d w = (st, w1)" by fastforce
    note ms = mkdir_spec [OF mk mounts(3,4)]
    have "within (DM @ T) w w1"
      using only_within [OF only_mono, of "{?fk}" w w1 "DM @ T" "rel @ [nm]"] ms(1) T fk by auto
    moreover have keep: "copied (SM @ P) (DM @ T) w0 X w \<Longrightarrow> copied (SM @ P) (DM @ T) w0 (insert (rel @ [nm]) X) w1" for X
      using copied_keep [of "SM @ P" "DM @ T" w0 X w w1 "rel @ [nm]"] ms(2) dir True by simp
    moreover have tv: "tree_visit vs rq sd dd e (Some (queue, ok, r)) w =
       (if st \<noteq> Ok \<and> st \<noteq> AlreadyExists then (True, Some (queue, False, fail (joinRel sd nm) st r), w1)
        else (True, Some (queue @ [(joinRel sd nm, d)], ok, r\<lparr>dirsDone := dirsDone r + 1\<rparr>), w1))"
      using Some nm(1) True mk by (simp add: tree_visit_def Let_def)
    ultimately show ?thesis
    proof (cases "st \<noteq> Ok \<and> st \<noteq> AlreadyExists")
      case True
      then show ?thesis
        using \<open>within (DM @ T) w w1\<close> tv by (intro exI [of _ queue] exI [of _ False] exI [of _ w1] exI) simp
    next
      case False
      then have tv': "tree_visit vs rq sd dd e (Some (queue, ok, r)) w =
          (True, Some (queue @ [(joinRel sd nm, d)], ok, r\<lparr>dirsDone := dirsDone r + 1\<rparr>), w1)"
        using tv by (simp only: if_False)
      have "node_at w0 ?sk = Some Dir" using dir \<open>fe_isDir e\<close> by blast
      then show ?thesis
        using \<open>within (DM @ T) w w1\<close> tv' keep nmd by blast
    qed
  next
    case False
    have "\<not> prefix DM ?sk" using crossing_apart(1) [OF cr] by (simp add: prefix_def)
    moreover have "prefix DM (DM @ named d)" "prefix DM (part_key (DM @ named d))"
      using prefix_part_key [of "named d" DM] nmd by simp_all
    ultimately have ne: "?sk \<noteq> DM @ named d" "?sk \<noteq> part_key (DM @ named d)" by metis+
    obtain b r1 w1 where cf: "copyFile vs rq (joinRel sd nm) d (r\<lparr>current := joinRel sd nm\<rparr>) w = Some (b, r1, w1)"
        "only {DM @ named d, part_key (DM @ named d)} w w1"
        "b \<longrightarrow> (\<exists>c. node_at w (SM @ named (joinRel sd nm)) = Some (File c) \<and> node_at w1 (DM @ named d) = Some (File c))"
      using copyFile_spec [OF mounts, of "joinRel sd nm" d "r\<lparr>current := joinRel sd nm\<rparr>" w] ne sk by auto
    have s: "node_at w ?sk = node_at w0 ?sk" using still by (simp add: src_still_def)
    have o: "only {?fk, part_key ?fk} w w1" using cf(2) fk by simp
    have "within (DM @ T) w w1" using only_within [OF o] T by simp
    moreover have "b \<Longrightarrow> (\<forall>rk \<in> X. plain rk) \<Longrightarrow> copied (SM @ P) (DM @ T) w0 X w \<Longrightarrow>
        copied (SM @ P) (DM @ T) w0 (insert (rel @ [nm]) X) w1" for X
      using copied_only [OF _ _ o pl, of "SM @ P" w0 X] cf(3) fk sk s by auto
    moreover have "b \<Longrightarrow> node_at w0 ?sk \<noteq> Some Dir" using cf(3) sk s by auto
    ultimately show ?thesis
      using Some nm(1) False cf(1) by (auto simp: tree_visit_def Let_def)
  qed
qed

section \<open>One directory of the walk\<close>

text \<open>The directories found so far, and what success means for the names already passed.\<close>

definition pushed :: "key \<Rightarrow> key \<Rightarrow> key \<Rightarrow> key \<Rightarrow> world \<Rightarrow> string \<Rightarrow> string list \<Rightarrow> (string \<times> string) list \<Rightarrow> string list \<Rightarrow> bool" where
  "pushed SM P T rel w0 sd V queue ns \<longleftrightarrow> map fst queue = map (joinRel sd) ns \<and> distinct ns \<and> set ns \<subseteq> set V
     \<and> (\<forall>nm \<in> set ns. node_at w0 (SM @ P @ rel @ [nm]) = Some Dir \<and> real_name nm)
     \<and> list_all2 (\<lambda>(s, d) nm. named s = P @ rel @ [nm] \<and> named d = T @ rel @ [nm]) queue ns"

definition passed :: "key \<Rightarrow> key \<Rightarrow> key \<Rightarrow> key \<Rightarrow> key \<Rightarrow> world \<Rightarrow> key set \<Rightarrow> string list \<Rightarrow> string list \<Rightarrow> world \<Rightarrow> bool" where
  "passed SM P DM T rel w0 X V ns w \<longleftrightarrow>
     copied (SM @ P) (DM @ T) w0 (X \<union> (\<lambda>nm. rel @ [nm]) ` {nm \<in> set V. \<not> isPartName nm}) w
     \<and> (\<forall>nm \<in> set V. \<not> isPartName nm \<and> node_at w0 (SM @ P @ rel @ [nm]) = Some Dir \<longrightarrow> nm \<in> set ns)"

definition walk_inv :: "key \<Rightarrow> key \<Rightarrow> key \<Rightarrow> key \<Rightarrow> key \<Rightarrow> world \<Rightarrow> world \<Rightarrow> string \<Rightarrow> bool \<Rightarrow> key set
    \<Rightarrow> string list \<Rightarrow> tree_state option \<Rightarrow> world \<Rightarrow> bool" where
  "walk_inv SM P DM T rel w0 wi sd oki X V st w \<longleftrightarrow>
     (\<exists>queue ok r ns. st = Some (queue, ok, r) \<and> src_still SM w0 w \<and> dir_faults w = [] \<and> within (DM @ T) wi w
       \<and> pushed SM P T rel w0 sd V queue ns \<and> (oki \<and> ok \<longrightarrow> passed SM P DM T rel w0 X V ns w))"

lemma same_world:
  assumes "nodes w' = nodes w"
  shows "src_still SM w0 w' = src_still SM w0 w" "copied SP DT w0 X w' = copied SP DT w0 X w"
    "passed SM P DM T rel w0 X V ns w' = passed SM P DM T rel w0 X V ns w"
  using assms by (simp_all add: src_still_def copied_def passed_def)

lemma walk_inv_same:
  assumes "walk_inv SM P DM T rel w0 wi sd oki X V st w" "nodes w' = nodes w" "dir_faults w' = dir_faults w"
  shows "walk_inv SM P DM T rel w0 wi sd oki X V st w'"
proof -
  have "within (DM @ T) wi w' = within (DM @ T) wi w" using assms(2,3) by (simp add: within_def)
  then show ?thesis
    using assms(1) unfolding walk_inv_def same_world [OF assms(2)] assms(3) by simp
qed

lemma pushed_mono: "pushed SM P T rel w0 sd V queue ns \<Longrightarrow> pushed SM P T rel w0 sd (V @ [nm]) queue ns"
  by (auto simp: pushed_def)

lemma walk_inv_skip:
  assumes "walk_inv SM P DM T rel w0 wi sd oki X V st w" "isPartName nm"
  shows "walk_inv SM P DM T rel w0 wi sd oki X (V @ [nm]) st w"
proof -
  have "{n \<in> set (V @ [nm]). \<not> isPartName n} = {n \<in> set V. \<not> isPartName n}"
    using assms(2) by auto
  then have "passed SM P DM T rel w0 X (V @ [nm]) ns w = passed SM P DM T rel w0 X V ns w" for ns
    using assms(2) unfolding passed_def by auto
  then show ?thesis
    using assms(1) pushed_mono unfolding walk_inv_def by metis
qed

lemma walk_inv_visit:
  assumes I: "walk_inv SM P DM T rel w0 wi sd oki X V st w" and X: "\<forall>rk \<in> X. plain rk"
    and cr: "crossing vs rq SM DM" and T: "T \<noteq> []" and nd: "named sd = P @ rel" "named dd = T @ rel"
    and nm: "fe_name e = nm" "real_name nm" "\<not> isPartName nm" "nm \<notin> set V"
    and dir: "fe_isDir e \<longrightarrow> node_at w (SM @ P @ rel @ [nm]) = Some Dir"
  shows "\<exists>st' w'. tree_visit vs rq sd dd e st w = (True, st', w') \<and> walk_inv SM P DM T rel w0 wi sd oki X (V @ [nm]) st' w'"
proof -
  obtain queue ok r ns where st: "st = Some (queue, ok, r)" and still: "src_still SM w0 w" and df: "dir_faults w = []"
    and wi: "within (DM @ T) wi w" and pu: "pushed SM P T rel w0 sd V queue ns"
    and pa: "oki \<and> ok \<longrightarrow> passed SM P DM T rel w0 X V ns w"
    using I unfolding walk_inv_def by blast
  have dir0: "fe_isDir e \<longrightarrow> node_at w0 (SM @ P @ rel @ [nm]) = Some Dir"
    using dir still by (auto simp: src_still_def)
  obtain queue' ok' r' w' where tv: "tree_visit vs rq sd dd e (Some (queue, ok, r)) w = (True, Some (queue', ok', r'), w')"
    and w1: "within (DM @ T) w w'"
    and q: "queue' = queue \<or> (\<exists>d. queue' = queue @ [(joinRel sd nm, d)] \<and> named d = T @ rel @ [nm]
          \<and> node_at w0 (SM @ P @ rel @ [nm]) = Some Dir)"
    and okd: "ok' \<longrightarrow> ok \<and> (node_at w0 (SM @ P @ rel @ [nm]) = Some Dir \<longrightarrow> queue' \<noteq> queue)
         \<and> (\<forall>X. (\<forall>rk \<in> X. plain rk) \<and> copied (SM @ P) (DM @ T) w0 X w
              \<longrightarrow> copied (SM @ P) (DM @ T) w0 (insert (rel @ [nm]) X) w')"
    using tree_visit_spec [OF cr T nd nm(1-3) still dir0, of queue ok r] by blast
  define ns' where "ns' = (if queue' = queue then ns else ns @ [nm])"
  have pu': "pushed SM P T rel w0 sd (V @ [nm]) queue' ns'"
    using pu q nm named_joinRel [OF nm(2), of sd] nd(1) unfolding pushed_def ns'_def
    by (auto intro: list_all2_appendI)
  have still': "src_still SM w0 w'"
    using still within_source [OF cr w1 T] by (simp add: src_still_def)
  have "passed SM P DM T rel w0 X (V @ [nm]) ns' w'" if o: "oki" "ok'"
  proof -
    have p: "passed SM P DM T rel w0 X V ns w" using pa okd o by blast
    let ?Y = "X \<union> (\<lambda>nm. rel @ [nm]) ` {nm \<in> set V. \<not> isPartName nm}"
    have "\<forall>rk \<in> ?Y. plain rk" using X by (auto simp: plain_def)
    then have "copied (SM @ P) (DM @ T) w0 (insert (rel @ [nm]) ?Y) w'"
      using okd o p unfolding passed_def by blast
    moreover have "X \<union> (\<lambda>nm. rel @ [nm]) ` {n \<in> set (V @ [nm]). \<not> isPartName n} = insert (rel @ [nm]) ?Y"
      using nm(3) by auto
    ultimately show ?thesis
      using p okd o unfolding passed_def ns'_def by auto
  qed
  then show ?thesis
    using tv still' df w1 within_trans [OF wi w1] pu' unfolding st walk_inv_def by (auto simp: within_def)
qed

lemma scan_tree:
  assumes cr: "crossing vs rq SM DM" and T: "T \<noteq> []" and cl: "\<And>k. prefix SM k \<Longrightarrow> node_at w0 k \<noteq> None \<Longrightarrow> \<forall>c \<in> set k. real_name c"
    and still: "src_still SM w0 w" and df: "dir_faults w = []" and nd: "named sd = P @ rel" "named dd = T @ rel"
    and X: "\<forall>rk \<in> X. plain rk" and cp: "oki \<longrightarrow> copied (SM @ P) (DM @ T) w0 X w"
  shows "\<exists>st new vok r1 ns V w'. scan vs (rq_srcVolume rq) sd (tree_visit vs rq sd dd) (Some ([], True, r)) w = ((st, Some (new, vok, r1)), w')
    \<and> src_still SM w0 w' \<and> dir_faults w' = [] \<and> within (DM @ T) w w' \<and> pushed SM P T rel w0 sd V new ns
    \<and> (st \<noteq> Ok \<longrightarrow> new = []) \<and> (st = Ok \<and> oki \<and> vok \<longrightarrow> passed SM P DM T rel w0 X V ns w')
    \<and> (st = Ok \<longrightarrow> (\<forall>nm. node_at w0 (SM @ P @ rel @ [nm]) \<noteq> None \<longrightarrow> nm \<in> set V))"
proof -
  obtain sm where m: "v_mount vs (rq_srcVolume rq) = Some sm" "key_of sm = Some SM" using cr by (auto simp: crossing_def)
  obtain st a w' where sc: "scan vs (rq_srcVolume rq) sd (tree_visit vs rq sd dd) (Some ([], True, r)) w = ((st, a), w')"
    by (metis prod.exhaust)
  show ?thesis
  proof (rule scan_cases [OF sc m])
    assume f: "st \<noteq> Ok" "a = Some ([], True, r)" "nodes w' = nodes w" "dir_faults w' = dir_faults w"
    have "pushed SM P T rel w0 sd [] [] []" by (simp add: pushed_def)
    moreover have "within (DM @ T) w w'" using within_same f(3,4) .
    ultimately show ?thesis
      using sc f df still same_world(1) [OF f(3)] by auto
  next
    fix full w1
    let ?V = "child_names w1 (SM @ named sd)"
    let ?I = "walk_inv SM P DM T rel w0 w sd oki X"
    assume g: "st = Ok" "key_of full = Some (SM @ named sd)" "nodes w1 = nodes w" "dir_faults w1 = dir_faults w"
      "scan_entries full (tree_visit vs rq sd dd) ?V (Some ([], True, r)) w1 = (a, w')"
    have sk: "SM @ named sd = SM @ P @ rel" by (simp add: nd)
    have V: "nm \<in> set ?V \<longleftrightarrow> node_at w0 (SM @ P @ rel @ [nm]) \<noteq> None" for nm
      using still g(3) by (simp add: child_names_iff sk src_still_def)
    have real: "nm \<in> set ?V \<Longrightarrow> real_name nm" for nm
      using cl [of "SM @ P @ rel @ [nm]"] V by auto
    have start: "?I [] (Some ([], True, r)) w1"
      using g(3,4) cp still df same_world [OF g(3)] within_same [OF g(3,4)]
      by (auto simp: walk_inv_def pushed_def passed_def)
    have "\<exists>a' w'. scan_entries full (tree_visit vs rq sd dd) ?V (Some ([], True, r)) w1 = (a', w') \<and> ?I ([] @ ?V) a' w'"
    proof (rule scan_entries_inv [where I = ?I and names = ?V])
      show "?I [] (Some ([], True, r)) w1" by (rule start)
      show "dir_faults w = []" if "?I V st w" for V st w using that by (auto simp: walk_inv_def)
      show "?I V st w'" if "?I V st w" "nodes w' = nodes w" "dir_faults w' = dir_faults w" for V st w w'
        using walk_inv_same that by blast
      show "?I (V @ [nm]) st w" if "?I V st w" "nm \<in> set ?V" "nm = ''.'' \<or> nm = ''..'' \<or> isPartName nm" for V st w nm
        using walk_inv_skip [OF that(1)] that(3) real [OF that(2)] by (auto simp: real_name_def)
      show "\<exists>a' w'. tree_visit vs rq sd dd e st w = (True, a', w') \<and> ?I (V @ [nm]) a' w'"
        if "?I V st w" "nm \<in> set ?V" "nm \<notin> set V" "\<not> isPartName nm" "fe_name e = nm"
          "fe_isDir e \<longrightarrow> (\<exists>k. key_of (full @ slash # nm) = Some k \<and> node_at w k = Some Dir)" for V st w nm e
        using walk_inv_visit [OF that(1) X cr T nd that(5) real [OF that(2)] that(4,3)] that(6)
          key_child [OF g(2) real [OF that(2)]] sk by auto
    qed simp_all
    then obtain queue ok ra ns where f: "a = Some (queue, ok, ra)" "src_still SM w0 w'" "dir_faults w' = []"
        "within (DM @ T) w w'" "pushed SM P T rel w0 sd ?V queue ns" "oki \<and> ok \<longrightarrow> passed SM P DM T rel w0 X ?V ns w'"
      using g(5) unfolding walk_inv_def by auto
    show ?thesis
      using sc f g(1) V
      by (intro exI [of _ st] exI [of _ queue] exI [of _ ok] exI [of _ ra] exI [of _ ns] exI [of _ ?V] exI [of _ w']) simp
  qed
qed

end
