(* ===== verification/TreeQueue.thy ===== *)
theory TreeQueue
  imports TreeCopy
begin

text \<open>
  The queue of directories: it empties before the fuel does, because every directory that is taken off
  stands for at least one node more than the directories it puts on; and when it is empty every directory
  of the tree has been walked.
\<close>

section \<open>The queue empties\<close>

definition below_count :: "world \<Rightarrow> key \<Rightarrow> nat" where
  "below_count w k = card {k'. node_at w k' \<noteq> None \<and> strict_prefix k k'}"

lemma finite_nodes [simp]: "finite {k. node_at w k \<noteq> None \<and> Q k}"
  by (rule finite_subset [OF _ finite_dom_map_of [of "nodes w"]]) auto

lemma below_count_le: "below_count w k \<le> length (nodes w)"
proof -
  have "below_count w k \<le> card (dom (map_of (nodes w)))"
    unfolding below_count_def by (intro card_mono finite_dom_map_of) auto
  also have "\<dots> \<le> length (nodes w)"
    using card_length [of "map fst (nodes w)"] by (simp add: dom_map_of_conv_image_fst)
  finally show ?thesis .
qed

lemma below_children:
  assumes d: "distinct ns" and ex: "\<forall>nm \<in> set ns. node_at w (k @ [nm]) \<noteq> None"
  shows "(\<Sum>nm\<leftarrow>ns. Suc (below_count w (k @ [nm]))) \<le> below_count w k"
proof -
  define A where "A nm = {k'. node_at w k' \<noteq> None \<and> prefix (k @ [nm]) k'}" for nm
  have card_A: "card (A nm) = Suc (below_count w (k @ [nm]))" if "nm \<in> set ns" for nm
  proof -
    have "A nm = insert (k @ [nm]) {k'. node_at w k' \<noteq> None \<and> strict_prefix (k @ [nm]) k'}"
      using ex that by (auto simp: A_def strict_prefix_def)
    then show ?thesis unfolding below_count_def using card_insert_disjoint [OF finite_nodes] by auto
  qed
  have finA: "finite (A nm)" for nm
    unfolding A_def by (rule finite_nodes)
  have disj: "A a \<inter> A b = {}" if "a \<noteq> b" for a b
    using that by (auto simp: A_def prefix_def)
  have "(\<Sum>nm\<leftarrow>ns. Suc (below_count w (k @ [nm]))) = (\<Sum>nm\<in>set ns. card (A nm))"
    using d card_A by (simp add: sum_list_distinct_conv_sum_set)
  also have "\<dots> = card (\<Union>nm\<in>set ns. A nm)"
    using disj finA by (subst card_UN_disjoint) auto
  also have "\<dots> \<le> below_count w k"
    unfolding below_count_def
    by (intro card_mono finite_nodes) (auto simp: A_def strict_prefix_def prefix_def)
  finally show ?thesis .
qed

definition load :: "world \<Rightarrow> key \<Rightarrow> key list \<Rightarrow> nat" where
  "load w SP rels = (\<Sum>rel\<leftarrow>rels. Suc (below_count w (SP @ rel)))"

lemma load_simps [simp]: "load w SP [] = 0" "load w SP (r # rs) = Suc (below_count w (SP @ r)) + load w SP rs"
  "load w SP (rs @ rs') = load w SP rs + load w SP rs'"
  by (simp_all add: load_def)

lemma load_children:
  "distinct ns \<Longrightarrow> \<forall>nm \<in> set ns. node_at w (SP @ rel @ [nm]) \<noteq> None \<Longrightarrow>
    load w SP (map (\<lambda>nm. rel @ [nm]) ns) \<le> below_count w (SP @ rel)"
  using below_children [of ns w "SP @ rel"] by (simp add: load_def comp_def)

section \<open>The walk is complete\<close>

definition kids :: "key set \<Rightarrow> key set" where
  "kids D = {rel @ [nm] | rel nm. rel \<in> D \<and> \<not> isPartName nm}"

definition dirs_in :: "world \<Rightarrow> key \<Rightarrow> key set \<Rightarrow> key set \<Rightarrow> bool" where
  "dirs_in w0 SP D E \<longleftrightarrow> (\<forall>rel \<in> D. \<forall>nm. \<not> isPartName nm \<and> node_at w0 (SP @ rel @ [nm]) = Some Dir \<longrightarrow> rel @ [nm] \<in> E)"

lemma kids_plain: "\<forall>rk \<in> kids D. plain rk"
  by (auto simp: kids_def plain_def)

lemma passed_kids:
  assumes "passed SM P DM T rel w0 (kids D) V ns w" "\<forall>nm. node_at w0 (SM @ P @ rel @ [nm]) \<noteq> None \<longrightarrow> nm \<in> set V"
  shows "copied (SM @ P) (DM @ T) w0 (kids (insert rel D)) w"
  unfolding copied_def
proof (intro ballI allI impI)
  fix rk c
  assume rk: "rk \<in> kids (insert rel D)" and f: "node_at w0 ((SM @ P) @ rk) = Some (File c)"
  then have "rk \<in> kids D \<union> (\<lambda>nm. rel @ [nm]) ` {nm \<in> set V. \<not> isPartName nm}"
    using assms(2) by (auto simp: kids_def)
  then show "node_at w ((DM @ T) @ rk) = Some (File c)"
    using assms(1) f unfolding passed_def copied_def by blast
qed

abbreviation pairs :: "key \<Rightarrow> key \<Rightarrow> (string \<times> string) list \<Rightarrow> key list \<Rightarrow> bool" where
  "pairs P T \<equiv> list_all2 (\<lambda>(s, d) rel. named s = P @ rel \<and> named d = T @ rel)"

lemma pushed_pairs: "pushed SM P T rel w0 sd V new ns \<Longrightarrow> pairs P T new (map (\<lambda>nm. rel @ [nm]) ns)"
  by (auto simp: pushed_def list_all2_map2 elim: list_all2_mono)

lemma copy_queue_False: "copy_queue n vs rq queue False r w = Some (ok', r', w') \<Longrightarrow> \<not> ok'"
proof (induction n arbitrary: queue r w)
  case 0
  then show ?case by (cases queue) auto
next
  case (Suc n)
  then show ?case
    by (cases queue) (auto split: if_splits prod.splits option.splits)
qed

lemma copy_queue_spec:
  assumes cr: "crossing vs rq SM DM" and T: "T \<noteq> []"
    and cl: "\<And>k. prefix SM k \<Longrightarrow> node_at w0 k \<noteq> None \<Longrightarrow> \<forall>c \<in> set k. real_name c"
  shows "src_still SM w0 w \<Longrightarrow> dir_faults w = [] \<Longrightarrow> pairs P T queue rels \<Longrightarrow> load w0 (SM @ P) rels \<le> n
    \<Longrightarrow> ok \<longrightarrow> copied (SM @ P) (DM @ T) w0 (kids D) w \<and> dirs_in w0 (SM @ P) D (D \<union> set rels)
    \<Longrightarrow> \<exists>ok' r' w'. copy_queue n vs rq queue ok r w = Some (ok', r', w') \<and> src_still SM w0 w' \<and> dir_faults w' = []
      \<and> within (DM @ T) w w'
      \<and> (ok' \<longrightarrow> (\<exists>E. D \<union> set rels \<subseteq> E \<and> copied (SM @ P) (DM @ T) w0 (kids E) w' \<and> dirs_in w0 (SM @ P) E E))"
proof (induction n arbitrary: queue rels ok r w D)
  case 0
  then have "queue = []" "rels = []" by (cases rels; simp)+
  then show ?case using 0 by auto
next
  case (Suc n)
  show ?case
  proof (cases queue)
    case Nil
    then show ?thesis using Suc.prems by auto
  next
    case (Cons p rest)
    obtain sd dd where p: "p = (sd, dd)" by fastforce
    obtain rel rels' where rels: "rels = rel # rels'" and nd: "named sd = P @ rel" "named dd = T @ rel"
      and rest: "pairs P T rest rels'"
      using Suc.prems(3) Cons p by (auto simp: list_all2_Cons1)
    show ?thesis
    proof (cases "cancelled r")
      case True
      then show ?thesis using Suc.prems(1,2) Cons p by auto
    next
      case False
      obtain st new vok r1 ns V w' where sc: "scan vs (rq_srcVolume rq) sd (tree_visit vs rq sd dd) (Some ([], True, r)) w
            = ((st, Some (new, vok, r1)), w')"
        and w': "src_still SM w0 w'" "dir_faults w' = []" "within (DM @ T) w w'"
        and pu: "pushed SM P T rel w0 sd V new ns" and bad: "st \<noteq> Ok \<longrightarrow> new = []"
        and good: "st = Ok \<and> ok \<and> vok \<longrightarrow> passed SM P DM T rel w0 (kids D) V ns w'"
        and V: "st = Ok \<longrightarrow> (\<forall>nm. node_at w0 (SM @ P @ rel @ [nm]) \<noteq> None \<longrightarrow> nm \<in> set V)"
        using scan_tree [OF cr T cl Suc.prems(1,2) nd kids_plain, of ok D r] Suc.prems(5) by blast
      have ld: "load w0 (SM @ P) (map (\<lambda>nm. rel @ [nm]) ns) \<le> below_count w0 ((SM @ P) @ rel)"
        using load_children [of ns w0 "SM @ P" rel] pu by (auto simp: pushed_def)
      show ?thesis
      proof (cases "st = Ok")
        case False
        have "load w0 (SM @ P) rels' \<le> n" using Suc.prems(4) rels by simp
        from Suc.IH [OF w'(1,2) rest this, of False D "fail sd st r1"]
        obtain ok' r' w'' where ih: "copy_queue n vs rq rest False (fail sd st r1) w' = Some (ok', r', w'')"
          "src_still SM w0 w''" "dir_faults w'' = []" "within (DM @ T) w' w''"
          "ok' \<longrightarrow> (\<exists>E. D \<union> set rels' \<subseteq> E \<and> copied (SM @ P) (DM @ T) w0 (kids E) w'' \<and> dirs_in w0 (SM @ P) E E)"
          by blast
        have "\<not> ok'" using copy_queue_False [OF ih(1)] .
        then show ?thesis
          using ih(1-3) within_trans [OF w'(3) ih(4)] Cons p \<open>\<not> cancelled r\<close> sc False by auto
      next
        case True
        let ?new = "map (\<lambda>nm. rel @ [nm]) ns"
        have pr: "pairs P T (rest @ new) (rels' @ ?new)"
          using rest pushed_pairs [OF pu] by (rule list_all2_appendI)
        have fuel: "load w0 (SM @ P) (rels' @ ?new) \<le> n" using Suc.prems(4) rels ld by simp
        have inv: "ok \<and> vok \<longrightarrow> copied (SM @ P) (DM @ T) w0 (kids (insert rel D)) w'
            \<and> dirs_in w0 (SM @ P) (insert rel D) (insert rel D \<union> set (rels' @ ?new))"
        proof
          assume o: "ok \<and> vok"
          then have pa: "passed SM P DM T rel w0 (kids D) V ns w'" using good True by blast
          have "dirs_in w0 (SM @ P) D (D \<union> set rels)" using Suc.prems(5) o by blast
          moreover have "\<forall>nm. \<not> isPartName nm \<and> node_at w0 ((SM @ P) @ rel @ [nm]) = Some Dir \<longrightarrow> rel @ [nm] \<in> set ?new"
            using pa V True unfolding passed_def by auto
          ultimately have "dirs_in w0 (SM @ P) (insert rel D) (insert rel D \<union> set (rels' @ ?new))"
            unfolding dirs_in_def rels by auto
          then show "copied (SM @ P) (DM @ T) w0 (kids (insert rel D)) w'
            \<and> dirs_in w0 (SM @ P) (insert rel D) (insert rel D \<union> set (rels' @ ?new))"
            using passed_kids [OF pa] V True by blast
        qed
        from Suc.IH [OF w'(1,2) pr fuel inv, of r1]
        obtain ok' r' w'' where ih: "copy_queue n vs rq (rest @ new) (ok \<and> vok) r1 w' = Some (ok', r', w'')"
          "src_still SM w0 w''" "dir_faults w'' = []" "within (DM @ T) w' w''"
          "ok' \<longrightarrow> (\<exists>E. insert rel D \<union> set (rels' @ ?new) \<subseteq> E \<and> copied (SM @ P) (DM @ T) w0 (kids E) w'' \<and> dirs_in w0 (SM @ P) E E)"
          by blast
        have "D \<union> set rels \<subseteq> insert rel D \<union> set (rels' @ ?new)" using rels by auto
        then have "ok' \<longrightarrow> (\<exists>E. D \<union> set rels \<subseteq> E \<and> copied (SM @ P) (DM @ T) w0 (kids E) w'' \<and> dirs_in w0 (SM @ P) E E)"
          using ih(5) by blast
        moreover have "copy_queue (Suc n) vs rq queue ok r w = Some (ok', r', w'')"
          using Cons p \<open>\<not> cancelled r\<close> sc True ih(1) by simp
        ultimately show ?thesis
          using ih(2,3) within_trans [OF w'(3) ih(4)] by blast
      qed
    qed
  qed
qed

end
