(* ===== verification/TransferProps.thy ===== *)
theory TransferProps
  imports TreeQueue
begin

text \<open>The promise of the transfer engine: nothing is lost when entries move between volumes.\<close>

section \<open>One entry\<close>

text \<open>A tree as a file system keeps it, without the temporary files of uploads.\<close>

definition tree_ok :: "world \<Rightarrow> key \<Rightarrow> bool" where
  "tree_ok w SP \<longleftrightarrow> (\<forall>rk nm. node_at w (SP @ rk @ [nm]) \<noteq> None \<longrightarrow> node_at w (SP @ rk) = Some Dir \<and> \<not> isPartName nm)"

lemma all_dirs:
  assumes "tree_ok w SP" "[] \<in> E" "dirs_in w SP E E"
  shows "node_at w (SP @ rk) = Some Dir \<Longrightarrow> rk \<in> E"
proof (induction rk rule: rev_induct)
  case (snoc nm rk)
  then have "node_at w (SP @ rk) = Some Dir" "\<not> isPartName nm" using assms(1) by (auto simp: tree_ok_def)
  then show ?case using snoc assms(3) by (auto simp: dirs_in_def)
qed (simp add: assms(2))

lemma all_files:
  assumes "tree_ok w SP" "[] \<in> E" "dirs_in w SP E E" "copied SP DT w (kids E) w'"
    and "node_at w (SP @ rk) = Some (File c)" "rk \<noteq> []"
  shows "node_at w' (DT @ rk) = Some (File c)"
proof -
  obtain ini nm where rk: "rk = ini @ [nm]" using assms(6) by (metis rev_exhaust)
  then have p: "node_at w (SP @ ini) = Some Dir" "\<not> isPartName nm" using assms(1,5) by (auto simp: tree_ok_def)
  then have "rk \<in> kids E" using all_dirs [OF assms(1-3) p(1)] by (auto simp: kids_def rk)
  then show ?thesis using assms(4,5) by (simp add: copied_def)
qed

lemma copyEntry_spec:
  assumes cr: "crossing vs rq SM DM" and nd: "named path = P" "named target = T" and T: "T \<noteq> []"
    and cl: "clean SM w" and df: "dir_faults w = []" and ok: "tree_ok w (SM @ P)"
    and node: "node_at w (SM @ P) = Some n" "isDir = (n = Dir)"
  shows "\<exists>b r' w'. copyEntry vs rq path target isDir r w = Some (b, r', w') \<and> within (DM @ T) w w'
    \<and> (b \<longrightarrow> (\<forall>rk c. node_at w (SM @ P @ rk) = Some (File c) \<longrightarrow> node_at w' (DM @ T @ rk) = Some (File c)))"
proof (cases isDir)
  case True
  have "src_still SM w w" "pairs P T [(path, target)] [[]]" "load w (SM @ P) [[]] \<le> queue_fuel w"
    using nd below_count_le [of w "SM @ P"] by (simp_all add: src_still_def queue_fuel_def)
  moreover have "True \<longrightarrow> copied (SM @ P) (DM @ T) w (kids {}) w \<and> dirs_in w (SM @ P) {} ({} \<union> set [[]])"
    by (simp add: copied_def kids_def dirs_in_def)
  moreover have "\<And>k. prefix SM k \<Longrightarrow> node_at w k \<noteq> None \<Longrightarrow> \<forall>c \<in> set k. real_name c"
    using cl by (simp add: clean_def)
  ultimately obtain b r' w' where q: "copy_queue (queue_fuel w) vs rq [(path, target)] True r w = Some (b, r', w')"
      "within (DM @ T) w w'"
      "b \<longrightarrow> (\<exists>E. {} \<union> set [[]] \<subseteq> E \<and> copied (SM @ P) (DM @ T) w (kids E) w' \<and> dirs_in w (SM @ P) E E)"
    using copy_queue_spec [OF cr T, of w w P "[(path, target)]" "[[]]" "queue_fuel w" True "{}" r] df by blast
  have "node_at w' (DM @ T @ rk) = Some (File c)" if b: "b" and f: "node_at w (SM @ P @ rk) = Some (File c)" for rk c
  proof -
    obtain E where "[] \<in> E" "copied (SM @ P) (DM @ T) w (kids E) w'" "dirs_in w (SM @ P) E E"
      using q(3) b by auto
    moreover have "rk \<noteq> []" using f node True by auto
    ultimately show ?thesis
      using all_files [OF ok, of E "DM @ T" w' rk c] f by simp
  qed
  then show ?thesis using q True by (auto simp: copyEntry_def)
next
  case False
  obtain sm dm where mounts: "v_mount vs (rq_srcVolume rq) = Some sm" "key_of sm = Some SM"
      "v_mount vs (rq_dstVolume rq) = Some dm" "key_of dm = Some DM"
    using cr by (auto simp: crossing_def)
  obtain c0 where c0: "node_at w (SM @ P) = Some (File c0)" using node False by (cases n) auto
  have "\<not> prefix DM (SM @ P)" using crossing_apart(1) [OF cr] by (simp add: prefix_def)
  moreover have "prefix DM (DM @ T)" "prefix DM (part_key (DM @ T))" using prefix_part_key [OF T] by simp_all
  ultimately have ne: "SM @ named path \<noteq> DM @ named target" "SM @ named path \<noteq> part_key (DM @ named target)"
    using nd by metis+
  obtain b r1 w1 where cf: "copyFile vs rq path target (r\<lparr>current := path\<rparr>) w = Some (b, r1, w1)"
      "only {DM @ T, part_key (DM @ T)} w w1"
      "b \<longrightarrow> (\<exists>c. node_at w (SM @ P) = Some (File c) \<and> node_at w1 (DM @ T) = Some (File c))"
    using copyFile_spec [OF mounts ne, of "r\<lparr>current := path\<rparr>" w] nd by auto
  have leaf: "rk = []" if "node_at w (SM @ P @ rk) \<noteq> None" for rk
  proof (rule ccontr)
    assume "rk \<noteq> []"
    have "node_at w (SM @ P @ take 1 rk) \<noteq> None" using that
    proof (induction rk rule: rev_induct)
      case (snoc x xs)
      then have "node_at w (SM @ P @ xs) = Some Dir" using ok by (simp add: tree_ok_def)
      then show ?case using snoc by (cases xs) auto
    qed simp
    then have "node_at w (SM @ P @ [] @ [hd rk]) \<noteq> None" using \<open>rk \<noteq> []\<close> by (cases rk) auto
    then have "node_at w ((SM @ P) @ []) = Some Dir" using ok unfolding tree_ok_def by (metis append.assoc)
    then show False using c0 by simp
  qed
  have "within (DM @ T) w w1" using only_within [of "DM @ T" "[]"] cf(2) T by simp
  moreover have "b \<longrightarrow> (\<forall>rk c. node_at w (SM @ P @ rk) = Some (File c) \<longrightarrow> node_at w1 (DM @ T @ rk) = Some (File c))"
    using cf(3) leaf by fastforce
  ultimately show ?thesis using cf(1) False by (auto simp: copyEntry_def)
qed

text \<open>What moving one entry may change, and what it must not lose.\<close>

definition moved :: "TransferRequest \<Rightarrow> key \<Rightarrow> key \<Rightarrow> world \<Rightarrow> world \<Rightarrow> bool" where
  "moved rq SP DT w w' \<longleftrightarrow>
     (\<forall>k. \<not> prefix SP k \<and> \<not> prefix DT k \<and> k \<noteq> part_key DT \<longrightarrow> node_at w' k = node_at w k)
     \<and> (\<forall>k. prefix SP k \<longrightarrow> node_at w' k = node_at w k \<or> (rq_op rq = Move \<and> node_at w' k = None))
     \<and> (\<forall>rk c. node_at w (SP @ rk) = Some (File c) \<longrightarrow>
          node_at w' (SP @ rk) = Some (File c) \<or> (rq_op rq = Move \<and> node_at w' (DT @ rk) = Some (File c)))
     \<and> dir_faults w' = []"

lemma moved_same: "nodes w' = nodes w \<Longrightarrow> dir_faults w' = [] \<Longrightarrow> moved rq SP DT w w'"
  by (simp add: moved_def)

lemma transfer_entry_spec:
  assumes cr: "crossing vs rq SM DM" and nd: "named path = P" "named target = T" and T: "T \<noteq> []"
    and cl: "clean SM w" and df: "dir_faults w = []" and ok: "tree_ok w (SM @ P)"
    and node: "node_at w (SM @ P) = Some n" "fe_isDir e = (n = Dir)"
  shows "\<exists>b r' w'. transfer_entry vs rq path target e r w = Some (b, r', w') \<and> moved rq (SM @ P) (DM @ T) w w'"
proof -
  obtain sm dm where mounts: "v_mount vs (rq_srcVolume rq) = Some sm" "key_of sm = Some SM"
      "v_mount vs (rq_dstVolume rq) = Some dm" "key_of dm = Some DM"
    using cr by (auto simp: crossing_def)
  obtain st w1 where mk: "mkdir vs (rq_dstVolume rq) target w = (st, w1)" by fastforce
  have mw: "within (DM @ T) w w1"
    using only_within [OF only_mono, of "{DM @ T}" w w1 "DM @ T" "[]"] mkdir_spec(1) [OF mk mounts(3,4)] nd T by auto
  have src: "within (DM @ T) w v \<Longrightarrow> prefix SM k \<Longrightarrow> node_at v k = node_at w k" for v k
    using within_source [OF cr _ T] .
  have go: "\<exists>b r' w'. (case copyEntry vs rq path target (fe_isDir e) r1 v of
                        None \<Rightarrow> None
                      | Some (complete, r1, w1) \<Rightarrow>
                          Some (finish_entry vs rq path (fe_isDir e) complete r1 w1)) = Some (b, r', w')
       \<and> moved rq (SM @ P) (DM @ T) w w'" if v: "within (DM @ T) w v" for v r1
  proof -
    have s: "prefix SM k \<Longrightarrow> node_at v k = node_at w k" for k using src [OF v] .
    have sP: "node_at v (SM @ rk) = node_at w (SM @ rk)" for rk using s by simp
    have clv: "clean SM v" using cl s unfolding clean_def by metis
    have dfv: "dir_faults v = []" using v df by (simp add: within_def)
    have okv: "tree_ok v (SM @ P)" using ok sP by (simp add: tree_ok_def)
    obtain b r2 w2 where ce: "copyEntry vs rq path target (fe_isDir e) r1 v = Some (b, r2, w2)" "within (DM @ T) v w2"
        "b \<longrightarrow> (\<forall>rk c. node_at v (SM @ P @ rk) = Some (File c) \<longrightarrow> node_at w2 (DM @ T @ rk) = Some (File c))"
      using copyEntry_spec [OF cr nd T clv dfv okv, of n "fe_isDir e" r1] node sP by auto
    have w2: "within (DM @ T) w w2" using within_trans [OF v ce(2)] .
    have m2: "moved rq (SM @ P) (DM @ T) w w2"
      using w2 df src [OF w2] by (auto simp: moved_def within_def dest: append_prefixD)
    show ?thesis
    proof (cases "\<not> cancelled r2 \<and> b \<and> rq_op rq = Move")
      case False
      then show ?thesis using ce(1) m2 by (auto simp: finish_entry_def Let_def)
    next
      case True
      obtain q w3 where rm: "remove vs (rq_srcVolume rq) path (fe_isDir e) w2 = (q, w3)" by fastforce
      have "clean (SM @ named path) w2"
        using clean_child [of SM w2] cl src [OF w2] unfolding clean_def by metis
      then have pr: "prunes (SM @ P) w2 w3"
        using remove_prunes [OF rm mounts(1,2)] nd by simp
      have apart: "\<not> prefix (SM @ P) (DM @ T @ rk)" for rk
        using crossing_apart(2) [OF cr, of "DM @ T @ rk"] append_prefixD [of SM P] by auto
      have "moved rq (SM @ P) (DM @ T) w w3"
        unfolding moved_def
      proof (intro conjI allI impI)
        fix k
        assume "\<not> prefix (SM @ P) k \<and> \<not> prefix (DM @ T) k \<and> k \<noteq> part_key (DM @ T)"
        then show "node_at w3 k = node_at w k"
          using pr [unfolded prunes_def, THEN conjunct1, rule_format, of k]
            m2 [unfolded moved_def, THEN conjunct1, rule_format, of k] by auto
      next
        fix k
        assume "prefix (SM @ P) k"
        then show "node_at w3 k = node_at w k \<or> (rq_op rq = Move \<and> node_at w3 k = None)"
          using True pr [unfolded prunes_def, THEN conjunct1, rule_format, of k]
            m2 [unfolded moved_def, THEN conjunct2, THEN conjunct1, rule_format, of k] by auto
      next
        fix rk c
        assume f: "node_at w ((SM @ P) @ rk) = Some (File c)"
        then have "node_at w2 (DM @ T @ rk) = Some (File c)" using ce(3) True sP by simp
        moreover have "node_at w3 (DM @ T @ rk) = node_at w2 (DM @ T @ rk)" using pr apart by (metis prunes_def)
        ultimately show "node_at w3 ((SM @ P) @ rk) = Some (File c)
            \<or> (rq_op rq = Move \<and> node_at w3 ((DM @ T) @ rk) = Some (File c))"
          using True by simp
      next
        show "dir_faults w3 = []" using pr m2 by (simp add: moved_def prunes_def)
      qed
      then show ?thesis using ce(1) True rm by (auto simp: finish_entry_def Let_def)
    qed
  qed
  have m1: "moved rq (SM @ P) (DM @ T) w w1"
    using mw df src [OF mw] by (auto simp: moved_def within_def dest: append_prefixD)
  show ?thesis
  proof (cases "fe_isDir e")
    case False
    then show ?thesis using go [of w r] by (simp add: transfer_entry_def)
  next
    case True
    show ?thesis
    proof (cases "st \<noteq> Ok \<and> st \<noteq> AlreadyExists")
      case True
      then show ?thesis using m1 mk \<open>fe_isDir e\<close> by (auto simp: transfer_entry_def)
    next
      case False
      have "transfer_entry vs rq path target e r w =
         (case copyEntry vs rq path target (fe_isDir e) (if st = Ok then r\<lparr>dirsDone := dirsDone r + 1\<rparr> else r) w1 of
                        None \<Rightarrow> None
                      | Some (complete, r1, w1) \<Rightarrow>
                          Some (finish_entry vs rq path (fe_isDir e) complete r1 w1))"
        using mk \<open>fe_isDir e\<close> False by (auto simp: transfer_entry_def Let_def)
      then show ?thesis using go [OF mw] by presburger
    qed
  qed
qed

section \<open>Measuring ends and changes nothing\<close>

lemma measure_queue_total:
  assumes m: "v_mount vs v = Some sm" "key_of sm = Some SM"
  shows "clean SM w \<Longrightarrow> dir_faults w = [] \<Longrightarrow> load w SM (map named queue) \<le> n \<Longrightarrow>
    \<exists>st me' r' w'. measure_queue n vs v me queue r w = Some (st, me', r', w') \<and> nodes w' = nodes w \<and> dir_faults w' = []"
proof (induction n arbitrary: queue me r w)
  case 0
  then have "queue = []" by (cases queue) auto
  then show ?case using 0 by auto
next
  case (Suc n)
  show ?case
  proof (cases queue)
    case (Cons dir rest)
    obtain st me1 new w1 where sc: "scan vs v dir (measure_visit dir) (me, []) w = ((st, me1, new), w1)"
      by (metis prod.exhaust)
    have w1: "nodes w1 = nodes w \<and> dir_faults w1 = [] \<and> (st = Ok \<longrightarrow> load w SM (map named new) \<le> below_count w (SM @ named dir))"
    proof (rule scan_cases [OF sc m])
      assume "st \<noteq> Ok" "nodes w1 = nodes w" "dir_faults w1 = dir_faults w"
      then show ?thesis using Suc.prems by simp
    next
      fix full w2
      let ?V = "child_names w2 (SM @ named dir)"
      let ?I = "\<lambda>V (a :: Measure \<times> string list) v. nodes v = nodes w \<and> dir_faults v = []
          \<and> (\<exists>ns. snd a = map (joinRel dir) ns \<and> distinct ns \<and> set ns \<subseteq> set V \<inter> set ?V)"
      assume g: "nodes w2 = nodes w" "dir_faults w2 = dir_faults w"
        "scan_entries full (measure_visit dir) ?V (me, []) w2 = ((me1, new), w1)"
      have "\<exists>a' w'. scan_entries full (measure_visit dir) ?V (me, []) w2 = (a', w') \<and> ?I ([] @ ?V) a' w'"
      proof (rule scan_entries_inv [where I = ?I and names = ?V])
        show "?I [] (me, []) w2" using g Suc.prems by simp
        show "\<exists>a' w'. measure_visit dir e a v = (True, a', w') \<and> ?I (V @ [nm]) a' w'"
          if pre: "?I V a v" "nm \<in> set ?V" "nm \<notin> set V" "fe_name e = nm" for V a v nm e
        proof -
          obtain ns where ns: "snd a = map (joinRel dir) ns" "distinct ns" "set ns \<subseteq> set V \<inter> set ?V"
            using pre(1) by blast
          show ?thesis
          proof (cases "fe_isDir e")
            case True
            then show ?thesis
              using pre ns by (auto simp: measure_visit_def split: prod.splits intro!: exI [of _ "ns @ [nm]"])
          next
            case False
            then show ?thesis
              using pre ns by (auto simp: measure_visit_def split: prod.splits)
          qed
        qed
      qed auto
      then obtain ns where ns: "nodes w1 = nodes w" "dir_faults w1 = []" "new = map (joinRel dir) ns" "distinct ns" "set ns \<subseteq> set ?V"
        using g(3) by auto
      have ex: "\<forall>nm \<in> set ns. node_at w (SM @ named dir @ [nm]) \<noteq> None"
        using ns(5) g(1) by (auto simp: child_names_iff)
      have "\<forall>nm \<in> set ns. real_name nm"
      proof
        fix nm
        assume "nm \<in> set ns"
        then show "real_name nm"
          using Suc.prems(1) [unfolded clean_def, rule_format, of "SM @ named dir @ [nm]" nm] ex by auto
      qed
      then have "map named new = map (\<lambda>nm. named dir @ [nm]) ns"
        using named_joinRel by (auto simp: ns(3))
      then have "load w SM (map named new) \<le> below_count w (SM @ named dir)"
        using load_children [OF ns(4) ex] by argo
      then show ?thesis using ns(1,2) by blast
    qed
    show ?thesis
    proof (cases "st = Ok")
      case False
      then show ?thesis using sc w1 Cons by auto
    next
      case True
      have ld: "load w1 SM xs = load w SM xs" for xs using w1 by (simp add: load_def below_count_def)
      have le: "load w1 SM (map named (rest @ new)) \<le> n"
        unfolding ld map_append load_simps(3) using Suc.prems(3) w1 True unfolding Cons list.map load_simps(2) by linarith
      have c1: "clean SM w1" using Suc.prems(1) w1 by (simp add: clean_def)
      obtain st' me' r' w' where ih: "measure_queue n vs v me1 (rest @ new) (r\<lparr>current := dir\<rparr>) w1 = Some (st', me', r', w')"
          "nodes w' = nodes w1" "dir_faults w' = []"
        using Suc.IH [OF c1 _ le] w1 by blast
      then show ?thesis using sc True Cons w1 by simp
    qed
  qed (use Suc.prems in simp)
qed

lemma measureEntry_total:
  assumes m: "v_mount vs v = Some sm" "key_of sm = Some SM" and c: "clean SM w" "dir_faults w = []"
  shows "\<exists>st me r' w'. measureEntry vs v path r w = Some (st, me, r', w') \<and> nodes w' = nodes w \<and> dir_faults w' = []"
proof -
  obtain q w1 where q: "stat_entry vs v path w = (q, w1)" by fastforce
  have n1: "nodes w1 = nodes w" "dir_faults w1 = []" using stat_entry_same [OF q] c by simp_all
  have c1: "clean SM w1" using c n1 by (simp add: clean_def)
  have "load w1 SM (map named [path]) \<le> queue_fuel w1"
    using below_count_le [of w1 "SM @ named path"] by (simp add: queue_fuel_def)
  from measure_queue_total [OF m c1 n1(2) this, of "\<lparr>m_bytes = 0, m_files = 0, m_dirs = 1\<rparr>" r]
  obtain st me r' w' where mq: "measure_queue (queue_fuel w1) vs v \<lparr>m_bytes = 0, m_files = 0, m_dirs = 1\<rparr> [path] r w1 = Some (st, me, r', w')"
    "nodes w' = nodes w1" "dir_faults w' = []" by blast
  then show ?thesis
    using q n1 by (auto simp: measureEntry_def Let_def split: sum.splits)
qed

lemma will_skip_same: "will_skip vs rq dstDir path w = (b, w') \<Longrightarrow> nodes w' = nodes w \<and> dir_faults w' = dir_faults w"
  by (auto simp: will_skip_def split: option.splits if_splits prod.splits sum.splits dest!: stat_entry_same)

lemma measure_pass_total:
  assumes m: "v_mount vs (rq_srcVolume rq) = Some sm" "key_of sm = Some SM"
  shows "clean SM w \<Longrightarrow> dir_faults w = [] \<Longrightarrow>
    \<exists>r' w'. measure_pass vs rq dstDir raws r w = Some (r', w') \<and> nodes w' = nodes w \<and> dir_faults w' = []"
proof (induction raws arbitrary: r w)
  case (Cons raw raws)
  show ?case
  proof (cases "normalize raw")
    case None
    then show ?thesis using Cons by simp
  next
    case (Some path)
    obtain b w1 where b: "will_skip vs rq dstDir path w = (b, w1)" by fastforce
    have n1: "nodes w1 = nodes w" "dir_faults w1 = []" using will_skip_same [OF b] Cons.prems by simp_all
    have c1: "clean SM w1" using Cons.prems n1 by (simp add: clean_def)
    obtain st me r1 w2 where me: "measureEntry vs (rq_srcVolume rq) path r w1 = Some (st, me, r1, w2)" "nodes w2 = nodes w1" "dir_faults w2 = []"
      using measureEntry_total [OF m c1 n1(2)] by blast
    have c2: "clean SM w2" using c1 me(2) by (simp add: clean_def)
    show ?thesis
      using Cons.IH [OF c1 n1(2)] Cons.IH [OF c2 me(3)] Some b me n1 by (cases b; cases "st = Ok") simp_all
  qed
qed simp

section \<open>The batch\<close>

text \<open>
  The selected entries: names of one directory \<open>D\<close> of the source; \<open>T0\<close> is the destination directory. Places of
  different entries do not overlap.
\<close>

lemma entries_apart:
  assumes cr: "crossing vs rq SM DM" and nm: "nm \<noteq> nm'" "\<not> isPartName nm" "nm' \<noteq> []"
  shows src_apart: "\<not> prefix (SM @ D @ [nm']) (SM @ D @ nm # rk) \<and> \<not> prefix (DM @ T0 @ [nm']) (SM @ D @ nm # rk)
      \<and> SM @ D @ nm # rk \<noteq> part_key (DM @ T0 @ [nm'])"
    and dst_apart: "\<not> prefix (SM @ D @ [nm']) (DM @ T0 @ nm # rk) \<and> \<not> prefix (DM @ T0 @ [nm']) (DM @ T0 @ nm # rk)
      \<and> DM @ T0 @ nm # rk \<noteq> part_key (DM @ T0 @ [nm'])"
proof -
  have pk: "part_key (DM @ T0 @ [nm']) = DM @ T0 @ [nm' @ kUploadPartSuffix]"
    by (simp add: part_key_def butlast_append)
  have s: "\<not> prefix DM (SM @ D @ nm # rk)" and d: "\<not> prefix SM (DM @ T0 @ nm # rk)"
    using crossing_apart [OF cr] by simp_all
  have "\<not> prefix (SM @ D @ [nm']) (SM @ D @ nm # rk)" "\<not> prefix (DM @ T0 @ [nm']) (DM @ T0 @ nm # rk)"
    using nm(1) by (auto simp: prefix_def)
  moreover have "\<not> prefix (DM @ T0 @ [nm']) (SM @ D @ nm # rk)" using s append_prefixD by blast
  moreover have "\<not> prefix (SM @ D @ [nm']) (DM @ T0 @ nm # rk)" using d append_prefixD by blast
  moreover have "SM @ D @ nm # rk \<noteq> part_key (DM @ T0 @ [nm'])" unfolding pk using s by (metis prefixI)
  moreover have "DM @ T0 @ nm # rk \<noteq> part_key (DM @ T0 @ [nm'])" unfolding pk using nm(2,3) isPartName_append by auto
  ultimately show "\<not> prefix (SM @ D @ [nm']) (SM @ D @ nm # rk) \<and> \<not> prefix (DM @ T0 @ [nm']) (SM @ D @ nm # rk)
      \<and> SM @ D @ nm # rk \<noteq> part_key (DM @ T0 @ [nm'])"
    "\<not> prefix (SM @ D @ [nm']) (DM @ T0 @ nm # rk) \<and> \<not> prefix (DM @ T0 @ [nm']) (DM @ T0 @ nm # rk)
      \<and> DM @ T0 @ nm # rk \<noteq> part_key (DM @ T0 @ [nm'])" by blast+
qed

definition batch_kept :: "TransferRequest \<Rightarrow> key \<Rightarrow> key \<Rightarrow> string list \<Rightarrow> world \<Rightarrow> world \<Rightarrow> bool" where
  "batch_kept rq SD DT0 nms w w' \<longleftrightarrow>
     (\<forall>nm \<in> set nms. \<forall>rk c. node_at w (SD @ nm # rk) = Some (File c) \<longrightarrow>
        node_at w' (SD @ nm # rk) = Some (File c) \<or> (rq_op rq = Move \<and> node_at w' (DT0 @ nm # rk) = Some (File c)))
     \<and> (rq_op rq \<noteq> Move \<longrightarrow> (\<forall>nm \<in> set nms. \<forall>rk. node_at w' (SD @ nm # rk) = node_at w (SD @ nm # rk)))
     \<and> (\<forall>k. (\<forall>nm \<in> set nms. \<not> prefix (SD @ [nm]) k \<and> \<not> prefix (DT0 @ [nm]) k \<and> k \<noteq> part_key (DT0 @ [nm]))
          \<longrightarrow> node_at w' k = node_at w k)"

lemma batch_kept_same: "nodes w' = nodes w \<Longrightarrow> batch_kept rq SD DT0 nms w w'"
  by (simp add: batch_kept_def)

lemma batch_kept_from_same: "nodes v = nodes w \<Longrightarrow> batch_kept rq SD DT0 nms v w' \<Longrightarrow> batch_kept rq SD DT0 nms w w'"
  by (simp add: batch_kept_def)

lemma batch_kept_skip:
  assumes cr: "crossing vs rq SM DM" and d: "distinct (nm # nms)" "\<forall>n \<in> set (nm # nms). \<not> isPartName n \<and> n \<noteq> []"
    and b: "batch_kept rq (SM @ D) (DM @ T0) nms w w'"
  shows "batch_kept rq (SM @ D) (DM @ T0) (nm # nms) w w'"
proof -
  have "node_at w' (SM @ D @ nm # rk) = node_at w (SM @ D @ nm # rk)" for rk
  proof (rule b [unfolded batch_kept_def, THEN conjunct2, THEN conjunct2, rule_format])
    fix n
    assume "n \<in> set nms"
    then have "nm \<noteq> n" "n \<noteq> []" "\<not> isPartName nm" using d by auto
    then show "\<not> prefix ((SM @ D) @ [n]) (SM @ D @ nm # rk) \<and> \<not> prefix ((DM @ T0) @ [n]) (SM @ D @ nm # rk)
        \<and> SM @ D @ nm # rk \<noteq> part_key ((DM @ T0) @ [n])"
      using src_apart [OF cr, of nm n] by simp
  qed
  then show ?thesis
    using b unfolding batch_kept_def by auto
qed

lemma batch_kept_step:
  assumes cr: "crossing vs rq SM DM" and d: "distinct (nm # nms)" "\<forall>n \<in> set (nm # nms). \<not> isPartName n \<and> n \<noteq> []"
    and m: "moved rq (SM @ D @ [nm]) (DM @ T0 @ [nm]) w w1" and b: "batch_kept rq (SM @ D) (DM @ T0) nms w1 w'"
  shows "batch_kept rq (SM @ D) (DM @ T0) (nm # nms) w w'"
proof -
  note frame = m [unfolded moved_def, THEN conjunct1, rule_format]
  note under = m [unfolded moved_def, THEN conjunct2, THEN conjunct1, rule_format]
  note safe = m [unfolded moved_def, THEN conjunct2, THEN conjunct2, THEN conjunct1, rule_format]
  note bs = b [unfolded batch_kept_def, THEN conjunct1, rule_format]
  note bc = b [unfolded batch_kept_def, THEN conjunct2, THEN conjunct1, rule_format]
  note bf = b [unfolded batch_kept_def, THEN conjunct2, THEN conjunct2, rule_format]
  have ne: "nm \<noteq> n" "n \<noteq> nm" "n \<noteq> []" "nm \<noteq> []" "\<not> isPartName nm" "\<not> isPartName n" if "n \<in> set nms" for n
    using d that by auto
  have own1: "node_at w' (SM @ D @ nm # rk) = node_at w1 (SM @ D @ nm # rk)" for rk
    by (rule bf) (use src_apart [OF cr ne(1) ne(5) ne(3)] in simp)
  have own2: "node_at w' (DM @ T0 @ nm # rk) = node_at w1 (DM @ T0 @ nm # rk)" for rk
    by (rule bf) (use dst_apart [OF cr ne(1) ne(5) ne(3)] in simp)
  note own = own1 own2
  have other: "node_at w1 (SM @ D @ n # rk) = node_at w (SM @ D @ n # rk)" if "n \<in> set nms" for n rk
    by (rule frame) (use src_apart [OF cr ne(2) ne(6) ne(4)] that in simp)
  show ?thesis
    unfolding batch_kept_def
  proof (intro conjI ballI allI impI)
    fix n rk c
    assume n: "n \<in> set (nm # nms)" and f: "node_at w ((SM @ D) @ n # rk) = Some (File c)"
    show "node_at w' ((SM @ D) @ n # rk) = Some (File c)
        \<or> (rq_op rq = Move \<and> node_at w' ((DM @ T0) @ n # rk) = Some (File c))"
    proof (cases "n = nm")
      case True
      then show ?thesis using safe [of rk c] f own by simp
    next
      case False
      then have "n \<in> set nms" using n by simp
      then show ?thesis using bs [of n rk c] other [of n rk] f by simp
    qed
  next
    fix n rk
    assume c: "rq_op rq \<noteq> Move" and n: "n \<in> set (nm # nms)"
    show "node_at w' ((SM @ D) @ n # rk) = node_at w ((SM @ D) @ n # rk)"
    proof (cases "n = nm")
      case True
      then show ?thesis using under [of "SM @ D @ nm # rk"] c own1 by auto
    next
      case False
      then have "n \<in> set nms" using n by simp
      then show ?thesis using bc [OF c, of n rk] other [of n rk] by simp
    qed
  next
    fix k
    assume a: "\<forall>n \<in> set (nm # nms). \<not> prefix ((SM @ D) @ [n]) k \<and> \<not> prefix ((DM @ T0) @ [n]) k \<and> k \<noteq> part_key ((DM @ T0) @ [n])"
    have "node_at w' k = node_at w1 k" by (rule bf) (use a in simp)
    moreover have "node_at w1 k = node_at w k" by (rule frame) (use a in simp)
    ultimately show "node_at w' k = node_at w k" by simp
  qed
qed

lemma moved_source:
  assumes cr: "crossing vs rq SM DM" and m: "moved rq (SM @ D @ [nm]) (DM @ T0 @ [nm]) w w1"
  shows "clean SM w \<Longrightarrow> clean SM w1" and "dir_faults w1 = []"
    and "n \<noteq> nm \<Longrightarrow> \<not> isPartName n \<Longrightarrow> nm \<noteq> [] \<Longrightarrow> tree_ok w (SM @ D @ [n]) \<Longrightarrow> tree_ok w1 (SM @ D @ [n])"
proof -
  note frame = m [unfolded moved_def, THEN conjunct1, rule_format]
  note under = m [unfolded moved_def, THEN conjunct2, THEN conjunct1, rule_format]
  show "dir_faults w1 = []" using m by (simp add: moved_def)
  have keep: "node_at w1 k = node_at w k \<or> node_at w1 k = None" if "prefix SM k" for k
  proof (cases "prefix (SM @ D @ [nm]) k")
    case False
    moreover have "\<not> prefix (DM @ T0 @ [nm]) k" using crossing_apart(1) [OF cr that] append_prefixD by blast
    moreover have "k \<noteq> part_key (DM @ T0 @ [nm])"
      using crossing_apart(1) [OF cr that] prefix_part_key [of "T0 @ [nm]" DM] by auto
    ultimately show ?thesis using frame by simp
  qed (use under [of k] in auto)
  show "clean SM w1" if "clean SM w"
    using that keep unfolding clean_def by metis
  show "tree_ok w1 (SM @ D @ [n])" if a: "n \<noteq> nm" "\<not> isPartName n" "nm \<noteq> []" "tree_ok w (SM @ D @ [n])"
  proof -
    have "node_at w1 (SM @ D @ n # rk) = node_at w (SM @ D @ n # rk)" for rk
      using src_apart [OF cr a(1,2,3)] by (intro frame) simp
    then show ?thesis using a(4) by (simp add: tree_ok_def)
  qed
qed

lemma copy_pass_spec:
  assumes cr: "crossing vs rq SM DM"
  shows "map named raws = map (\<lambda>nm. D @ [nm]) nms \<Longrightarrow> \<forall>raw \<in> set raws. normalize raw \<noteq> None \<Longrightarrow> distinct nms \<Longrightarrow>
    clean SM w \<Longrightarrow> dir_faults w = [] \<Longrightarrow> \<forall>nm \<in> set nms. tree_ok w (SM @ D @ [nm]) \<Longrightarrow>
    \<exists>r' w'. copy_pass vs rq dstDir raws r w = Some (r', w') \<and> batch_kept rq (SM @ D) (DM @ named dstDir) nms w w'"
proof (induction raws arbitrary: nms r w)
  case Nil
  then show ?case by (simp add: batch_kept_same)
next
  case (Cons raw raws)
  let ?T0 = "named dstDir"
  obtain nm nms' where nms: "nms = nm # nms'" and nr: "named raw = D @ [nm]" and rest: "map named raws = map (\<lambda>nm. D @ [nm]) nms'"
    using Cons.prems(1) by (cases nms) auto
  obtain sm dm where mounts: "v_mount vs (rq_srcVolume rq) = Some sm" "key_of sm = Some SM"
      "v_mount vs (rq_dstVolume rq) = Some dm" "key_of dm = Some DM"
    using cr by (auto simp: crossing_def)
  obtain path where path: "normalize raw = Some path" using Cons.prems(2) by auto
  have np: "named path = D @ [nm]" and valid: "list_all isValidName (D @ [nm])"
    using normalize_named [OF path] nr by auto
  have base: "basename path = nm"
    using path parent_basename_buildPath(2) [of nm D] isValidName_real [of nm] valid nr by (simp add: normalize_eq)
  have allv: "\<forall>n \<in> set nms. \<not> isPartName n \<and> n \<noteq> []"
  proof
    fix n
    assume "n \<in> set nms"
    then have "D @ [n] \<in> set (map named (raw # raws))" unfolding Cons.prems(1) by auto
    then obtain x where "x \<in> set (raw # raws)" "named x = D @ [n]" by (metis (no_types, lifting) imageE list.set_map)
    then have "isValidName n" using Cons.prems(2) normalize_eq [of x] by fastforce
    then show "\<not> isPartName n \<and> n \<noteq> []" using valid_not_part isValidName_real by (auto simp: real_name_def)
  qed
  have d: "distinct (nm # nms')" "\<forall>n \<in> set (nm # nms'). \<not> isPartName n \<and> n \<noteq> []"
    using Cons.prems(3) allv nms by auto
  have IH: "\<exists>r' w'. copy_pass vs rq dstDir raws r1 w1 = Some (r', w') \<and> batch_kept rq (SM @ D) (DM @ ?T0) nms' w1 w'"
    if "clean SM w1" "dir_faults w1 = []" "\<forall>n \<in> set nms'. tree_ok w1 (SM @ D @ [n])" for r1 w1
    using Cons.IH [OF rest _ _ that] Cons.prems(2,3) nms by auto
  have skip: "\<exists>r' w'. copy_pass vs rq dstDir raws r1 w1 = Some (r', w') \<and> batch_kept rq (SM @ D) (DM @ ?T0) nms w w'"
    if n: "nodes w1 = nodes w" "dir_faults w1 = dir_faults w" for r1 w1
  proof -
    have same: "clean SM w1" "dir_faults w1 = []" "\<forall>n \<in> set nms'. tree_ok w1 (SM @ D @ [n])"
      using Cons.prems(4-6) n nms by (simp_all add: clean_def tree_ok_def)
    obtain r' w' where cp: "copy_pass vs rq dstDir raws r1 w1 = Some (r', w')" "batch_kept rq (SM @ D) (DM @ ?T0) nms' w1 w'"
      using IH [OF same, of r1] by blast
    then have "batch_kept rq (SM @ D) (DM @ ?T0) nms w w'"
      using batch_kept_skip [OF cr d batch_kept_from_same [OF n(1) cp(2)]] nms by simp
    then show ?thesis using cp(1) by blast
  qed
  show ?case
  proof (cases "cancelled r")
    case True
    then show ?thesis by (auto simp: batch_kept_same)
  next
    case False
    show ?thesis
    proof (cases "normalizeChild dstDir nm")
      case None
      then show ?thesis using skip [of w "fail path InvalidPath r"] False path base by simp
    next
      case (Some target)
      have nt: "named target = ?T0 @ [nm]" using normalizeChild_named [OF Some] by simp
      obtain q w1 where q: "stat_entry vs (rq_srcVolume rq) path w = (q, w1)" by fastforce
      have n1: "nodes w1 = nodes w" "dir_faults w1 = dir_faults w" using stat_entry_same [OF q] by simp_all
      show ?thesis
      proof (cases q)
        case (Inl st)
        then show ?thesis using skip [OF n1, of "fail path NotFound r"] False path base Some q by simp
      next
        case (Inr e)
        obtain dst w2 where z: "stat_entry vs (rq_dstVolume rq) target w1 = (dst, w2)" by fastforce
        have n2: "nodes w2 = nodes w" "dir_faults w2 = dir_faults w" using stat_entry_same [OF z] n1 by simp_all
        consider (left) "\<not> isl dst \<and> rq_conflict rq = Skip" | (taken) "\<not> (\<not> isl dst \<and> rq_conflict rq = Skip)" "\<not> isl dst \<and> fe_isDir e \<and> \<not> fe_isDir (projr dst)"
          | (go) "\<not> (\<not> isl dst \<and> rq_conflict rq = Skip)" "\<not> (\<not> isl dst \<and> fe_isDir e \<and> \<not> fe_isDir (projr dst))" by blast
        then show ?thesis
        proof cases
          case left
          then show ?thesis using skip [OF n2, of "r\<lparr>skipped := skipped r + 1\<rparr>"] False path base Some q Inr z by simp
        next
          case taken
          then show ?thesis using skip [OF n2, of "fail path AlreadyExists r"] False path base Some q Inr z by simp
        next
          case go
          obtain n where node: "node_at w2 (SM @ D @ [nm]) = Some n" "fe_isDir e = (n = Dir)"
            using stat_entry_found(1) [OF q [unfolded Inr] mounts(1,2)] np n2 by auto
          have "clean SM w2" "dir_faults w2 = []" "tree_ok w2 (SM @ D @ [nm])"
            using Cons.prems(4-6) n2 nms by (simp_all add: clean_def tree_ok_def)
          from transfer_entry_spec [OF cr np nt _ this node(1) node(2), of r]
          obtain b r1 w3 where te: "transfer_entry vs rq path target e r w2 = Some (b, r1, w3)"
              "moved rq (SM @ D @ [nm]) (DM @ ?T0 @ [nm]) w2 w3" by auto
          have step: "copy_pass vs rq dstDir (raw # raws) r w = (if b then copy_pass vs rq dstDir raws r1 w3 else Some (r1, w3))"
            using False path base Some q Inr z go te(1) by (cases b) auto
          have m: "moved rq (SM @ D @ [nm]) (DM @ ?T0 @ [nm]) w w3" using te(2) n2 by (simp add: moved_def)
          note ms = moved_source [OF cr m]
          show ?thesis
          proof (cases b)
            case False
            have "batch_kept rq (SM @ D) (DM @ ?T0) (nm # nms') w w3"
              using batch_kept_step [OF cr d m batch_kept_same] by simp
            then show ?thesis unfolding step using False nms by simp
          next
            case True
            have "\<forall>n \<in> set nms'. tree_ok w3 (SM @ D @ [n])"
            proof
              fix n
              assume "n \<in> set nms'"
              then show "tree_ok w3 (SM @ D @ [n])"
                by (intro ms(3)) (use d Cons.prems(6) nms \<open>n \<in> set nms'\<close> in auto)
            qed
            then obtain r' w' where ih: "copy_pass vs rq dstDir raws r1 w3 = Some (r', w')"
                "batch_kept rq (SM @ D) (DM @ ?T0) nms' w3 w'"
              using IH [of w3 r1] ms(1,2) Cons.prems(4) by blast
            then show ?thesis
              unfolding step using True batch_kept_step [OF cr d m ih(2)] nms by simp
          qed
        qed
      qed
    qed
  qed
qed

section \<open>A whole transfer\<close>

lemma scan_probe_same:
  "scan vs v path dir_probe () w = ((st, u), w') \<Longrightarrow> nodes w' = nodes w \<and> (dir_faults w = [] \<longrightarrow> dir_faults w' = [])"
proof -
  have se: "nodes w' = nodes w \<and> (dir_faults w = [] \<longrightarrow> dir_faults w' = [])"
    if "scan_entries full dir_probe names () w = (u', w')" for full names u' w w'
    using that
  proof (induction names arbitrary: w)
    case (Cons nm names)
    obtain f w1 where dt: "dir_tick w = (f, w1)" by fastforce
    have n1: "nodes w1 = nodes w" "dir_faults w = [] \<longrightarrow> dir_faults w1 = []"
      using dir_tickD [OF dt] dt by (auto simp: dir_tick_def)
    obtain q w2 where q: "sys_stat (full @ slash # nm) w1 = (q, w2)" by fastforce
    show ?case
      using Cons n1 dt q call_same(1) [OF q] by (auto simp: dir_probe_def split: if_splits bool.splits)
  qed simp
  assume "scan vs v path dir_probe () w = ((st, u), w')"
  then show ?thesis
    unfolding scan_def
    by (elim located_cases) (auto split: prod.splits sum.splits if_splits dest!: call_same se)
qed

lemma stat_entry_error: "stat_entry vs v path w = (Inl st, w') \<Longrightarrow> st \<noteq> Ok"
  unfolding stat_entry_def
  by (erule located_cases) (auto simp: errno_status_def split: if_splits prod.splits sum.splits)

lemma validate_paths_spec:
  "validate_paths vs rq dstDir raws w = (st, w') \<Longrightarrow> dir_faults w = [] \<Longrightarrow>
    nodes w' = nodes w \<and> dir_faults w' = [] \<and> (st = Ok \<longrightarrow> (\<forall>raw \<in> set raws. normalize raw \<noteq> None))"
proof (induction raws arbitrary: w)
  case Nil
  then show ?case using scan_probe_same [of vs "rq_dstVolume rq" dstDir w] by (auto split: prod.splits)
next
  case (Cons raw raws)
  show ?case
  proof (cases "normalize raw")
    case None
    then show ?thesis using Cons.prems by simp
  next
    case (Some path)
    obtain q w1 where q: "stat_entry vs (rq_srcVolume rq) path w = (q, w1)" by fastforce
    have n1: "nodes w1 = nodes w" "dir_faults w1 = []" using stat_entry_same [OF q] Cons.prems(2) by simp_all
    show ?thesis
      using Cons.prems(1,2) Cons.IH [of w1] n1 Some q stat_entry_error [of vs "rq_srcVolume rq" path w _ w1]
      by (cases q) (auto split: if_splits)
  qed
qed

lemma validate_spec:
  "validate vs rq w = (st, w') \<Longrightarrow> dir_faults w = [] \<Longrightarrow>
    nodes w' = nodes w \<and> dir_faults w' = []
    \<and> (st = Ok \<longrightarrow> (\<forall>raw \<in> set (rq_paths rq). normalize raw \<noteq> None) \<and> normalize (rq_dstPath rq) \<noteq> None)"
  unfolding validate_def
  using validate_paths_spec [of vs rq _ "rq_paths rq" w st w'] by (auto split: if_splits option.splits)

lemma freeBytes_same: "freeBytes vs v w = (x, w') \<Longrightarrow> nodes w' = nodes w \<and> dir_faults w' = dir_faults w"
  by (auto simp: freeBytes_def absent_tick_def split: option.splits list.splits bool.splits if_splits)

text \<open>
  C25. A transfer between the two volumes always ends, and loses nothing: whichever of the open, read, write,
  close, rename, remove, mkdir and stat calls fail, whenever a card is pulled, the operator stops it or the space
  runs out, a copy leaves every selected entry as it was, and a move leaves every file of the selected entries
  where it was or at its place in the destination directory, byte for byte; and nothing else on either volume
  changes but the places of the selected names. The entries are names of one directory, each chosen once; the
  source holds no temporary upload files there, and \<open>readdir\<close> does not fail (a failing one can lose files).
\<close>

theorem transfer_loses_nothing:
  assumes "crossing vs rq SM DM" and "dir_faults w = []" and "clean SM w"
    and "map named (rq_paths rq) = map (\<lambda>nm. D @ [nm]) nms" and "distinct nms"
    and "\<forall>nm \<in> set nms. tree_ok w (SM @ D @ [nm])"
  shows "\<exists>r w'. run vs rq w = Some (r, w') \<and> finished r \<and> \<not> busy r
    \<and> (\<forall>nm \<in> set nms. \<forall>rk c. node_at w (SM @ D @ nm # rk) = Some (File c) \<longrightarrow>
        node_at w' (SM @ D @ nm # rk) = Some (File c)
        \<or> (rq_op rq = Move \<and> node_at w' (DM @ named (rq_dstPath rq) @ nm # rk) = Some (File c)))
    \<and> (rq_op rq \<noteq> Move \<longrightarrow> (\<forall>nm \<in> set nms. \<forall>rk. node_at w' (SM @ D @ nm # rk) = node_at w (SM @ D @ nm # rk)))
    \<and> (\<forall>k. (\<forall>nm \<in> set nms. \<not> prefix (SM @ D @ [nm]) k \<and> \<not> prefix (DM @ named (rq_dstPath rq) @ [nm]) k
          \<and> k \<noteq> part_key (DM @ named (rq_dstPath rq) @ [nm])) \<longrightarrow> node_at w' k = node_at w k)"
proof -
  obtain sm where m: "v_mount vs (rq_srcVolume rq) = Some sm" "key_of sm = Some SM"
    using assms(1) by (auto simp: crossing_def)
  have vol: "rq_srcVolume rq \<noteq> rq_dstVolume rq"
    using assms(1) by (auto simp: crossing_def)
  have fin: "finished (finishReport r)" "\<not> busy (finishReport r)" for r by (simp_all add: finishReport_def)
  obtain st w1 where v: "validate vs rq w = (st, w1)" by fastforce
  have n1: "nodes w1 = nodes w" "dir_faults w1 = []" using validate_spec [OF v assms(2)] by simp_all
  have goal: "\<exists>r w'. run vs rq w = Some (r, w') \<and> finished r \<and> \<not> busy r \<and> batch_kept rq (SM @ D) (DM @ named (rq_dstPath rq)) nms w w'"
  proof (cases "st = Ok")
    case False
    then show ?thesis using v fin by (simp add: run_def batch_kept_same [OF n1(1)])
  next
    case True
    then obtain dstDir where dd: "normalize (rq_dstPath rq) = Some dstDir"
      and raws: "\<forall>raw \<in> set (rq_paths rq). normalize raw \<noteq> None"
      using validate_spec [OF v assms(2)] by auto
    let ?r = "report0\<lparr>busy := True, phase := Measuring\<rparr>"
    have c1: "clean SM w1" using assms(3) n1 by (simp add: clean_def)
    obtain r1 w2 where mp: "measure_pass vs rq dstDir (rq_paths rq) ?r w1 = Some (r1, w2)" "nodes w2 = nodes w1" "dir_faults w2 = []"
      using measure_pass_total [OF m c1 n1(2)] by blast
    obtain free w3 where f: "freeBytes vs (rq_dstVolume rq) w2 = (free, w3)" by fastforce
    have n3: "nodes w3 = nodes w" "dir_faults w3 = []" using freeBytes_same [OF f] mp n1 by simp_all
    let ?r2 = "r1\<lparr>neededBytes := totalBytes r1, freeBytesSeen := free\<rparr>"
    have c3: "clean SM w3" "\<forall>nm \<in> set nms. tree_ok w3 (SM @ D @ [nm])"
      using assms(3,6) n3 by (simp_all add: clean_def tree_ok_def)
    obtain r3 w4 where cp: "copy_pass vs rq dstDir (rq_paths rq) (?r2\<lparr>phase := Copying\<rparr>) w3 = Some (r3, w4)"
        "batch_kept rq (SM @ D) (DM @ named dstDir) nms w3 w4"
      using copy_pass_spec [OF assms(1,4) raws assms(5) c3(1) n3(2) c3(2)] by blast
    have nd: "named dstDir = named (rq_dstPath rq)" using normalize_named [OF dd] by simp
    have bk: "batch_kept rq (SM @ D) (DM @ named (rq_dstPath rq)) nms w w4"
      using batch_kept_from_same [OF n3(1) cp(2)] nd by simp
    have e: "run vs rq w = (if freeBytesSeen ?r2 < neededBytes ?r2 + kFreeSpaceReserve
        then Some (finishReport (fail dstDir NoSpace ?r2), w3) else Some (finishReport r3, w4))"
      using v True dd vol mp(1) f cp(1) by (simp add: run_def Let_def)
    show ?thesis
      using e fin bk batch_kept_same [OF n3(1)]
      by (cases "freeBytesSeen ?r2 < neededBytes ?r2 + kFreeSpaceReserve") (metis (no_types, lifting))+
  qed
  then show ?thesis unfolding batch_kept_def by simp
qed

section \<open>Concrete runs\<close>

definition two_volumes :: vols where
  "two_volumes = \<lparr>v_mount = (\<lambda>v. if v = ''fat'' then Some ''/fat'' else if v = ''sd'' then Some ''/sdcard'' else None),
     v_free = (\<lambda>_ _. 1000000)\<rparr>"

definition small_world :: world where
  "small_world = \<lparr>nodes = [([''fat''], Dir), ([''sdcard''], Dir), ([''fat'', ''a''], Dir), ([''fat'', ''b''], Dir),
      ([''fat'', ''a'', ''x''], File [1, 2]), ([''fat'', ''a'', ''d''], Dir), ([''fat'', ''a'', ''d'', ''y''], File [3])],
    faults = [], dir_faults = [], absent = [], formatting = [], cancels = []\<rparr>"

definition move_request :: "string \<Rightarrow> string list \<Rightarrow> string \<Rightarrow> TransferRequest" where
  "move_request dstVolume ps dst = \<lparr>rq_op = Move, rq_conflict = Ask, rq_srcVolume = ''fat'', rq_paths = ps,
     rq_dstVolume = dstVolume, rq_dstPath = dst\<rparr>"

lemma small_world_ok:
  "crossing two_volumes (move_request ''sd'' ps dst) [''fat''] [''sdcard'']"
  "clean [''fat''] small_world" "tree_ok small_world [''fat'', ''a'']"
proof -
  have k: "key_of ''/fat'' = Some [''fat'']" "key_of ''/sdcard'' = Some [''sdcard'']" by code_simp+
  show "crossing two_volumes (move_request ''sd'' ps dst) [''fat''] [''sdcard'']"
    using k by (simp add: crossing_def two_volumes_def move_request_def parallel_def)
  show "clean [''fat''] small_world"
    by (auto simp: clean_def small_world_def real_name_def split: if_splits)
  show "tree_ok small_world [''fat'', ''a'']"
    by (auto simp: tree_ok_def small_world_def isPartName_def kUploadPartSuffix_def append_eq_Cons_conv
        Cons_eq_append_conv split: if_splits)
qed

theorem transfer_loses_nothing_witness:
  "\<exists>r w'. run two_volumes (move_request ''sd'' [''/a''] ''/'') small_world = Some (r, w') \<and> finished r
    \<and> (node_at w' [''fat'', ''a'', ''d'', ''y''] = Some (File [3]) \<or> node_at w' [''sdcard'', ''a'', ''d'', ''y''] = Some (File [3]))"
proof -
  let ?rq = "move_request ''sd'' [''/a''] ''/''"
  have n: "map named (rq_paths ?rq) = map (\<lambda>nm. [] @ [nm]) [''a'']" "named (rq_dstPath ?rq) = []"
    unfolding move_request_def by code_simp+
  have "tree_ok small_world ([''fat''] @ [] @ [nm])" if "nm \<in> set [''a'']" for nm
    using that small_world_ok(3) by simp
  then obtain r w' where "run two_volumes ?rq small_world = Some (r, w')" "finished r"
      and s: "\<forall>nm \<in> set [''a'']. \<forall>rk c. node_at small_world ([''fat''] @ [] @ nm # rk) = Some (File c) \<longrightarrow>
        node_at w' ([''fat''] @ [] @ nm # rk) = Some (File c) \<or> (rq_op ?rq = Move \<and> node_at w' ([''sdcard''] @ [] @ nm # rk) = Some (File c))"
    using transfer_loses_nothing [OF small_world_ok(1) _ small_world_ok(2) n(1)] n(2)
    by (auto simp: small_world_def)
  moreover have "node_at small_world [''fat'', ''a'', ''d'', ''y''] = Some (File [3])"
    by (simp add: small_world_def)
  ultimately show ?thesis
    using s [rule_format, of "''a''" "[''d'', ''y'']" "[3]"] by auto
qed

text \<open>
  A move inside one volume, announced as unable to lose data, loses a file when the request names it twice:
  the second turn finds the file it has just moved at the target, removes it to make room, and has nothing left
  to rename. The request passes every check, with no conflict to ask about.
\<close>

lemma duplicate_move_loses_file:
  "conflicts two_volumes (move_request ''fat'' [''/a/x'', ''/a/x''] ''/b'') small_world = ((Ok, []), small_world)
   \<and> (\<exists>r w'. run two_volumes (move_request ''fat'' [''/a/x'', ''/a/x''] ''/b'') small_world = Some (r, w')
        \<and> finished r \<and> instant r \<and> deleted r = 1
        \<and> node_at small_world [''fat'', ''a'', ''x''] = Some (File [1, 2])
        \<and> node_at w' [''fat'', ''a'', ''x''] = None \<and> node_at w' [''fat'', ''b'', ''x''] = None)"
proof -
  have c: "conflicts two_volumes (move_request ''fat'' [''/a/x'', ''/a/x''] ''/b'') small_world = ((Ok, []), small_world)"
    by code_simp
  have "(case run two_volumes (move_request ''fat'' [''/a/x'', ''/a/x''] ''/b'') small_world of
      None \<Rightarrow> False
    | Some (r, w') \<Rightarrow> finished r \<and> instant r \<and> deleted r = 1
        \<and> node_at small_world [''fat'', ''a'', ''x''] = Some (File [1, 2])
        \<and> node_at w' [''fat'', ''a'', ''x''] = None \<and> node_at w' [''fat'', ''b'', ''x''] = None)"
    by code_simp
  then show ?thesis using c by (auto split: option.splits)
qed

text \<open>
  A failing \<open>readdir\<close> cannot be told from the end of a directory: a move to the other volume then takes the
  part it saw for the whole, reports success without a failure, and removes a source tree whose remaining files
  were never copied.
\<close>

lemma readdir_failure_loses_file:
  "\<exists>r w'. run two_volumes (move_request ''sd'' [''/a''] ''/'')
      (small_world\<lparr>dir_faults := [False, False, False, False, False, True]\<rparr>) = Some (r, w')
    \<and> finished r \<and> failed r = 0 \<and> error r = None \<and> deleted r = 1
    \<and> node_at small_world [''fat'', ''a'', ''d'', ''y''] = Some (File [3])
    \<and> node_at w' [''fat'', ''a'', ''d'', ''y''] = None \<and> node_at w' [''sdcard'', ''a'', ''d'', ''y''] = None"
proof -
  have "(case run two_volumes (move_request ''sd'' [''/a''] ''/'')
        (small_world\<lparr>dir_faults := [False, False, False, False, False, True]\<rparr>) of
      None \<Rightarrow> False
    | Some (r, w') \<Rightarrow> finished r \<and> failed r = 0 \<and> error r = None \<and> deleted r = 1
        \<and> node_at small_world [''fat'', ''a'', ''d'', ''y''] = Some (File [3])
        \<and> node_at w' [''fat'', ''a'', ''d'', ''y''] = None \<and> node_at w' [''sdcard'', ''a'', ''d'', ''y''] = None)"
    by code_simp
  then show ?thesis by (auto split: option.splits)
qed

text \<open>A tree that holds a paused upload: the walk passes the temporary file over, the removal does not.\<close>

lemma paused_upload_lost:
  "\<exists>r w'. run two_volumes (move_request ''sd'' [''/a''] ''/'')
      (small_world\<lparr>nodes := nodes small_world @ [([''fat'', ''a'', ''z.part''], File [7])]\<rparr>) = Some (r, w')
    \<and> failed r = 0 \<and> deleted r = 1
    \<and> node_at w' [''fat'', ''a'', ''z.part''] = None \<and> node_at w' [''sdcard'', ''a'', ''z.part''] = None"
proof -
  have "(case run two_volumes (move_request ''sd'' [''/a''] ''/'')
        (small_world\<lparr>nodes := nodes small_world @ [([''fat'', ''a'', ''z.part''], File [7])]\<rparr>) of
      None \<Rightarrow> False
    | Some (r, w') \<Rightarrow> failed r = 0 \<and> deleted r = 1
        \<and> node_at w' [''fat'', ''a'', ''z.part''] = None \<and> node_at w' [''sdcard'', ''a'', ''z.part''] = None)"
    by code_simp
  then show ?thesis by (auto split: option.splits)
qed

end
