(* ===== verification/Shell.thy ===== *)
theory Shell
  imports Vfs
begin

text \<open>
  The file commands of the SSH console: \<open>src/src/net/PosixFileOperations.cpp\<close> (the port to the volumes) and
  \<open>src/src/net/FileShell.cpp\<close> (the policy), on the file-system calls of \<open>Vfs\<close> and the sandbox of \<open>Paths\<close>. What the
  console prints is a list of texts.
\<close>

datatype FileOpStatus = Ok | NotFound | Exists | NotDirectory | IsDirectory | NotEmpty | Denied | NoSpace | IoError | Unsupported

record FileEntry =
  en_name :: string
  en_isDir :: bool
  en_size :: nat

section \<open>PosixFileOperations\<close>

definition kCopyChunkBytes :: nat where "kCopyChunkBytes = 4096"

definition fromErrno :: "errno \<Rightarrow> FileOpStatus" where
  "fromErrno e =
     (case e of
        ENOENT \<Rightarrow> NotFound | EEXIST \<Rightarrow> Exists | ENOTDIR \<Rightarrow> NotDirectory | EISDIR \<Rightarrow> IsDirectory
      | ENOTEMPTY \<Rightarrow> NotEmpty | EACCES \<Rightarrow> Denied | EPERM \<Rightarrow> Denied | EROFS \<Rightarrow> Denied
      | ENOSPC \<Rightarrow> NoSpace | EDQUOT \<Rightarrow> NoSpace | _ \<Rightarrow> IoError)"

definition outcome :: "(errno + unit) \<times> world \<Rightarrow> FileOpStatus \<times> world" where
  "outcome r = (case r of (Inl e, w) \<Rightarrow> (fromErrno e, w) | (Inr _, w) \<Rightarrow> (Ok, w))"

definition child_path :: "string \<Rightarrow> string \<Rightarrow> string" where
  "child_path dir nm = (if dir = [] \<or> last dir = slash then dir @ nm else dir @ slash # nm)"

definition isDot :: "string \<Rightarrow> bool" where
  "isDot nm \<longleftrightarrow> nm = ''.'' \<or> nm = ''..''"

text \<open>The names \<open>readdir\<close> hands out before it ends or fails.\<close>

fun read_names :: "string list \<Rightarrow> world \<Rightarrow> string list \<times> world" where
  "read_names [] w = ([], w)"
| "read_names (nm # names) w =
     (case dir_tick w of
        (True, w1) \<Rightarrow> ([], w1)
      | (False, w1) \<Rightarrow> (case read_names names w1 of (ns, w2) \<Rightarrow> (if isDot nm then ns else nm # ns, w2)))"

definition node_size :: "node \<Rightarrow> nat" where
  "node_size n = (case n of Dir \<Rightarrow> 0 | File c \<Rightarrow> length c)"

definition attributes :: "string \<Rightarrow> world \<Rightarrow> (FileOpStatus \<times> node option) \<times> world" where
  "attributes path w =
     (case sys_stat path w of
        (Inl e, w1) \<Rightarrow> ((if e = ENOENT then Ok else fromErrno e, None), w1)
      | (Inr n, w1) \<Rightarrow> ((Ok, Some n), w1))"

fun stat_names :: "string \<Rightarrow> string list \<Rightarrow> world \<Rightarrow> FileEntry list \<times> world" where
  "stat_names path [] w = ([], w)"
| "stat_names path (nm # names) w =
     (case sys_stat (child_path path nm) w of
        (r, w1) \<Rightarrow>
          (case stat_names path names w1 of
             (es, w2) \<Rightarrow>
               (case r of
                  Inl _ \<Rightarrow> es
                | Inr n \<Rightarrow> \<lparr>en_name = nm, en_isDir = (n = Dir), en_size = node_size n\<rparr> # es, w2)))"

definition list_entries :: "string \<Rightarrow> world \<Rightarrow> (FileOpStatus \<times> FileEntry list) \<times> world" where
  "list_entries path w =
     (case sys_opendir path w of
        (Inl e, w1) \<Rightarrow> ((fromErrno e, []), w1)
      | (Inr names, w1) \<Rightarrow>
          (case read_names names w1 of
             (ns, w2) \<Rightarrow> (case stat_names path ns w2 of (es, w3) \<Rightarrow> ((Ok, es), w3))))"

definition makeDir :: "string \<Rightarrow> world \<Rightarrow> FileOpStatus \<times> world" where
  "makeDir path w = outcome (sys_mkdir path w)"

definition touch_file :: "string \<Rightarrow> world \<Rightarrow> (FileOpStatus \<times> bool) \<times> world" where
  "touch_file path w =
     (case sys_stat path w of
        (r, w1) \<Rightarrow>
          (case fopen_ab path w1 of
             (Inl e, w2) \<Rightarrow> ((fromErrno e, False), w2)
           | (Inr _, w2) \<Rightarrow>
               (case outcome (fsync_call w2) of (st, w3) \<Rightarrow> ((st, isl r), w3))))"

definition removeFile :: "string \<Rightarrow> world \<Rightarrow> FileOpStatus \<times> world" where
  "removeFile path w = outcome (sys_unlink path w)"

fun removeTreeAt :: "nat \<Rightarrow> string \<Rightarrow> world \<Rightarrow> FileOpStatus \<times> world"
and removeChildren :: "nat \<Rightarrow> string \<Rightarrow> string list \<Rightarrow> world \<Rightarrow> FileOpStatus \<times> world" where
  "removeTreeAt 0 path w = (IoError, w)"
| "removeTreeAt (Suc n) path w =
     (case sys_stat path w of
        (Inl e, w1) \<Rightarrow> (fromErrno e, w1)
      | (Inr nd, w1) \<Rightarrow>
          if nd \<noteq> Dir then outcome (sys_unlink path w1)
          else (case sys_opendir path w1 of
                  (Inl e, w2) \<Rightarrow> (fromErrno e, w2)
                | (Inr names, w2) \<Rightarrow>
                    (case read_names names w2 of
                       (ns, w3) \<Rightarrow>
                         (case removeChildren n path ns w3 of
                            (st, w4) \<Rightarrow> if st \<noteq> Ok then (st, w4) else outcome (sys_rmdir path w4)))))"
| "removeChildren n path [] w = (Ok, w)"
| "removeChildren n path (nm # names) w =
     (case removeTreeAt n (child_path path nm) w of
        (st, w1) \<Rightarrow> if st \<noteq> Ok then (st, w1) else removeChildren n path names w1)"

definition levels :: "world \<Rightarrow> nat" where
  "levels w = Suc (fold max (map (length \<circ> fst) (nodes w)) 0)"

definition removeTree_port :: "string \<Rightarrow> world \<Rightarrow> FileOpStatus \<times> world" where
  "removeTree_port path w = removeTreeAt (Suc (levels w)) path w"

definition rename_port :: "string \<Rightarrow> string \<Rightarrow> world \<Rightarrow> FileOpStatus \<times> world" where
  "rename_port src dst w = outcome (sys_rename src dst w)"

text \<open>\<open>for (;;) { fread \<dots> fwrite \<dots> }\<close> from position \<open>pos\<close>; \<open>n\<close> bounds the number of windows.\<close>

fun copy_chunks :: "nat \<Rightarrow> key \<Rightarrow> nat \<Rightarrow> key \<Rightarrow> world \<Rightarrow> FileOpStatus \<times> world" where
  "copy_chunks 0 src pos dst w = (IoError, w)"
| "copy_chunks (Suc n) src pos dst w =
     (case fread src pos kCopyChunkBytes w of
        (Inl _, w1) \<Rightarrow> (IoError, w1)
      | (Inr bs, w1) \<Rightarrow>
          (case (if bs = [] then (Inr (), w1) else fwrite dst bs w1) of
             (Inl e, w2) \<Rightarrow> (fromErrno e, w2)
           | (Inr _, w2) \<Rightarrow>
               if length bs < kCopyChunkBytes then (Ok, w2)
               else copy_chunks n src (pos + length bs) dst w2))"

definition copy_port :: "string \<Rightarrow> string \<Rightarrow> world \<Rightarrow> FileOpStatus \<times> world" where
  "copy_port src dst w =
     (case fopen_rb src w of
        (Inl e, w1) \<Rightarrow> (fromErrno e, w1)
      | (Inr sk, w1) \<Rightarrow>
          (case fopen_wb dst w1 of
             (Inl e, w2) \<Rightarrow> (fromErrno e, snd (fsync_call w2))
           | (Inr dk, w2) \<Rightarrow>
               (case copy_chunks (Suc (length (content w2 sk))) sk 0 dk w2 of
                  (st, w3) \<Rightarrow>
                    (case (if st = Ok then outcome (fsync_call w3) else (st, w3)) of
                       (st1, w4) \<Rightarrow>
                         (case fsync_call w4 of
                            (c1, w5) \<Rightarrow>
                              (case fsync_call w5 of
                                 (c2, w6) \<Rightarrow>
                                   (let st2 = (if st1 = Ok \<and> (isl c1 \<or> isl c2) then IoError else st1) in
                                    if st2 \<noteq> Ok then (st2, snd (sys_unlink dst w6)) else (Ok, w6))))))))"

definition binary_byte :: "byte \<Rightarrow> bool" where
  "binary_byte c \<longleftrightarrow> c = 0 \<or> (c < 0x20 \<and> c \<noteq> 9 \<and> c \<noteq> 13 \<and> c \<noteq> 10)"

text \<open>The windows of 512 bytes together are the file; a read that fails ends the loop with an error.\<close>

definition readText :: "string \<Rightarrow> nat \<Rightarrow> world \<Rightarrow> (FileOpStatus \<times> byte list \<times> bool) \<times> world" where
  "readText path limit w =
     (case sys_stat path w of
        (Inl e, w1) \<Rightarrow> ((fromErrno e, [], False), w1)
      | (Inr n, w1) \<Rightarrow>
          if n = Dir then ((IsDirectory, [], False), w1)
          else if node_size n > limit then ((NoSpace, [], False), w1)
          else (case fopen_rb path w1 of
                  (Inl e, w2) \<Rightarrow> ((fromErrno e, [], False), w2)
                | (Inr k, w2) \<Rightarrow>
                    (case fread k 0 (length (content w2 k)) w2 of
                       (Inl _, w3) \<Rightarrow> ((IoError, [], False), w3)
                     | (Inr bs, w3) \<Rightarrow>
                         if length bs > limit then ((NoSpace, bs, list_ex binary_byte bs), w3)
                         else ((Ok, bs, list_ex binary_byte bs), w3))))"

section \<open>FileShell\<close>

record shell =
  sh_cwd :: string
  sh_out :: "string list"
  sh_world :: world

definition kEol :: string where "kEol = [char_of (13::nat), char_of (10::nat)]"
definition kCatLimitBytes :: nat where "kCatLimitBytes = 64 * 1024"

definition write_out :: "string \<Rightarrow> shell \<Rightarrow> shell" where
  "write_out t s = s\<lparr>sh_out := sh_out s @ [t]\<rparr>"

definition say :: "string \<Rightarrow> shell \<Rightarrow> shell" where
  "say t s = write_out (t @ kEol) s"

definition reason_text :: "FileOpStatus \<Rightarrow> string" where
  "reason_text st =
     (case st of
        NotFound \<Rightarrow> ''no such file or directory'' | Exists \<Rightarrow> ''already exists'' | NotDirectory \<Rightarrow> ''not a directory''
      | IsDirectory \<Rightarrow> ''is a directory'' | NotEmpty \<Rightarrow> ''the directory is not empty'' | Denied \<Rightarrow> ''permission denied''
      | NoSpace \<Rightarrow> ''no space left'' | IoError \<Rightarrow> ''the volume reported an I/O error''
      | Unsupported \<Rightarrow> ''not supported by this volume'' | Ok \<Rightarrow> ''the volume refused the operation'')"

definition sayFailure :: "string \<Rightarrow> string \<Rightarrow> FileOpStatus \<Rightarrow> shell \<Rightarrow> shell" where
  "sayFailure verb path st s =
     (if st = Ok then s else say (''error: '' @ reason_text st @ '': '' @ verb @ '' '' @ path) s)"

definition why_text :: "path_error \<Rightarrow> string" where
  "why_text e =
     (case e of
        ControlSymbols \<Rightarrow> ''a path cannot hold control symbols''
      | NotAVolume \<Rightarrow> ''a path starts with /fat or /sdcard''
      | LeavesVolume \<Rightarrow> ''a path cannot leave its volume'')"

record args =
  recursive :: bool
  force :: bool
  arg_words :: "string list"

text \<open>The words of a line: runs without spaces.\<close>

function words_of :: "string \<Rightarrow> string list" where
  "words_of s =
     (let s1 = dropWhile (\<lambda>c. c = CHR '' '') s in
      if s1 = [] then []
      else takeWhile (\<lambda>c. c \<noteq> CHR '' '') s1 # words_of (dropWhile (\<lambda>c. c \<noteq> CHR '' '') s1))"
  by pat_completeness auto
termination
proof (relation "measure length")
  fix s x
  assume x: "x = dropWhile (\<lambda>c. c = CHR '' '') s" "x \<noteq> []"
  then have "hd x \<noteq> CHR '' ''" using hd_dropWhile [of "\<lambda>c. c = CHR '' ''" s] by simp
  then have "length (dropWhile (\<lambda>c. c \<noteq> CHR '' '') x) < length x"
    using x(2) by (cases x) (simp_all add: le_imp_less_Suc length_dropWhile_le)
  also have "length x \<le> length s" using x(1) by (simp add: length_dropWhile_le)
  finally show "(dropWhile (\<lambda>c. c \<noteq> CHR '' '') x, s) \<in> measure length" by simp
qed simp

declare words_of.simps [simp del]

definition parseArgs :: "string \<Rightarrow> args" where
  "parseArgs rest =
     (let ws = words_of rest in
      \<lparr>recursive = ''-r'' \<in> set ws, force = ''-f'' \<in> set ws, arg_words = filter (\<lambda>x. x \<noteq> ''-r'' \<and> x \<noteq> ''-f'') ws\<rparr>)"

definition pathExists :: "string \<Rightarrow> world \<Rightarrow> bool \<times> world" where
  "pathExists path w = (case attributes path w of ((st, n), w1) \<Rightarrow> (st = Ok \<and> n \<noteq> None, w1))"

definition cmdPwd :: "shell \<Rightarrow> shell" where
  "cmdPwd s = say (sh_cwd s) s"

definition first_word :: "args \<Rightarrow> string" where
  "first_word a = (case arg_words a of [] \<Rightarrow> [] | x # _ \<Rightarrow> x)"

definition cmdCd :: "args \<Rightarrow> shell \<Rightarrow> shell" where
  "cmdCd a s =
     (let typed = first_word a in
      case changeTo (sh_cwd s) typed of
        (None, cwd) \<Rightarrow> s\<lparr>sh_cwd := cwd\<rparr>
      | (Some why, cwd) \<Rightarrow> say (''error: '' @ why_text why @ '': '' @ (if typed = [] then ''.'' else typed)) (s\<lparr>sh_cwd := cwd\<rparr>))"

text \<open>\<open>sort\<close> by \<open>a.name < b.name\<close>, byte by byte; the names of a directory differ.\<close>

fun str_less :: "string \<Rightarrow> string \<Rightarrow> bool" where
  "str_less [] b = (b \<noteq> [])"
| "str_less (x # a) [] = False"
| "str_less (x # a) (y # b) = (if x \<noteq> y then char_code x < char_code y else str_less a b)"

primrec insert_name :: "FileEntry \<Rightarrow> FileEntry list \<Rightarrow> FileEntry list" where
  "insert_name e [] = [e]"
| "insert_name e (x # xs) = (if str_less (en_name x) (en_name e) then x # insert_name e xs else e # x # xs)"

definition entry_line :: "FileEntry \<Rightarrow> string" where
  "entry_line e = (if en_isDir e then ''d  '' @ en_name e @ ''/'' else ''f  '' @ dec_str (en_size e) @ ''  '' @ en_name e)"

definition cmdLs :: "args \<Rightarrow> shell \<Rightarrow> shell" where
  "cmdLs a s =
     (case resolve (sh_cwd s) (first_word a) of
        Inl why \<Rightarrow> say (''error: '' @ why_text why) s
      | Inr target \<Rightarrow>
          (case list_entries target (sh_world s) of
             ((st, es), w1) \<Rightarrow>
               let s1 = s\<lparr>sh_world := w1\<rparr> in
               if st \<noteq> Ok then sayFailure ''ls'' target st s1
               else if es = [] then say ''(empty)'' s1
               else fold (\<lambda>e. say (entry_line e)) (foldr insert_name es []) s1))"

definition cmdMkdir :: "args \<Rightarrow> shell \<Rightarrow> shell" where
  "cmdMkdir a s =
     (if arg_words a = [] then say ''error: mkdir needs a name'' s
      else case resolve (sh_cwd s) (first_word a) of
        Inl why \<Rightarrow> say (''error: '' @ why_text why) s
      | Inr target \<Rightarrow>
          (case makeDir target (sh_world s) of (st, w1) \<Rightarrow> sayFailure ''mkdir'' target st (s\<lparr>sh_world := w1\<rparr>)))"

definition cmdTouch :: "args \<Rightarrow> shell \<Rightarrow> shell" where
  "cmdTouch a s =
     (if arg_words a = [] then say ''error: touch needs a name'' s
      else case resolve (sh_cwd s) (first_word a) of
        Inl why \<Rightarrow> say (''error: '' @ why_text why) s
      | Inr target \<Rightarrow>
          (case touch_file target (sh_world s) of
             ((st, created), w1) \<Rightarrow>
               let s1 = s\<lparr>sh_world := w1\<rparr> in
               if st \<noteq> Ok then sayFailure ''touch'' target st s1
               else if \<not> created then say (''touch: unchanged: '' @ target) s1 else s1))"

definition cmdRm :: "args \<Rightarrow> shell \<Rightarrow> shell" where
  "cmdRm a s =
     (if arg_words a = [] then say ''error: rm needs a name'' s
      else case resolve (sh_cwd s) (first_word a) of
        Inl why \<Rightarrow> say (''error: '' @ why_text why) s
      | Inr target \<Rightarrow>
          if target = volumeOf target then say (''error: a volume root cannot be removed: '' @ target) s
          else (case attributes target (sh_world s) of
                  ((about, found), w1) \<Rightarrow>
                    let s1 = s\<lparr>sh_world := w1\<rparr> in
                    if about \<noteq> Ok then sayFailure ''rm'' target about s1
                    else case found of
                      None \<Rightarrow> say (''error: no such file or directory: '' @ target) s1
                    | Some n \<Rightarrow>
                        if n = Dir \<and> \<not> recursive a then say (''error: is a directory, use rm -r: '' @ target) s1
                        else (case (if n = Dir then removeTree_port target w1 else removeFile target w1) of
                                (st, w2) \<Rightarrow> sayFailure ''rm'' target st (s\<lparr>sh_world := w2\<rparr>))))"

definition cmdMv :: "args \<Rightarrow> shell \<Rightarrow> shell" where
  "cmdMv a s =
     (case arg_words a of
        x # y # _ \<Rightarrow>
          (case (resolve (sh_cwd s) x, resolve (sh_cwd s) y) of
             (Inl why, _) \<Rightarrow> say (''error: '' @ why_text why) s
           | (Inr src, Inl why) \<Rightarrow> say (''error: '' @ why_text why) s
           | (Inr src, Inr dst) \<Rightarrow>
               (case pathExists dst (sh_world s) of
                  (ex, w1) \<Rightarrow>
                    (case (if ex \<and> \<not> force a then (Exists, w1) else rename_port src dst w1) of
                       (st, w2) \<Rightarrow>
                         let s1 = s\<lparr>sh_world := w2\<rparr> in
                         if st = Ok then s1
                         else if st = Exists then say (''error: already exists, use -f: '' @ dst) s1
                         else sayFailure ''mv'' src st s1)))
      | _ \<Rightarrow> say ''error: mv needs a source and a destination'' s)"

definition cmdCp :: "args \<Rightarrow> shell \<Rightarrow> shell" where
  "cmdCp a s =
     (case arg_words a of
        x # y # _ \<Rightarrow>
          (case (resolve (sh_cwd s) x, resolve (sh_cwd s) y) of
             (Inl why, _) \<Rightarrow> say (''error: '' @ why_text why) s
           | (Inr src, Inl why) \<Rightarrow> say (''error: '' @ why_text why) s
           | (Inr src, Inr dst) \<Rightarrow>
               (case attributes src (sh_world s) of
                  ((about, found), w1) \<Rightarrow>
                    let s1 = s\<lparr>sh_world := w1\<rparr> in
                    if about \<noteq> Ok then sayFailure ''cp'' src about s1
                    else case found of
                      None \<Rightarrow> say (''error: no such file or directory: '' @ src) s1
                    | Some Dir \<Rightarrow> say (''error: directories are not copied: '' @ src) s1
                    | Some (File _) \<Rightarrow>
                        (case pathExists dst w1 of
                           (ex, w2) \<Rightarrow>
                             if ex \<and> \<not> force a then say (''error: already exists, use -f: '' @ dst) (s\<lparr>sh_world := w2\<rparr>)
                             else (case copy_port src dst w2 of
                                     (st, w3) \<Rightarrow> sayFailure ''cp'' src st (s\<lparr>sh_world := w3\<rparr>)))))
      | _ \<Rightarrow> say ''error: cp needs a source and a destination'' s)"

definition cat_text :: "byte list \<Rightarrow> string" where
  "cat_text bs =
     (let out = concat (map (\<lambda>b. if b = 10 then kEol else if b \<noteq> 13 then [byte_char b] else []) bs) in
      if out \<noteq> [] \<and> length out \<ge> 2 \<and> drop (length out - 2) out \<noteq> kEol then out @ kEol else out)"

definition cmdCat :: "args \<Rightarrow> shell \<Rightarrow> shell" where
  "cmdCat a s =
     (if arg_words a = [] then say ''error: cat needs a name'' s
      else case resolve (sh_cwd s) (first_word a) of
        Inl why \<Rightarrow> say (''error: '' @ why_text why) s
      | Inr target \<Rightarrow>
          (case readText target kCatLimitBytes (sh_world s) of
             ((st, bs, bin), w1) \<Rightarrow>
               let s1 = s\<lparr>sh_world := w1\<rparr> in
               if st = NoSpace then say (''error: larger than '' @ dec_str kCatLimitBytes @ '' bytes: '' @ target) s1
               else if st \<noteq> Ok then sayFailure ''cat'' target st s1
               else if bin then say (''error: not a text file: '' @ target) s1
               else write_out (cat_text bs) s1))"

text \<open>\<open>df\<close> reads what each volume reports: \<open>None\<close> when it is not mounted, else its total and free bytes.\<close>

definition cmdDf :: "(string \<Rightarrow> (u64 \<times> u64) option) \<Rightarrow> shell \<Rightarrow> shell" where
  "cmdDf space s =
     fold (\<lambda>v. case space v of
             None \<Rightarrow> say (v @ ''  not mounted'')
           | Some (tot, free) \<Rightarrow> say (v @ ''  '' @ dec_str (unat (tot div 1024)) @ '' KB total, ''
                 @ dec_str (unat (free div 1024)) @ '' KB free'')) kVolumes s"

definition cmdClear :: "shell \<Rightarrow> shell" where
  "cmdClear s = write_out (char_of (27::nat) # ''[H'' @ char_of (27::nat) # ''[2J'') s"

definition shell_verbs :: "string list" where
  "shell_verbs = [''ls'', ''cd'', ''pwd'', ''mkdir'', ''touch'', ''rm'', ''mv'', ''cp'', ''cat'', ''df'', ''clear'']"

definition handles :: "string \<Rightarrow> bool" where
  "handles word = list_ex (\<lambda>v. word = v) shell_verbs"

definition split_verb :: "string \<Rightarrow> string \<times> string" where
  "split_verb line =
     (let l1 = dropWhile (\<lambda>c. c = CHR '' '') line in
      (takeWhile (\<lambda>c. c \<noteq> CHR '' '') l1, dropWhile (\<lambda>c. c \<noteq> CHR '' '') l1))"

definition execute :: "(string \<Rightarrow> (u64 \<times> u64) option) \<Rightarrow> string \<Rightarrow> shell \<Rightarrow> shell" where
  "execute space line s =
     (case split_verb line of
        (verb, rest) \<Rightarrow>
          let a = parseArgs rest in
          if verb = ''ls'' then cmdLs a s
          else if verb = ''cd'' then cmdCd a s
          else if verb = ''pwd'' then cmdPwd s
          else if verb = ''mkdir'' then cmdMkdir a s
          else if verb = ''touch'' then cmdTouch a s
          else if verb = ''rm'' then cmdRm a s
          else if verb = ''mv'' then cmdMv a s
          else if verb = ''cp'' then cmdCp a s
          else if verb = ''cat'' then cmdCat a s
          else if verb = ''df'' then cmdDf space s
          else if verb = ''clear'' then cmdClear s
          else s)"

end
