(* ===== verification/Multipart.thy ===== *)
theory Multipart
  imports Prelude "HOL-Library.Sublist"
begin

text \<open>
  \<open>src/src/web/MultipartExtractor.cpp\<close>: the payload of a \<open>multipart/form-data\<close> body, taken out while the body
  arrives in pieces. The receiver of the payload is a parameter with a state of its own; what it promises
  is the locale \<open>byte_sink\<close>. The extractor is proved to deliver what a search in the whole body gives,
  however the body was cut.
\<close>

section \<open>Searching a pattern\<close>

text \<open>\<open>string::find\<close>: the first position of a pattern.\<close>

fun find_sub :: "'a list \<Rightarrow> 'a list \<Rightarrow> nat option" where
  "find_sub pat [] = (if pat = [] then Some 0 else None)"
| "find_sub pat (x # xs) = (if prefix pat (x # xs) then Some 0 else map_option Suc (find_sub pat xs))"

definition occurs_at :: "'a list \<Rightarrow> 'a list \<Rightarrow> nat \<Rightarrow> bool" where
  "occurs_at pat xs i \<longleftrightarrow> i \<le> length xs \<and> prefix pat (drop i xs)"

lemma occurs_at_Suc [simp]: "occurs_at pat (x # xs) (Suc i) \<longleftrightarrow> occurs_at pat xs i"
  by (simp add: occurs_at_def)

lemma occurs_at_0: "occurs_at pat xs 0 \<longleftrightarrow> prefix pat xs"
  by (simp add: occurs_at_def)

lemma occurs_at_end: "occurs_at pat xs i \<Longrightarrow> i + length pat \<le> length xs"
  using prefix_length_le by (fastforce simp: occurs_at_def)

lemma occurs_at_append: "occurs_at pat xs i \<Longrightarrow> occurs_at pat (xs @ ys) i"
  by (auto simp: occurs_at_def)

lemma occurs_at_prefix:
  "occurs_at pat (xs @ ys) i \<Longrightarrow> i + length pat \<le> length xs \<Longrightarrow> occurs_at pat xs i"
  by (auto simp: occurs_at_def prefix_length_prefix [of _ "drop i xs @ ys" "drop i xs"])

lemma occurs_at_drop: "n \<le> length xs \<Longrightarrow> occurs_at pat (drop n xs) i \<longleftrightarrow> occurs_at pat xs (n + i)"
  by (auto simp: occurs_at_def add.commute)

lemma find_sub_Some_iff: "find_sub pat xs = Some i \<longleftrightarrow> occurs_at pat xs i \<and> (\<forall>j < i. \<not> occurs_at pat xs j)"
proof (induction xs arbitrary: i)
  case Nil
  then show ?case by (auto simp: occurs_at_def)
next
  case (Cons x xs)
  show ?case
  proof (cases i)
    case 0
    then show ?thesis by (auto simp: occurs_at_0)
  next
    case (Suc k)
    have "(\<forall>j < Suc k. \<not> occurs_at pat (x # xs) j) \<longleftrightarrow> \<not> prefix pat (x # xs) \<and> (\<forall>j < k. \<not> occurs_at pat xs j)"
      by (auto simp: less_Suc_eq_0_disj occurs_at_0)
    then show ?thesis using Suc Cons.IH by auto
  qed
qed

lemma find_sub_None_iff: "find_sub pat xs = None \<longleftrightarrow> (\<forall>i. \<not> occurs_at pat xs i)"
proof (induction xs)
  case Nil
  then show ?case by (auto simp: occurs_at_def)
next
  case (Cons x xs)
  have "(\<forall>i. \<not> occurs_at pat (x # xs) i) \<longleftrightarrow> \<not> prefix pat (x # xs) \<and> (\<forall>i. \<not> occurs_at pat xs i)"
    by (metis not0_implies_Suc occurs_at_0 occurs_at_Suc)
  then show ?case using Cons.IH by simp
qed

lemma find_sub_append: "find_sub pat xs = Some i \<Longrightarrow> find_sub pat (xs @ ys) = Some i"
  using occurs_at_prefix occurs_at_end
  by (fastforce simp: find_sub_Some_iff occurs_at_append)

lemma find_sub_bound: "find_sub pat xs = Some i \<Longrightarrow> i + length pat \<le> length xs"
  by (auto simp: find_sub_Some_iff dest: occurs_at_end)

lemma find_sub_Nil [simp]: "pat \<noteq> [] \<Longrightarrow> find_sub pat [] = None"
  by simp

lemma find_sub_skip:
  assumes "n \<le> length xs" "\<And>i. i < n \<Longrightarrow> \<not> occurs_at pat xs i"
  shows "find_sub pat xs = map_option ((+) n) (find_sub pat (drop n xs))"
proof (cases "find_sub pat (drop n xs)")
  case None
  then have "\<not> occurs_at pat xs i" for i
    using assms occurs_at_drop [of n xs pat "i - n"] by (cases "i < n") (auto simp: find_sub_None_iff)
  then have "find_sub pat xs = None" by (simp add: find_sub_None_iff)
  then show ?thesis using None by simp
next
  case (Some k)
  then have k: "occurs_at pat xs (n + k)" "\<And>j. j < k \<Longrightarrow> \<not> occurs_at pat xs (n + j)"
    using assms(1) by (auto simp: find_sub_Some_iff occurs_at_drop)
  have "\<not> occurs_at pat xs j" if "j < n + k" for j
    using that assms(2) k(2) [of "j - n"] by (cases "j < n") auto
  then have "find_sub pat xs = Some (n + k)" using k(1) by (simp add: find_sub_Some_iff)
  then show ?thesis using Some by simp
qed

text \<open>
  A window of one byte less than the pattern is enough to remember: what was given away before it cannot
  be the start of an occurrence that ends in bytes still to come.
\<close>

lemma find_sub_window:
  assumes none: "find_sub pat (given @ held) = None"
    and window: "given = [] \<or> length pat - 1 \<le> length held" and pat: "pat \<noteq> []"
  shows "find_sub pat (given @ held @ new) = map_option ((+) (length given)) (find_sub pat (held @ new))"
proof -
  have "\<not> occurs_at pat (given @ held @ new) i" if "i < length given" for i
  proof
    assume "occurs_at pat (given @ held @ new) i"
    moreover have "i + length pat \<le> length (given @ held)" using that window pat by (cases pat) auto
    ultimately have "occurs_at pat (given @ held) i"
      using occurs_at_prefix [of pat "given @ held" new i] by simp
    then show False using none by (simp add: find_sub_None_iff)
  qed
  then show ?thesis using find_sub_skip [of "length given" "given @ held @ new" pat] by simp
qed

section \<open>The extractor\<close>

definition crlf :: "byte list" where "crlf = [13, 10]"

definition header_end :: "byte list" where "header_end = crlf @ crlf"

definition kHeaderTerminatorBytes :: nat where "kHeaderTerminatorBytes = 4"

definition kMaxHeaderBytes :: nat where "kMaxHeaderBytes = 8192"

record 's extractor =
  mx_delimiter :: "byte list"
  mx_headerAcc :: "byte list"
  mx_pending :: "byte list"
  mx_sink :: 's
  mx_payloadBytes :: u64
  mx_dataStarted :: bool
  mx_dataDone :: bool
  mx_failed :: bool

type_synonym 's sink = "byte list \<Rightarrow> 's \<Rightarrow> bool \<times> 's"

definition delimiter_of :: "byte list \<Rightarrow> byte list" where
  "delimiter_of boundary = crlf @ [45, 45] @ boundary"

lemma delimiter_of_length [simp]: "length (delimiter_of boundary) = length boundary + 4" "delimiter_of boundary \<noteq> []"
  by (simp_all add: delimiter_of_def crlf_def)

definition extractor_new :: "byte list \<Rightarrow> 's \<Rightarrow> 's extractor" where
  "extractor_new boundary s =
     \<lparr>mx_delimiter = delimiter_of boundary, mx_headerAcc = [], mx_pending = [], mx_sink = s,
      mx_payloadBytes = 0, mx_dataStarted = False, mx_dataDone = False, mx_failed = (boundary = [])\<rparr>"

text \<open>\<open>sink_(pending_.data(), n)\<close>: the first \<open>n\<close> pending bytes go to the receiver.\<close>

definition deliver :: "'s sink \<Rightarrow> nat \<Rightarrow> 's extractor \<Rightarrow> bool \<times> 's extractor" where
  "deliver sink n x =
     (case sink (take n (mx_pending x)) (mx_sink x) of
        (False, s) \<Rightarrow> (False, x\<lparr>mx_sink := s, mx_failed := True\<rparr>)
      | (True, s) \<Rightarrow> (True, x\<lparr>mx_sink := s, mx_payloadBytes := mx_payloadBytes x + of_nat n\<rparr>))"

definition consume :: "'s sink \<Rightarrow> byte list \<Rightarrow> 's extractor \<Rightarrow> bool \<times> 's extractor" where
  "consume sink bs x =
     (let x1 = x\<lparr>mx_pending := mx_pending x @ bs\<rparr> in
      case find_sub (mx_delimiter x1) (mx_pending x1) of
        Some pos \<Rightarrow>
          (case (if pos > 0 then deliver sink pos x1 else (True, x1)) of
             (False, x2) \<Rightarrow> (False, x2)
           | (True, x2) \<Rightarrow> (True, x2\<lparr>mx_pending := [], mx_dataDone := True\<rparr>))
      | None \<Rightarrow>
          (let keep = length (mx_delimiter x1) - 1 in
           if length (mx_pending x1) > keep then
             (let n = length (mx_pending x1) - keep in
              case deliver sink n x1 of
                (False, x2) \<Rightarrow> (False, x2)
              | (True, x2) \<Rightarrow> (True, x2\<lparr>mx_pending := drop n (mx_pending x2)\<rparr>))
           else (True, x1)))"

definition feed :: "'s sink \<Rightarrow> byte list \<Rightarrow> 's extractor \<Rightarrow> bool \<times> 's extractor" where
  "feed sink bs x =
     (if mx_failed x \<or> mx_dataDone x then (\<not> mx_failed x, x)
      else if bs = [] then (True, x)
      else if \<not> mx_dataStarted x then
        (let x1 = x\<lparr>mx_headerAcc := mx_headerAcc x @ bs\<rparr> in
         case find_sub header_end (mx_headerAcc x1) of
           None \<Rightarrow>
             if length (mx_headerAcc x1) > kMaxHeaderBytes then (False, x1\<lparr>mx_failed := True\<rparr>) else (True, x1)
         | Some e \<Rightarrow>
             (let payload = drop (e + kHeaderTerminatorBytes) (mx_headerAcc x1);
                  x2 = x1\<lparr>mx_dataStarted := True, mx_headerAcc := []\<rparr> in
              if payload \<noteq> [] then consume sink payload x2 else (True, x2)))
      else consume sink bs x)"

definition finish :: "'s extractor \<Rightarrow> bool" where
  "finish x = (if mx_failed x then False else mx_dataDone x)"

text \<open>The caller feeds one piece after the other and stops at the first refusal.\<close>

fun feed_all :: "'s sink \<Rightarrow> byte list list \<Rightarrow> 's extractor \<Rightarrow> bool \<times> 's extractor" where
  "feed_all sink [] x = (True, x)"
| "feed_all sink (bs # rest) x =
     (case feed sink bs x of (False, x1) \<Rightarrow> (False, x1) | (True, x1) \<Rightarrow> feed_all sink rest x1)"

section \<open>What a body holds\<close>

text \<open>
  The payload of a whole body: what lies between the end of the part headers and the first delimiter.
  \<open>None\<close> when one of the two is missing.
\<close>

definition body_rest :: "byte list \<Rightarrow> byte list option" where
  "body_rest body = map_option (\<lambda>e. drop (e + 4) body) (find_sub header_end body)"

definition payload_of :: "byte list \<Rightarrow> byte list \<Rightarrow> byte list option" where
  "payload_of boundary body =
     (case body_rest body of
        None \<Rightarrow> None
      | Some rest \<Rightarrow> map_option (\<lambda>p. take p rest) (find_sub (delimiter_of boundary) rest))"

text \<open>What may already have been handed over when the closing delimiter has not been seen.\<close>

definition safe_part :: "byte list \<Rightarrow> byte list \<Rightarrow> byte list" where
  "safe_part boundary rest = take (length rest - (length boundary + 3)) rest"

section \<open>The receiver\<close>

locale byte_sink =
  fixes sink :: "byte list \<Rightarrow> 's \<Rightarrow> bool \<times> 's" and got :: "'s \<Rightarrow> byte list" and ready :: "'s \<Rightarrow> bool"
  assumes sink_got: "ready s \<Longrightarrow> sink bs s = (True, s') \<Longrightarrow> got s' = got s @ bs \<and> ready s'"
begin

text \<open>State of the extractor after the bytes \<open>seen\<close> of the body, as long as nothing was refused.\<close>

definition tracks :: "byte list \<Rightarrow> 's \<Rightarrow> byte list \<Rightarrow> 's extractor \<Rightarrow> bool" where
  "tracks boundary s0 seen x \<longleftrightarrow>
     \<not> mx_failed x \<and> ready (mx_sink x) \<and> mx_delimiter x = delimiter_of boundary \<and>
     (case body_rest seen of
        None \<Rightarrow> \<not> mx_dataStarted x \<and> \<not> mx_dataDone x \<and> mx_headerAcc x = seen \<and> mx_pending x = []
                \<and> mx_sink x = s0
      | Some rest \<Rightarrow>
          mx_dataStarted x \<and>
          (case find_sub (mx_delimiter x) rest of
             Some p \<Rightarrow> mx_dataDone x \<and> got (mx_sink x) = got s0 @ take p rest
           | None \<Rightarrow> \<not> mx_dataDone x
               \<and> (\<exists>given. rest = given @ mx_pending x \<and> got (mx_sink x) = got s0 @ given
                     \<and> length (mx_pending x) = min (length rest) (length boundary + 3))))"

lemma tracks_new: "boundary \<noteq> [] \<Longrightarrow> ready s0 \<Longrightarrow> tracks boundary s0 [] (extractor_new boundary s0)"
  by (simp add: tracks_def extractor_new_def body_rest_def header_end_def crlf_def)

lemma tracks_held:
  assumes t: "tracks boundary s0 seen x"
    and rest: "body_rest seen = Some rest" "find_sub (delimiter_of boundary) rest = None"
  obtains given where "rest = given @ mx_pending x" "got (mx_sink x) = got s0 @ given"
    "length (mx_pending x) = min (length rest) (length boundary + 3)"
proof -
  have d: "mx_delimiter x = delimiter_of boundary" using t by (simp add: tracks_def)
  show ?thesis using t that unfolding tracks_def d rest option.case by blast
qed

lemma deliver_True:
  assumes "deliver sink n x = (True, x')" "ready (mx_sink x)"
  obtains s where "x' = x\<lparr>mx_sink := s, mx_payloadBytes := mx_payloadBytes x + of_nat n\<rparr>" "ready s"
    "got s = got (mx_sink x) @ take n (mx_pending x)"
  using assms sink_got by (auto simp: deliver_def split: prod.splits bool.splits)

text \<open>One step of \<open>consume\<close> over the bytes after the headers.\<close>

lemma consume_step:
  assumes c: "consume sink bs x = (True, x')" and ready: "ready (mx_sink x)"
    and delim: "mx_delimiter x = delimiter_of boundary"
    and rest: "rest = given @ mx_pending x" "got (mx_sink x) = got s0 @ given"
    and window: "length (mx_pending x) = min (length rest) (length boundary + 3)"
    and none: "find_sub (delimiter_of boundary) rest = None" and flags: "\<not> mx_failed x" "\<not> mx_dataDone x"
  shows "\<not> mx_failed x' \<and> ready (mx_sink x') \<and> mx_delimiter x' = (delimiter_of boundary) \<and> mx_dataStarted x' = mx_dataStarted x \<and>
    (case find_sub (delimiter_of boundary) (rest @ bs) of
       Some p \<Rightarrow> mx_dataDone x' \<and> got (mx_sink x') = got s0 @ take p (rest @ bs)
     | None \<Rightarrow> \<not> mx_dataDone x'
         \<and> (\<exists>given'. rest @ bs = given' @ mx_pending x' \<and> got (mx_sink x') = got s0 @ given'
              \<and> length (mx_pending x') = min (length (rest @ bs)) (length boundary + 3)))"
proof -
  let ?p = "mx_pending x @ bs" and ?d = "delimiter_of boundary"
  have w: "given = [] \<or> length ?d - 1 \<le> length (mx_pending x)"
    using window rest(1) by (auto simp: min_def split: if_splits)
  have shift: "find_sub ?d (rest @ bs) = map_option ((+) (length given)) (find_sub ?d ?p)"
    using find_sub_window [OF _ w, of bs] none rest(1) by simp
  show ?thesis
  proof (cases "find_sub ?d ?p")
    case (Some pos)
    have take: "take (length given + pos) (rest @ bs) = given @ take pos ?p" using rest(1) by simp
    show ?thesis
    proof (cases "pos > 0")
      case True
      then obtain x2 where x2: "deliver sink pos (x\<lparr>mx_pending := ?p\<rparr>) = (True, x2)"
        "x' = x2\<lparr>mx_pending := [], mx_dataDone := True\<rparr>"
        using c Some delim by (auto simp: consume_def Let_def split: prod.splits bool.splits)
      show ?thesis
        using deliver_True [OF x2(1)] x2(2) ready delim flags shift Some rest(2) take by fastforce
    next
      case False
      then have "x' = x\<lparr>mx_pending := [], mx_dataDone := True\<rparr>"
        using c Some delim by (auto simp: consume_def Let_def)
      then show ?thesis using ready delim flags shift Some rest(2) take False by simp
    qed
  next
    case None
    show ?thesis
    proof (cases "length ?p > length boundary + 3")
      case True
      let ?n = "length ?p - (length boundary + 3)"
      obtain x2 where x2: "deliver sink ?n (x\<lparr>mx_pending := ?p\<rparr>) = (True, x2)"
        "x' = x2\<lparr>mx_pending := drop ?n (mx_pending x2)\<rparr>"
        using c None delim True by (auto simp: consume_def Let_def add.commute split: prod.splits bool.splits)
      obtain s where s: "x2 = x\<lparr>mx_pending := ?p, mx_sink := s, mx_payloadBytes := mx_payloadBytes x + of_nat ?n\<rparr>"
        "ready s" "got s = (got s0 @ given) @ take ?n ?p"
        using deliver_True [OF x2(1)] ready rest(2) by auto
      have pend: "mx_pending x' = drop ?n ?p" and got': "got (mx_sink x') = got s0 @ (given @ take ?n ?p)"
        using x2(2) s by simp_all
      have "rest @ bs = (given @ take ?n ?p) @ drop ?n ?p"
        unfolding rest(1) append.assoc append_take_drop_id ..
      moreover have "length (drop ?n ?p) = min (length (rest @ bs)) (length boundary + 3)"
        using True rest(1) by auto
      ultimately have "\<exists>given'. rest @ bs = given' @ mx_pending x' \<and> got (mx_sink x') = got s0 @ given'
          \<and> length (mx_pending x') = min (length (rest @ bs)) (length boundary + 3)"
        unfolding pend got' by blast
      moreover have "find_sub ?d (rest @ bs) = None" using shift None by simp
      moreover have "\<not> mx_failed x' \<and> ready (mx_sink x') \<and> mx_delimiter x' = ?d
          \<and> mx_dataStarted x' = mx_dataStarted x \<and> \<not> mx_dataDone x'"
        using x2(2) s(1,2) delim flags by simp
      ultimately show ?thesis by (simp only: option.case) blast
    next
      case False
      then have x': "x' = x\<lparr>mx_pending := ?p\<rparr>" using c None delim by (auto simp: consume_def Let_def add.commute)
      have "length rest = length given + length (mx_pending x)" using rest(1) by simp
      then have "length ?p = min (length (rest @ bs)) (length boundary + 3)"
        using False window unfolding length_append by linarith
      moreover have "rest @ bs = given @ ?p" "got (mx_sink x') = got s0 @ given" "mx_pending x' = ?p"
        using rest x' by simp_all
      ultimately have "\<exists>given'. rest @ bs = given' @ mx_pending x' \<and> got (mx_sink x') = got s0 @ given'
          \<and> length (mx_pending x') = min (length (rest @ bs)) (length boundary + 3)"
        by metis
      moreover have "find_sub ?d (rest @ bs) = None" using shift None by simp
      moreover have "\<not> mx_failed x' \<and> ready (mx_sink x') \<and> mx_delimiter x' = ?d
          \<and> mx_dataStarted x' = mx_dataStarted x \<and> \<not> mx_dataDone x'"
        using x' ready delim flags by simp
      ultimately show ?thesis by (simp only: option.case) blast
    qed
  qed
qed

lemma body_rest_append: "body_rest seen = Some rest \<Longrightarrow> body_rest (seen @ bs) = Some (rest @ bs)"
proof -
  assume "body_rest seen = Some rest"
  then obtain e where e: "find_sub header_end seen = Some e" "rest = drop (e + 4) seen"
    by (auto simp: body_rest_def)
  then have "e + 4 \<le> length seen"
    using find_sub_bound [OF e(1)] by (simp add: header_end_def crlf_def)
  then show ?thesis using e find_sub_append [OF e(1)] by (simp add: body_rest_def)
qed

lemma feed_step:
  assumes t: "tracks boundary s0 seen x" and f: "feed sink bs x = (True, x')"
  shows "tracks boundary s0 (seen @ bs) x'"
proof (cases "bs = [] \<or> mx_dataDone x")
  case True
  then have "x' = x" using f t by (auto simp: feed_def tracks_def split: if_splits)
  moreover have "tracks boundary s0 (seen @ bs) x" if d: "mx_dataDone x"
  proof -
    obtain rest p where r: "body_rest seen = Some rest" "find_sub (delimiter_of boundary) rest = Some p"
      using t d by (auto simp: tracks_def split: option.splits)
    then show ?thesis
      using t body_rest_append [OF r(1)] find_sub_append [OF r(2)] find_sub_bound [OF r(2)] by (auto simp: tracks_def)
  qed
  ultimately show ?thesis using True t by auto
next
  case False
  then have nd: "\<not> mx_dataDone x" "\<not> mx_failed x" "ready (mx_sink x)" "mx_delimiter x = delimiter_of boundary"
    using t by (auto simp: tracks_def)
  show ?thesis
  proof (cases "body_rest seen")
    case None
    then have x: "\<not> mx_dataStarted x" "mx_headerAcc x = seen" "mx_pending x = []" "mx_sink x = s0"
      using t by (auto simp: tracks_def)
    show ?thesis
    proof (cases "find_sub header_end (seen @ bs)")
      case None
      then have "x' = x\<lparr>mx_headerAcc := seen @ bs\<rparr>"
        using f False nd x by (auto simp: feed_def Let_def split: if_splits)
      then show ?thesis using None nd x by (simp add: tracks_def body_rest_def)
    next
      case (Some e)
      let ?rest = "drop (e + 4) (seen @ bs)"
      let ?x = "x\<lparr>mx_dataStarted := True, mx_headerAcc := []\<rparr>"
      have br: "body_rest (seen @ bs) = Some ?rest" using Some by (simp add: body_rest_def)
      show ?thesis
      proof (cases "?rest = []")
        case True
        then have "x' = ?x" using f False nd x Some by (auto simp: feed_def kHeaderTerminatorBytes_def)
        then show ?thesis using br True nd x by (auto simp: tracks_def)
      next
        case False
        then have "consume sink ?rest ?x = (True, x')"
          using f \<open>\<not> (bs = [] \<or> _)\<close> nd x Some by (auto simp: feed_def kHeaderTerminatorBytes_def)
        from consume_step [OF this, of boundary "[]" "[]" s0, unfolded append_Nil] have
          "\<not> mx_failed x' \<and> ready (mx_sink x') \<and> mx_delimiter x' = delimiter_of boundary \<and> mx_dataStarted x' \<and>
           (case find_sub (delimiter_of boundary) ?rest of
              Some p \<Rightarrow> mx_dataDone x' \<and> got (mx_sink x') = got s0 @ take p ?rest
            | None \<Rightarrow> \<not> mx_dataDone x'
                \<and> (\<exists>given'. ?rest = given' @ mx_pending x' \<and> got (mx_sink x') = got s0 @ given'
                     \<and> length (mx_pending x') = min (length ?rest) (length boundary + 3)))"
          using nd x by (simp del: drop_append)
        then show ?thesis unfolding tracks_def br by (simp del: drop_append)
      qed
    qed
  next
    case (Some rest)
    then have x: "mx_dataStarted x" "find_sub (delimiter_of boundary) rest = None"
      using t nd by (auto simp: tracks_def split: option.splits)
    then obtain given where g: "rest = given @ mx_pending x" "got (mx_sink x) = got s0 @ given"
      "length (mx_pending x) = min (length rest) (length boundary + 3)"
      using tracks_held [OF t Some] by blast
    have "consume sink bs x = (True, x')" using f False nd x by (auto simp: feed_def split: if_splits)
    from consume_step [OF this nd(3) nd(4) g x(2) nd(2,1)] show ?thesis
      using body_rest_append [OF Some] x(1) by (simp add: tracks_def)
  qed
qed

lemma feed_all_tracks:
  "tracks boundary s0 seen x \<Longrightarrow> feed_all sink pieces x = (True, x') \<Longrightarrow>
   tracks boundary s0 (seen @ concat pieces) x'"
proof (induction pieces arbitrary: seen x)
  case (Cons bs pieces)
  then obtain x1 where "feed sink bs x = (True, x1)" "feed_all sink pieces x1 = (True, x')"
    by (auto split: prod.splits bool.splits)
  then show ?case using Cons.IH [OF feed_step [OF Cons.prems(1)]] by simp
qed simp

lemma held_back: "rest = given @ held \<Longrightarrow> length held = min (length rest) k \<Longrightarrow> given = take (length rest - k) rest"
proof -
  assume rest: "rest = given @ held" and held: "length held = min (length rest) k"
  have "length rest = length given + length held" using rest by simp
  then have "length given = length rest - k" using held by linarith
  then show ?thesis using rest append_eq_conv_conj by metis
qed

text \<open>The extractor reports a complete part exactly when the body holds one, and then has delivered it.\<close>

lemma extract_exact:
  assumes "boundary \<noteq> []" "ready s0" "feed_all sink pieces (extractor_new boundary s0) = (True, x)"
  shows "finish x \<longleftrightarrow> payload_of boundary (concat pieces) \<noteq> None"
    and "payload_of boundary (concat pieces) = Some p \<Longrightarrow> got (mx_sink x) = got s0 @ p"
    and "payload_of boundary (concat pieces) = None \<Longrightarrow>
      got (mx_sink x) = got s0 @ (case body_rest (concat pieces) of None \<Rightarrow> [] | Some rest \<Rightarrow> safe_part boundary rest)"
    and "ready (mx_sink x)"
proof -
  let ?body = "concat pieces"
  have t: "tracks boundary s0 ?body x" using feed_all_tracks [OF tracks_new [OF assms(1,2)] assms(3)] by simp
  then show "ready (mx_sink x)" by (simp add: tracks_def)
  show "finish x \<longleftrightarrow> payload_of boundary ?body \<noteq> None"
    using t by (auto simp: tracks_def finish_def payload_of_def split: option.splits)
  show "payload_of boundary ?body = Some p \<Longrightarrow> got (mx_sink x) = got s0 @ p"
    using t by (auto simp: tracks_def payload_of_def split: option.splits)
  show "got (mx_sink x) = got s0 @ (case body_rest ?body of None \<Rightarrow> [] | Some rest \<Rightarrow> safe_part boundary rest)"
    if none: "payload_of boundary ?body = None"
  proof (cases "body_rest ?body")
    case None
    then show ?thesis using t by (simp add: tracks_def)
  next
    case (Some rest)
    then have "find_sub (delimiter_of boundary) rest = None" using none by (simp add: payload_of_def)
    then obtain given where "rest = given @ mx_pending x" "got (mx_sink x) = got s0 @ given"
      "length (mx_pending x) = min (length rest) (length boundary + 3)"
      using tracks_held [OF t Some] by blast
    then show ?thesis using held_back [of rest given] Some by (simp only: safe_part_def option.case)
  qed
qed

end

text \<open>A receiver that never refuses: then only overlong part headers can stop a body.\<close>

locale reliable_sink = byte_sink +
  assumes sink_accepts: "ready s \<Longrightarrow> fst (sink bs s)"
begin

lemma deliver_ok: "ready (mx_sink x) \<Longrightarrow> fst (deliver sink n x)"
  using sink_accepts [of "mx_sink x" "take n (mx_pending x)"]
  by (auto simp: deliver_def split: prod.splits bool.splits)

lemma consume_ok: "ready (mx_sink x) \<Longrightarrow> fst (consume sink bs x)"
  using deliver_ok [of "x\<lparr>mx_pending := mx_pending x @ bs\<rparr>"]
  by (auto simp: consume_def Let_def split: prod.splits bool.splits option.splits)
    (metis fst_conv)+

lemma feed_ok:
  assumes "tracks boundary s0 seen x" "body_rest (seen @ bs) \<noteq> None \<or> length (seen @ bs) \<le> kMaxHeaderBytes"
  shows "fst (feed sink bs x)"
proof (cases "bs = [] \<or> mx_dataDone x \<or> mx_dataStarted x")
  case True
  then show ?thesis using assms(1) consume_ok [of x bs] by (auto simp: feed_def tracks_def)
next
  case False
  then have "mx_headerAcc x = seen" using assms(1) by (auto simp: tracks_def split: option.splits)
  then show ?thesis
    using False assms consume_ok by (auto simp: feed_def tracks_def body_rest_def Let_def split: option.splits)
qed

lemma feed_all_ok:
  assumes "find_sub header_end (seen @ concat pieces) = Some e" "e + 3 \<le> kMaxHeaderBytes"
    and "tracks boundary s0 seen x"
  shows "fst (feed_all sink pieces x)"
  using assms
proof (induction pieces arbitrary: seen x)
  case (Cons bs pieces)
  let ?seen = "seen @ bs"
  have "body_rest ?seen \<noteq> None \<or> length ?seen \<le> kMaxHeaderBytes"
  proof (cases "length ?seen < e + 4")
    case False
    have "occurs_at header_end (?seen @ concat pieces) e" using Cons.prems(1) by (simp add: find_sub_Some_iff)
    then have "occurs_at header_end ?seen e"
      by (rule occurs_at_prefix) (use False in \<open>simp add: header_end_def crlf_def\<close>)
    then have "find_sub header_end ?seen \<noteq> None" unfolding find_sub_None_iff by blast
    then show ?thesis unfolding body_rest_def by blast
  qed (use Cons.prems(2) in simp)
  then have "fst (feed sink bs x)" using feed_ok Cons.prems(3) by blast
  then obtain x1 where x1: "feed sink bs x = (True, x1)" by (cases "feed sink bs x") auto
  have "find_sub header_end (?seen @ concat pieces) = Some e" using Cons.prems(1) by simp
  from Cons.IH [OF this Cons.prems(2) feed_step [OF Cons.prems(3) x1]] show ?case using x1 by simp
qed simp

lemma extract_all:
  assumes "boundary \<noteq> []" "ready s0" "find_sub header_end (concat pieces) = Some e" "e + 3 \<le> kMaxHeaderBytes"
  obtains x where "feed_all sink pieces (extractor_new boundary s0) = (True, x)"
proof -
  have "fst (feed_all sink pieces (extractor_new boundary s0))"
    using feed_all_ok [OF _ assms(4) tracks_new [OF assms(1,2)]] assms(3) by simp
  then show thesis using that by (metis prod.collapse)
qed

end

end
