(* ===== verification/Ota.thy ===== *)
theory Ota
  imports Multipart
begin

text \<open>
  The firmware update of \<open>src/src/web/RestApi.cpp\<close> (\<open>handlePostOtaUpload\<close> with its \<open>OtaWriter\<close>): the body of the
  request arrives in pieces, goes through the multipart extractor or straight on, is batched into
  writes of 4096 bytes, and the boot partition is switched at the very end. The update library
  (\<open>esp_ota_*\<close>) and the socket are parameters: the library as a record of its calls, the socket as
  the list of what its reads will give.
\<close>

section \<open>The update library\<close>

text \<open>
  \<open>p_image\<close> reads what the partition holds since the session began. The documented contract: a begun
  session starts empty, a successful write appends.
\<close>

record 'f ota_port =
  p_begin :: "'f \<Rightarrow> 'f option"
  p_write :: "byte list \<Rightarrow> 'f \<Rightarrow> bool \<times> 'f"
  p_end :: "'f \<Rightarrow> bool"
  p_set_boot :: "'f \<Rightarrow> bool"
  p_image :: "'f \<Rightarrow> byte list"

definition port_ok :: "'f ota_port \<Rightarrow> bool" where
  "port_ok p \<longleftrightarrow> (\<forall>f f'. p_begin p f = Some f' \<longrightarrow> p_image p f' = []) \<and>
     (\<forall>bs f f'. p_write p bs f = (True, f') \<longrightarrow> p_image p f' = p_image p f @ bs)"

definition port_reliable :: "'f ota_port \<Rightarrow> bool" where
  "port_reliable p \<longleftrightarrow> port_ok p \<and> (\<forall>bs f. fst (p_write p bs f))"

section \<open>OtaWriter\<close>

definition otaBufBytes :: nat where "otaBufBytes = 4096"

record 'f ota_writer =
  ow_handle :: "'f ota_port"
  ow_flash :: 'f
  ow_buf :: "byte list"
  ow_written :: u64
  ow_err :: bool

definition ota_flush :: "'f ota_writer \<Rightarrow> bool \<times> 'f ota_writer" where
  "ota_flush w =
     (if ow_buf w = [] then (\<not> ow_err w, w)
      else (case p_write (ow_handle w) (ow_buf w) (ow_flash w) of
              (False, f) \<Rightarrow> (False, w\<lparr>ow_flash := f, ow_err := True\<rparr>)
            | (True, f) \<Rightarrow> (True, w\<lparr>ow_flash := f, ow_err := False,
                                 ow_written := ow_written w + of_nat (length (ow_buf w)), ow_buf := []\<rparr>)))"

text \<open>The loop of \<open>feed\<close>; the buffer never holds more than its size.\<close>

function ota_feed :: "byte list \<Rightarrow> 'f ota_writer \<Rightarrow> bool \<times> 'f ota_writer" where
  "ota_feed bs w =
     (if bs = [] then (\<not> ow_err w, w)
      else let n = min (length bs) (otaBufBytes - length (ow_buf w));
               w1 = w\<lparr>ow_buf := ow_buf w @ take n bs\<rparr> in
        if length (ow_buf w1) \<ge> otaBufBytes then
          (case ota_flush w1 of
             (False, w2) \<Rightarrow> (False, w2)
           | (True, w2) \<Rightarrow> ota_feed (drop n bs) w2)
        else ota_feed (drop n bs) w1)"
  by pat_completeness auto
termination
  by (relation "measures [\<lambda>(bs, w). length bs, \<lambda>(bs, w). length (ow_buf w)]")
    (auto simp: ota_flush_def otaBufBytes_def split: if_splits prod.splits bool.splits)

declare ota_feed.simps [simp del]

lemma ota_feed_step:
  "bs \<noteq> [] \<Longrightarrow> n = min (length bs) (otaBufBytes - length (ow_buf w)) \<Longrightarrow> w1 = w\<lparr>ow_buf := ow_buf w @ take n bs\<rparr> \<Longrightarrow>
   ota_feed bs w = (if length (ow_buf w1) \<ge> otaBufBytes
     then case ota_flush w1 of (False, w2) \<Rightarrow> (False, w2) | (True, w2) \<Rightarrow> ota_feed (drop n bs) w2
     else ota_feed (drop n bs) w1)"
  by (simp only: ota_feed.simps [of bs w] Let_def if_False)

definition ota_got :: "'f ota_writer \<Rightarrow> byte list" where
  "ota_got w = p_image (ow_handle w) (ow_flash w) @ ow_buf w"

definition ota_ready :: "'f ota_port \<Rightarrow> 'f ota_writer \<Rightarrow> bool" where
  "ota_ready p w \<longleftrightarrow> port_ok p \<and> ow_handle w = p \<and> \<not> ow_err w \<and> length (ow_buf w) < otaBufBytes"

lemma flush_True:
  assumes "ota_flush w = (True, w')" "port_ok (ow_handle w)"
  shows "ota_got w' = ota_got w \<and> ow_handle w' = ow_handle w \<and> \<not> ow_err w' \<and> ow_buf w' = []
    \<and> p_image (ow_handle w') (ow_flash w') = ota_got w"
  using assms by (auto simp: ota_flush_def ota_got_def port_ok_def split: if_splits prod.splits bool.splits)

lemma ota_feed_True:
  assumes "ota_feed bs w = (True, w')" "ota_ready p w"
  shows "ota_got w' = ota_got w @ bs \<and> ota_ready p w'"
  using assms
proof (induction bs w arbitrary: w' rule: ota_feed.induct)
  case (1 bs w)
  show ?case
  proof (cases "bs = []")
    case True
    then show ?thesis using "1.prems" by (simp add: ota_feed.simps)
  next
    case False
    define n where "n = min (length bs) (otaBufBytes - length (ow_buf w))"
    define w1 where "w1 = w\<lparr>ow_buf := ow_buf w @ take n bs\<rparr>"
    have w1: "ota_got w1 = ota_got w @ take n bs" "ow_handle w1 = p" "port_ok (ow_handle w1)" "\<not> ow_err w1"
      using "1.prems"(2) by (simp_all add: w1_def ota_got_def ota_ready_def)
    show ?thesis
    proof (cases "length (ow_buf w1) \<ge> otaBufBytes")
      case True
      then obtain w2 where w2: "ota_flush w1 = (True, w2)" "ota_feed (drop n bs) w2 = (True, w')"
        using "1.prems"(1) ota_feed_step [OF False n_def w1_def] by (auto split: prod.splits bool.splits)
      have "ota_got w2 = ota_got w @ take n bs" "ota_ready p w2"
        using flush_True [OF w2(1) w1(3)] w1 by (auto simp: ota_ready_def otaBufBytes_def)
      then show ?thesis
        using "1.IH"(1) [OF False n_def w1_def True w2(1) [symmetric] refl w2(2)] by simp
    next
      case False': False
      then have f1: "ota_feed (drop n bs) w1 = (True, w')"
        using "1.prems"(1) ota_feed_step [OF False n_def w1_def] by simp
      have "ota_ready p w1" using w1 False' by (simp add: ota_ready_def)
      from "1.IH"(2) [OF False n_def w1_def False' f1 this] show ?thesis using w1(1) by simp
    qed
  qed
qed

lemma flush_reliable: "port_reliable (ow_handle w) \<Longrightarrow> \<not> ow_err w \<Longrightarrow> fst (ota_flush w)"
  by (auto simp: ota_flush_def port_reliable_def split: prod.splits bool.splits) (metis fst_conv)

lemma ota_feed_reliable: "port_reliable (ow_handle w) \<Longrightarrow> \<not> ow_err w \<Longrightarrow> fst (ota_feed bs w)"
proof (induction bs w rule: ota_feed.induct)
  case (1 bs w)
  define n where "n = min (length bs) (otaBufBytes - length (ow_buf w))"
  define w1 where "w1 = w\<lparr>ow_buf := ow_buf w @ take n bs\<rparr>"
  have w1: "port_reliable (ow_handle w1)" "\<not> ow_err w1" using "1.prems" by (simp_all add: w1_def)
  obtain w2 where w2: "ota_flush w1 = (True, w2)" using flush_reliable [OF w1] by (cases "ota_flush w1") auto
  then have "port_reliable (ow_handle w2)" "\<not> ow_err w2"
    using flush_True [OF w2] w1 by (auto simp: port_reliable_def)
  then show ?case
    using "1.IH"(1) [OF _ n_def w1_def _ w2 [symmetric] refl] "1.IH"(2) [OF _ n_def w1_def] w1 w2 "1.prems"
      ota_feed_step [OF _ n_def w1_def] by (cases "bs = []") (auto simp: ota_feed.simps [of "[]"])
qed

interpretation ota: byte_sink ota_feed ota_got "ota_ready p" for p
  by unfold_locales (use ota_feed_True in blast)

definition ota_sure :: "'f ota_port \<Rightarrow> 'f ota_writer \<Rightarrow> bool" where
  "ota_sure p w \<longleftrightarrow> ota_ready p w \<and> port_reliable p"

interpretation ota_r: reliable_sink ota_feed ota_got "ota_sure p" for p
proof unfold_locales
  show "ota_sure p s \<Longrightarrow> ota_feed bs s = (True, s') \<Longrightarrow> ota_got s' = ota_got s @ bs \<and> ota_sure p s'" for s s' bs
    using ota_feed_True [of bs s s' p] by (simp add: ota_sure_def)
  show "ota_sure p s \<Longrightarrow> fst (ota_feed bs s)" for s bs
    using ota_feed_reliable [of s bs] by (simp add: ota_sure_def ota_ready_def)
qed

section \<open>The request\<close>

definition kRelayChunkBytes :: nat where "kRelayChunkBytes = 1024"

definition kSocketRetryLimit :: nat where "kSocketRetryLimit = 20"

text \<open>The layout of the body from its \<open>Content-Type\<close>: \<open>None\<close> is a plain image.\<close>

definition boundary_of :: "string \<Rightarrow> string option" where
  "boundary_of contentType =
     (case find_sub ''boundary='' contentType of
        None \<Rightarrow> None
      | Some b \<Rightarrow>
          (let junk = (\<lambda>c. c = CHR '' '' \<or> c = char_of (9::nat) \<or> c = CHR 0x22);
               t = drop_while_end junk (dropWhile junk (drop (b + 9) contentType));
               u = takeWhile (\<lambda>c. c \<noteq> CHR '';'') t in
           if u = [] then None else Some u))"

definition is_multipart :: "string \<Rightarrow> bool" where
  "is_multipart contentType \<longleftrightarrow> prefix ''multipart/form-data'' contentType"

text \<open>What a read of the socket gives: bytes, a timeout, or an error (no bytes: the peer closed).\<close>

datatype recv = Got "byte list" | Timeout | Broken

definition take_piece :: "bool \<Rightarrow> byte list \<Rightarrow> 'f ota_writer extractor \<Rightarrow> bool \<times> 'f ota_writer extractor" where
  "take_piece multipart bs x =
     (if multipart then feed ota_feed bs x
      else case ota_feed bs (mx_sink x) of (ok, w) \<Rightarrow> (ok, x\<lparr>mx_sink := w\<rparr>))"

text \<open>The receive loop: whether the body was bad, and the state. When the list ends the peer has closed.\<close>

fun receive :: "bool \<Rightarrow> recv list \<Rightarrow> nat \<Rightarrow> nat \<Rightarrow> 'f ota_writer extractor \<Rightarrow> bool \<times> 'f ota_writer extractor" where
  "receive multipart [] remaining retries x = (remaining > 0, x)"
| "receive multipart (ev # evs) remaining retries x =
     (if remaining = 0 then (False, x)
      else case ev of
        Broken \<Rightarrow> (True, x)
      | Timeout \<Rightarrow>
          if retries < kSocketRetryLimit then receive multipart evs remaining (retries + 1) x else (True, x)
      | Got bs \<Rightarrow>
          (let piece = take (min remaining kRelayChunkBytes) bs in
           if piece = [] then (True, x)
           else (case take_piece multipart piece x of
                   (False, x1) \<Rightarrow> (True, x1)
                 | (True, x1) \<Rightarrow> receive multipart evs (remaining - length piece) retries x1)))"

datatype ota_result = Unauthorised | NoBoundary | NoPartition | BeginFailed | UpdateFailed | Updated

definition ota_finish :: "bool \<Rightarrow> bool \<Rightarrow> 'f ota_writer extractor \<Rightarrow> ota_result \<times> 'f ota_writer" where
  "ota_finish multipart badBody x =
     (let w = mx_sink x in
      if badBody then (UpdateFailed, w)
      else if multipart \<and> \<not> finish x then (UpdateFailed, w)
      else if ow_err w then (UpdateFailed, w)
      else case ota_flush w of
        (False, w1) \<Rightarrow> (UpdateFailed, w1)
      | (True, w1) \<Rightarrow>
          if \<not> p_end (ow_handle w1) (ow_flash w1) then (UpdateFailed, w1)
          else if \<not> p_set_boot (ow_handle w1) (ow_flash w1) then (UpdateFailed, w1)
          else (Updated, w1))"

definition ota_writer_new :: "'f ota_port \<Rightarrow> 'f \<Rightarrow> 'f ota_writer" where
  "ota_writer_new p f = \<lparr>ow_handle = p, ow_flash = f, ow_buf = [], ow_written = 0, ow_err = False\<rparr>"

definition handlePostOtaUpload :: "'f ota_port \<Rightarrow> bool \<Rightarrow> bool \<Rightarrow> string \<Rightarrow> nat \<Rightarrow> recv list \<Rightarrow> 'f \<Rightarrow> ota_result \<times> 'f" where
  "handlePostOtaUpload p authorised hasPartition contentType content_len evs flash =
     (if \<not> authorised then (Unauthorised, flash)
      else let multipart = is_multipart contentType;
               boundary = (if multipart then boundary_of contentType else Some []) in
        case boundary of
          None \<Rightarrow> (NoBoundary, flash)
        | Some b \<Rightarrow>
            if \<not> hasPartition then (NoPartition, flash)
            else (case p_begin p flash of
                    None \<Rightarrow> (BeginFailed, flash)
                  | Some f \<Rightarrow>
                      (case receive multipart evs content_len 0
                              (extractor_new (map char_byte b) (ota_writer_new p f)) of
                         (bad, x) \<Rightarrow> (case ota_finish multipart bad x of (r, w) \<Rightarrow> (r, ow_flash w)))))"

section \<open>What is installed\<close>

text \<open>The pieces of the body that are read before the announced length is reached.\<close>

fun body_pieces :: "recv list \<Rightarrow> nat \<Rightarrow> byte list list" where
  "body_pieces [] remaining = []"
| "body_pieces (ev # evs) remaining =
     (if remaining = 0 then []
      else case ev of
        Got bs \<Rightarrow> (let piece = take (min remaining kRelayChunkBytes) bs in
                   piece # body_pieces evs (remaining - length piece))
      | _ \<Rightarrow> body_pieces evs remaining)"

text \<open>A loop that ends well has read the announced length, and the receiver has seen those pieces.\<close>

lemma receive_Got:
  assumes "receive m (Got bs # evs) remaining retries x = (False, x')" "remaining > 0"
    and piece: "piece = take (min remaining kRelayChunkBytes) bs"
  obtains x1 where "take_piece m piece x = (True, x1)" "receive m evs (remaining - length piece) retries x1 = (False, x')"
    "length piece \<le> remaining"
  using assms(1,2) that unfolding receive.simps recv.case Let_def piece [symmetric]
  by (auto simp: piece split: if_splits prod.splits bool.splits)

lemma receive_good:
  assumes "receive m evs remaining retries x = (False, x')"
  shows "length (concat (body_pieces evs remaining)) = remaining"
    and "m \<Longrightarrow> feed_all ota_feed (body_pieces evs remaining) x = (True, x')"
    and "\<not> m \<Longrightarrow> ota_ready p (mx_sink x) \<Longrightarrow>
      ota_got (mx_sink x') = ota_got (mx_sink x) @ concat (body_pieces evs remaining) \<and> ota_ready p (mx_sink x')"
proof -
  let ?goal = "\<lambda>evs remaining x. length (concat (body_pieces evs remaining)) = remaining \<and>
    (m \<longrightarrow> feed_all ota_feed (body_pieces evs remaining) x = (True, x')) \<and>
    (\<not> m \<longrightarrow> ota_ready p (mx_sink x) \<longrightarrow>
      ota_got (mx_sink x') = ota_got (mx_sink x) @ concat (body_pieces evs remaining) \<and> ota_ready p (mx_sink x'))"
  have "?goal evs remaining x"
    using assms
  proof (induction evs arbitrary: remaining retries x)
    case Nil
    then show ?case by simp
  next
    case (Cons ev evs)
    show ?case
    proof (cases "remaining = 0")
      case True
      then show ?thesis using Cons.prems by simp
    next
      case False
      show ?thesis
      proof (cases ev)
        case (Got bs)
        define piece where "piece = take (min remaining kRelayChunkBytes) bs"
        have "receive m (Got bs # evs) remaining retries x = (False, x')" "remaining > 0"
          using Cons.prems False Got by simp_all
        from receive_Got [OF this piece_def] obtain x1 where x1: "take_piece m piece x = (True, x1)"
          "receive m evs (remaining - length piece) retries x1 = (False, x')" "length piece \<le> remaining"
          by blast
        have bp: "body_pieces (ev # evs) remaining = piece # body_pieces evs (remaining - length piece)"
          using False Got by (simp add: piece_def Let_def)
        have plain: "ota_got (mx_sink x1) = ota_got (mx_sink x) @ piece
            \<and> ota_ready p (mx_sink x1)"
          if m: "\<not> m" "ota_ready p (mx_sink x)"
        proof -
          obtain w where "ota_feed piece (mx_sink x) = (True, w)" "x1 = x\<lparr>mx_sink := w\<rparr>"
            using x1(1) m(1) by (auto simp: take_piece_def split: prod.splits)
          then show ?thesis using ota_feed_True [OF _ m(2)] by simp
        qed
        have multi: "m \<Longrightarrow> feed ota_feed piece x = (True, x1)" using x1(1) by (simp add: take_piece_def)
        have "length (concat (body_pieces (ev # evs) remaining)) = remaining"
          using Cons.IH [OF x1(2)] x1(3) unfolding bp by simp
        then show ?thesis using Cons.IH [OF x1(2)] plain multi unfolding bp by simp
      next
        case Timeout
        then show ?thesis using Cons.prems Cons.IH False by (auto split: if_splits)
      next
        case Broken
        then show ?thesis using Cons.prems False by simp
      qed
    qed
  qed
  then show "length (concat (body_pieces evs remaining)) = remaining"
    and "m \<Longrightarrow> feed_all ota_feed (body_pieces evs remaining) x = (True, x')"
    and "\<not> m \<Longrightarrow> ota_ready p (mx_sink x) \<Longrightarrow>
      ota_got (mx_sink x') = ota_got (mx_sink x) @ concat (body_pieces evs remaining) \<and> ota_ready p (mx_sink x')" by simp_all
qed

text \<open>The handler that switched the boot partition.\<close>

lemma handler_Updated:
  assumes "handlePostOtaUpload p authorised hasPartition ct len evs flash = (Updated, f)"
  obtains b f0 x w where "(if is_multipart ct then boundary_of ct else Some []) = Some b" "p_begin p flash = Some f0"
    "receive (is_multipart ct) evs len 0 (extractor_new (map char_byte b) (ota_writer_new p f0)) = (False, x)"
    "is_multipart ct \<longrightarrow> finish x" "ota_flush (mx_sink x) = (True, w)" "f = ow_flash w"
    "p_end (ow_handle w) f"
  using assms that unfolding handlePostOtaUpload_def ota_finish_def Let_def
  by (auto split: if_splits option.splits prod.splits bool.splits)

text \<open>
  C26. A firmware update that switches the boot partition has written exactly the image: the bytes between the part
  headers and the closing delimiter for a multipart body, the whole body otherwise. It has read the
  announced length, and the library has accepted the image. This holds however the network cuts the
  body, whatever writes fail and wherever the connection breaks.
\<close>

theorem ota_installs_exactly:
  assumes "port_ok p" "handlePostOtaUpload p authorised hasPartition ct len evs flash = (Updated, f)"
  shows "length (concat (body_pieces evs len)) = len \<and> p_end p f \<and>
    (if is_multipart ct
     then \<exists>b. boundary_of ct = Some b \<and> payload_of (map char_byte b) (concat (body_pieces evs len)) = Some (p_image p f)
     else p_image p f = concat (body_pieces evs len))"
proof -
  let ?m = "is_multipart ct" and ?body = "concat (body_pieces evs len)"
  obtain b f0 x w where h: "(if ?m then boundary_of ct else Some []) = Some b" "p_begin p flash = Some f0"
    "receive ?m evs len 0 (extractor_new (map char_byte b) (ota_writer_new p f0)) = (False, x)"
    "?m \<longrightarrow> finish x" "ota_flush (mx_sink x) = (True, w)" "f = ow_flash w" "p_end (ow_handle w) f"
    by (rule handler_Updated [OF assms(2)])
  let ?w0 = "ota_writer_new p f0"
  have w0: "ota_ready p ?w0" "ota_got ?w0 = []" "ow_handle ?w0 = p" "mx_sink (extractor_new (map char_byte b) ?w0) = ?w0"
    using assms(1) h(2) by (simp_all add: ota_ready_def ota_got_def ota_writer_new_def port_ok_def otaBufBytes_def extractor_new_def)
  have flushed: "p_image p f = ota_got (mx_sink x) \<and> ow_handle w = p" if "ota_ready p (mx_sink x)"
    using flush_True [OF h(5)] that unfolding ota_ready_def h(6) by metis
  note good = receive_good [OF h(3)]
  show ?thesis
  proof (cases ?m)
    case True
    then have b: "boundary_of ct = Some b" "map char_byte b \<noteq> []"
      using h(1) by (auto simp: boundary_of_def Let_def split: option.splits if_splits)
    note ex = ota.extract_exact [OF b(2) w0(1) good(2) [OF True]]
    obtain img where "payload_of (map char_byte b) ?body = Some img" using ex(1) h(4) True by auto
    then show ?thesis using ex(2) [of img] flushed [OF ex(4)] good(1) h(7) True b(1) w0(2) by simp
  next
    case False
    then show ?thesis using good(1) good(3) [of p] flushed h(7) w0 by auto
  qed
qed

lemma receive_pieces:
  assumes "\<forall>q \<in> set ps. q \<noteq> [] \<and> length q \<le> kRelayChunkBytes" "feed_all ota_feed ps x = (True, x')"
  shows "receive True (map Got ps) (length (concat ps)) retries x = (False, x')"
  using assms
proof (induction ps arbitrary: x)
  case (Cons q ps)
  then obtain x1 where x1: "feed ota_feed q x = (True, x1)" "feed_all ota_feed ps x1 = (True, x')"
    by (auto split: prod.splits bool.splits)
  have q: "q \<noteq> []" "take (min (length (concat (q # ps))) kRelayChunkBytes) q = q" using Cons.prems(1) by auto
  then show ?case
    using x1(1) Cons.IH [OF _ x1(2)] Cons.prems(1) by (simp add: Let_def take_piece_def)
qed simp

text \<open>
  C27. A well-formed upload always succeeds: however the network cuts a multipart body whose part headers are at most
  8 KiB long, if every write goes through and the library accepts the image, the boot partition is
  switched and holds exactly the payload.
\<close>

theorem ota_update_succeeds:
  assumes "port_reliable p" "p_begin p flash = Some f0" "is_multipart ct" "boundary_of ct = Some b"
    and "\<forall>q \<in> set ps. q \<noteq> [] \<and> length q \<le> kRelayChunkBytes"
    and "find_sub header_end (concat ps) = Some e" "e + 3 \<le> kMaxHeaderBytes"
    and "payload_of (map char_byte b) (concat ps) = Some img"
    and "\<And>f. p_image p f = img \<Longrightarrow> p_end p f \<and> p_set_boot p f"
  shows "\<exists>f. handlePostOtaUpload p True True ct (length (concat ps)) (map Got ps) flash = (Updated, f) \<and> p_image p f = img"
proof -
  let ?w0 = "ota_writer_new p f0"
  have w0: "ota_sure p ?w0" "ota_got ?w0 = []"
    using assms(1,2)
    by (simp_all add: ota_sure_def ota_ready_def ota_got_def ota_writer_new_def port_ok_def port_reliable_def otaBufBytes_def)
  have b: "map char_byte b \<noteq> []" using assms(4) by (auto simp: boundary_of_def Let_def split: option.splits if_splits)
  obtain x where x: "feed_all ota_feed ps (extractor_new (map char_byte b) ?w0) = (True, x)"
    by (rule ota_r.extract_all [OF b w0(1) assms(6,7)])
  note ex = ota_r.extract_exact [OF b w0(1) x]
  have sure: "port_reliable (ow_handle (mx_sink x))" "\<not> ow_err (mx_sink x)" "ow_handle (mx_sink x) = p"
    using ex(4) by (auto simp: ota_sure_def ota_ready_def)
  obtain w where w: "ota_flush (mx_sink x) = (True, w)"
    using flush_reliable [OF sure(1,2)] by (metis prod.collapse)
  have "ow_handle w = p" "p_image p (ow_flash w) = img"
    using flush_True [OF w] sure ex(2) [OF assms(8)] w0(2) by (auto simp: port_reliable_def)
  then show ?thesis
    using assms(2-4,9) receive_pieces [OF assms(5) x, of 0] ex(1) assms(8) w sure(2)
    by (simp add: handlePostOtaUpload_def ota_finish_def Let_def)
qed

section \<open>A concrete update\<close>

text \<open>A library that keeps the image as a list and accepts every image that begins with the magic byte.\<close>

definition list_port :: "byte list ota_port" where
  "list_port = \<lparr>p_begin = \<lambda>f. Some [], p_write = \<lambda>bs f. (True, f @ bs), p_end = \<lambda>f. f \<noteq> [] \<and> hd f = 0xE9,
     p_set_boot = \<lambda>f. True, p_image = \<lambda>f. f\<rparr>"

lemma list_port_ok: "port_ok list_port" "port_reliable list_port"
  by (simp_all add: list_port_def port_ok_def port_reliable_def)

definition sample_type :: string where "sample_type = ''multipart/form-data; boundary=b''"

text \<open>The delimiter is cut between two pieces, and the payload holds a line break of its own.\<close>

definition sample_pieces :: "byte list list" where
  "sample_pieces = [[45, 45, 98, 13, 10, 65], [58, 66, 13, 10, 13, 10, 0xE9, 13, 10, 7, 13], [10, 45], [45, 98, 45, 45]]"

lemma sample_facts:
  "is_multipart sample_type" "boundary_of sample_type = Some ''b''"
  "find_sub header_end (concat sample_pieces) = Some 8"
  "payload_of (map char_byte ''b'') (concat sample_pieces) = Some [0xE9, 13, 10, 7]"
  by code_simp+

theorem ota_update_succeeds_witness:
  "\<exists>f. handlePostOtaUpload list_port True True sample_type (length (concat sample_pieces)) (map Got sample_pieces) [] = (Updated, f)
     \<and> p_image list_port f = [0xE9, 13, 10, 7]"
proof (rule ota_update_succeeds [OF list_port_ok(2) _ sample_facts(1,2) _ sample_facts(3) _ sample_facts(4)])
  show "p_begin list_port [] = Some []" by (simp add: list_port_def)
  show "\<forall>q \<in> set sample_pieces. q \<noteq> [] \<and> length q \<le> kRelayChunkBytes"
    by (simp add: sample_pieces_def kRelayChunkBytes_def)
  show "8 + 3 \<le> kMaxHeaderBytes" by (simp add: kMaxHeaderBytes_def)
  show "p_image list_port f = [0xE9, 13, 10, 7] \<Longrightarrow> p_end list_port f \<and> p_set_boot list_port f" for f
    by (simp add: list_port_def)
qed

theorem ota_installs_exactly_witness:
  "\<exists>f. handlePostOtaUpload list_port True True ''application/octet-stream'' 3 [Got [0xE9], Timeout, Got [1, 2]] [] = (Updated, f)
     \<and> p_image list_port f = [0xE9, 1, 2]"
proof -
  have h: "handlePostOtaUpload list_port True True ''application/octet-stream'' 3 [Got [0xE9], Timeout, Got [1, 2]] []
      = (Updated, [0xE9, 1, 2])"
    by code_simp
  have "\<not> is_multipart ''application/octet-stream''" "concat (body_pieces [Got [0xE9], Timeout, Got [1, 2]] 3) = [0xE9, 1, 2]"
    by code_simp+
  then show ?thesis using ota_installs_exactly [OF list_port_ok(1) h] h by simp
qed

text \<open>
  A quoted boundary that is followed by another parameter keeps its closing quote, so the delimiter of such a
  body is never found.
\<close>

lemma quoted_boundary_kept:
  "boundary_of (''multipart/form-data; boundary='' @ [CHR 0x22, CHR ''b'', CHR 0x22] @ ''; x=y'') = Some [CHR ''b'', CHR 0x22]"
  by code_simp

end
