(* ===== verification/Calendar.thy ===== *)
theory Calendar
  imports Prelude
begin

text \<open>
  \<open>src/src/time/TimeMath.cpp\<close>: calendar dates, their text form and seconds since 1970. The code computes in
  \<open>int\<close>, \<open>unsigned\<close> and \<open>int64_t\<close>; every intermediate value stays far inside them (the largest is a count of days or
  seconds), so the numbers are integers here, with C's division. The result of \<open>toUnixSec\<close> is cut to 32 bits.
\<close>

record DateTime =
  year :: int
  month :: int
  day :: int
  hour :: int
  minute :: int
  second :: int

definition kMinYear :: int where "kMinYear = 1970"
definition kMaxYear :: int where "kMaxYear = 2100"

text \<open>C's division of \<open>int64_t\<close> truncates; the code shifts a negative dividend so that it rounds down.\<close>

definition cdiv :: "int \<Rightarrow> int \<Rightarrow> int" where
  "cdiv a b = (if a \<ge> 0 then a div b else - ((- a) div b))"

definition daysFromCivil :: "int \<Rightarrow> int \<Rightarrow> int \<Rightarrow> int" where
  "daysFromCivil y0 m d =
     (let y = (if m \<le> 2 then y0 - 1 else y0);
          era = cdiv (if y \<ge> 0 then y else y - 399) 400;
          yoe = y - era * 400;
          doy = (153 * (m + (if m > 2 then - 3 else 9)) + 2) div 5 + d - 1;
          doe = yoe * 365 + yoe div 4 - yoe div 100 + doy in
      era * 146097 + doe - 719468)"

definition civilFromDays :: "int \<Rightarrow> int \<times> int \<times> int" where
  "civilFromDays n =
     (let days = n + 719468;
          era = cdiv (if days \<ge> 0 then days else days - 146096) 146097;
          doe = days - era * 146097;
          yoe = (doe - doe div 1460 + doe div 36524 - doe div 146096) div 365;
          y = yoe + era * 400;
          doy = doe - (365 * yoe + yoe div 4 - yoe div 100);
          mp = (5 * doy + 2) div 153;
          d = doy - (153 * mp + 2) div 5 + 1;
          m = mp + (if mp < 10 then 3 else - 9) in
      (y + (if m \<le> 2 then 1 else 0), m, d))"

definition isLeapYear :: "int \<Rightarrow> bool" where
  "isLeapYear y \<longleftrightarrow> (y mod 4 = 0 \<and> y mod 100 \<noteq> 0) \<or> y mod 400 = 0"

definition kDays :: "int list" where
  "kDays = [31, 28, 31, 30, 31, 30, 31, 31, 30, 31, 30, 31]"

definition daysInMonth :: "int \<Rightarrow> int \<Rightarrow> int" where
  "daysInMonth y m =
     (if m < 1 \<or> m > 12 then 0
      else if m = 2 \<and> isLeapYear y then 29
      else kDays ! nat (m - 1))"

definition isValidDate :: "int \<Rightarrow> int \<Rightarrow> int \<Rightarrow> bool" where
  "isValidDate y m d \<longleftrightarrow> \<not> (y < kMinYear \<or> y > kMaxYear) \<and> daysInMonth y m \<noteq> 0 \<and> d \<ge> 1 \<and> d \<le> daysInMonth y m"

definition isValidTime :: "int \<Rightarrow> int \<Rightarrow> int \<Rightarrow> bool" where
  "isValidTime h mi s \<longleftrightarrow> h \<ge> 0 \<and> h \<le> 23 \<and> mi \<ge> 0 \<and> mi \<le> 59 \<and> s \<ge> 0 \<and> s \<le> 59"

section \<open>The calendar\<close>

text \<open>The day after a date, by the rules of the calendar alone.\<close>

definition next_day :: "int \<times> int \<times> int \<Rightarrow> int \<times> int \<times> int" where
  "next_day = (\<lambda>(y, m, d). if d < daysInMonth y m then (y, m, d + 1) else if m < 12 then (y, m + 1, 1) else (y + 1, 1, 1))"

definition real_date :: "int \<times> int \<times> int \<Rightarrow> bool" where
  "real_date = (\<lambda>(y, m, d). 1 \<le> m \<and> m \<le> 12 \<and> 1 \<le> d \<and> d \<le> daysInMonth y m)"

lemma month_cases:
  "1 \<le> (m::int) \<Longrightarrow> m \<le> 12 \<Longrightarrow> m = 1 \<or> m = 2 \<or> m = 3 \<or> m = 4 \<or> m = 5 \<or> m = 6 \<or> m = 7 \<or> m = 8 \<or> m = 9 \<or> m = 10 \<or> m = 11 \<or> m = 12"
  by presburger

text \<open>The code's division rounds down.\<close>

lemma cdiv_floor: "0 < b \<Longrightarrow> c = b - 1 \<Longrightarrow> cdiv (if a \<ge> 0 then a else a - c) b = a div b"
proof (cases "a \<ge> 0")
  case False
  assume b: "0 < b" and c: "c = b - 1"
  have "(b - 1 - a) div b = - (a div b)"
  proof (rule int_div_pos_eq)
    have "a = b * (a div b) + a mod b" by simp
    then show "b - 1 - a = b * - (a div b) + (b - 1 - a mod b)" by (simp add: algebra_simps)
    show "0 \<le> b - 1 - a mod b" "b - 1 - a mod b < b" 
      using b pos_mod_sign [of b a] pos_mod_bound [of b a] by linarith+
  qed
  then show ?thesis using False b c by (simp add: cdiv_def)
qed (simp add: cdiv_def)

text \<open>A shifted year begins in March; the days before it, counted from March of the year zero.\<close>

definition year_start :: "int \<Rightarrow> int" where
  "year_start y = 365 * y + y div 4 - y div 100 + y div 400"

lemma year_start_era:
  "era * 146097 + (yoe * 365 + yoe div 4 - yoe div 100) = year_start (era * 400 + yoe)" if "0 \<le> yoe" "yoe < 400"
proof -
  have "(era * 400 + yoe) div 4 = era * 100 + yoe div 4" "(era * 400 + yoe) div 100 = era * 4 + yoe div 100"
    "(era * 400 + yoe) div 400 = era"
    using that by (simp_all add: div_mult_self1 [of 4 "yoe" "era * 100", simplified] div_add1_eq)
  then show ?thesis by (simp add: year_start_def)
qed

definition month_start :: "int \<Rightarrow> int" where
  "month_start mp = (153 * mp + 2) div 5"

lemma daysFromCivil_alt:
  "daysFromCivil y m d =
     year_start (if m \<le> 2 then y - 1 else y) + month_start (m + (if m > 2 then - 3 else 9)) + d - 1 - 719468"
proof -
  define Y where "Y = (if m \<le> 2 then y - 1 else y)"
  have "cdiv (if Y \<ge> 0 then Y else Y - 399) 400 = Y div 400" using cdiv_floor [of 400 399 Y] by simp
  moreover have "Y - Y div 400 * 400 = Y mod 400" by (simp add: minus_div_mult_eq_mod)
  moreover have "Y div 400 * 146097 + (Y mod 400 * 365 + Y mod 400 div 4 - Y mod 400 div 100) = year_start Y"
    using year_start_era [of "Y mod 400" "Y div 400"] by simp
  ultimately show ?thesis unfolding daysFromCivil_def Let_def Y_def [symmetric] month_start_def by simp
qed

lemma leap_fourth: "isLeapYear y \<Longrightarrow> y mod 4 = 0"
  by (auto simp: isLeapYear_def mod_eq_0_iff_dvd intro: dvd_trans [of 4 400])

lemma leap_century: "isLeapYear (100 * k) \<Longrightarrow> k mod 4 = 0"
  using mult_mod_right [of 100 k 4] by (auto simp: isLeapYear_def)

text \<open>Where a day of the era falls: the code's estimate of the year is exact.\<close>

lemma estimate_exact:
  fixes yoe doy :: int
  assumes y: "0 \<le> yoe" "yoe < 400" and d: "0 \<le> doy" "doy \<le> 364 \<or> doy = 365 \<and> isLeapYear (yoe + 1)"
    and doe: "doe = 365 * yoe + yoe div 4 - yoe div 100 + doy"
  shows "(doe - doe div 1460 + doe div 36524 - doe div 146096) div 365 = yoe" and "0 \<le> doe" "doe < 146097"
proof -
  define c u q r where "c = yoe div 100" and "u = yoe mod 100" and "q = u div 4" and "r = u mod 4"
  have cu: "yoe = 100 * c + u" "0 \<le> u" "u < 100" and qr: "u = 4 * q + r" "0 \<le> r" "r < 4"
    unfolding c_def u_def q_def r_def by simp_all
  have c: "0 \<le> c" "c \<le> 3" and q: "0 \<le> q" "q \<le> 24" using y cu qr by linarith+
  have y4: "yoe div 4 = 25 * c + q" by (rule int_div_pos_eq [of _ _ _ r]) (use cu qr in simp_all)
  have "yoe div 100 = c" by (simp add: c_def)
  then have doe': "doe = 36524 * c + 1461 * q + 365 * r + doy" using doe y4 cu(1) qr(1) by linarith
  have last: "r = 3 \<and> (q = 24 \<longrightarrow> c = 3)" if "doy = 365"
  proof -
    have leap: "isLeapYear (100 * c + 4 * q + r + 1)" using d(2) that cu(1) qr(1) by (simp add: add.assoc)
    then have "(r + 1) mod 4 = 0" using leap_fourth [OF leap] by presburger
    then have r: "r = 3" using qr(2,3) by presburger
    have "c = 3" if "q = 24"
    proof -
      have "isLeapYear (100 * (c + 1))" using leap r that by (simp add: algebra_simps)
      then have "(c + 1) mod 4 = 0" by (rule leap_century)
      then show ?thesis using c by presburger
    qed
    then show ?thesis using r by simp
  qed
  define z where "z = 24 * c + q + 365 * r + doy"
  have z: "doe = 1460 * (25 * c + q) + z" "0 \<le> z" "z < 2920" using doe' c q qr d(1,2) unfolding z_def by auto
  have k: "doe div 1460 = 25 * c + q + (if z < 1460 then 0 else 1)"
    by (rule int_div_pos_eq [of _ _ _ "if z < 1460 then z else z - 1460"]) (use z in auto)
  have top: "1461 * q + 365 * r + doy < 36524 \<or> (q = 24 \<and> r = 3 \<and> doy = 365 \<and> c = 3)"
    using q qr d(2) last by auto
  have h: "doe div 36524 - doe div 146096 = c"
  proof (cases "1461 * q + 365 * r + doy < 36524")
    case True
    have "doe div 36524 = c"
      by (rule int_div_pos_eq [of _ _ _ "1461 * q + 365 * r + doy"]) (use True doe' q qr d(1) in auto)
    moreover have "doe div 146096 = 0" by (rule div_pos_pos_trivial) (use True doe' c q qr d(1) in auto)
    ultimately show ?thesis by simp
  next
    case False
    then show ?thesis using top doe' by simp
  qed
  show "0 \<le> doe" "doe < 146097" using doe' c q qr d(1) top by auto
  have e: "doe - doe div 1460 + doe div 36524 - doe div 146096 = 365 * yoe + (doy - (if z < 1460 then 0 else 1))"
    using k h doe' cu(1) qr(1) by (cases "z < 1460") simp_all
  have "0 \<le> doy - (if z < 1460 then 0 else 1)" using z_def c q qr d(1) by auto
  moreover have "doy - (if z < 1460 then 0 else 1) < 365" using z_def c q last d(2) by auto
  ultimately show "(doe - doe div 1460 + doe div 36524 - doe div 146096) div 365 = yoe"
    unfolding e by (intro int_div_pos_eq [of _ _ _ "doy - (if z < 1460 then 0 else 1)"]) auto
qed

text \<open>Where a day of the shifted year falls: the code's month is exact.\<close>

definition shifted_length :: "int \<Rightarrow> int \<Rightarrow> int" where
  "shifted_length y mp = daysInMonth (if mp < 10 then y else y + 1) (if mp < 10 then mp + 3 else mp - 9)"

lemma shifted_cases:
  assumes "0 \<le> (mp::int)" "mp \<le> 11"
  shows "mp = 0 \<or> mp = 1 \<or> mp = 2 \<or> mp = 3 \<or> mp = 4 \<or> mp = 5 \<or> mp = 6 \<or> mp = 7 \<or> mp = 8 \<or> mp = 9 \<or> mp = 10 \<or> mp = 11"
  using assms by presburger

lemma month_exact:
  assumes mp: "0 \<le> mp" "mp \<le> 11" and d: "1 \<le> d" "d \<le> shifted_length y mp"
  shows "(5 * (month_start mp + d - 1) + 2) div 153 = mp"
    and "0 \<le> month_start mp + d - 1"
    and "month_start mp + d - 1 \<le> 364 \<or> month_start mp + d - 1 = 365 \<and> isLeapYear (y + 1)"
proof -
  have len: "d \<le> 31" "mp \<in> {1, 3, 6, 8} \<Longrightarrow> d \<le> 30" "mp = 11 \<Longrightarrow> d \<le> (if isLeapYear (y + 1) then 29 else 28)"
    using d shifted_cases [OF mp]
    by (elim disjE; simp add: shifted_length_def daysInMonth_def kDays_def split: if_splits)+
  show "0 \<le> month_start mp + d - 1" using mp d by (simp add: month_start_def)
  show "(5 * (month_start mp + d - 1) + 2) div 153 = mp"
    using shifted_cases [OF mp] len d(1)
    by (intro int_div_pos_eq [of _ _ _ "5 * (month_start mp + d - 1) + 2 - 153 * mp"])
      (elim disjE; simp add: month_start_def split: if_splits)+
  show "month_start mp + d - 1 \<le> 364 \<or> month_start mp + d - 1 = 365 \<and> isLeapYear (y + 1)"
    using shifted_cases [OF mp] len d(1) by (elim disjE; simp add: month_start_def split: if_splits; linarith?)
qed

lemma civilFromDays_shifted:
  assumes mp: "0 \<le> mp" "mp \<le> 11" and d: "1 \<le> d" "d \<le> shifted_length Y mp"
  shows "civilFromDays (year_start Y + month_start mp + d - 1 - 719468)
    = (if mp < 10 then (Y, mp + 3, d) else (Y + 1, mp - 9, d))"
proof -
  define era yoe doy doe where "era = Y div 400" and "yoe = Y mod 400" and "doy = month_start mp + d - 1"
    and "doe = 365 * yoe + yoe div 4 - yoe div 100 + doy"
  have Y: "Y = era * 400 + yoe" "0 \<le> yoe" "yoe < 400" by (simp_all add: era_def yoe_def)
  have "isLeapYear (Y + 1) \<longleftrightarrow> isLeapYear (yoe + 1)"
  proof -
    have "(Y + 1) mod 4 = (yoe + 1) mod 4" "(Y + 1) mod 100 = (yoe + 1) mod 100" "(Y + 1) mod 400 = (yoe + 1) mod 400"
      using mod_mult_self1 [of "yoe + 1" "era * 100" 4] mod_mult_self1 [of "yoe + 1" "era * 4" 100]
        mod_mult_self1 [of "yoe + 1" era 400] Y(1) by (simp_all add: ac_simps)
    then show ?thesis by (simp add: isLeapYear_def)
  qed
  then have doy: "0 \<le> doy" "doy \<le> 364 \<or> doy = 365 \<and> isLeapYear (yoe + 1)" "(5 * doy + 2) div 153 = mp"
    using month_exact [OF mp d] unfolding doy_def by simp_all
  note est = estimate_exact [OF Y(2,3) doy(1,2) doe_def]
  have n: "year_start Y + month_start mp + d - 1 - 719468 + 719468 = era * 146097 + doe"
    using year_start_era [OF Y(2,3), of era] unfolding Y(1) [symmetric] doe_def doy_def by linarith
  have "(era * 146097 + doe) div 146097 = era" by (rule int_div_pos_eq [of _ _ _ doe]) (use est(2,3) in simp_all)
  then have e: "cdiv (if 0 \<le> era * 146097 + doe then era * 146097 + doe else era * 146097 + doe - 146096) 146097 = era"
    using cdiv_floor [of 146097 146096 "era * 146097 + doe"] by simp
  have dd: "doy - (153 * mp + 2) div 5 + 1 = d" by (simp add: doy_def month_start_def)
  have doe0: "era * 146097 + doe - era * 146097 = doe" and doy0: "doe - (365 * yoe + yoe div 4 - yoe div 100) = doy"
    by (simp_all add: doe_def)
  show ?thesis
    unfolding civilFromDays_def Let_def n e doe0 est(1) doy0 doy(3) dd using Y(1) mp by auto
qed

text \<open>The two conversions are inverse on every date of the calendar.\<close>

lemma civil_roundtrip:
  assumes "real_date (y, m, d)"
  shows "civilFromDays (daysFromCivil y m d) = (y, m, d)"
proof (cases "m \<le> 2")
  case True
  have m: "1 \<le> m" "1 \<le> d" "d \<le> daysInMonth y m" using assms by (simp_all add: real_date_def)
  have "civilFromDays (year_start (y - 1) + month_start (m + 9) + d - 1 - 719468) = (y, m, d)"
    using civilFromDays_shifted [of "m + 9" d "y - 1"] m True by (simp add: shifted_length_def)
  then show ?thesis using True by (simp add: daysFromCivil_alt)
next
  case False
  have m: "m \<le> 12" "1 \<le> d" "d \<le> daysInMonth y m" using assms by (simp_all add: real_date_def)
  have "civilFromDays (year_start y + month_start (m - 3) + d - 1 - 719468) = (y, m, d)"
    using civilFromDays_shifted [of "m - 3" d y] m False by (simp add: shifted_length_def)
  then show ?thesis using False by (simp add: daysFromCivil_alt)
qed

lemma year_start_next: "year_start y = year_start (y - 1) + (if isLeapYear y then 366 else 365)"
proof -
  have step: "y div n = (y - 1) div n + (if y mod n = 0 then 1 else 0)" if "0 < n" for n :: int
  proof (cases "y mod n = 0")
    case True
    have "(y - 1) div n = y div n - 1"
      by (rule int_div_pos_eq [of _ _ _ "n - 1"]) (use True that mult_div_mod_eq [of n y] in \<open>simp_all add: algebra_simps\<close>)
    then show ?thesis using True by simp
  next
    case False
    have "(y - 1) div n = y div n"
      by (rule int_div_pos_eq [of _ _ _ "y mod n - 1"])
        (use False that pos_mod_sign [of n y] pos_mod_bound [of n y] mult_div_mod_eq [of n y] in linarith)+
    then show ?thesis using False by simp
  qed
  have "y mod 400 = 0 \<Longrightarrow> y mod 100 = 0" "y mod 100 = 0 \<Longrightarrow> y mod 4 = 0"
    by (auto simp: mod_eq_0_iff_dvd intro: dvd_trans [of 100 400] dvd_trans [of 4 100])
  then have L: "(if isLeapYear y then 366 else 365) =
      365 + (if y mod 4 = 0 then 1 else 0) - (if y mod 100 = 0 then 1 else 0) + (if y mod 400 = 0 then 1 else (0::int))"
    by (auto simp: isLeapYear_def)
  have sum: "a = a' + p \<Longrightarrow> b = b' + q \<Longrightarrow> c = c' + r \<Longrightarrow> l = 365 + p - q + r \<Longrightarrow>
      365 * y + a - b + c = 365 * (y - 1) + a' - b' + c' + l" for a a' b b' c c' p q r l :: int
    by simp
  show ?thesis unfolding year_start_def by (rule sum [OF step step step L]) simp_all
qed

lemma next_day_counts:
  assumes "real_date (y, m, d)" "next_day (y, m, d) = (y', m', d')"
  shows "real_date (y', m', d')" "daysFromCivil y' m' d' = daysFromCivil y m d + 1"
proof -
  have m: "1 \<le> m" "m \<le> 12" "1 \<le> d" "d \<le> daysInMonth y m" using assms(1) by (simp_all add: real_date_def)
  show "real_date (y', m', d')"
    using assms m month_cases [OF m(1,2)]
    by (auto simp: real_date_def next_day_def daysInMonth_def kDays_def split: if_splits)
  show "daysFromCivil y' m' d' = daysFromCivil y m d + 1"
  proof (cases "d < daysInMonth y m")
    case True
    then show ?thesis using assms(2) by (simp add: next_day_def daysFromCivil_alt)
  next
    case False
    then have d: "d = daysInMonth y m" using m by simp
    have "(y', m', d') = (if m < 12 then (y, m + 1, 1) else (y + 1, 1, 1))" using assms(2) False by (simp add: next_day_def)
    then show ?thesis
      using month_cases [OF m(1,2)] d year_start_next [of y]
      by (elim disjE) (simp_all add: daysFromCivil_alt month_start_def daysInMonth_def kDays_def)
  qed
qed

text \<open>The date after a number of days, reached by the rules of the calendar from the first of January 1970.\<close>

lemma calendar_days:
  "real_date ((next_day ^^ n) (1970, 1, 1)) \<and>
   (case (next_day ^^ n) (1970, 1, 1) of (y, m, d) \<Rightarrow> daysFromCivil y m d = int n)"
proof (induction n)
  case 0
  show ?case by code_simp
next
  case (Suc n)
  obtain y m d where k: "(next_day ^^ n) (1970, 1, 1) = (y, m, d)" by (metis prod_cases3)
  obtain y' m' d' where k': "next_day (y, m, d) = (y', m', d')" by (metis prod_cases3)
  show ?case using Suc.IH next_day_counts [OF _ k'] k k' by simp
qed

lemma civilFromDays_calendar: "civilFromDays (int n) = (next_day ^^ n) (1970, 1, 1)"
proof -
  obtain y m d where k: "(next_day ^^ n) (1970, 1, 1) = (y, m, d)" by (metis prod_cases3)
  then have "real_date (y, m, d)" "daysFromCivil y m d = int n" using calendar_days [of n] by simp_all
  then show ?thesis using civil_roundtrip [of y m d] k by simp
qed

section \<open>Seconds\<close>

definition toUnixSec :: "DateTime \<Rightarrow> u32" where
  "toUnixSec dt =
     (let days = daysFromCivil (year dt) (month dt) (day dt) in
      of_int (days * 86400 + hour dt * 3600 + minute dt * 60 + second dt))"

definition fromUnixSec :: "u32 \<Rightarrow> DateTime" where
  "fromUnixSec unixSec =
     (let secs = uint unixSec; days = secs div 86400; rem = secs mod 86400 in
      case civilFromDays days of
        (y, m, d) \<Rightarrow> \<lparr>year = y, month = m, day = d, hour = rem div 3600, minute = rem mod 3600 div 60, second = rem mod 60\<rparr>)"

definition valid_datetime :: "DateTime \<Rightarrow> bool" where
  "valid_datetime dt \<longleftrightarrow> isValidDate (year dt) (month dt) (day dt) \<and> isValidTime (hour dt) (minute dt) (second dt)"

lemma time_of_day:
  assumes "isValidTime h mi s"
  shows "0 \<le> h * 3600 + mi * 60 + s" "h * 3600 + mi * 60 + s < 86400"
    "(h * 3600 + mi * 60 + s) div 3600 = h" "(h * 3600 + mi * 60 + s) mod 3600 div 60 = mi"
    "(h * 3600 + mi * 60 + s) mod 60 = s"
proof -
  have b: "0 \<le> h" "h \<le> 23" "0 \<le> mi" "mi \<le> 59" "0 \<le> s" "s \<le> 59" using assms by (simp_all add: isValidTime_def)
  show "0 \<le> h * 3600 + mi * 60 + s" "h * 3600 + mi * 60 + s < 86400" using b by linarith+
  show "(h * 3600 + mi * 60 + s) div 3600 = h" by (rule int_div_pos_eq [of _ _ _ "mi * 60 + s"]) (use b in simp_all)
  have "(h * 3600 + mi * 60 + s) mod 3600 = mi * 60 + s" by (rule int_mod_pos_eq [of _ _ h]) (use b in simp_all)
  moreover have "(mi * 60 + s) div 60 = mi" by (rule int_div_pos_eq [of _ _ _ s]) (use b in simp_all)
  ultimately show "(h * 3600 + mi * 60 + s) mod 3600 div 60 = mi" by simp
  show "(h * 3600 + mi * 60 + s) mod 60 = s" by (rule int_mod_pos_eq [of _ _ "h * 60 + mi"]) (use b in simp_all)
qed

lemma real_of_valid: "isValidDate y m d \<Longrightarrow> real_date (y, m, d)"
  by (auto simp: isValidDate_def real_date_def daysInMonth_def split: if_splits)

text \<open>Every date the firmware accepts fits into 32 bits of seconds.\<close>

lemma valid_days_range:
  assumes "isValidDate y m d"
  shows "0 \<le> daysFromCivil y m d" "daysFromCivil y m d \<le> 49709"
proof -
  have r: "real_date (y, m, d)" "1970 \<le> y" "y \<le> 2100"
    using real_of_valid [OF assms] assms by (auto simp: isValidDate_def kMinYear_def kMaxYear_def)
  define Y mp where "Y = (if m \<le> 2 then y - 1 else y)" and "mp = m + (if m > 2 then - 3 else 9)"
  have Y: "Y \<ge> 1969" "Y \<le> 2100" "Y = 1969 \<Longrightarrow> mp \<ge> 10" using r by (auto simp: Y_def mp_def real_date_def)
  have d: "1 \<le> d" "d \<le> 31"
    using r month_cases [of m] by (auto simp: real_date_def daysInMonth_def kDays_def split: if_splits)
  have mp: "0 \<le> mp" "mp \<le> 11" using r by (auto simp: mp_def real_date_def)
  have ms: "0 \<le> month_start mp" "month_start mp \<le> 337" "mp \<ge> 10 \<Longrightarrow> 306 \<le> month_start mp"
    using shifted_cases [OF mp] by (auto simp: month_start_def)
  have days: "daysFromCivil y m d = year_start Y + month_start mp + d - 1 - 719468"
    by (simp add: daysFromCivil_alt Y_def mp_def)
  have q: "492 \<le> Y div 4" "Y div 4 \<le> 525" "19 \<le> Y div 100" "Y div 100 \<le> 21" "4 \<le> Y div 400" "Y div 400 \<le> 5"
    using Y zdiv_mono1 [of 1969 Y 4] zdiv_mono1 [of Y 2100 4] zdiv_mono1 [of 1969 Y 100] zdiv_mono1 [of Y 2100 100]
      zdiv_mono1 [of 1969 Y 400] zdiv_mono1 [of Y 2100 400] by simp_all
  show "daysFromCivil y m d \<le> 49709" using days q Y(2) ms(2) d(2) unfolding year_start_def by linarith
  show "0 \<le> daysFromCivil y m d"
  proof (cases "Y = 1969")
    case True
    then show ?thesis using days ms(3) Y(3) d(1) by (simp add: year_start_def)
  next
    case False
    then have "Y \<ge> 1970" using Y(1) by simp
    then show ?thesis using days q ms(1) d(1) unfolding year_start_def by linarith
  qed
qed

lemma from_unix_calendar:
  assumes "(next_day ^^ (unat t div 86400)) (1970, 1, 1) = (y, m, d)"
  shows "fromUnixSec t = \<lparr>year = y, month = m, day = d, hour = uint t mod 86400 div 3600,
            minute = uint t mod 3600 div 60, second = uint t mod 60\<rparr>"
    and "daysFromCivil y m d = uint t div 86400"
proof -
  have u: "uint t div 86400 = int (unat t div 86400)" by (simp add: zdiv_int)
  have "civilFromDays (uint t div 86400) = (y, m, d)"
    using civilFromDays_calendar [of "unat t div 86400"] assms unfolding u by simp
  moreover have "uint t mod 86400 mod 3600 = uint t mod 3600" "uint t mod 86400 mod 60 = uint t mod 60"
    by (rule mod_mod_cancel; simp)+
  ultimately show "fromUnixSec t = \<lparr>year = y, month = m, day = d, hour = uint t mod 86400 div 3600,
      minute = uint t mod 3600 div 60, second = uint t mod 60\<rparr>"
    by (simp only: fromUnixSec_def Let_def prod.case)
  show "daysFromCivil y m d = uint t div 86400" using calendar_days [of "unat t div 86400"] assms u by simp
qed

lemma split_day: "(s::int) mod 86400 div 3600 * 3600 + s mod 3600 div 60 * 60 + s mod 60 = s mod 86400"
proof -
  have "s mod 86400 mod 3600 = s mod 3600" "s mod 3600 mod 60 = s mod 60" by (simp_all add: mod_mod_cancel)
  then show ?thesis
    using div_mult_mod_eq [of "s mod 86400" 3600] div_mult_mod_eq [of "s mod 3600" 60] by linarith
qed

lemma unix_roundtrip: "toUnixSec (fromUnixSec t) = t"
proof -
  obtain y m d where k: "(next_day ^^ (unat t div 86400)) (1970, 1, 1) = (y, m, d)" by (metis prod_cases3)
  have "uint t div 86400 * 86400 + uint t mod 86400 div 3600 * 3600 + uint t mod 3600 div 60 * 60 + uint t mod 60 = uint t"
    using split_day [of "uint t"] div_mult_mod_eq [of "uint t" 86400] by linarith
  then show ?thesis
    by (simp only: toUnixSec_def Let_def from_unix_calendar [OF k] DateTime.select_convs of_int_uint ucast_id)
qed

lemma date_roundtrip:
  assumes "valid_datetime dt"
  shows "fromUnixSec (toUnixSec dt) = dt"
proof -
  define n t where "n = daysFromCivil (year dt) (month dt) (day dt)" and "t = hour dt * 3600 + minute dt * 60 + second dt"
  have d: "isValidDate (year dt) (month dt) (day dt)" and h: "isValidTime (hour dt) (minute dt) (second dt)"
    using assms by (simp_all add: valid_datetime_def)
  note tod = time_of_day [OF h, folded t_def]
  have n: "0 \<le> n" "n \<le> 49709" using valid_days_range [OF d] unfolding n_def by simp_all
  have u: "uint (toUnixSec dt) = n * 86400 + t"
  proof -
    have "toUnixSec dt = of_int (n * 86400 + t)" by (simp only: toUnixSec_def Let_def n_def t_def add.assoc)
    moreover have "uint (of_int (n * 86400 + t) :: u32) = n * 86400 + t"
      unfolding uint_word_of_int_eq by (rule take_bit_int_eq_self) (use n tod(1,2) in simp_all)
    ultimately show ?thesis by simp
  qed
  have s: "(n * 86400 + t) div 86400 = n" "(n * 86400 + t) mod 86400 = t"
    by (rule int_div_pos_eq [of _ _ _ t] int_mod_pos_eq [of _ _ n], use tod in simp_all)+
  have "civilFromDays n = (year dt, month dt, day dt)" unfolding n_def by (rule civil_roundtrip [OF real_of_valid [OF d]])
  then show ?thesis using tod(3-5) unfolding fromUnixSec_def Let_def u s by simp
qed

section \<open>Text\<close>

text \<open>\<open>%0kd\<close> of \<open>snprintf\<close>.\<close>

definition pad :: "nat \<Rightarrow> int \<Rightarrow> string" where
  "pad k n =
     (let ds = dec_str (nat \<bar>n\<bar>) in
      if n < 0 then CHR ''-'' # replicate (k - 1 - length ds) (CHR ''0'') @ ds
      else replicate (k - length ds) (CHR ''0'') @ ds)"

definition format_datetime :: "DateTime \<Rightarrow> string" where
  "format_datetime dt =
     take 31 (pad 4 (year dt) @ ''-'' @ pad 2 (month dt) @ ''-'' @ pad 2 (day dt) @ '' '' @
              pad 2 (hour dt) @ '':'' @ pad 2 (minute dt) @ '':'' @ pad 2 (second dt))"

fun parseDigits :: "string \<Rightarrow> nat \<Rightarrow> int \<Rightarrow> int option" where
  "parseDigits cs 0 value = Some value"
| "parseDigits [] (Suc n) value = None"
| "parseDigits (c # cs) (Suc n) value =
     (if char_code c < 48 \<or> char_code c > 57 then None
      else parseDigits cs n (value * 10 + (int (char_code c) - 48)))"

definition parseDateTime :: "string \<Rightarrow> DateTime option" where
  "parseDateTime text =
     (let len = length text in
      if len \<noteq> 16 \<and> len \<noteq> 19 then None
      else if text ! 4 \<noteq> CHR ''-'' \<or> text ! 7 \<noteq> CHR ''-'' then None
      else if text ! 10 \<noteq> CHR '' '' \<and> text ! 10 \<noteq> CHR ''T'' then None
      else if text ! 13 \<noteq> CHR '':'' then None
      else if len = 19 \<and> text ! 16 \<noteq> CHR '':'' then None
      else case (parseDigits (drop 0 text) 4 0, parseDigits (drop 5 text) 2 0, parseDigits (drop 8 text) 2 0,
                 parseDigits (drop 11 text) 2 0, parseDigits (drop 14 text) 2 0,
                 if len = 19 then parseDigits (drop 17 text) 2 0 else Some 0) of
        (Some y, Some m, Some d, Some h, Some mi, Some s) \<Rightarrow>
          if \<not> isValidDate y m d then None
          else if \<not> isValidTime h mi s then None
          else Some \<lparr>year = y, month = m, day = d, hour = h, minute = mi, second = s\<rparr>
      | _ \<Rightarrow> None)"

lemma pad_two:
  assumes "0 \<le> n" "n < 100"
  shows "pad 2 n = [digit_char (nat n div 10), digit_char (nat n mod 10)]"
proof -
  have zero: "digit_char 0 = CHR ''0''" by code_simp
  have "nat n < 100" using assms by simp
  then show ?thesis using assms by (auto simp: pad_def Let_def dec_str.simps [of "nat n"] dec_str.simps [of "nat n div 10"] zero)
qed

lemma pad_four:
  assumes "1000 \<le> n" "n < 10000"
  shows "pad 4 n = [digit_char (nat n div 1000), digit_char (nat n div 100 mod 10), digit_char (nat n div 10 mod 10),
    digit_char (nat n mod 10)]"
proof -
  have "1000 \<le> nat n" "nat n < 10000" using assms by auto
  moreover from this have "\<not> nat n div 10 < 10" "\<not> nat n div 100 < 10" "nat n div 1000 < 10" by linarith+
  ultimately have "dec_str (nat n) = [digit_char (nat n div 1000), digit_char (nat n div 100 mod 10), digit_char (nat n div 10 mod 10),
      digit_char (nat n mod 10)]"
    by (simp add: dec_str.simps [of "nat n"] dec_str.simps [of "nat n div 10"] dec_str.simps [of "nat n div 100"]
        dec_str.simps [of "nat n div 1000"] div_mult2_eq [symmetric])
  then show ?thesis using assms by (simp add: pad_def Let_def)
qed

lemma digit_code: "d < 10 \<Longrightarrow> char_code (digit_char d) = 48 + d"
  by (simp add: char_code_digit_char)

lemma parse_two: "0 \<le> n \<Longrightarrow> n < 100 \<Longrightarrow> parseDigits (digit_char (nat n div 10) # digit_char (nat n mod 10) # cs) 2 0 = Some n"
proof -
  assume n: "0 \<le> n" "n < 100"
  then have "nat n div 10 < 10" by linarith
  moreover have "int (nat n div 10) * 10 + int (nat n mod 10) = n"
    using n(1) div_mult_mod_eq [of "nat n" 10] by linarith
  ultimately show ?thesis by (simp add: numeral_2_eq_2 digit_code)
qed

lemma parse_four:
  assumes "1000 \<le> n" "n < 10000"
  shows "parseDigits (digit_char (nat n div 1000) # digit_char (nat n div 100 mod 10) # digit_char (nat n div 10 mod 10)
    # digit_char (nat n mod 10) # cs) 4 0 = Some n"
proof -
  define a b c e where "a = nat n div 1000" and "b = nat n div 100 mod 10" and "c = nat n div 10 mod 10" and "e = nat n mod 10"
  have "nat n < 10000" using assms by simp
  then have d: "a < 10" "b < 10" "c < 10" "e < 10" unfolding a_def b_def c_def e_def by simp_all
  have "nat n = ((a * 10 + b) * 10 + c) * 10 + e" 
    using div_mult_mod_eq [of "nat n" 10] div_mult_mod_eq [of "nat n div 10" 10] div_mult_mod_eq [of "nat n div 100" 10]
    unfolding a_def b_def c_def e_def by (simp add: div_mult2_eq [symmetric])
  then have "int (nat n) = ((int a * 10 + int b) * 10 + int c) * 10 + int e" by simp
  then have "((int a * 10 + int b) * 10 + int c) * 10 + int e = n" using assms(1) by linarith
  then show ?thesis using d unfolding a_def [symmetric] b_def [symmetric] c_def [symmetric] e_def [symmetric]
    by (simp add: eval_nat_numeral digit_code)
qed

text \<open>What the page shows is read back: the text of an accepted date and time is parsed to it.\<close>

lemma text_roundtrip:
  assumes "valid_datetime dt"
  shows "parseDateTime (format_datetime dt) = Some dt"
proof -
  have v: "isValidDate (year dt) (month dt) (day dt)" "isValidTime (hour dt) (minute dt) (second dt)"
    using assms by (simp_all add: valid_datetime_def)
  have r: "1970 \<le> year dt" "year dt \<le> 2100" "real_date (year dt, month dt, day dt)"
    using v(1) real_of_valid by (auto simp: isValidDate_def kMinYear_def kMaxYear_def)
  have m: "0 \<le> month dt" "month dt < 100" "0 \<le> day dt" "day dt < 100"
    using r(3) month_cases [of "month dt"] by (auto simp: real_date_def daysInMonth_def kDays_def split: if_splits)
  have h: "0 \<le> hour dt" "hour dt < 100" "0 \<le> minute dt" "minute dt < 100" "0 \<le> second dt" "second dt < 100"
    using v(2) by (simp_all add: isValidTime_def)
  have y: "1000 \<le> year dt" "year dt < 10000" using r by simp_all
  show ?thesis
    unfolding format_datetime_def pad_four [OF y] pad_two [OF m(1,2)] pad_two [OF m(3,4)] pad_two [OF h(1,2)]
      pad_two [OF h(3,4)] pad_two [OF h(5,6)] parseDateTime_def Let_def
    by (simp add: parse_four [OF y] parse_two m h v)
qed

text \<open>
  C30. The calendar of the firmware is the calendar: for every 32-bit number of seconds the date is the one reached from
  1 January 1970 by that many whole days of the Gregorian rules, with the time of day; turning it back gives
  the same number. Every date and time the firmware accepts (years 1970 to 2100) survives the way to
  seconds and back, and the text the page shows for it is read back unchanged.
\<close>

theorem calendar_exact:
  "(case (next_day ^^ (unat t div 86400)) (1970, 1, 1) of
      (y, m, d) \<Rightarrow> fromUnixSec t = \<lparr>year = y, month = m, day = d, hour = uint t mod 86400 div 3600,
                       minute = uint t mod 3600 div 60, second = uint t mod 60\<rparr>)
   \<and> toUnixSec (fromUnixSec t) = t
   \<and> (valid_datetime dt \<longrightarrow> fromUnixSec (toUnixSec dt) = dt \<and> parseDateTime (format_datetime dt) = Some dt)"
  using unix_roundtrip date_roundtrip text_roundtrip from_unix_calendar(1) by (auto split: prod.split)

theorem calendar_exact_witness:
  "valid_datetime \<lparr>year = 2024, month = 2, day = 29, hour = 23, minute = 59, second = 58\<rparr> \<and>
   fromUnixSec (toUnixSec \<lparr>year = 2024, month = 2, day = 29, hour = 23, minute = 59, second = 58\<rparr>) =
     \<lparr>year = 2024, month = 2, day = 29, hour = 23, minute = 59, second = 58\<rparr> \<and>
   parseDateTime (format_datetime \<lparr>year = 2024, month = 2, day = 29, hour = 23, minute = 59, second = 58\<rparr>) =
     Some \<lparr>year = 2024, month = 2, day = 29, hour = 23, minute = 59, second = 58\<rparr>"
proof -
  have "valid_datetime \<lparr>year = 2024, month = 2, day = 29, hour = 23, minute = 59, second = 58\<rparr>"
    by (simp add: valid_datetime_def isValidDate_def isValidTime_def daysInMonth_def isLeapYear_def kDays_def
        kMinYear_def kMaxYear_def)
  then show ?thesis
    using calendar_exact [of 0 "\<lparr>year = 2024, month = 2, day = 29, hour = 23, minute = 59, second = 58\<rparr>"] by simp
qed

end
