(* ===== verification/Auth.thy ===== *)
theory Auth
  imports Prelude "HOL-Library.Sublist"
begin

text \<open>
  \<open>src/src/web/AuthManager.cpp\<close>: HTTP Basic authentication with a budget of failed attempts per client address.
  The Base64 decoder of mbedTLS is a parameter: from the text it gives the reported length and the buffer of
  256 bytes it was given. The code reads as many bytes as were reported; a report beyond the buffer is
  \<open>None\<close>, a read outside of it. The log lines of a verification are a list of events.
\<close>

record FailedEntry =
  fe_count :: u32
  fe_first :: u32

record auth =
  au_username :: string
  au_password :: string
  au_maxAttempts :: u32
  au_lockoutSec :: u32
  au_failed :: "string \<Rightarrow> FailedEntry option"

datatype auth_event = NoteFailed string u32 | NoteLockout string u32 | NoteLogin string u32

text \<open>How a request was answered; the code returns whether it is \<open>Accepted\<close>.\<close>

datatype verdict = Locked | NoCredentials | Refused | Accepted

definition auth_new :: auth where
  "auth_new = \<lparr>au_username = ''admin'', au_password = ''admin'', au_maxAttempts = 5, au_lockoutSec = 300, au_failed = Map.empty\<rparr>"

definition reloadConfig :: "string \<Rightarrow> string \<Rightarrow> u32 \<Rightarrow> u32 \<Rightarrow> auth \<Rightarrow> auth" where
  "reloadConfig user pass maxAttempts lockoutSec a =
     a\<lparr>au_username := user, au_password := pass, au_maxAttempts := maxAttempts, au_lockoutSec := lockoutSec\<rparr>"

definition stale :: "u32 \<Rightarrow> auth \<Rightarrow> FailedEntry \<Rightarrow> bool" where
  "stale now a e \<longleftrightarrow> now - fe_first e > au_lockoutSec a"

definition cleanupExpired :: "u32 \<Rightarrow> auth \<Rightarrow> auth" where
  "cleanupExpired now a =
     a\<lparr>au_failed := (\<lambda>ip. case au_failed a ip of None \<Rightarrow> None | Some e \<Rightarrow> if stale now a e then None else Some e)\<rparr>"

definition isLockedOut :: "u32 \<Rightarrow> string \<Rightarrow> auth \<Rightarrow> bool \<times> auth" where
  "isLockedOut now ip a =
     (case au_failed a ip of
        None \<Rightarrow> (False, a)
      | Some e \<Rightarrow>
          if stale now a e then (False, a\<lparr>au_failed := (au_failed a)(ip := None)\<rparr>)
          else (fe_count e \<ge> au_maxAttempts a, a))"

definition recordFailure :: "u32 \<Rightarrow> string \<Rightarrow> auth \<Rightarrow> auth \<times> auth_event list" where
  "recordFailure now ip a =
     (let e = (case au_failed a ip of None \<Rightarrow> \<lparr>fe_count = 0, fe_first = 0\<rparr> | Some e \<Rightarrow> e);
          e1 = (if fe_count e = 0 then e\<lparr>fe_first := now\<rparr> else e);
          e2 = e1\<lparr>fe_count := fe_count e1 + 1\<rparr> in
      (a\<lparr>au_failed := (au_failed a)(ip \<mapsto> e2)\<rparr>,
       NoteFailed ip (fe_count e2) # (if fe_count e2 \<ge> au_maxAttempts a then [NoteLockout ip (au_lockoutSec a)] else [])))"

definition basicPrefix :: string where "basicPrefix = ''Basic ''"

definition countsAsFailedAttempt :: "string \<Rightarrow> bool" where
  "countsAsFailedAttempt header \<longleftrightarrow> \<not> length header \<le> length basicPrefix \<and> prefix basicPrefix header"

definition authLogWritesSuccess :: "bool \<Rightarrow> u32 \<Rightarrow> bool" where
  "authLogWritesSuccess fromLoginForm failedBefore \<longleftrightarrow> fromLoginForm \<or> failedBefore > 0"

definition bufBytes :: nat where "bufBytes = 256"

text \<open>\<open>string credentials(decoded, decodedLen)\<close>, then the two halves around the first colon.\<close>

definition credentials_of :: "nat \<times> byte list \<Rightarrow> string option" where
  "credentials_of r = (case r of (n, buf) \<Rightarrow> if n > bufBytes then None else Some (map byte_char (take n buf)))"

definition verify :: "(string \<Rightarrow> nat \<times> byte list) \<Rightarrow> u32 \<Rightarrow> string \<Rightarrow> string \<Rightarrow> bool \<Rightarrow> auth
    \<Rightarrow> (verdict \<times> auth \<times> auth_event list) option" where
  "verify decode now header ip fromLoginForm a =
     (let a1 = cleanupExpired now a in
      case isLockedOut now ip a1 of
        (True, a2) \<Rightarrow> Some (Locked, a2, [])
      | (False, a2) \<Rightarrow>
          if \<not> countsAsFailedAttempt header then Some (NoCredentials, a2, [])
          else let r = decode (drop (length basicPrefix) header);
                   refuse = (case recordFailure now ip a2 of (a3, ev) \<Rightarrow> Some (Refused, a3, ev)) in
            if fst r = 0 then refuse
            else (case credentials_of r of
                    None \<Rightarrow> None
                  | Some cred \<Rightarrow>
                      (case split_at (CHR '':'') cred of
                         None \<Rightarrow> refuse
                       | Some (user, pass) \<Rightarrow>
                           if user = au_username a2 \<and> pass = au_password a2 then
                             (let failedBefore = (case au_failed a2 ip of None \<Rightarrow> 0 | Some e \<Rightarrow> fe_count e);
                                  a3 = a2\<lparr>au_failed := (au_failed a2)(ip := None)\<rparr> in
                              Some (Accepted, a3,
                                    if authLogWritesSuccess fromLoginForm failedBefore then [NoteLogin ip failedBefore] else []))
                           else refuse)))"

definition authenticate :: "(string \<Rightarrow> nat \<times> byte list) \<Rightarrow> u32 \<Rightarrow> string \<Rightarrow> string \<Rightarrow> auth \<Rightarrow> (verdict \<times> auth \<times> auth_event list) option" where
  "authenticate decode now header ip a = verify decode now header ip False a"

definition authenticateLogin :: "(string \<Rightarrow> nat \<times> byte list) \<Rightarrow> u32 \<Rightarrow> string \<Rightarrow> string \<Rightarrow> auth \<Rightarrow> (verdict \<times> auth \<times> auth_event list) option" where
  "authenticateLogin decode now header ip a = verify decode now header ip True a"

section \<open>One request\<close>

abbreviation live :: "u32 \<Rightarrow> auth \<Rightarrow> string \<Rightarrow> FailedEntry option" where
  "live now a ip \<equiv> au_failed (cleanupExpired now a) ip"

definition locked :: "u32 \<Rightarrow> auth \<Rightarrow> string \<Rightarrow> bool" where
  "locked now a ip \<longleftrightarrow> (\<exists>e. live now a ip = Some e \<and> fe_count e \<ge> au_maxAttempts a)"

lemma live_fresh: "live now a ip = Some e \<Longrightarrow> \<not> stale now a e"
  by (auto simp: cleanupExpired_def split: option.splits if_splits)

lemma cleanup_fields [simp]:
  "au_username (cleanupExpired now a) = au_username a" "au_password (cleanupExpired now a) = au_password a"
  "au_maxAttempts (cleanupExpired now a) = au_maxAttempts a" "au_lockoutSec (cleanupExpired now a) = au_lockoutSec a"
  "stale now (cleanupExpired now a) e = stale now a e"
  by (simp_all add: cleanupExpired_def stale_def)

lemma isLockedOut_live: "isLockedOut now ip (cleanupExpired now a) = (locked now a ip, cleanupExpired now a)"
  using live_fresh by (auto simp: isLockedOut_def locked_def split: option.splits)

lemma verify_cases:
  assumes "verify decode now header ip login a = Some (v, a', ev)"
  obtains "v = Locked" "locked now a ip" "a' = cleanupExpired now a"
  | "v = NoCredentials" "\<not> locked now a ip" "a' = cleanupExpired now a"
  | "v = Refused" "\<not> locked now a ip" "a' = fst (recordFailure now ip (cleanupExpired now a))"
  | cred where "v = Accepted" "\<not> locked now a ip"
      "a' = (cleanupExpired now a)\<lparr>au_failed := (au_failed (cleanupExpired now a))(ip := None)\<rparr>"
      "prefix basicPrefix header" "credentials_of (decode (drop (length basicPrefix) header)) = Some cred"
      "split_at (CHR '':'') cred = Some (au_username a, au_password a)"
  using assms that unfolding verify_def isLockedOut_live Let_def prod.case countsAsFailedAttempt_def
  by (cases "locked now a ip") (auto split: if_splits option.splits prod.splits)

text \<open>What a verification does to the entry of one address.\<close>

definition same_config :: "auth \<Rightarrow> auth \<Rightarrow> bool" where
  "same_config a b \<longleftrightarrow> au_username b = au_username a \<and> au_password b = au_password a
     \<and> au_maxAttempts b = au_maxAttempts a \<and> au_lockoutSec b = au_lockoutSec a"

definition bump :: "u32 \<Rightarrow> FailedEntry option \<Rightarrow> FailedEntry" where
  "bump now r =
     (case r of
        None \<Rightarrow> \<lparr>fe_count = 1, fe_first = now\<rparr>
      | Some e \<Rightarrow> (if fe_count e = 0 then e\<lparr>fe_first := now\<rparr> else e)\<lparr>fe_count := fe_count e + 1\<rparr>)"

lemma recordFailure_bump: "fst (recordFailure now ip a) = a\<lparr>au_failed := (au_failed a)(ip \<mapsto> bump now (au_failed a ip))\<rparr>"
  by (auto simp: recordFailure_def bump_def Let_def split: option.splits)

lemma verify_entry:
  assumes "verify decode now header ip login a = Some (v, a', ev)"
  shows "same_config a a'" and "ip' \<noteq> ip \<Longrightarrow> au_failed a' ip' = live now a ip'"
    and "v = Locked \<longleftrightarrow> locked now a ip"
    and "au_failed a' ip =
      (case v of Accepted \<Rightarrow> None | Refused \<Rightarrow> Some (bump now (live now a ip)) | _ \<Rightarrow> live now a ip)"
  using assms by (auto elim!: verify_cases simp: same_config_def recordFailure_bump)

section \<open>Many requests\<close>

record request =
  rq_now :: u32
  rq_header :: string
  rq_ip :: string
  rq_login :: bool

fun serve :: "(string \<Rightarrow> nat \<times> byte list) \<Rightarrow> request list \<Rightarrow> auth \<Rightarrow> (verdict list \<times> auth) option" where
  "serve decode [] a = Some ([], a)"
| "serve decode (q # qs) a =
     (case verify decode (rq_now q) (rq_header q) (rq_ip q) (rq_login q) a of
        None \<Rightarrow> None
      | Some (v, a1, _) \<Rightarrow> map_option (\<lambda>(vs, a2). (v # vs, a2)) (serve decode qs a1))"

text \<open>The guesses of one address that were compared with the password and refused.\<close>

definition guesses :: "string \<Rightarrow> request list \<Rightarrow> verdict list \<Rightarrow> nat" where
  "guesses ip qs vs = length (filter (\<lambda>(q, v). rq_ip q = ip \<and> v = Refused) (zip qs vs))"

text \<open>
  After \<open>g\<close> guesses since \<open>t0\<close>, with \<open>k\<close> periods of \<open>l + 1\<close> seconds behind: at most \<open>m\<close> guesses for each of them and those
  the present entry counts.
\<close>

definition within_budget :: "nat \<Rightarrow> nat \<Rightarrow> nat \<Rightarrow> nat \<Rightarrow> FailedEntry option \<Rightarrow> nat \<Rightarrow> bool" where
  "within_budget t0 m l t1 r g \<longleftrightarrow>
     (case r of
        None \<Rightarrow> \<exists>k. g \<le> m * k \<and> t0 + k * (l + 1) \<le> t1
      | Some e \<Rightarrow> \<exists>k. g \<le> m * k + unat (fe_count e) \<and> 1 \<le> unat (fe_count e) \<and> unat (fe_count e) \<le> m
          \<and> t0 + k * (l + 1) \<le> unat (fe_first e) \<and> unat (fe_first e) \<le> t1)"

lemma budget_live:
  assumes "within_budget t0 m (unat (au_lockoutSec a)) t1 (au_failed a ip) g" "t1 \<le> unat now"
  shows "within_budget t0 m (unat (au_lockoutSec a)) (unat now) (live now a ip) g"
proof (cases "au_failed a ip")
  case None
  then show ?thesis using assms by (auto simp: within_budget_def cleanupExpired_def intro: le_trans)
next
  case (Some e)
  let ?l = "unat (au_lockoutSec a)"
  obtain k where k: "g \<le> m * k + unat (fe_count e)" "1 \<le> unat (fe_count e)" "unat (fe_count e) \<le> m"
    "t0 + k * (?l + 1) \<le> unat (fe_first e)" "unat (fe_first e) \<le> unat now"
    using assms Some by (auto simp: within_budget_def intro: le_trans)
  show ?thesis
  proof (cases "stale now a e")
    case True
    have "unat (now - fe_first e) = unat now - unat (fe_first e)" using k(5) by (simp add: unat_sub word_le_nat_alt)
    then have "?l < unat now - unat (fe_first e)" using True by (simp add: stale_def word_less_nat_alt)
    then have "t0 + Suc k * (?l + 1) \<le> unat now" using k(4,5) by simp
    moreover have "g \<le> m * Suc k" using k(1,3) by simp
    moreover have "live now a ip = None" using Some True by (simp add: cleanupExpired_def)
    ultimately show ?thesis unfolding within_budget_def by (simp only: option.case) blast
  next
    case False
    then show ?thesis using Some k by (auto simp: within_budget_def cleanupExpired_def)
  qed
qed

lemma budget_bump:
  assumes "within_budget t0 m l (unat now) r g" "m = max 1 (unat maxAttempts)" "t0 \<le> unat now"
    and "\<And>e. r = Some e \<Longrightarrow> \<not> fe_count e \<ge> maxAttempts"
  shows "within_budget t0 m l (unat now) (Some (bump now r)) (Suc g)"
proof (cases r)
  case None
  then obtain k where k: "g \<le> m * k" "t0 + k * (l + 1) \<le> unat now" using assms(1) by (auto simp: within_budget_def)
  then show ?thesis using None assms(2) by (auto simp: within_budget_def bump_def intro!: exI [of _ k])
next
  case (Some e)
  then obtain k where k: "g \<le> m * k + unat (fe_count e)" "1 \<le> unat (fe_count e)" "unat (fe_count e) \<le> m"
    "t0 + k * (l + 1) \<le> unat (fe_first e)" "unat (fe_first e) \<le> unat now"
    using assms(1) by (auto simp: within_budget_def)
  have less: "unat (fe_count e) < unat maxAttempts" using assms(4) [OF Some] by (simp add: not_le word_less_nat_alt)
  moreover have "unat maxAttempts < 4294967296" "unat (- 1 :: u32) = 4294967295"
    using unsigned_less [of maxAttempts, where 'a = nat] by (simp_all add: unat_minus_1)
  ultimately have "fe_count e \<noteq> - 1" by (cases "fe_count e = - 1") simp_all
  then have "unat (fe_count e + 1) = Suc (unat (fe_count e))" by (rule unat_word_add1)
  moreover have "fe_count e \<noteq> 0" using k(2) by auto
  ultimately show ?thesis using Some k less assms(2) by (auto simp: within_budget_def bump_def intro!: exI [of _ k])
qed

lemma serve_budget:
  assumes "serve decode qs a = Some (vs, a')"
    and "sorted (map (unat \<circ> rq_now) qs)" "\<forall>q \<in> set qs. t1 \<le> unat (rq_now q) \<and> unat (rq_now q) \<le> t2"
    and "\<forall>(q, v) \<in> set (zip qs vs). rq_ip q = ip \<longrightarrow> v \<noteq> Accepted" "t0 \<le> t1" "t1 \<le> t2"
    and "within_budget t0 m l t1 (au_failed a ip) g" "m = max 1 (unat (au_maxAttempts a))" "l = unat (au_lockoutSec a)"
  shows "\<exists>t r. within_budget t0 m l t r (g + guesses ip qs vs) \<and> t \<le> t2"
  using assms
proof (induction qs arbitrary: a vs t1 g)
  case Nil
  then show ?case by (auto simp: guesses_def)
next
  case (Cons q qs)
  obtain v a1 ev vs1 where v: "verify decode (rq_now q) (rq_header q) (rq_ip q) (rq_login q) a = Some (v, a1, ev)"
    and rest: "serve decode qs a1 = Some (vs1, a')" and vs: "vs = v # vs1"
    using Cons.prems(1) by (auto split: option.splits)
  note entry = verify_entry [OF v]
  let ?now = "rq_now q" and ?hit = "rq_ip q = ip \<and> v = Refused"
  have now: "t1 \<le> unat ?now" "unat ?now \<le> t2" using Cons.prems(3) by auto
  have live: "within_budget t0 m l (unat ?now) (live ?now a ip) g"
    using budget_live [OF _ now(1)] Cons.prems(7,9) by simp
  have next': "within_budget t0 m l (unat ?now) (au_failed a1 ip) (if ?hit then Suc g else g)"
  proof (cases "rq_ip q = ip")
    case False
    then show ?thesis using live entry(2) [of ip] by simp
  next
    case True
    have "v \<noteq> Accepted" using Cons.prems(4) True vs by auto
    moreover have "within_budget t0 m l (unat ?now) (Some (bump ?now (live ?now a ip))) (Suc g)" if "v = Refused"
      using budget_bump [OF live Cons.prems(8)] Cons.prems(5) now(1) entry(3) that True by (auto simp: locked_def)
    ultimately show ?thesis using live entry(4) True by (cases v) auto
  qed
  have "guesses ip (q # qs) vs = (if ?hit then 1 else 0) + guesses ip qs vs1" by (simp add: guesses_def vs)
  moreover have "\<exists>t r. within_budget t0 m l t r ((if ?hit then Suc g else g) + guesses ip qs vs1) \<and> t \<le> t2"
  proof (rule Cons.IH [OF rest _ _ _ _ now(2) next'])
    show "sorted (map (unat \<circ> rq_now) qs)" "\<forall>q' \<in> set qs. unat ?now \<le> unat (rq_now q') \<and> unat (rq_now q') \<le> t2"
      using Cons.prems(2,3) by (auto simp: comp_def)
    show "\<forall>(q, v) \<in> set (zip qs vs1). rq_ip q = ip \<longrightarrow> v \<noteq> Accepted" using Cons.prems(4) vs by auto
    show "t0 \<le> unat ?now" using Cons.prems(5) now(1) by simp
    show "m = max 1 (unat (au_maxAttempts a1))" "l = unat (au_lockoutSec a1)"
      using Cons.prems(8,9) entry(1) by (simp_all add: same_config_def)
  qed
  ultimately show ?case by (cases ?hit) simp_all
qed

lemma budget_bound: "within_budget t0 m l t r g \<Longrightarrow> t \<le> t2 \<Longrightarrow> g \<le> m * ((t2 - t0) div (l + 1) + 1)"
proof -
  assume w: "within_budget t0 m l t r g" and t: "t \<le> t2"
  obtain k where k: "g \<le> m * (k + 1)" "t0 + k * (l + 1) \<le> t"
  proof (cases r)
    case None
    then obtain k where "g \<le> m * k" "t0 + k * (l + 1) \<le> t" using w by (auto simp: within_budget_def)
    then show ?thesis using that [of k] by simp
  next
    case (Some e)
    then obtain k where "g \<le> m * k + unat (fe_count e)" "unat (fe_count e) \<le> m" "t0 + k * (l + 1) \<le> t"
      using w by (auto simp: within_budget_def)
    then show ?thesis using that [of k] by simp
  qed
  then have "k \<le> (t2 - t0) div (l + 1)" using t by (simp add: less_eq_div_iff_mult_less_eq)
  then show ?thesis using k(1) by (meson add_le_mono1 le_trans mult_le_mono2)
qed

text \<open>
  C29. Guessing is limited: whatever requests other clients send in between, an address without a login gets at most as many
  guesses at the password as the configured maximum (at least one) for each period of one second
  more than the lockout that has begun since its first one.
\<close>

theorem guessing_is_limited:
  assumes "serve decode qs a = Some (vs, a')" "au_failed a ip = None"
    and "sorted (map (unat \<circ> rq_now) qs)" "\<forall>q \<in> set qs. t1 \<le> unat (rq_now q) \<and> unat (rq_now q) \<le> t2" "t1 \<le> t2"
    and "\<forall>(q, v) \<in> set (zip qs vs). rq_ip q = ip \<longrightarrow> v \<noteq> Accepted"
  shows "guesses ip qs vs \<le> max 1 (unat (au_maxAttempts a)) * ((t2 - t1) div (unat (au_lockoutSec a) + 1) + 1)"
proof -
  have "within_budget t1 (max 1 (unat (au_maxAttempts a))) (unat (au_lockoutSec a)) t1 (au_failed a ip) 0"
    using assms(2) by (auto simp: within_budget_def)
  from serve_budget [OF assms(1,3,4,6) _ assms(5) this] show ?thesis using budget_bound by fastforce
qed

text \<open>
  C28. A request is accepted only with the right name and password: the header is a \<open>Basic\<close> credential whose decoded text
  is the configured name, a colon and the configured password, and the address was not locked out.
  An address that is locked out is refused whatever it sends, and its entry stays.
\<close>

theorem accepted_only_with_password:
  assumes "verify decode now header ip login a = Some (v, a', ev)"
  shows "(v = Accepted \<longrightarrow> \<not> locked now a ip \<and> prefix basicPrefix header \<and>
      (case decode (drop (length basicPrefix) header) of (n, buf) \<Rightarrow>
         map byte_char (take n buf) = au_username a @ CHR '':'' # au_password a \<and> n \<le> bufBytes)) \<and>
    (locked now a ip \<longrightarrow> v = Locked \<and> au_failed a' ip = live now a ip)"
  using assms verify_entry [OF assms]
  by (auto elim!: verify_cases simp: credentials_of_def split: prod.splits if_splits dest!: split_at_SomeD)

section \<open>Runs\<close>

text \<open>A decoder for the examples: it hands its text through and reports its length, like the library does.\<close>

definition plain_decoder :: "string \<Rightarrow> nat \<times> byte list" where
  "plain_decoder t = (length t, if length t > bufBytes then replicate bufBytes 0 else map char_byte t)"

definition guess_at :: "u32 \<Rightarrow> string \<Rightarrow> request" where
  "guess_at t ip = \<lparr>rq_now = t, rq_header = ''Basic admin:x'', rq_ip = ip, rq_login = False\<rparr>"

text \<open>A run of such guesses only looks at the entry of its address.\<close>

fun guess_verdicts :: "u32 \<Rightarrow> u32 \<Rightarrow> FailedEntry option \<Rightarrow> u32 list \<Rightarrow> verdict list" where
  "guess_verdicts m l r [] = []"
| "guess_verdicts m l r (t # ts) =
     (let r1 = (case r of None \<Rightarrow> None | Some e \<Rightarrow> if t - fe_first e > l then None else Some e) in
      if (case r1 of None \<Rightarrow> False | Some e \<Rightarrow> fe_count e \<ge> m) then Locked # guess_verdicts m l r1 ts
      else Refused # guess_verdicts m l (Some (bump t r1)) ts)"

lemma verify_guess:
  assumes "au_password a \<noteq> ''x''"
  shows "\<exists>ev. verify plain_decoder t ''Basic admin:x'' ip False a =
    Some (if locked t a ip then (Locked, cleanupExpired t a, ev)
          else (Refused, fst (recordFailure t ip (cleanupExpired t a)), ev))"
proof -
  have "countsAsFailedAttempt ''Basic admin:x''" "drop (length basicPrefix) ''Basic admin:x'' = ''admin:x''"
    "credentials_of (plain_decoder ''admin:x'') = Some ''admin:x''" "fst (plain_decoder ''admin:x'') \<noteq> 0"
    "split_at (CHR '':'') ''admin:x'' = Some (''admin'', ''x'')"
    by (simp_all add: countsAsFailedAttempt_def basicPrefix_def credentials_of_def plain_decoder_def bufBytes_def)
  then show ?thesis using assms
    by (cases "locked t a ip"; cases "recordFailure t ip (cleanupExpired t a)")
      (auto simp: verify_def isLockedOut_live Let_def)
qed

lemma serve_guesses:
  "au_password a \<noteq> ''x'' \<Longrightarrow> map_option fst (serve plain_decoder (map (\<lambda>t. guess_at t ip) ts) a)
     = Some (guess_verdicts (au_maxAttempts a) (au_lockoutSec a) (au_failed a ip) ts)"
proof (induction ts arbitrary: a)
  case (Cons t ts)
  let ?c = "cleanupExpired t a"
  have live: "live t a ip = (case au_failed a ip of None \<Rightarrow> None | Some e \<Rightarrow> if t - fe_first e > au_lockoutSec a then None else Some e)"
    by (auto simp: cleanupExpired_def stale_def split: option.splits)
  have lock: "locked t a ip \<longleftrightarrow> (case live t a ip of None \<Rightarrow> False | Some e \<Rightarrow> fe_count e \<ge> au_maxAttempts a)"
    by (auto simp: locked_def split: option.splits)
  obtain ev where v: "verify plain_decoder t ''Basic admin:x'' ip False a =
      Some (if locked t a ip then (Locked, ?c, ev) else (Refused, fst (recordFailure t ip ?c), ev))"
    using verify_guess [OF Cons.prems] by blast
  show ?case
    using Cons.IH [of ?c] Cons.IH [of "fst (recordFailure t ip ?c)"] Cons.prems v lock
    by (cases "locked t a ip") (auto simp: guess_at_def recordFailure_bump live [symmetric] Let_def option.map_comp comp_def split_def)
qed simp

definition guess_run :: "request list" where
  "guess_run = map (\<lambda>t. guess_at t ''c'') [0, 0, 1, 299, 299, 300, 301, 302]"

text \<open>Five guesses, a locked-out one, and two more as soon as the period since the first one is over.\<close>

lemma guess_run_result:
  "map_option fst (serve plain_decoder guess_run auth_new)
     = Some [Refused, Refused, Refused, Refused, Refused, Locked, Refused, Refused]"
proof -
  have "guess_verdicts 5 300 None [0, 0, 1, 299, 299, 300, 301, 302]
      = [Refused, Refused, Refused, Refused, Refused, Locked, Refused, Refused]" by code_simp
  then show ?thesis unfolding guess_run_def by (subst serve_guesses) (simp_all add: auth_new_def)
qed

theorem guessing_is_limited_witness:
  "\<exists>vs a'. serve plain_decoder guess_run auth_new = Some (vs, a') \<and>
     guesses ''c'' guess_run vs \<le> 5 * ((302 - 0) div (300 + 1) + 1)"
proof -
  obtain vs a' where s: "serve plain_decoder guess_run auth_new = Some (vs, a')"
    "vs = [Refused, Refused, Refused, Refused, Refused, Locked, Refused, Refused]"
    using guess_run_result by (auto simp: map_option_eq_Some)
  have "\<forall>(q, v) \<in> set (zip guess_run vs). rq_ip q = ''c'' \<longrightarrow> v \<noteq> Accepted"
    unfolding s(2) guess_run_def by simp
  moreover have "sorted (map (unat \<circ> rq_now) guess_run)"
    "\<forall>q \<in> set guess_run. 0 \<le> unat (rq_now q) \<and> unat (rq_now q) \<le> 302"
    by (simp_all add: guess_run_def guess_at_def)
  ultimately show ?thesis
    using guessing_is_limited [OF s(1), of "''c''" 0 302] s(1) by (auto simp: auth_new_def)
qed

theorem accepted_only_with_password_witness:
  "\<exists>a' ev. verify plain_decoder 7 ''Basic admin:admin'' ''c'' True auth_new = Some (Accepted, a', ev) \<and> \<not> locked 7 auth_new ''c''"
proof -
  have "map_option fst (verify plain_decoder 7 ''Basic admin:admin'' ''c'' True auth_new) = Some Accepted" by code_simp
  then obtain a' ev where "verify plain_decoder 7 ''Basic admin:admin'' ''c'' True auth_new = Some (Accepted, a', ev)" by auto
  then show ?thesis using accepted_only_with_password by blast
qed

text \<open>
  A lockout that is announced for 300 seconds can last one second: the period runs from the first of the
  five attempts, not from the one that locked the address out.
\<close>

lemma lockout_of_one_second:
  "map_option fst (serve plain_decoder (map (\<lambda>t. guess_at t ''c'') [0, 0, 0, 0, 299, 300, 301]) auth_new)
     = Some [Refused, Refused, Refused, Refused, Refused, Locked, Refused]"
proof -
  have "guess_verdicts 5 300 None [0, 0, 0, 0, 299, 300, 301]
      = [Refused, Refused, Refused, Refused, Refused, Locked, Refused]" by code_simp
  then show ?thesis by (subst serve_guesses) (simp_all add: auth_new_def)
qed

text \<open>
  C37. A long credential makes the check read past its buffer: mbedTLS reports the length the text would need when the
  buffer of 256 bytes is too small, and the code builds a string of that length from it. Any client that
  is not locked out can do this, without a password.
\<close>

theorem long_credential_overread:
  assumes "fst (decode (drop (length basicPrefix) header)) > bufBytes" "countsAsFailedAttempt header" "\<not> locked now a ip"
  shows "verify decode now header ip login a = None"
  using assms by (auto simp: verify_def isLockedOut_live Let_def credentials_of_def bufBytes_def split: prod.splits)

theorem long_credential_overread_witness:
  "verify plain_decoder 0 (''Basic '' @ replicate 257 (CHR ''x'')) ''c'' False auth_new = None"
proof (rule long_credential_overread)
  show "fst (plain_decoder (drop (length basicPrefix) (''Basic '' @ replicate 257 (CHR ''x'')))) > bufBytes"
    by (simp add: plain_decoder_def basicPrefix_def bufBytes_def)
  show "countsAsFailedAttempt (''Basic '' @ replicate 257 (CHR ''x''))"
    by (simp add: countsAsFailedAttempt_def basicPrefix_def)
  show "\<not> locked 0 auth_new ''c''" by (simp add: locked_def auth_new_def cleanupExpired_def)
qed

end
