(* ===== verification/Spec2Isabelle.thy ===== *)
theory Spec2Isabelle
  imports Declined AllowedList ClientName DnsMsg OrderedMap DhcpLease DhcpServer DhcpProps DhcpIssues CacheRestore CacheView DnsWire RestCache Subnet LocalHosts DnsProps TransferProps Shell Ota Calendar Auth
begin

text \<open>
  A verification library for the firmware under \<open>src/\<close>: a small network server (DHCP, DNS with two caches,
  NTP) with a web interface, a file explorer and an SSH console. Paths below are relative to \<open>src/src/\<close>.

  \<^bold>\<open>The program and how its parts interact.\<close> The DHCP task (\<open>dhcp/\<close>) answers clients from a lease table, the operator's
  bindings, an allow-list and a table of refused addresses. The DNS task (\<open>dns/DnsServer.cpp\<close>) answers a query
  from the device's own name, the local hosts, the internal cache (\<open>dns/InternalDnsCache.cpp\<close>, shared with the
  web pages and saved to a file), the external cache (\<open>dns/DnsCache.cpp\<close>, a REST service asked by a worker
  task through queues) or an upstream server. The web server authenticates requests, receives
  firmware images and drives the file manager and the transfer engine (\<open>files/\<close>) on two volumes; the SSH
  console drives the same volumes through \<open>net/FileShell.cpp\<close>.

  \<^bold>\<open>Shared.\<close> \<open>Prelude\<close> holds the machine integers and their bytes, the C++ library operations in use, the
  collections of lemmas and the locale \<open>safe_machine\<close> (what holds at the start and is kept by
  every step holds in every reachable state). \<open>OrderedMap\<close> is \<open>std::map\<close> with its laws.

  \<^bold>\<open>DHCP.\<close> \<open>Declined\<close> (\<open>DeclinedAddresses.h\<close>), \<open>AllowedList\<close> (\<open>DhcpAllowedList.cpp\<close>: text codec and hash table, proved to be the set of its
  list), \<open>ClientName\<close> (\<open>DhcpClientName.cpp\<close>), \<open>DnsMsg\<close> (\<open>DnsMessage.cpp\<close>, \<open>PtrProbe.cpp\<close>, \<open>NbstatProbe.cpp\<close>), \<open>DhcpLease\<close> and \<open>DhcpServer\<close>
  (\<open>DhcpServer.cpp\<close>: state, address choice, lease table, packet parser, handlers, replies byte for byte). \<open>DhcpProps\<close>
  shows that the handler reads only its buffer and ends, that offers and acknowledgements are for addresses the client may
  have, that leases of others are kept, that a refused address is given to nobody over every run of the following hour
  (\<open>hour_run\<close>), that refused clients get nothing and that the table keeps its invariant over every run. The clock is
  read and the network probed anew at every place where the code does so (\<open>moment\<close>), so the theorems hold however
  long a probe takes. \<open>DhcpIssues\<close> holds behaviours that differ from the comments.

  \<^bold>\<open>Internal cache.\<close> \<open>InternalCache\<close> is the arena of nodes with bucket chains and a free stack, every link an index that is
  checked; \<open>CacheHeap\<close> gives its shape, \<open>CacheSpec\<close> its abstraction to a map, \<open>CacheOps\<close> the operations against
  that map, \<open>CacheProps\<close> the promises over every run (refinement of a bounded map, eviction, lifetimes). \<open>CacheView\<close> is
  the paged view, \<open>CacheFile\<close> the file format (\<open>CacheFileReader.cpp\<close>), \<open>AtomicFile\<close> the publication of a file on a disk that records
  every instant it goes through, so that a power cut can strike between any two calls or inside a write;
  \<open>CacheSave\<close>, \<open>CachePool\<close> and \<open>CacheRestore\<close> the save under traffic and under power cuts and the load after a restart.

  \<^bold>\<open>DNS server.\<close> \<open>DnsWire\<close> is the message code with every read and write checked; \<open>Subnet\<close> the own-subnet filter,
  \<open>LocalHosts\<close> the operator's hosts and the own name, \<open>RestCache\<close> the external cache client with its breaker and
  queues, \<open>DnsLoop\<close> the task with its 32 slots, waiting in \<open>select\<close> or draining results. \<open>DnsTask\<close> shows that every handler ends and keeps the slots and
  sockets in order; \<open>DnsProps\<close> states what clients get, with the operator's list of hosts as its own specification, and a fault of the
  hand-over of results.

  \<^bold>\<open>Files.\<close> \<open>Paths\<close> is the path policy (\<open>storage/PathUtil.cpp\<close>) and the shell's sandbox (\<open>net/FileShellPath.cpp\<close>), both against the way
  a file system reads a path. \<open>Vfs\<close> models the file-system calls on a tree of nodes; every call can fail, by
  fault lists in the state, so a theorem about all states covers every pattern of errors, pulled cards and
  stop requests. \<open>FileMgr\<close> is \<open>FileManager.cpp\<close> with \<open>FileSink\<close> and \<open>FileSource\<close>, \<open>FileTransfer\<close> is \<open>TransferEngine.cpp\<close>. \<open>FileSafe\<close>, \<open>FileCopy\<close>, \<open>FileTree\<close>,
  \<open>TreeCopy\<close> and \<open>TreeQueue\<close> say what each operation can change and what its success means; \<open>TransferProps\<close> proves
  that a transfer between volumes loses nothing, and three ways in which files are lost all the same.
  \<open>Shell\<close> is \<open>FileShell.cpp\<close> over \<open>PosixFileOperations.cpp\<close>.

  \<^bold>\<open>Web and time.\<close> \<open>Multipart\<close> is \<open>web/MultipartExtractor.cpp\<close>: however a body is cut, the payload is what a search in the
  whole body finds; its receiver is the locale \<open>byte_sink\<close>. \<open>Ota\<close> is the firmware update of \<open>web/RestApi.cpp\<close>, whose writer
  interprets that locale: a partition is only switched to exactly the image that was sent. \<open>Auth\<close> is
  \<open>web/AuthManager.cpp\<close> with the bound on password guesses. \<open>Calendar\<close> is \<open>time/TimeMath.cpp\<close>, proved equal to the calendar.

  \<^bold>\<open>Bounds and fuel.\<close> Functions are total; loops whose end is not structural carry a termination proof or fuel, and the
  theorems show that the fuel is enough: the walks of the transfer take one unit for a directory and
  start with one more than the volume has nodes (\<open>queue_fuel\<close>), a removal starts with more levels than the longest
  path (\<open>depth_bound\<close>), a copy with one window more than the file has bytes, a chain of the cache with the
  number of nodes. Integers are words where the code's width matters (addresses, times, lifetimes, sizes);
  counters of the report wrap as in the code. Buffers are lists and a read or write outside is \<open>None\<close>, also for a run of
  bytes (\<open>rds\<close>). The DHCP scan for a free address is a \<open>partial_function\<close>: it ends unless the range ends at
  255.255.255.255 and nothing is free.

  \<^bold>\<open>Parameters.\<close> Code that is not under \<open>src/\<close> is an argument: the HTTP client and the sockets, ARP and ICMP probes, the
  Base64 decoder, the update library, the settings storage, the clock. \<open>Vfs\<close> stands for the C library on FatFs,
  with names compared as they are written (FAT ignores letter case; two names that differ only in case are
  two files here and one there).

  \<^bold>\<open>Not modelled.\<close> Drivers and hardware (Ethernet, WiFi, LED, SD card and flash mounting), the SSH and TLS protocol
  engines and certificates, discovery (SSDP, mDNS), the pages and most REST handlers (they format text around
  the operations modelled here), settings other than those named, the logs and statistics files, the two-pane browser, the time server's
  SNTP client, the check and repair of a volume, paused uploads and the registry of jobs. Texts of log lines and of
  error details are left out of the modelled parts, and so is the scheduling of tasks beyond the interleaving of whole handlers.
\<close>

end
